(* ===== verification/Prelude.thy ===== *)
theory Prelude
  imports Main "HOL-Library.AList" "HOL-Library.List_Lexorder" "HOL-Library.Product_Lexorder"
begin

text \<open>
  Shared vocabulary of the development: Python strings, Python dictionaries, Python
  exceptions as values of a sum type, and the facts about them that several components use.

  A Python \<open>str\<close> is a sequence of Unicode code points (\<open>ustr\<close>); \<open>ascii\<close>
  turns an ASCII literal into one. The order of \<^verbatim>\<open>List_Lexorder\<close> on these lists
  is Python's order on strings. A Python \<open>dict\<close> keeps insertion order, so it is an
  association list with distinct keys: \<open>AList.update\<close> replaces in place or appends at
  the end, as \<open>d[k] = v\<close> does, and \<open>AList.delete\<close> is \<open>del d[k]\<close>.
\<close>

type_synonym ustr = "nat list"

type_synonym ('k, 'v) pydict = "('k \<times> 'v) list"

named_theorems dict_simps \<open>lookups, updates and deletions on dictionaries\<close>

definition ascii :: "string \<Rightarrow> ustr" where
  "ascii s = map of_char s"

lemma ascii_eq [simp]: "ascii s = ascii t \<longleftrightarrow> s = t"
  unfolding ascii_def by (rule inj_map_eq_map) (rule inj_of_char)

lemma ascii_Nil_iff [simp]: "ascii s = [] \<longleftrightarrow> s = []" "[] = ascii s \<longleftrightarrow> s = []"
  by (auto simp: ascii_def)

definition wf_dict :: "('k, 'v) pydict \<Rightarrow> bool" where
  "wf_dict d \<longleftrightarrow> distinct (map fst d)"

text \<open>\<open>d.get(k, default)\<close>\<close>

definition get_default :: "('k, 'v) pydict \<Rightarrow> 'k \<Rightarrow> 'v \<Rightarrow> 'v" where
  "get_default d k v = (case map_of d k of None \<Rightarrow> v | Some x \<Rightarrow> x)"

subsection \<open>Dictionaries\<close>

lemma wf_dict_Nil [simp, intro]: "wf_dict []"
  by (simp add: wf_dict_def)

lemma wf_dict_Cons [simp]: "wf_dict ((k, v) # d) \<longleftrightarrow> k \<notin> fst ` set d \<and> wf_dict d"
  by (simp add: wf_dict_def)

lemma wf_dict_tl: "wf_dict (x # d) \<Longrightarrow> wf_dict d"
  by (simp add: wf_dict_def)

lemma wf_dict_update [simp, intro]: "wf_dict d \<Longrightarrow> wf_dict (AList.update k v d)"
  by (simp add: wf_dict_def distinct_update)

lemma wf_dict_delete [simp, intro]: "wf_dict d \<Longrightarrow> wf_dict (AList.delete k d)"
  by (simp add: wf_dict_def distinct_delete)

lemma wf_dict_filter [simp, intro]: "wf_dict d \<Longrightarrow> wf_dict (filter P d)"
  by (induction d) (auto simp: wf_dict_def)

lemma map_of_update [dict_simps]: "map_of (AList.update k v d) = (map_of d)(k \<mapsto> v)"
  by (rule update_conv')

lemma map_of_delete [dict_simps]: "map_of (AList.delete k d) = (map_of d)(k := None)"
  by (rule delete_conv')

lemma get_default_simps [simp]:
  "get_default [] k x = x"
  "get_default ((k', v) # d) k x = (if k' = k then v else get_default d k x)"
  by (simp_all add: get_default_def)

lemma get_default_update [dict_simps]:
  "get_default (AList.update k v d) k' x = (if k' = k then v else get_default d k' x)"
  by (simp add: get_default_def dict_simps)

lemma in_dict_iff: "wf_dict d \<Longrightarrow> (k, v) \<in> set d \<longleftrightarrow> map_of d k = Some v"
  by (auto simp: wf_dict_def intro: map_of_is_SomeI dest: map_of_SomeD)

lemma map_of_filter_key:
  "map_of (filter (\<lambda>(k, v). P k) d) k = (if P k then map_of d k else None)"
  by (induction d) (auto split: if_splits)

lemma map_of_filter_value:
  "wf_dict d \<Longrightarrow> map_of (filter (\<lambda>(_, v). P v) d) k =
     (case map_of d k of None \<Rightarrow> None | Some v \<Rightarrow> if P v then Some v else None)"
proof (induction d)
  case (Cons x d)
  obtain k' v where x: "x = (k', v)" by (cases x)
  have "map_of d k' = None" using Cons.prems by (simp add: x map_of_eq_None_iff)
  with Cons x show ?case by (auto split: option.splits)
qed simp

lemma keys_update [dict_simps]: "fst ` set (AList.update k v d) = insert k (fst ` set d)"
  using dom_update [of k v d] by (simp add: dom_map_of_conv_image_fst)

lemma set_update_subset: "set (AList.update k v d) \<subseteq> insert (k, v) (set d)"
  by (induction d) auto

lemma set_update: "wf_dict d \<Longrightarrow> set (AList.update k v d) = insert (k, v) {x \<in> set d. fst x \<noteq> k}"
  by (induction d) (force simp: wf_dict_def)+

lemma length_update: "length (AList.update k v d) = length d + (if map_of d k = None then 1 else 0)"
  by (induction d) auto

lemma card_insert_le_Suc: "int (card (insert x A)) \<le> int (card A) + 1"
  by (cases "finite A") (auto simp: card_insert_if)

subsection \<open>Exceptions as values\<close>

text \<open>\<open>bind_res r f\<close> runs \<open>f\<close> on the value of \<open>r\<close>, or passes its exception on.\<close>

definition bind_res :: "'e + 'a \<Rightarrow> ('a \<Rightarrow> 'e + 'b) \<Rightarrow> 'e + 'b" where
  "bind_res r f = (case r of Inl e \<Rightarrow> Inl e | Inr x \<Rightarrow> f x)"

lemma bind_res_simps [simp]:
  "bind_res (Inl e) f = Inl e"
  "bind_res (Inr x) f = f x"
  by (simp_all add: bind_res_def)

lemma bind_res_Inr_iff: "bind_res r f = Inr y \<longleftrightarrow> (\<exists>x. r = Inr x \<and> f x = Inr y)"
  by (cases r) simp_all

lemma bind_res_Inl_iff:
  "bind_res r f = Inl e \<longleftrightarrow> r = Inl e \<or> (\<exists>x. r = Inr x \<and> f x = Inl e)"
  by (cases r) simp_all

subsection \<open>Running maxima\<close>

definition max_from :: "int \<Rightarrow> int list \<Rightarrow> int" where
  "max_from m xs = fold max xs m"

lemma max_from_simps [simp]:
  "max_from m [] = m"
  "max_from m (x # xs) = max_from (max x m) xs"
  by (simp_all add: max_from_def)

lemma max_from_append [simp]: "max_from m (xs @ ys) = max_from (max_from m xs) ys"
  by (simp add: max_from_def)

lemma max_from_ge: "m \<le> max_from m xs"
proof (induction xs arbitrary: m)
  case (Cons x xs)
  have "m \<le> max x m" by simp
  also have "\<dots> \<le> max_from (max x m) xs" by (rule Cons.IH)
  finally show ?case by simp
qed simp

lemma max_from_mono: "m \<le> m' \<Longrightarrow> max_from m xs \<le> max_from m' xs"
  by (induction xs arbitrary: m m') (auto simp: max_def)

lemma max_from_member: "x \<in> set xs \<Longrightarrow> x \<le> max_from m xs"
proof (induction xs arbitrary: m)
  case (Cons y ys)
  then show ?case
    using max_from_ge [of "max y m" ys] by auto
qed simp

end
