(* ===== verification/PyText.thy ===== *)
theory PyText
  imports Prelude
begin

text \<open>
  The parts of Python's \<^verbatim>\<open>str\<close> and \<^verbatim>\<open>bytes\<close> the program uses: UTF-8 with strict
  and \<open>surrogatepass\<close> error handling, Unicode white space, \<open>strip\<close>, \<open>split\<close>,
  \<open>join\<close>, \<open>partition\<close>, and decimal numerals. A \<open>str\<close> may hold a lone
  surrogate (a JSON escape can put one there); encoding it fails.
\<close>

type_synonym bytes = "nat list"

text \<open>The exceptions of the standard library that the program's code can meet.\<close>

datatype pyexc =
  ValueError
| JSONDecodeError
| UnicodeDecodeError
| UnicodeEncodeError
| TypeError
| KeyError
| AttributeError
| OverflowError
| OSError

text \<open>\<open>except ValueError\<close> also catches its subclasses.\<close>

definition is_value_error :: "pyexc \<Rightarrow> bool" where
  "is_value_error e \<longleftrightarrow>
     e \<in> {ValueError, JSONDecodeError, UnicodeDecodeError, UnicodeEncodeError}"

subsection \<open>UTF-8\<close>

definition surrogate :: "nat \<Rightarrow> bool" where
  "surrogate c \<longleftrightarrow> 0xD800 \<le> c \<and> c \<le> 0xDFFF"

definition utf8_char :: "nat \<Rightarrow> bytes option" where
  "utf8_char c =
     (if c < 0x80 then Some [c]
      else if c < 0x800 then Some [0xC0 + c div 64, 0x80 + c mod 64]
      else if c < 0x10000 then
        (if surrogate c then None
         else Some [0xE0 + c div 4096, 0x80 + c div 64 mod 64, 0x80 + c mod 64])
      else if c < 0x110000 then
        Some [0xF0 + c div 262144, 0x80 + c div 4096 mod 64, 0x80 + c div 64 mod 64, 0x80 + c mod 64]
      else None)"

text \<open>\<open>s.encode("utf-8")\<close>\<close>

fun utf8_encode :: "ustr \<Rightarrow> pyexc + bytes" where
  "utf8_encode [] = Inr []"
| "utf8_encode (c # cs) =
     (case utf8_char c of None \<Rightarrow> Inl UnicodeEncodeError
      | Some bs \<Rightarrow> bind_res (utf8_encode cs) (\<lambda>rest. Inr (bs @ rest)))"

definition cont_byte :: "nat \<Rightarrow> bool" where
  "cont_byte b \<longleftrightarrow> 0x80 \<le> b \<and> b \<le> 0xBF"

text \<open>\<open>b.decode("utf-8")\<close>; the flag is the \<open>surrogatepass\<close> error handler.\<close>

fun utf8_decode :: "bool \<Rightarrow> bytes \<Rightarrow> pyexc + ustr" where
  "utf8_decode sp [] = Inr []"
| "utf8_decode sp (b # bs) =
     (if b < 0x80 then bind_res (utf8_decode sp bs) (\<lambda>s. Inr (b # s))
      else if 0xC2 \<le> b \<and> b \<le> 0xDF then
        (case bs of
           c1 # r \<Rightarrow>
             (if cont_byte c1
              then bind_res (utf8_decode sp r) (\<lambda>s. Inr (((b - 0xC0) * 64 + (c1 - 0x80)) # s))
              else Inl UnicodeDecodeError)
         | _ \<Rightarrow> Inl UnicodeDecodeError)
      else if 0xE0 \<le> b \<and> b \<le> 0xEF then
        (case bs of
           c1 # c2 # r \<Rightarrow>
             (let v = (b - 0xE0) * 4096 + (c1 - 0x80) * 64 + (c2 - 0x80)
              in if cont_byte c1 \<and> cont_byte c2 \<and> 0x800 \<le> v \<and> (sp \<or> \<not> surrogate v)
                 then bind_res (utf8_decode sp r) (\<lambda>s. Inr (v # s))
                 else Inl UnicodeDecodeError)
         | _ \<Rightarrow> Inl UnicodeDecodeError)
      else if 0xF0 \<le> b \<and> b \<le> 0xF4 then
        (case bs of
           c1 # c2 # c3 # r \<Rightarrow>
             (let v = (b - 0xF0) * 262144 + (c1 - 0x80) * 4096 + (c2 - 0x80) * 64 + (c3 - 0x80)
              in if cont_byte c1 \<and> cont_byte c2 \<and> cont_byte c3 \<and> 0x10000 \<le> v \<and> v < 0x110000
                 then bind_res (utf8_decode sp r) (\<lambda>s. Inr (v # s))
                 else Inl UnicodeDecodeError)
         | _ \<Rightarrow> Inl UnicodeDecodeError)
      else Inl UnicodeDecodeError)"

lemma base64_3: "c div 4096 * 4096 + c div 64 mod 64 * 64 + c mod 64 = (c :: nat)"
proof -
  have "c div 4096 = c div 64 div 64" by (simp add: div_mult2_eq [symmetric])
  moreover have "c div 64 div 64 * 64 + c div 64 mod 64 = c div 64" "c div 64 * 64 + c mod 64 = c"
    by simp_all
  ultimately show ?thesis by linarith
qed

lemma base64_4:
  "c div 262144 * 262144 + c div 4096 mod 64 * 4096 + c div 64 mod 64 * 64 + c mod 64 = (c :: nat)"
proof -
  have "c div 262144 = c div 4096 div 64" by (simp add: div_mult2_eq [symmetric])
  moreover have "c div 4096 div 64 * 64 + c div 4096 mod 64 = c div 4096" by simp
  ultimately show ?thesis using base64_3 [of c] by linarith
qed

lemma utf8_decode_char:
  assumes "utf8_char c = Some bs"
  shows "utf8_decode sp (bs @ rest) = bind_res (utf8_decode sp rest) (\<lambda>s. Inr (c # s))"
proof -
  consider "c < 0x80" | "0x80 \<le> c" "c < 0x800" | "0x800 \<le> c" "c < 0x10000" "\<not> surrogate c"
    | "0x10000 \<le> c" "c < 0x110000"
    using assms by (auto simp: utf8_char_def split: if_splits)
  then show ?thesis
  proof cases
    case 1
    with assms show ?thesis by (auto simp: utf8_char_def)
  next
    case 2
    have "c div 64 * 64 + c mod 64 = c" by simp
    moreover have "2 \<le> c div 64" "c div 64 < 32" using 2 by auto
    ultimately show ?thesis
      using assms 2 by (auto simp: utf8_char_def cont_byte_def)
  next
    case 3
    define x y z where "x = c div 4096" and "y = c div 64 mod 64" and "z = c mod 64"
    have "c = x * 4096 + y * 64 + z"
      unfolding x_def y_def z_def by (metis base64_3)
    moreover have "x < 16" "y < 64" "z < 64" using 3 by (auto simp: x_def y_def z_def)
    moreover have "bs = [0xE0 + x, 0x80 + y, 0x80 + z]"
      using assms 3 by (simp add: utf8_char_def x_def y_def z_def)
    ultimately show ?thesis
      using 3 by (simp add: cont_byte_def Let_def)
  next
    case 4
    define w x y z where
      "w = c div 262144" and "x = c div 4096 mod 64" and "y = c div 64 mod 64" and "z = c mod 64"
    have "c = w * 262144 + x * 4096 + y * 64 + z"
      unfolding w_def x_def y_def z_def by (metis base64_4)
    moreover have "w < 5" "x < 64" "y < 64" "z < 64" using 4 by (auto simp: w_def x_def y_def z_def)
    moreover have "bs = [0xF0 + w, 0x80 + x, 0x80 + y, 0x80 + z]"
      using assms 4 by (simp add: utf8_char_def w_def x_def y_def z_def)
    ultimately show ?thesis
      using 4 by (simp add: cont_byte_def Let_def)
  qed
qed

lemma utf8_roundtrip: "utf8_encode s = Inr bs \<Longrightarrow> utf8_decode sp bs = Inr s"
proof (induction s arbitrary: bs)
  case (Cons c s)
  then show ?case
    by (auto simp: bind_res_Inr_iff utf8_decode_char split: option.splits)
qed simp

definition encodable :: "ustr \<Rightarrow> bool" where
  "encodable s \<longleftrightarrow> (\<forall>c \<in> set s. c < 0x110000 \<and> \<not> surrogate c)"

lemma utf8_encode_ok: "encodable s \<Longrightarrow> \<exists>bs. utf8_encode s = Inr bs"
  by (induction s) (auto simp: encodable_def utf8_char_def)

lemma utf8_encode_surrogate: "\<exists>c \<in> set s. surrogate c \<Longrightarrow> utf8_encode s = Inl UnicodeEncodeError"
proof (induction s)
  case (Cons c s)
  show ?case
  proof (cases "surrogate c")
    case True
    then have "utf8_char c = None" by (auto simp: utf8_char_def surrogate_def)
    then show ?thesis by simp
  next
    case False
    with Cons have "utf8_encode s = Inl UnicodeEncodeError" by auto
    then show ?thesis by (auto split: option.splits)
  qed
qed simp

lemma encodable_append [simp]: "encodable (s @ t) \<longleftrightarrow> encodable s \<and> encodable t"
  by (auto simp: encodable_def)

lemma encodable_Cons [simp]: "encodable (c # t) \<longleftrightarrow> c < 0x110000 \<and> \<not> surrogate c \<and> encodable t"
  by (auto simp: encodable_def)

lemma encodable_Nil [simp]: "encodable []"
  by (simp add: encodable_def)

subsection \<open>White space, strip and split\<close>

text \<open>The code points for which \<open>str.isspace\<close> holds.\<close>

definition is_space :: "nat \<Rightarrow> bool" where
  "is_space c \<longleftrightarrow>
     9 \<le> c \<and> c \<le> 13 \<or> 28 \<le> c \<and> c \<le> 32 \<or> c = 0x85 \<or> c = 0xA0 \<or> c = 0x1680 \<or>
     0x2000 \<le> c \<and> c \<le> 0x200A \<or> c = 0x2028 \<or> c = 0x2029 \<or> c = 0x202F \<or> c = 0x205F \<or> c = 0x3000"

definition strip :: "ustr \<Rightarrow> ustr" where
  "strip s = rev (dropWhile is_space (rev (dropWhile is_space s)))"

function split_ws :: "ustr \<Rightarrow> ustr list" where
  "split_ws s =
     (let t = dropWhile is_space s
      in if t = [] then []
         else takeWhile (\<lambda>c. \<not> is_space c) t # split_ws (dropWhile (\<lambda>c. \<not> is_space c) t))"
  by pat_completeness auto
termination
proof (relation "measure length")
  fix s t :: ustr
  assume t: "t = dropWhile is_space s" and ne: "t \<noteq> []"
  have "\<not> is_space (hd t)" using hd_dropWhile ne t by blast
  then have "length (dropWhile (\<lambda>c. \<not> is_space c) t) < length t"
    using ne by (cases t) (auto simp: le_imp_less_Suc length_dropWhile_le)
  also have "\<dots> \<le> length s" by (simp add: t length_dropWhile_le)
  finally show "(dropWhile (\<lambda>c. \<not> is_space c) t, s) \<in> measure length" by simp
qed simp

declare split_ws.simps [simp del]

fun join :: "ustr \<Rightarrow> ustr list \<Rightarrow> ustr" where
  "join sep [] = []"
| "join sep [w] = w"
| "join sep (w # ws) = w @ sep @ join sep ws"

text \<open>\<open>" ".join(s.split())\<close>\<close>

definition normalise_space :: "ustr \<Rightarrow> ustr" where
  "normalise_space s = join [32] (split_ws s)"

text \<open>\<open>s.partition(sep)\<close> for a separator of one character, without the middle part.\<close>

definition partition_at :: "nat \<Rightarrow> ustr \<Rightarrow> ustr \<times> ustr" where
  "partition_at sep s = (takeWhile (\<lambda>c. c \<noteq> sep) s, drop 1 (dropWhile (\<lambda>c. c \<noteq> sep) s))"

definition startswith :: "ustr \<Rightarrow> ustr \<Rightarrow> bool" where
  "startswith s p \<longleftrightarrow> take (length p) s = p"

lemma startswith_append [simp]: "startswith (p @ s) p"
  by (simp add: startswith_def)

subsection \<open>Facts on split and strip\<close>

lemma split_ws_words: "w \<in> set (split_ws s) \<Longrightarrow> w \<noteq> [] \<and> (\<forall>c \<in> set w. \<not> is_space c)"
proof (induction s rule: split_ws.induct)
  case (1 s)
  let ?t = "dropWhile is_space s"
  have ne: "?t \<noteq> []" using 1(2) by (subst (asm) split_ws.simps) (auto simp: Let_def split: if_splits)
  then have hd: "\<not> is_space (hd ?t)" using hd_dropWhile by blast
  have "split_ws s =
      takeWhile (\<lambda>c. \<not> is_space c) ?t # split_ws (dropWhile (\<lambda>c. \<not> is_space c) ?t)"
    using ne by (subst split_ws.simps) (simp add: Let_def)
  with 1(2) consider "w = takeWhile (\<lambda>c. \<not> is_space c) ?t"
    | "w \<in> set (split_ws (dropWhile (\<lambda>c. \<not> is_space c) ?t))"
    by (metis set_ConsD)
  then show ?case
  proof cases
    case 1
    with ne hd show ?thesis by (cases ?t) (auto dest: set_takeWhileD)
  next
    case 2
    with 1(1) ne show ?thesis by blast
  qed
qed

lemma split_ws_word:
  assumes "w \<noteq> []" and "\<forall>c \<in> set w. \<not> is_space c" and "rest = [] \<or> is_space (hd rest)"
  shows "split_ws (w @ rest) = w # split_ws rest"
proof -
  have "dropWhile is_space (w @ rest) = w @ rest" using assms by (cases w) auto
  moreover have "takeWhile (\<lambda>c. \<not> is_space c) (w @ rest) = w"
    "dropWhile (\<lambda>c. \<not> is_space c) (w @ rest) = rest"
    using assms by (cases rest; simp add: takeWhile_append dropWhile_append)+
  ultimately show ?thesis
    using assms(1) by (subst split_ws.simps) (simp add: Let_def)
qed

lemma split_ws_Nil [simp]: "split_ws [] = []"
  by (subst split_ws.simps) simp

lemma split_ws_space: "is_space c \<Longrightarrow> split_ws (c # s) = split_ws s"
  by (subst (1 2) split_ws.simps) simp

lemma split_join:
  "\<forall>w \<in> set ws. w \<noteq> [] \<and> (\<forall>c \<in> set w. \<not> is_space c) \<Longrightarrow> split_ws (join [32] ws) = ws"
proof (induction ws rule: induct_list012)
  case (2 w)
  then show ?case using split_ws_word [of w "[]"] by simp
next
  case (3 w w' ws)
  then show ?case by (simp add: split_ws_word split_ws_space is_space_def)
qed simp

lemma normalise_space_idem: "normalise_space (normalise_space s) = normalise_space s"
  by (simp add: normalise_space_def split_join split_ws_words)

lemma dropWhile_ends_nonspace: "dropWhile is_space s = [] \<or> \<not> is_space (hd (dropWhile is_space s))"
  using hd_dropWhile by blast

lemma dropWhile_drop_end:
  assumes "t \<noteq> []" and "\<not> is_space (hd t)"
  shows "dropWhile is_space (rev t) \<noteq> [] \<and> hd (rev (dropWhile is_space (rev t))) = hd t"
proof -
  obtain x ys where t: "t = x # ys" using assms by (cases t) auto
  with assms have "dropWhile is_space (rev ys @ [x]) = dropWhile is_space (rev ys) @ [x]"
    by (simp add: dropWhile_append3 dropWhile_append)
  then show ?thesis by (simp add: t)
qed

lemma split_ws_empty: "split_ws s = [] \<longleftrightarrow> strip s = []"
proof (cases "dropWhile is_space s = []")
  case True
  then show ?thesis
    by (subst split_ws.simps) (simp only: Let_def strip_def rev.simps dropWhile.simps simp_thms if_True)
next
  case False
  then have "\<not> is_space (hd (dropWhile is_space s))" using hd_dropWhile by blast
  with False have "strip s \<noteq> []" unfolding strip_def using dropWhile_drop_end by blast
  with False show ?thesis by (subst split_ws.simps) (simp add: Let_def)
qed

lemma strip_idem: "strip (strip s) = strip s"
proof (cases "dropWhile is_space s = []")
  case True
  then show ?thesis by (simp only: strip_def rev.simps dropWhile.simps)
next
  case False
  let ?t = "dropWhile is_space s"
  let ?u = "rev (dropWhile is_space (rev ?t))"
  have hd: "\<not> is_space (hd ?t)" using False hd_dropWhile by blast
  from dropWhile_drop_end [OF False hd] have "?u \<noteq> []" "\<not> is_space (hd ?u)"
    using hd by auto
  then have u: "dropWhile is_space ?u = ?u" by (cases ?u) auto
  have "dropWhile is_space (dropWhile is_space (rev ?t)) = dropWhile is_space (rev ?t)"
    by (rule dropWhile_idem)
  with u show ?thesis by (simp only: strip_def rev_rev_ident)
qed

subsection \<open>Decimal numerals\<close>

fun digits_of :: "nat \<Rightarrow> ustr" where
  "digits_of n = (if n < 10 then [48 + n] else digits_of (n div 10) @ [48 + n mod 10])"

declare digits_of.simps [simp del]

definition is_digit :: "nat \<Rightarrow> bool" where
  "is_digit c \<longleftrightarrow> 48 \<le> c \<and> c \<le> 57"

definition value_of :: "ustr \<Rightarrow> nat" where
  "value_of ds = foldl (\<lambda>n d. 10 * n + (d - 48)) 0 ds"

text \<open>\<open>str(n)\<close> for an integer.\<close>

definition int_repr :: "int \<Rightarrow> ustr" where
  "int_repr n = (if n < 0 then 45 # digits_of (nat (- n)) else digits_of (nat n))"

lemma digits_of_digits: "c \<in> set (digits_of n) \<Longrightarrow> is_digit c"
proof (induction n rule: digits_of.induct)
  case (1 n)
  then show ?case
    by (subst (asm) (2) digits_of.simps) (auto simp: is_digit_def split: if_splits)
qed

lemma value_digits_of: "value_of (digits_of n) = n"
proof (induction n rule: digits_of.induct)
  case (1 n)
  then show ?case
    by (subst digits_of.simps) (auto simp: value_of_def)
qed

lemma digits_of_hd: "digits_of n \<noteq> [] \<and> (hd (digits_of n) = 48 \<longleftrightarrow> n = 0)"
proof (induction n rule: digits_of.induct)
  case (1 n)
  show ?case
  proof (cases "n < 10")
    case True
    then show ?thesis by (subst (1 2) digits_of.simps) auto
  next
    case False
    with 1 have "digits_of (n div 10) \<noteq> []" "hd (digits_of (n div 10)) = 48 \<longleftrightarrow> n div 10 = 0"
      by auto
    with False show ?thesis by (subst (1 2) digits_of.simps) auto
  qed
qed

lemma digits_of_0: "digits_of 0 = [48]"
  by (subst digits_of.simps) simp

end
