(* ===== verification/PyJson.thy ===== *)
theory PyJson
  imports PyText
begin

text \<open>
  Python's \<^verbatim>\<open>json\<close> module as the program uses it: \<open>loads\<close> on \<open>str\<close> and on
  \<open>bytes\<close>, and \<open>dumps\<close> with \<open>ensure_ascii=False\<close>. A float is kept as the text
  of its literal, since the program only asks of a float whether it is zero and how it prints;
  \<open>NaN\<close> and the infinities, which the module accepts, are \<open>JNonFinite\<close>. Objects
  are dictionaries: a repeated key overwrites in place. The recursion limit is not modelled.
\<close>

datatype json =
  JNull
| JBool bool
| JInt int
| JFloat ustr
| JNonFinite ustr
| JStr ustr
| JList "json list"
| JObj "(ustr \<times> json) list"

type_synonym 'a parsed = "pyexc + 'a \<times> ustr"

subsection \<open>Scanning\<close>

definition json_ws :: "nat \<Rightarrow> bool" where
  "json_ws c \<longleftrightarrow> c = 32 \<or> c = 9 \<or> c = 10 \<or> c = 13"

definition skip_ws :: "ustr \<Rightarrow> ustr" where
  "skip_ws s = dropWhile json_ws s"

definition hex_val :: "nat \<Rightarrow> nat option" where
  "hex_val c =
     (if 48 \<le> c \<and> c \<le> 57 then Some (c - 48)
      else if 97 \<le> c \<and> c \<le> 102 then Some (c - 87)
      else if 65 \<le> c \<and> c \<le> 70 then Some (c - 55)
      else None)"

definition hex4 :: "ustr \<Rightarrow> (nat \<times> ustr) option" where
  "hex4 s =
     (case s of
        a # b # c # d # r \<Rightarrow>
          (case (hex_val a, hex_val b, hex_val c, hex_val d) of
             (Some w, Some x, Some y, Some z) \<Rightarrow> Some (((w * 16 + x) * 16 + y) * 16 + z, r)
           | _ \<Rightarrow> None)
      | _ \<Rightarrow> None)"

definition unescape :: "nat \<Rightarrow> nat option" where
  "unescape c =
     map_of [(34, 34), (92, 92), (47, 47), (98, 8), (102, 12), (110, 10), (114, 13), (116, 9)] c"

text \<open>A low surrogate escape, which joins a high surrogate before it.\<close>

definition low_escape :: "ustr \<Rightarrow> (nat \<times> ustr) option" where
  "low_escape s =
     (case s of
        b # u # r \<Rightarrow>
          (if b = 92 \<and> u = 117 then
             (case hex4 r of
                Some (v, r') \<Rightarrow> if 0xDC00 \<le> v \<and> v \<le> 0xDFFF then Some (v, r') else None
              | None \<Rightarrow> None)
           else None)
      | _ \<Rightarrow> None)"

lemma hex4_shorter: "hex4 s = Some (v, r) \<Longrightarrow> length r < length s"
  by (auto simp: hex4_def split: list.splits option.splits)

lemma low_escape_shorter: "low_escape s = Some (v, r) \<Longrightarrow> length r < length s"
  by (auto simp: low_escape_def split: list.splits option.splits if_splits dest: hex4_shorter)

lemma hex4_low_escape_shorter:
  "\<lbrakk>hex4 s = Some (v, r); low_escape r = Some (w, r')\<rbrakk> \<Longrightarrow> length r' < Suc (Suc (length s))"
  by (auto dest!: hex4_shorter low_escape_shorter)

definition cons_res :: "nat \<Rightarrow> ustr parsed \<Rightarrow> ustr parsed" where
  "cons_res c r = bind_res r (\<lambda>(t, rest). Inr (c # t, rest))"

text \<open>The body of a string after its opening quote, with \<open>strict=True\<close>.\<close>

function pstring :: "ustr \<Rightarrow> ustr parsed" where
  "pstring [] = Inl JSONDecodeError"
| "pstring (c # s) =
     (if c = 34 then Inr ([], s)
      else if c < 32 then Inl JSONDecodeError
      else if c \<noteq> 92 then cons_res c (pstring s)
      else
        (case s of
           [] \<Rightarrow> Inl JSONDecodeError
         | e # s1 \<Rightarrow>
             (if e = 117 then
                (case hex4 s1 of
                   None \<Rightarrow> Inl JSONDecodeError
                 | Some (v, s2) \<Rightarrow>
                     (if 0xD800 \<le> v \<and> v \<le> 0xDBFF then
                        (case low_escape s2 of
                           Some (w, s3) \<Rightarrow>
                             cons_res (0x10000 + (v - 0xD800) * 1024 + (w - 0xDC00)) (pstring s3)
                         | None \<Rightarrow> cons_res v (pstring s2))
                      else cons_res v (pstring s2)))
              else
                (case unescape e of
                   None \<Rightarrow> Inl JSONDecodeError
                 | Some x \<Rightarrow> cons_res x (pstring s1)))))"
  by pat_completeness auto
termination
proof (relation "measure length")
qed (auto dest: hex4_shorter hex4_low_escape_shorter)

definition MAX_STR_DIGITS :: nat where
  "MAX_STR_DIGITS = 4300"

text \<open>\<open>int(text)\<close> on a numeral of the grammar, with the interpreter's digit limit.\<close>

definition int_of_numeral :: "bool \<Rightarrow> ustr \<Rightarrow> pyexc + int" where
  "int_of_numeral neg ds =
     (if length ds > MAX_STR_DIGITS then Inl ValueError
      else Inr (if neg then - int (value_of ds) else int (value_of ds)))"

definition frac_part :: "ustr \<Rightarrow> ustr \<times> ustr" where
  "frac_part s =
     (case s of
        c # r \<Rightarrow>
          (if c = 46 \<and> takeWhile is_digit r \<noteq> [] then (46 # takeWhile is_digit r, dropWhile is_digit r)
           else ([], s))
      | [] \<Rightarrow> ([], s))"

definition exp_part :: "ustr \<Rightarrow> ustr \<times> ustr" where
  "exp_part s =
     (case s of
        c # r \<Rightarrow>
          (if c = 101 \<or> c = 69 then
             (let sign = (case r of d # _ \<Rightarrow> if d = 43 \<or> d = 45 then [d] else [] | [] \<Rightarrow> []);
                  r1 = drop (length sign) r
              in if takeWhile is_digit r1 \<noteq> []
                 then (c # sign @ takeWhile is_digit r1, dropWhile is_digit r1)
                 else ([], s))
           else ([], s))
      | [] \<Rightarrow> ([], s))"

definition pnumber :: "ustr \<Rightarrow> json parsed" where
  "pnumber s =
     (let neg = (case s of c # _ \<Rightarrow> c = 45 | [] \<Rightarrow> False);
          body = (if neg then tl s else s);
          run = takeWhile is_digit body;
          ds = (if run \<noteq> [] \<and> hd run = 48 then [48] else run);
          after = drop (length ds) body;
          (frac, after1) = frac_part after;
          (ex, after2) = exp_part after1
      in if ds = [] then Inl JSONDecodeError
         else if frac = [] \<and> ex = []
           then bind_res (int_of_numeral neg ds) (\<lambda>n. Inr (JInt n, after2))
         else Inr (JFloat ((if neg then [45] else []) @ ds @ frac @ ex), after2))"

definition keyword :: "ustr \<Rightarrow> json \<Rightarrow> ustr \<Rightarrow> json parsed" where
  "keyword w v s = (if startswith s w then Inr (v, drop (length w) s) else Inl JSONDecodeError)"

definition pscalar :: "ustr \<Rightarrow> json parsed" where
  "pscalar s =
     (case s of
        [] \<Rightarrow> Inl JSONDecodeError
      | c # _ \<Rightarrow>
          (if c = 110 then keyword (ascii ''null'') JNull s
           else if c = 116 then keyword (ascii ''true'') (JBool True) s
           else if c = 102 then keyword (ascii ''false'') (JBool False) s
           else if c = 78 then keyword (ascii ''NaN'') (JNonFinite (ascii ''nan'')) s
           else if c = 73 then keyword (ascii ''Infinity'') (JNonFinite (ascii ''inf'')) s
           else if startswith s (ascii ''-Infinity'')
             then keyword (ascii ''-Infinity'') (JNonFinite (ascii ''-inf'')) s
           else pnumber s))"

text \<open>
  Values, the elements of an array and the members of an object. The number bounds the calls on
  the stack; every call consumes a character, so one more than the length of the text is enough.
\<close>

fun pvalue :: "nat \<Rightarrow> ustr \<Rightarrow> json parsed"
  and pelems :: "nat \<Rightarrow> ustr \<Rightarrow> (json list) parsed"
  and pmembers :: "nat \<Rightarrow> ustr \<Rightarrow> (ustr, json) pydict \<Rightarrow> ((ustr, json) pydict) parsed" where
  "pvalue 0 s = Inl JSONDecodeError"
| "pvalue (Suc n) s =
     (case s of
        [] \<Rightarrow> Inl JSONDecodeError
      | c # r \<Rightarrow>
          (if c = 34 then bind_res (pstring r) (\<lambda>(t, r1). Inr (JStr t, r1))
           else if c = 123 then
             (case skip_ws r of
                [] \<Rightarrow> Inl JSONDecodeError
              | d # r1 \<Rightarrow>
                  (if d = 125 then Inr (JObj [], r1)
                   else bind_res (pmembers n (d # r1) []) (\<lambda>(o', r2). Inr (JObj o', r2))))
           else if c = 91 then
             (case skip_ws r of
                [] \<Rightarrow> Inl JSONDecodeError
              | d # r1 \<Rightarrow>
                  (if d = 93 then Inr (JList [], r1)
                   else bind_res (pelems n (d # r1)) (\<lambda>(vs, r2). Inr (JList vs, r2))))
           else pscalar s))"
| "pelems 0 s = Inl JSONDecodeError"
| "pelems (Suc n) s =
     bind_res (pvalue n s) (\<lambda>(v, r).
       (case skip_ws r of
          [] \<Rightarrow> Inl JSONDecodeError
        | d # r1 \<Rightarrow>
            (if d = 44 then bind_res (pelems n (skip_ws r1)) (\<lambda>(vs, r2). Inr (v # vs, r2))
             else if d = 93 then Inr ([v], r1)
             else Inl JSONDecodeError)))"
| "pmembers 0 s o' = Inl JSONDecodeError"
| "pmembers (Suc n) s o' =
     (case s of
        [] \<Rightarrow> Inl JSONDecodeError
      | q # r \<Rightarrow>
          (if q \<noteq> 34 then Inl JSONDecodeError
           else bind_res (pstring r) (\<lambda>(k, r1).
             (case skip_ws r1 of
                [] \<Rightarrow> Inl JSONDecodeError
              | d # r2 \<Rightarrow>
                  (if d \<noteq> 58 then Inl JSONDecodeError
                   else bind_res (pvalue n (skip_ws r2)) (\<lambda>(v, r3).
                     (case skip_ws r3 of
                        [] \<Rightarrow> Inl JSONDecodeError
                      | e # r4 \<Rightarrow>
                          (if e = 44 then pmembers n (skip_ws r4) (AList.update k v o')
                           else if e = 125 then Inr (AList.update k v o', r4)
                           else Inl JSONDecodeError))))))))"

text \<open>\<open>json.loads\<close> on a \<open>str\<close>.\<close>

definition json_loads :: "ustr \<Rightarrow> pyexc + json" where
  "json_loads s =
     (if startswith s [0xFEFF] then Inl JSONDecodeError
      else bind_res (pvalue (Suc (length s)) (skip_ws s)) (\<lambda>(v, r).
             if skip_ws r = [] then Inr v else Inl JSONDecodeError))"

subsection \<open>Detecting the encoding of bytes\<close>

datatype encoding = Utf8 | Utf8Sig | Utf16 | Utf16LE | Utf16BE | Utf32 | Utf32LE | Utf32BE

definition detect_encoding :: "bytes \<Rightarrow> encoding" where
  "detect_encoding b =
     (if startswith b [0, 0, 0xFE, 0xFF] \<or> startswith b [0xFF, 0xFE, 0, 0] then Utf32
      else if startswith b [0xFE, 0xFF] \<or> startswith b [0xFF, 0xFE] then Utf16
      else if startswith b [0xEF, 0xBB, 0xBF] then Utf8Sig
      else
        (case b of
           b0 # b1 # b2 # b3 # _ \<Rightarrow>
             (if b0 = 0 then (if b1 \<noteq> 0 then Utf16BE else Utf32BE)
              else if b1 = 0 then (if b2 \<noteq> 0 \<or> b3 \<noteq> 0 then Utf16LE else Utf32LE)
              else Utf8)
         | [b0, b1] \<Rightarrow> (if b0 = 0 then Utf16BE else if b1 = 0 then Utf16LE else Utf8)
         | _ \<Rightarrow> Utf8))"

text \<open>
  \<open>json.loads\<close> on \<open>bytes\<close>. Decoding UTF-16 and UTF-32, which no record of the
  pipeline uses, is the argument \<open>wide\<close>.
\<close>

definition json_loads_bytes :: "(encoding \<Rightarrow> bytes \<Rightarrow> pyexc + ustr) \<Rightarrow> bytes \<Rightarrow> pyexc + json" where
  "json_loads_bytes wide b =
     bind_res
       (case detect_encoding b of
          Utf8 \<Rightarrow> utf8_decode True b
        | Utf8Sig \<Rightarrow> utf8_decode True (drop 3 b)
        | enc \<Rightarrow> wide enc b)
       json_loads"

subsection \<open>Writing\<close>

definition hex_char :: "nat \<Rightarrow> nat" where
  "hex_char n = (if n < 10 then 48 + n else 87 + n)"

definition escape_char :: "nat \<Rightarrow> ustr" where
  "escape_char c =
     (case map_of [(34, 34), (92, 92), (10, 110), (13, 114), (9, 116), (12, 102), (8, 98)] c of
        Some e \<Rightarrow> [92, e]
      | None \<Rightarrow>
          if c < 32 then [92, 117, 48, 48, hex_char (c div 16), hex_char (c mod 16)] else [c])"

definition quote_str :: "ustr \<Rightarrow> ustr" where
  "quote_str s = 34 # concat (map escape_char s) @ [34]"

text \<open>\<open>json.dumps(v, ensure_ascii=False)\<close>; \<open>fr\<close> is \<open>float.__repr__\<close>.\<close>

fun dumps :: "(ustr \<Rightarrow> ustr) \<Rightarrow> json \<Rightarrow> ustr" where
  "dumps fr JNull = ascii ''null''"
| "dumps fr (JBool b) = (if b then ascii ''true'' else ascii ''false'')"
| "dumps fr (JInt n) = int_repr n"
| "dumps fr (JFloat t) = fr t"
| "dumps fr (JNonFinite t) =
     (if t = ascii ''nan'' then ascii ''NaN''
      else if t = ascii ''inf'' then ascii ''Infinity'' else ascii ''-Infinity'')"
| "dumps fr (JStr s) = quote_str s"
| "dumps fr (JList vs) = 91 # join (ascii '', '') (map (dumps fr) vs) @ [93]"
| "dumps fr (JObj kvs) =
     123 # join (ascii '', '') (map (\<lambda>(k, v). quote_str k @ ascii '': '' @ dumps fr v) kvs) @ [125]"

subsection \<open>Reading back what was written\<close>

text \<open>The values \<open>dumps\<close> writes so that \<open>loads\<close> gives them back.\<close>

fun json_ok :: "json \<Rightarrow> bool" where
  "json_ok JNull = True"
| "json_ok (JBool b) = True"
| "json_ok (JInt n) = (length (digits_of (nat \<bar>n\<bar>)) \<le> MAX_STR_DIGITS)"
| "json_ok (JFloat t) = False"
| "json_ok (JNonFinite t) = False"
| "json_ok (JStr s) = True"
| "json_ok (JList vs) = (\<forall>v \<in> set vs. json_ok v)"
| "json_ok (JObj kvs) = (distinct (map fst kvs) \<and> (\<forall>kv \<in> set kvs. json_ok (snd kv)))"

text \<open>What may follow a numeral without being read as part of it.\<close>

definition stops :: "ustr \<Rightarrow> bool" where
  "stops r \<longleftrightarrow> (case r of [] \<Rightarrow> True | c # _ \<Rightarrow> \<not> is_digit c \<and> c \<noteq> 46 \<and> c \<noteq> 101 \<and> c \<noteq> 69)"

lemma stops_simps [simp]:
  "stops []"
  "stops (c # r) \<longleftrightarrow> \<not> is_digit c \<and> c \<noteq> 46 \<and> c \<noteq> 101 \<and> c \<noteq> 69"
  by (simp_all add: stops_def)

lemma hex_val_hex_char: "n < 16 \<Longrightarrow> hex_val (hex_char n) = Some n"
  by (auto simp: hex_val_def hex_char_def)

lemma pstring_plain: "\<lbrakk>c \<noteq> 34; c \<noteq> 92; 32 \<le> c\<rbrakk> \<Longrightarrow> pstring (c # t) = cons_res c (pstring t)"
  by simp

lemma pstring_escape: "pstring (escape_char c @ t) = cons_res c (pstring t)"
proof (cases "map_of [(34, 34), (92, 92), (10, 110), (13, 114), (9, 116), (12, 102), (8, 98 :: nat)] c")
  case None
  show ?thesis
  proof (cases "c < 32")
    case True
    have v: "hex4 (48 # 48 # hex_char (c div 16) # hex_char (c mod 16) # t) = Some (c, t)"
    proof -
      have "hex_val 48 = Some 0" "c div 16 < 16" "c mod 16 < 16"
        using True by (simp_all add: hex_val_def)
      then show ?thesis by (simp add: hex4_def hex_val_hex_char)
    qed
    with True None show ?thesis by (simp add: escape_char_def)
  next
    case False
    with None have "c \<noteq> 34" "c \<noteq> 92" by auto
    with False None show ?thesis by (simp add: escape_char_def)
  qed
next
  case (Some e)
  then consider "c = 34" | "c = 92" | "c = 10" | "c = 13" | "c = 9" | "c = 12" | "c = 8"
    by (auto split: if_splits)
  then show ?thesis by cases (simp_all add: escape_char_def unescape_def)
qed

lemma pstring_quote: "pstring (concat (map escape_char s) @ 34 # rest) = Inr (s, rest)"
proof (induction s)
  case (Cons c s)
  then show ?case by (simp only: list.map concat.simps append_assoc pstring_escape) (simp add: cons_res_def)
qed simp

lemma digits_nonempty [simp]: "digits_of n \<noteq> []"
  using digits_of_hd by blast

lemma takeWhile_digits: "stops rest \<Longrightarrow> takeWhile is_digit (digits_of n @ rest) = digits_of n"
proof -
  assume "stops rest"
  then have "takeWhile is_digit rest = []" by (cases rest) simp_all
  then show ?thesis by (simp add: takeWhile_append2 digits_of_digits)
qed

lemma pnumber_int:
  assumes "stops rest" and "length (digits_of (nat \<bar>n\<bar>)) \<le> MAX_STR_DIGITS"
  shows "pnumber (int_repr n @ rest) = Inr (JInt n, rest)"
proof -
  let ?ds = "digits_of (nat \<bar>n\<bar>)"
  have hd: "is_digit (hd ?ds)"
    by (rule digits_of_digits [of _ "nat \<bar>n\<bar>"]) simp
  have neg: "(case int_repr n @ rest of c # _ \<Rightarrow> c = 45 | [] \<Rightarrow> False) \<longleftrightarrow> n < 0"
    using hd by (cases ?ds) (auto simp: int_repr_def is_digit_def)
  have body: "(if n < 0 then tl (int_repr n @ rest) else int_repr n @ rest) = ?ds @ rest"
    by (simp add: int_repr_def)
  have ds: "(if ?ds \<noteq> [] \<and> hd ?ds = 48 then [48] else ?ds) = ?ds"
    using digits_of_hd [of "nat \<bar>n\<bar>"] by (auto simp: digits_of_0)
  have frac: "frac_part rest = ([], rest)" and ex: "exp_part rest = ([], rest)"
    using assms(1) by (cases rest; simp add: frac_part_def exp_part_def)+
  show ?thesis
    unfolding pnumber_def Let_def neg body takeWhile_digits [OF assms(1)] ds
    using assms(2) frac ex by (simp add: int_of_numeral_def value_digits_of)
qed

lemma skip_ws_id: "\<not> json_ws (hd s) \<Longrightarrow> skip_ws s = s"
  by (cases s) (simp_all add: skip_ws_def)

lemma dumps_hd:
  "json_ok v \<Longrightarrow> \<exists>c t. dumps fr v = c # t \<and> \<not> json_ws c \<and> c \<noteq> 93 \<and> c \<noteq> 125 \<and> c \<noteq> 0xFEFF"
proof (cases v)
  case (JInt n)
  obtain d ds where "digits_of (nat \<bar>n\<bar>) = d # ds" by (cases "digits_of (nat \<bar>n\<bar>)") auto
  moreover from this have "is_digit d" by (metis digits_of_digits list.set_intros(1))
  ultimately show ?thesis
    using JInt by (auto simp: int_repr_def is_digit_def json_ws_def)
qed (auto simp: ascii_def json_ws_def quote_str_def)

lemma pvalue_int:
  assumes "stops rest" and "length (digits_of (nat \<bar>n\<bar>)) \<le> MAX_STR_DIGITS"
  shows "pvalue (Suc m) (int_repr n @ rest) = Inr (JInt n, rest)"
proof -
  obtain d ds where ds: "digits_of (nat \<bar>n\<bar>) = d # ds" by (cases "digits_of (nat \<bar>n\<bar>)") auto
  then have d: "is_digit d" by (metis digits_of_digits list.set_intros(1))
  have "pvalue (Suc m) (int_repr n @ rest) = pnumber (int_repr n @ rest)"
    using d ds by (auto simp: int_repr_def pscalar_def is_digit_def startswith_def ascii_def)
  with pnumber_int [OF assms] show ?thesis by simp
qed

abbreviation reads_back :: "(ustr \<Rightarrow> ustr) \<Rightarrow> json \<Rightarrow> bool" where
  "reads_back fr v \<equiv>
     (\<forall>n rest. stops rest \<longrightarrow> length (dumps fr v) \<le> n \<longrightarrow> pvalue n (dumps fr v @ rest) = Inr (v, rest))"

lemma skip_ws_dumps: "json_ok v \<Longrightarrow> skip_ws (dumps fr v @ r) = dumps fr v @ r"
  using dumps_hd [of v fr] by (auto intro: skip_ws_id)

lemma skip_ws_space [simp]: "skip_ws (32 # s) = skip_ws s"
  by (simp add: skip_ws_def json_ws_def)

lemma skip_ws_nonws [simp]: "\<not> json_ws c \<Longrightarrow> skip_ws (c # s) = c # s"
  by (simp add: skip_ws_def)

lemma not_digit [simp]: "\<not> is_digit 44" "\<not> is_digit 93" "\<not> is_digit 125"
  by (simp_all add: is_digit_def)

lemma not_ws [simp]: "\<not> json_ws 44" "\<not> json_ws 93" "\<not> json_ws 125" "\<not> json_ws 58" "\<not> json_ws 34"
  by (simp_all add: json_ws_def)

lemma pelems_dumps:
  assumes "vs \<noteq> []" and "\<forall>v \<in> set vs. json_ok v \<and> reads_back fr v"
    and "length (join (ascii '', '') (map (dumps fr) vs)) < n"
  shows "pelems n (join (ascii '', '') (map (dumps fr) vs) @ 93 # rest) = Inr (vs, rest)"
  using assms
proof (induction vs arbitrary: n rule: induct_list012)
  case (2 v)
  then obtain m where n: "n = Suc m" by (cases n) auto
  with 2 have "pvalue m (dumps fr v @ 93 # rest) = Inr (v, 93 # rest)" by simp
  with n show ?case by simp
next
  case (3 v v' vs)
  then obtain m where n: "n = Suc m" by (cases n) auto
  let ?tail = "join (ascii '', '') (map (dumps fr) (v' # vs)) @ 93 # rest"
  have v: "pvalue m (dumps fr v @ 44 # 32 # ?tail) = Inr (v, 44 # 32 # ?tail)"
    using 3(3,4,5) n by (simp add: ascii_def)
  have tail: "pelems m ?tail = Inr (v' # vs, rest)"
    using 3(2) [of m] 3(4,5) n by (simp add: ascii_def)
  have ws: "skip_ws ?tail = ?tail"
    using 3(4) skip_ws_dumps [of v' fr] by (cases vs) auto
  show ?case using v tail ws n by (simp add: ascii_def)
qed simp

abbreviation member_text :: "(ustr \<Rightarrow> ustr) \<Rightarrow> ustr \<times> json \<Rightarrow> ustr" where
  "member_text fr kv \<equiv> quote_str (fst kv) @ ascii '': '' @ dumps fr (snd kv)"

lemma pmembers_step:
  assumes "json_ok v" and "pvalue m (dumps fr v @ e # rest) = Inr (v, e # rest)" and "\<not> json_ws e"
  shows "pmembers (Suc m) (member_text fr (k, v) @ e # rest) o' =
     (if e = 44 then pmembers m (skip_ws rest) (AList.update k v o')
      else if e = 125 then Inr (AList.update k v o', rest) else Inl JSONDecodeError)"
proof -
  have k: "pstring (concat (map escape_char k) @ 34 # 58 # 32 # dumps fr v @ e # rest) =
      Inr (k, 58 # 32 # dumps fr v @ e # rest)"
    by (rule pstring_quote)
  show ?thesis
    using k assms skip_ws_dumps [OF assms(1), of fr "e # rest"]
    by (simp add: quote_str_def ascii_def)
qed

lemma update_new: "k \<notin> fst ` set d \<Longrightarrow> AList.update k v d = d @ [(k, v)]"
  by (induction d) auto

lemma pmembers_dumps:
  assumes "kvs \<noteq> []" and "\<forall>kv \<in> set kvs. json_ok (snd kv) \<and> reads_back fr (snd kv)"
    and "length (join (ascii '', '') (map (member_text fr) kvs)) < n"
    and "distinct (map fst (o' @ kvs))"
  shows "pmembers n (join (ascii '', '') (map (member_text fr) kvs) @ 125 # rest) o' = Inr (o' @ kvs, rest)"
  using assms
proof (induction kvs arbitrary: n o' rule: induct_list012)
  case (2 kv)
  then obtain m k v where n: "n = Suc m" and kv: "kv = (k, v)" by (cases n; cases kv) auto
  with 2 have "pvalue m (dumps fr v @ 125 # rest) = Inr (v, 125 # rest)" by (simp add: quote_str_def)
  from pmembers_step [OF _ this, of k o'] show ?case using 2 n kv by (simp add: update_new)
next
  case (3 kv kv' kvs)
  then obtain m k v where n: "n = Suc m" and kv: "kv = (k, v)" by (cases n; cases kv) auto
  let ?tail = "join (ascii '', '') (map (member_text fr) (kv' # kvs)) @ 125 # rest"
  have v: "pvalue m (dumps fr v @ 44 # 32 # ?tail) = Inr (v, 44 # 32 # ?tail)"
    using 3(3,4,5) n kv by (simp add: ascii_def quote_str_def)
  have tail: "pmembers m ?tail (o' @ [(k, v)]) = Inr (o' @ kv # kv' # kvs, rest)"
    using 3(2) [of m "o' @ [(k, v)]"] 3(4,5,6) n kv by (simp add: ascii_def)
  have ws: "skip_ws (32 # ?tail) = ?tail"
    by (cases kvs) (simp_all add: quote_str_def)
  have new: "AList.update k v o' = o' @ [(k, v)]"
    using 3(6) kv by (intro update_new) auto
  have "pmembers n (member_text fr (k, v) @ 44 # 32 # ?tail) o' =
      pmembers m (skip_ws (32 # ?tail)) (AList.update k v o')"
    unfolding n using 3(4) kv by (subst pmembers_step [OF _ v]) simp_all
  also have "\<dots> = Inr (o' @ kv # kv' # kvs, rest)" by (simp only: ws new tail)
  finally show ?case by (simp add: kv ascii_def)
qed simp

lemma pvalue_keyword:
  "reads_back fr JNull" "reads_back fr (JBool True)" "reads_back fr (JBool False)"
proof -
  have "pvalue n (dumps fr v @ rest) = Inr (v, rest)"
    if "v \<in> {JNull, JBool True, JBool False}" and "length (dumps fr v) \<le> n" for v n rest
  proof -
    from that obtain m where "n = Suc m" by (cases n) (auto simp: ascii_def)
    with that(1) show ?thesis
      by (auto simp: ascii_def keyword_def startswith_def pscalar_def)
  qed
  then show "reads_back fr JNull" "reads_back fr (JBool True)" "reads_back fr (JBool False)"
    by blast+
qed

lemma reads_back_dumps: "json_ok v \<Longrightarrow> reads_back fr v"
proof (induction v)
  case (JInt n)
  show ?case
  proof (intro allI impI)
    fix m rest assume s: "stops rest" and l: "length (dumps fr (JInt n)) \<le> m"
    then obtain m' where "m = Suc m'" by (cases m) (auto simp: int_repr_def split: if_splits)
    with JInt s show "pvalue m (dumps fr (JInt n) @ rest) = Inr (JInt n, rest)"
      by (simp add: pvalue_int del: pvalue.simps)
  qed
next
  case (JStr s)
  show ?case
  proof (intro allI impI)
    fix m rest assume l: "length (dumps fr (JStr s)) \<le> m"
    then obtain m' where "m = Suc m'" by (cases m) (auto simp: quote_str_def)
    then show "pvalue m (dumps fr (JStr s) @ rest) = Inr (JStr s, rest)"
      by (simp add: quote_str_def pstring_quote)
  qed
next
  case (JList vs)
  show ?case
  proof (intro allI impI)
    fix m rest assume l: "length (dumps fr (JList vs)) \<le> m"
    then obtain m' where m: "m = Suc m'" by (cases m) auto
    show "pvalue m (dumps fr (JList vs) @ rest) = Inr (JList vs, rest)"
    proof (cases vs)
      case Nil
      with m show ?thesis by (simp add: skip_ws_def json_ws_def)
    next
      case (Cons v vs')
      have "pelems m' (join (ascii '', '') (map (dumps fr) vs) @ 93 # rest) = Inr (vs, rest)"
        using JList l m Cons by (intro pelems_dumps) auto
      moreover obtain c t where "join (ascii '', '') (map (dumps fr) vs) = c # t" "\<not> json_ws c" "c \<noteq> 93"
        using JList(2) dumps_hd [of v fr] Cons by (cases vs') auto
      ultimately show ?thesis using m by simp
    qed
  qed
next
  case (JObj kvs)
  show ?case
  proof (intro allI impI)
    fix m rest assume l: "length (dumps fr (JObj kvs)) \<le> m"
    then obtain m' where m: "m = Suc m'" by (cases m) auto
    have mt: "(\<lambda>(k, v). quote_str k @ ascii '': '' @ dumps fr v) = member_text fr"
      by (auto simp: fun_eq_iff)
    show "pvalue m (dumps fr (JObj kvs) @ rest) = Inr (JObj kvs, rest)"
    proof (cases kvs)
      case Nil
      with m show ?thesis by (simp add: skip_ws_def json_ws_def)
    next
      case (Cons kv kvs')
      have "pmembers m' (join (ascii '', '') (map (member_text fr) kvs) @ 125 # rest) [] = Inr ([] @ kvs, rest)"
      proof (rule pmembers_dumps)
        show "kvs \<noteq> []" using Cons by simp
        show "\<forall>kv \<in> set kvs. json_ok (snd kv) \<and> reads_back fr (snd kv)"
        proof
          fix kv assume kv: "kv \<in> set kvs"
          then have ok: "json_ok (snd kv)" using JObj.prems by simp
          with JObj.IH [OF kv, of "snd kv"] show "json_ok (snd kv) \<and> reads_back fr (snd kv)"
            by (cases kv) simp
        qed
        show "length (join (ascii '', '') (map (member_text fr) kvs)) < m'"
          using l m by (simp add: mt)
        show "distinct (map fst ([] @ kvs))" using JObj.prems by simp
      qed
      moreover obtain t where "join (ascii '', '') (map (member_text fr) kvs) = 34 # t"
        using Cons by (cases kvs') (auto simp: quote_str_def)
      ultimately show ?thesis using m by (simp add: mt)
    qed
  qed
next
  case (JBool b)
  show ?case using pvalue_keyword(2,3) [of fr] by (metis (full_types))
qed (use pvalue_keyword in simp_all)

lemma json_loads_dumps: "json_ok v \<Longrightarrow> json_loads (dumps fr v) = Inr v"
proof -
  assume ok: "json_ok v"
  have "skip_ws (dumps fr v) = dumps fr v" using skip_ws_dumps [OF ok, of fr "[]"] by simp
  moreover have "pvalue (Suc (length (dumps fr v))) (dumps fr v) = Inr (v, [])"
    using reads_back_dumps [OF ok, of fr] by (metis append_Nil2 le_Suc_eq order_refl stops_simps(1))
  moreover have "\<not> startswith (dumps fr v) [0xFEFF]"
    using dumps_hd [OF ok, of fr] by (auto simp: startswith_def)
  ultimately show ?thesis by (simp add: json_loads_def skip_ws_def del: pvalue.simps)
qed

end
