(* ===== verification/PyTime.thy ===== *)
theory PyTime
  imports PyText
begin

text \<open>
  Python's \<open>datetime\<close> as the program uses it: the proleptic Gregorian calendar,
  \<open>fromisoformat\<close> of Python 3.11 (after \<^verbatim>\<open>Lib/datetime.py\<close>, digits being ASCII
  digits as in the C module), \<open>astimezone(utc)\<close>, \<open>isoformat\<close> of a UTC time,
  \<open>fromtimestamp\<close>, and \<open>int(dt.timestamp() * 1000)\<close> with the two roundings of
  its doubles. What depends on the machine's time zone (times without an offset) is an argument.
\<close>

subsection \<open>Calendar\<close>

definition is_leap :: "int \<Rightarrow> bool" where
  "is_leap y \<longleftrightarrow> y mod 4 = 0 \<and> (y mod 100 \<noteq> 0 \<or> y mod 400 = 0)"

definition days_before_year :: "int \<Rightarrow> int" where
  "days_before_year year = (let y = year - 1 in y * 365 + y div 4 - y div 100 + y div 400)"

definition days_in_month :: "int \<Rightarrow> int \<Rightarrow> int" where
  "days_in_month y m =
     (if m = 2 then (if is_leap y then 29 else 28) else if m \<in> {4, 6, 9, 11} then 30 else 31)"

definition days_before_month :: "int \<Rightarrow> int \<Rightarrow> int" where
  "days_before_month y m =
     [0, 31, 59, 90, 120, 151, 181, 212, 243, 273, 304, 334] ! nat (m - 1)
     + (if m > 2 \<and> is_leap y then 1 else 0)"

definition ymd2ord :: "int \<Rightarrow> int \<Rightarrow> int \<Rightarrow> int" where
  "ymd2ord y m d = days_before_year y + days_before_month y m + d"

definition ord2ymd :: "int \<Rightarrow> int \<times> int \<times> int" where
  "ord2ymd ordinal =
     (let n0 = ordinal - 1;
          n400 = n0 div 146097; a = n0 mod 146097;
          n100 = a div 36524; b = a mod 36524;
          n4 = b div 1461; c = b mod 1461;
          n1 = c div 365; n = c mod 365;
          year = n400 * 400 + 1 + n100 * 100 + n4 * 4 + n1
      in if n1 = 4 \<or> n100 = 4 then (year - 1, 12, 31)
         else
           let month = (n + 50) div 32;
               preceding = days_before_month year month
           in if preceding > n
              then (year, month - 1,
                    n - (preceding - days_in_month year (month - 1)) + 1)
              else (year, month, n - preceding + 1))"

subsection \<open>Date and time values\<close>

record datetime =
  year :: int
  month :: int
  day :: int
  hour :: int
  minute :: int
  second :: int
  microsecond :: int
  utcoffset :: "int option"  \<comment> \<open>in microseconds; \<open>None\<close> for a naive time\<close>

definition DAY_US :: int where
  "DAY_US = 86400000000"

definition valid_datetime :: "datetime \<Rightarrow> bool" where
  "valid_datetime d \<longleftrightarrow>
     1 \<le> year d \<and> year d \<le> 9999 \<and> 1 \<le> month d \<and> month d \<le> 12 \<and>
     1 \<le> day d \<and> day d \<le> days_in_month (year d) (month d) \<and>
     0 \<le> hour d \<and> hour d < 24 \<and> 0 \<le> minute d \<and> minute d < 60 \<and>
     0 \<le> second d \<and> second d < 60 \<and> 0 \<le> microsecond d \<and> microsecond d < 1000000 \<and>
     (case utcoffset d of None \<Rightarrow> True | Some z \<Rightarrow> - DAY_US < z \<and> z < DAY_US)"

text \<open>The wall clock as microseconds since 1970-01-01T00:00:00, and back.\<close>

definition wall_us :: "datetime \<Rightarrow> int" where
  "wall_us d =
     (ymd2ord (year d) (month d) (day d) - 719163) * DAY_US
     + ((hour d * 60 + minute d) * 60 + second d) * 1000000 + microsecond d"

definition of_wall_us :: "int option \<Rightarrow> int \<Rightarrow> datetime" where
  "of_wall_us z us =
     (let days = us div DAY_US; r = us mod DAY_US; s = r div 1000000;
          (y, m, d) = ord2ymd (days + 719163)
      in \<lparr>year = y, month = m, day = d, hour = s div 3600, minute = s div 60 mod 60,
          second = s mod 60, microsecond = r mod 1000000, utcoffset = z\<rparr>)"

subsection \<open>Parsing\<close>

definition all_digits :: "ustr \<Rightarrow> bool" where
  "all_digits s \<longleftrightarrow> s \<noteq> [] \<and> (\<forall>c \<in> set s. is_digit c)"

definition int_field :: "ustr \<Rightarrow> nat \<Rightarrow> nat \<Rightarrow> pyexc + int" where
  "int_field s from len =
     (let t = take len (drop from s)
      in if length t = len \<and> all_digits t then Inr (int (value_of t)) else Inl ValueError)"

definition char_at :: "ustr \<Rightarrow> nat \<Rightarrow> nat \<Rightarrow> bool" where
  "char_at s i c \<longleftrightarrow> i < length s \<and> s ! i = c"

definition separator_location :: "ustr \<Rightarrow> pyexc + nat" where
  "separator_location s =
     (if length s = 7 then Inr 7
      else if char_at s 4 45 then
        (if char_at s 5 87 then
           (if length s > 8 \<and> char_at s 8 45 then
              (if length s = 9 then Inl ValueError
               else if length s > 10 \<and> is_digit (s ! 10) then Inr 8
               else Inr 10)
            else Inr 8)
         else Inr 10)
      else if char_at s 4 87 then
        (let idx = 7 + length (takeWhile is_digit (drop 7 s))
         in Inr (if idx < 9 then idx else if even idx then 7 else 8))
      else Inr 8)"

definition isoweek1monday :: "int \<Rightarrow> int" where
  "isoweek1monday y =
     (let firstday = ymd2ord y 1 1; wd = (firstday + 6) mod 7; monday = firstday - wd
      in if wd > 3 then monday + 7 else monday)"

definition isoweek_to_gregorian :: "int \<Rightarrow> int \<Rightarrow> int \<Rightarrow> pyexc + (int \<times> int \<times> int)" where
  "isoweek_to_gregorian y week d =
     (let first = ymd2ord y 1 1 mod 7;
          long = first = 4 \<or> first = 3 \<and> is_leap y
      in if \<not> (1 \<le> y \<and> y \<le> 9999) then Inl ValueError
         else if \<not> (0 < week \<and> week < 53) \<and> \<not> (week = 53 \<and> long) then Inl ValueError
         else if \<not> (0 < d \<and> d < 8) then Inl ValueError
         else Inr (ord2ymd (isoweek1monday y + (week - 1) * 7 + (d - 1))))"

definition parse_date :: "ustr \<Rightarrow> pyexc + (int \<times> int \<times> int)" where
  "parse_date s =
     (let has_sep = char_at s 4 45; pos = (if has_sep then 5 else 4)
      in bind_res (int_field s 0 4) (\<lambda>y.
           if char_at s pos 87 then
             bind_res (int_field s (pos + 1) 2) (\<lambda>week.
               if length s > pos + 3 then
                 (if char_at s (pos + 3) 45 \<noteq> has_sep then Inl ValueError
                  else bind_res (int_field s (if has_sep then pos + 4 else pos + 3) 1)
                         (isoweek_to_gregorian y week))
               else isoweek_to_gregorian y week 1)
           else
             bind_res (int_field s pos 2) (\<lambda>m.
               if char_at s (pos + 2) 45 \<noteq> has_sep then Inl ValueError
               else bind_res (int_field s (if has_sep then pos + 3 else pos + 2) 2) (\<lambda>d.
                 Inr (y, m, d)))))"

text \<open>
  The components of a time: hours, minutes and seconds as long as the text goes on, with or
  without colons, then a fraction of which six digits count.
\<close>

definition parse_fraction :: "ustr \<Rightarrow> pyexc + int" where
  "parse_fraction s =
     (case s of
        [] \<Rightarrow> Inr 0
      | c # r \<Rightarrow>
          (if c \<noteq> 46 \<and> c \<noteq> 44 then Inl ValueError
           else if all_digits r then
             Inr (int (value_of (take 6 r)) * 10 ^ (6 - length (take 6 r)))
           else Inl ValueError))"

definition time_field :: "ustr \<Rightarrow> pyexc + int \<times> ustr" where
  "time_field s = bind_res (int_field s 0 2) (\<lambda>n. Inr (n, drop 2 s))"

definition parse_hms :: "ustr \<Rightarrow> pyexc + (int \<times> int \<times> int \<times> int)" where
  "parse_hms s =
     bind_res (time_field s) (\<lambda>(h, r).
       let has_sep = char_at r 0 58;
           field = (\<lambda>r k.
             if r = [] then k (0, [])
             else if has_sep \<and> \<not> char_at r 0 58 then Inl ValueError
             else bind_res (time_field (if has_sep then tl r else r)) k)
       in field r (\<lambda>(m, r1).
            field r1 (\<lambda>(sec, r2).
              bind_res (parse_fraction r2) (\<lambda>us. Inr (h, m, sec, us)))))"

definition find_char :: "nat \<Rightarrow> ustr \<Rightarrow> nat option" where
  "find_char c s = (if c \<in> set s then Some (length (takeWhile (\<lambda>d. d \<noteq> c) s)) else None)"

definition tz_position :: "ustr \<Rightarrow> nat option" where
  "tz_position s =
     (case find_char 45 s of Some i \<Rightarrow> Some i
      | None \<Rightarrow> (case find_char 43 s of Some i \<Rightarrow> Some i | None \<Rightarrow> find_char 90 s))"

definition parse_time :: "ustr \<Rightarrow> pyexc + ((int \<times> int \<times> int \<times> int) \<times> int option)" where
  "parse_time s =
     (if length s < 2 then Inl ValueError
      else
        (case tz_position s of
           None \<Rightarrow> bind_res (parse_hms s) (\<lambda>t. Inr (t, None))
         | Some i \<Rightarrow>
             bind_res (parse_hms (take i s)) (\<lambda>t.
               let tz = drop (Suc i) s
               in if tz = [] \<and> s ! i = 90 then Inr (t, Some 0)
                  else if length tz \<in> {0, 1, 3} then Inl ValueError
                  else bind_res (parse_hms tz) (\<lambda>(h, m, sec, us).
                    let off = ((h * 60 + m) * 60 + sec) * 1000000 + us;
                        z = (if s ! i = 45 then - off else off)
                    in if - DAY_US < z \<and> z < DAY_US then Inr (t, Some z) else Inl ValueError))))"

definition fromisoformat :: "ustr \<Rightarrow> pyexc + datetime" where
  "fromisoformat s =
     (if length s < 7 then Inl ValueError
      else bind_res (separator_location s) (\<lambda>loc.
        bind_res (parse_date (take loc s)) (\<lambda>(y, m, d).
          bind_res (if drop (Suc loc) s = [] then Inr ((0, 0, 0, 0), None)
                    else parse_time (drop (Suc loc) s)) (\<lambda>((h, mi, sec, us), z).
            let dt = \<lparr>year = y, month = m, day = d, hour = h, minute = mi, second = sec,
                      microsecond = us, utcoffset = z\<rparr>
            in if valid_datetime dt then Inr dt else Inl ValueError))))"

subsection \<open>Instants\<close>

definition MIN_US :: int where
  "MIN_US = (1 - 719163) * DAY_US"

definition MAX_US :: int where
  "MAX_US = (3652059 - 719163 + 1) * DAY_US"

text \<open>
  \<open>dt.astimezone(timezone.utc)\<close>: the instant in microseconds since the epoch, which must
  be a date of the years 1 to 9999. \<open>local\<close> is the instant of a naive time.
\<close>

definition astimezone_utc :: "(datetime \<Rightarrow> pyexc + int) \<Rightarrow> datetime \<Rightarrow> pyexc + int" where
  "astimezone_utc local d =
     bind_res (case utcoffset d of None \<Rightarrow> local d | Some z \<Rightarrow> Inr (wall_us d - z)) (\<lambda>us.
       if MIN_US \<le> us \<and> us < MAX_US then Inr us else Inl OverflowError)"

text \<open>
  \<open>datetime.fromtimestamp(ts, tz=timezone.utc)\<close> for an integer: \<open>time_t\<close> has 64
  bits, the year of \<^verbatim>\<open>struct tm\<close> 32.
\<close>

definition fromtimestamp_int :: "int \<Rightarrow> pyexc + int" where
  "fromtimestamp_int ts =
     (let y = fst (ord2ymd (ts div 86400 + 719163))
      in if \<not> (- (2 ^ 63) \<le> ts \<and> ts < 2 ^ 63) then Inl OverflowError
         else if \<not> (- (2 ^ 31) \<le> y - 1900 \<and> y - 1900 < 2 ^ 31) then Inl OSError
         else if \<not> (1 \<le> y \<and> y \<le> 9999) then Inl ValueError
         else Inr (ts * 1000000))"

definition pad2 :: "int \<Rightarrow> ustr" where
  "pad2 n = [48 + nat n div 10 mod 10, 48 + nat n mod 10]"

definition pad4 :: "int \<Rightarrow> ustr" where
  "pad4 n = pad2 (n div 100) @ pad2 (n mod 100)"

definition pad6 :: "int \<Rightarrow> ustr" where
  "pad6 n = pad4 (n div 100) @ pad2 (n mod 100)"

text \<open>\<open>isoformat()\<close> of the UTC time at an instant.\<close>

definition isoformat_of :: "datetime \<Rightarrow> ustr" where
  "isoformat_of d =
     pad4 (year d) @ [45] @ pad2 (month d) @ [45] @ pad2 (day d) @ [84] @
     pad2 (hour d) @ [58] @ pad2 (minute d) @ [58] @ pad2 (second d) @
     (if microsecond d = 0 then [] else 46 # pad6 (microsecond d)) @ ascii ''+00:00''"

definition isoformat_utc :: "int \<Rightarrow> ustr" where
  "isoformat_utc us = isoformat_of (of_wall_us (Some 0) us)"

subsection \<open>Doubles\<close>

text \<open>A rational \<open>p / q\<close> rounded to the nearest double, ties to even (no over- or underflow).\<close>

fun bitlen :: "nat \<Rightarrow> nat" where
  "bitlen n = (if n = 0 then 0 else Suc (bitlen (n div 2)))"

declare bitlen.simps [simp del]

definition round_half_even :: "int \<Rightarrow> int \<Rightarrow> int" where
  "round_half_even p q =
     (let k = p div q; r = p mod q
      in if 2 * r < q \<or> 2 * r = q \<and> even k then k else k + 1)"

definition double_of :: "int \<times> int \<Rightarrow> int \<times> int" where
  "double_of pq =
     (case pq of (p, q) \<Rightarrow>
        let a = \<bar>p\<bar>;
            e0 = int (bitlen (nat a)) - int (bitlen (nat q)) - 53;
            scale = (\<lambda>e. if e \<ge> 0 then (a, q * 2 ^ nat e) else (a * 2 ^ nat (- e), q));
            e = (if fst (scale e0) div snd (scale e0) < 2 ^ 53 then e0 else e0 + 1);
            m = round_half_even (fst (scale e)) (snd (scale e));
            v = (if p < 0 then - m else m)
        in if p = 0 then (0, 1)
           else if e \<ge> 0 then (v * 2 ^ nat e, 1) else (v, 2 ^ nat (- e)))"

definition trunc :: "int \<times> int \<Rightarrow> int" where
  "trunc pq = (case pq of (p, q) \<Rightarrow> if p < 0 then - ((- p) div q) else p div q)"

text \<open>\<open>int(dt.timestamp() * 1000)\<close> at an instant of an aware time.\<close>

definition timestamp_ms :: "int \<Rightarrow> int" where
  "timestamp_ms us =
     (case double_of (us, 1000000) of (p, q) \<Rightarrow> trunc (double_of (p * 1000, q)))"

definition datetime_ms :: "(datetime \<Rightarrow> pyexc + int) \<Rightarrow> datetime \<Rightarrow> pyexc + int" where
  "datetime_ms naive_ms d =
     (case utcoffset d of None \<Rightarrow> naive_ms d | Some z \<Rightarrow> Inr (timestamp_ms (wall_us d - z)))"

text \<open>
  \<open>datetime.fromtimestamp(ms / 1000, tz=timezone.utc)\<close>, to the microsecond: the double
  is split into seconds and a fraction, and the fraction is rounded half to even. The times the
  program passes are those of dates, so the range checks of the integer case do not matter.
\<close>

definition from_ms :: "int \<Rightarrow> int" where
  "from_ms ms =
     (case double_of (ms, 1000) of (p, q) \<Rightarrow>
        let s = trunc (p, q);
            (fp, fq) = double_of ((p - s * q) * 1000000, q)
        in s * 1000000 + round_half_even fp fq)"

definition ms_iso :: "int \<Rightarrow> ustr" where
  "ms_iso ms = isoformat_utc (from_ms ms)"

subsection \<open>An ISO time is read back\<close>

lemma nat_digit [simp]: "is_digit (48 + n mod 10)"
  by (auto simp: is_digit_def)

lemma is_digit_neq:
  "is_digit c \<Longrightarrow> c \<noteq> 43 \<and> c \<noteq> 45 \<and> c \<noteq> 46 \<and> c \<noteq> 44 \<and> c \<noteq> 58 \<and> c \<noteq> 84 \<and> c \<noteq> 87 \<and> c \<noteq> 90"
  by (auto simp: is_digit_def)

lemma pad2_digits: "\<exists>a b. pad2 n = [a, b] \<and> is_digit a \<and> is_digit b"
  by (simp add: pad2_def)

lemma value_pad2: "0 \<le> n \<Longrightarrow> n < 100 \<Longrightarrow> int (value_of (pad2 n)) = n"
  by (simp add: pad2_def value_of_def)

lemma foldl_value: "foldl (\<lambda>n d. 10 * n + (d - 48)) k t = k * 10 ^ length t + value_of t"
proof (induction t arbitrary: k)
  case (Cons x t)
  have "value_of (x # t) = (x - 48) * 10 ^ length t + value_of t"
    using Cons [of "x - 48"] by (simp add: value_of_def)
  with Cons [of "10 * k + (x - 48)"] show ?case by (simp add: algebra_simps)
qed (simp add: value_of_def)

lemma value_of_append: "value_of (s @ t) = value_of s * 10 ^ length t + value_of t"
  unfolding value_of_def foldl_append by (simp only: foldl_value value_of_def [symmetric])

lemma length_pad [simp]: "length (pad2 n) = 2" "length (pad4 n) = 4" "length (pad6 n) = 6"
  by (simp_all add: pad2_def pad4_def pad6_def)

lemma all_digits_pad [simp]: "all_digits (pad2 n)" "all_digits (pad4 n)" "all_digits (pad6 n)"
  using pad2_digits [of n] pad2_digits [of "n div 100"] pad2_digits [of "n mod 100"]
    pad2_digits [of "n div 100 div 100"] pad2_digits [of "n div 100 mod 100"]
  by (auto simp: pad4_def pad6_def all_digits_def)

lemma value_pad4: "0 \<le> n \<Longrightarrow> n < 10000 \<Longrightarrow> int (value_of (pad4 n)) = n"
  by (simp add: pad4_def value_of_append value_pad2) 

lemma value_pad6: "0 \<le> n \<Longrightarrow> n < 1000000 \<Longrightarrow> int (value_of (pad6 n)) = n"
  by (simp add: pad6_def value_of_append value_pad2 value_pad4)

lemma parse_date_pads:
  assumes "1 \<le> y" "y \<le> 9999" "1 \<le> m" "m \<le> 12" "1 \<le> d" "d \<le> 31"
  shows "parse_date (pad4 y @ 45 # pad2 m @ 45 # pad2 d) = Inr (y, m, d)"
proof -
  let ?s = "pad4 y @ 45 # pad2 m @ 45 # pad2 d"
  have f: "int_field ?s 0 4 = Inr y" "int_field ?s 5 2 = Inr m" "int_field ?s 8 2 = Inr d"
    using assms by (simp_all add: int_field_def value_pad2 value_pad4)
  obtain a b where m: "pad2 m = [a, b]" "is_digit a" using pad2_digits by blast
  have "char_at ?s 4 45" "\<not> char_at ?s 5 87" "char_at ?s 7 45"
    using m is_digit_neq [of a] by (simp_all add: char_at_def nth_append)
  with f show ?thesis by (simp add: parse_date_def)
qed

lemma separator_pads: "separator_location (pad4 y @ 45 # pad2 m @ 45 # pad2 d @ 84 # t) = Inr 10"
proof -
  obtain a b where m: "pad2 m = [a, b]" "is_digit a" using pad2_digits by blast
  then show ?thesis
    using is_digit_neq [of a] by (simp add: separator_location_def char_at_def nth_append)
qed

lemma all_digits_Cons: "all_digits (c # s) \<Longrightarrow> is_digit c"
  by (simp add: all_digits_def)

lemma time_field_pad2: "0 \<le> n \<Longrightarrow> n < 100 \<Longrightarrow> time_field (pad2 n @ t) = Inr (n, t)"
  by (simp add: time_field_def int_field_def value_pad2)

lemma time_field_pad2': "0 \<le> n \<Longrightarrow> n < 100 \<Longrightarrow> time_field (pad2 n) = Inr (n, [])"
  using time_field_pad2 [of n "[]"] by simp

definition frac_text :: "int \<Rightarrow> ustr" where
  "frac_text us = (if us = 0 then [] else 46 # pad6 us)"

lemma parse_fraction_text:
  "0 \<le> us \<Longrightarrow> us < 1000000 \<Longrightarrow> parse_fraction (frac_text us) = Inr us"
  by (auto simp: frac_text_def parse_fraction_def value_pad6)

lemma parse_hms_pads:
  assumes "0 \<le> h" "h < 24" "0 \<le> mi" "mi < 60" "0 \<le> sec" "sec < 60" "0 \<le> us" "us < 1000000"
  shows "parse_hms (pad2 h @ 58 # pad2 mi @ 58 # pad2 sec @ frac_text us) = Inr (h, mi, sec, us)"
  using assms parse_fraction_text [of us]
  by (simp add: parse_hms_def time_field_pad2 char_at_def)

lemma parse_hms_zero: "parse_hms [48, 48, 58, 48, 48] = Inr (0, 0, 0, 0)"
  by (simp add: parse_hms_def time_field_def int_field_def char_at_def all_digits_def is_digit_def
      value_of_def parse_fraction_def)

lemma find_char_append:
  "find_char c (s @ t) = (case find_char c s of Some i \<Rightarrow> Some i
     | None \<Rightarrow> map_option (\<lambda>i. length s + i) (find_char c t))"
  by (auto simp: find_char_def takeWhile_append)

lemma find_char_time:
  assumes "c \<in> {43, 45}"
  shows "find_char c (pad2 h @ 58 # pad2 mi @ 58 # pad2 sec @ frac_text us) = None"
proof -
  have "\<forall>d \<in> set (pad2 n) \<union> set (pad6 n). d \<noteq> c" for n
    using assms by (auto simp: pad2_def pad4_def pad6_def)
  then show ?thesis using assms by (auto simp: find_char_def frac_text_def)
qed

lemma parse_time_pads:
  assumes "0 \<le> h" "h < 24" "0 \<le> mi" "mi < 60" "0 \<le> sec" "sec < 60" "0 \<le> us" "us < 1000000"
  shows "parse_time ((pad2 h @ 58 # pad2 mi @ 58 # pad2 sec @ frac_text us) @ ascii ''+00:00'') =
    Inr ((h, mi, sec, us), Some 0)" (is "parse_time (?t @ _) = _")
proof -
  have z: "find_char 45 (ascii ''+00:00'') = None" "find_char 43 (ascii ''+00:00'') = Some 0"
    by (simp_all add: ascii_def find_char_def)
  have "tz_position (?t @ ascii ''+00:00'') = Some (length ?t)"
    using find_char_time by (simp only: tz_position_def find_char_append z) simp
  moreover have "2 \<le> length ?t" by simp
  moreover have "drop (Suc (length ?t)) (?t @ ascii ''+00:00'') = [48, 48, 58, 48, 48]"
    by (simp add: ascii_def)
  moreover have "take (length ?t) (?t @ ascii ''+00:00'') = ?t" by simp
  moreover note parse_hms_pads [OF assms] parse_hms_zero
  moreover have "(?t @ ascii ''+00:00'') ! length ?t = 43" by (simp only: nth_append_length ascii_def) (simp add: nth_append)
  ultimately show ?thesis
    by (simp add: parse_time_def Let_def DAY_US_def)
qed

lemma days_in_month_le: "days_in_month y m \<le> 31"
  by (simp add: days_in_month_def)

lemma fromisoformat_isoformat:
  assumes "valid_datetime d" and "utcoffset d = Some 0"
  shows "fromisoformat (isoformat_of d) = Inr d"
proof -
  let ?date = "pad4 (year d) @ 45 # pad2 (month d) @ 45 # pad2 (day d)"
  let ?time = "pad2 (hour d) @ 58 # pad2 (minute d) @ 58 # pad2 (second d) @ frac_text (microsecond d)"
  have iso: "isoformat_of d = ?date @ 84 # ?time @ ascii ''+00:00''"
    by (simp add: isoformat_of_def frac_text_def)
  have loc: "separator_location (?date @ 84 # ?time @ ascii ''+00:00'') = Inr 10"
    using separator_pads by simp
  have date: "parse_date ?date = Inr (year d, month d, day d)"
    using assms(1) days_in_month_le [of "year d" "month d"]
    by (intro parse_date_pads) (auto simp: valid_datetime_def)
  have time: "parse_time (?time @ ascii ''+00:00'') = 
      Inr ((hour d, minute d, second d, microsecond d), Some 0)"
    using assms(1) by (intro parse_time_pads) (auto simp: valid_datetime_def)
  have len: "length ?date = 10" by simp
  have tk: "take 10 (?date @ 84 # ?time @ ascii ''+00:00'') = ?date"
    using len by (metis append_eq_conv_conj)
  have dr: "drop (Suc 10) (?date @ 84 # ?time @ ascii ''+00:00'') = ?time @ ascii ''+00:00''"
    using len by (metis append_eq_conv_conj drop_Suc_Cons drop_drop plus_1_eq_Suc drop0 One_nat_def)
  have ne: "?time @ ascii ''+00:00'' \<noteq> []" by (simp add: ascii_def)
  have d: "\<lparr>year = year d, month = month d, day = day d, hour = hour d, minute = minute d,
      second = second d, microsecond = microsecond d, utcoffset = Some 0\<rparr> = d"
    using assms(2) by simp
  have long: "\<not> length (?date @ 84 # ?time @ ascii ''+00:00'') < 7" by simp
  show ?thesis
    unfolding fromisoformat_def iso
    by (simp only: long loc tk dr ne date time d assms(1) bind_res_simps split Let_def if_True if_False)
qed
subsection \<open>The calendar is right\<close>

text \<open>The month and day of a day of the year, for a leap year and for a common one.\<close>

definition dbm :: "bool \<Rightarrow> int \<Rightarrow> int" where
  "dbm leap m = [0, 31, 59, 90, 120, 151, 181, 212, 243, 273, 304, 334] ! nat (m - 1)
     + (if m > 2 \<and> leap then 1 else 0)"

definition dim :: "bool \<Rightarrow> int \<Rightarrow> int" where
  "dim leap m = (if m = 2 then (if leap then 29 else 28) else if m \<in> {4, 6, 9, 11} then 30 else 31)"

definition month_day :: "bool \<Rightarrow> int \<Rightarrow> int \<times> int" where
  "month_day leap n =
     (let month = (n + 50) div 32; preceding = dbm leap month
      in if preceding > n then (month - 1, n - (preceding - dim leap (month - 1)) + 1)
         else (month, n - preceding + 1))"

definition month_day_ok :: "bool \<Rightarrow> int \<Rightarrow> bool" where
  "month_day_ok leap n =
     (case month_day leap n of (m, d) \<Rightarrow>
        1 \<le> m \<and> m \<le> 12 \<and> 1 \<le> d \<and> d \<le> dim leap m \<and> dbm leap m + d = n + 1)"

lemma twelve: "1 \<le> k \<Longrightarrow> k \<le> 12 \<Longrightarrow> k \<in> {1, 2, 3, 4, 5, 6, 7, 8, 9, 10, 11, 12 :: int}"
proof -
  assume "1 \<le> k" "k \<le> 12"
  then have "k \<in> set [1..12]" by simp
  also have "set [1..12] = {1, 2, 3, 4, 5, 6, 7, 8, 9, 10, 11, 12 :: int}" by code_simp
  finally show ?thesis .
qed

lemma month_day_correct:
  assumes "0 \<le> n" "n < (if leap then 366 else 365)"
  shows "month_day_ok leap n"
proof -
  define k where "k = (n + 50) div 32"
  have k: "32 * k \<le> n + 50" "n + 50 < 32 * k + 32" by (auto simp: k_def)
  then have "1 \<le> k" "k \<le> 12" using assms by (auto split: if_splits)
  then consider "k = 1" | "k = 2" | "k = 3" | "k = 4" | "k = 5" | "k = 6" | "k = 7" | "k = 8"
    | "k = 9" | "k = 10" | "k = 11" | "k = 12"
    using twelve [of k] by (auto simp del: atLeastAtMost_iff)
  then show ?thesis
    unfolding month_day_ok_def month_day_def k_def [symmetric] Let_def
    by cases (use k assms in \<open>cases leap; simp add: dbm_def dim_def\<close>)+
qed

lemma days_leap:
  "days_before_month y m = dbm (is_leap y) m" "days_in_month y m = dim (is_leap y) m"
  by (simp_all add: days_before_month_def days_in_month_def dbm_def dim_def)

lemma days_before_year_parts:
  assumes "0 \<le> n100" "n100 \<le> 3" "0 \<le> n4" "n4 \<le> 24" "0 \<le> n1" "n1 \<le> 3"
  shows "days_before_year (n400 * 400 + 1 + n100 * 100 + n4 * 4 + n1) =
      146097 * n400 + 36524 * n100 + 1461 * n4 + 365 * n1"
proof -
  let ?y = "n400 * 400 + n100 * 100 + n4 * 4 + n1"
  have "?y div 4 = 100 * n400 + 25 * n100 + n4"
    by (rule int_div_pos_eq [where r = n1]) (use assms in simp_all)
  moreover have "?y div 100 = 4 * n400 + n100"
    by (rule int_div_pos_eq [where r = "4 * n4 + n1"]) (use assms in simp_all)
  moreover have "?y div 400 = n400"
    by (rule int_div_pos_eq [where r = "n100 * 100 + n4 * 4 + n1"]) (use assms in simp_all)
  ultimately show ?thesis by (simp add: days_before_year_def Let_def algebra_simps)
qed

lemma mod_0_iff: "\<lbrakk>y = q * k + r; 0 < r; r \<le> k\<rbrakk> \<Longrightarrow> y mod k = 0 \<longleftrightarrow> r = (k :: int)"
  by (cases "r = k") (simp_all add: mod_pos_pos_trivial)

lemma is_leap_parts:
  assumes "0 \<le> n100" "n100 \<le> 3" "0 \<le> n4" "n4 \<le> 24" "0 \<le> n1" "n1 \<le> 3"
  shows "is_leap (n400 * 400 + 1 + n100 * 100 + n4 * 4 + n1) \<longleftrightarrow> n1 = 3 \<and> (n4 \<noteq> 24 \<or> n100 = 3)"
proof -
  let ?y = "n400 * 400 + 1 + n100 * 100 + n4 * 4 + n1"
  have m4: "?y mod 4 = 0 \<longleftrightarrow> 1 + n1 = 4"
    by (rule mod_0_iff [where q = "100 * n400 + 25 * n100 + n4"]) (use assms in simp_all)
  have m100: "?y mod 100 = 0 \<longleftrightarrow> 1 + 4 * n4 + n1 = 100"
    by (rule mod_0_iff [where q = "4 * n400 + n100"]) (use assms in simp_all)
  have m400: "?y mod 400 = 0 \<longleftrightarrow> 1 + n100 * 100 + 4 * n4 + n1 = 400"
    by (rule mod_0_iff [where q = n400]) (use assms in simp_all)
  have "1 + n1 = 4 \<longleftrightarrow> n1 = 3" by simp
  moreover have "1 + 4 * n4 + n1 = 100 \<longleftrightarrow> n4 = 24 \<and> n1 = 3" (is "?l \<longleftrightarrow> ?r")
  proof
    assume l: ?l
    have "n4 = 24" using l assms(3-6) by (simp; linarith)
    with l show ?r by simp
  qed simp
  moreover have "1 + n100 * 100 + 4 * n4 + n1 = 400 \<longleftrightarrow> n100 = 3 \<and> n4 = 24 \<and> n1 = 3" (is "?l \<longleftrightarrow> ?r")
  proof
    assume l: ?l
    have "n100 = 3" using l assms by (simp; linarith)
    moreover from this have "n4 = 24" using l assms(3-6) by (simp; linarith)
    ultimately show ?r using l by simp
  qed simp
  ultimately show ?thesis unfolding is_leap_def m4 m100 m400 by blast
qed

lemma ord2ymd_alt:
  "ord2ymd n =
     (let n400 = (n - 1) div 146097; a = (n - 1) mod 146097;
          n100 = a div 36524; b = a mod 36524;
          n4 = b div 1461; c = b mod 1461;
          n1 = c div 365; r = c mod 365;
          year = n400 * 400 + 1 + n100 * 100 + n4 * 4 + n1
      in if n1 = 4 \<or> n100 = 4 then (year - 1, 12, 31)
         else (year, fst (month_day (is_leap year) r), snd (month_day (is_leap year) r)))"
  unfolding ord2ymd_def month_day_def days_leap Let_def
  by (simp only: fst_conv snd_conv if_distrib [of fst] if_distrib [of snd] split: if_split) blast

lemma ord2ymd_correct:
  assumes "ord2ymd n = (y, m, d)"
  shows "1 \<le> m \<and> m \<le> 12 \<and> 1 \<le> d \<and> d \<le> days_in_month y m \<and> ymd2ord y m d = n"
proof -
  define n400 a where "n400 = (n - 1) div 146097" and "a = (n - 1) mod 146097"
  define n100 b where "n100 = a div 36524" and "b = a mod 36524"
  define n4 c where "n4 = b div 1461" and "c = b mod 1461"
  define n1 r where "n1 = c div 365" and "r = c mod 365"
  have a: "0 \<le> a" "a < 146097" by (simp_all add: a_def)
  have b: "0 \<le> b" "b < 36524" by (simp_all add: b_def)
  have c: "0 \<le> c" "c < 1461" by (simp_all add: c_def)
  have r: "0 \<le> r" "r < 365" by (simp_all add: r_def)
  have ab: "a = 36524 * n100 + b" by (simp add: n100_def b_def)
  have bc: "b = 1461 * n4 + c" by (simp add: n4_def c_def)
  have cr: "c = 365 * n1 + r" by (simp add: n1_def r_def)
  have n: "n = 146097 * n400 + 36524 * n100 + 1461 * n4 + 365 * n1 + r + 1"
  proof -
    have "n - 1 = 146097 * n400 + a" by (simp add: n400_def a_def)
    with ab bc cr show ?thesis by linarith
  qed
  have lo: "0 \<le> n100" "0 \<le> n4" "0 \<le> n1"
    using a b c by (simp_all add: n100_def n4_def n1_def pos_imp_zdiv_nonneg_iff)
  have "n100 \<le> 4" using a(2) b(1) ab by linarith
  moreover have "n4 \<le> 24" using b(2) c(1) bc by linarith
  moreover have "n1 \<le> 4" using c(2) r(1) cr by linarith
  ultimately have bounds: "0 \<le> n100" "n100 \<le> 4" "0 \<le> n4" "n4 \<le> 24" "0 \<le> n1" "n1 \<le> 4"
    using lo by simp_all
  let ?y = "n400 * 400 + 1 + n100 * 100 + n4 * 4 + n1"
  have res: "ord2ymd n =
      (if n1 = 4 \<or> n100 = 4 then (?y - 1, 12, 31)
       else (?y, fst (month_day (is_leap ?y) r), snd (month_day (is_leap ?y) r)))"
    unfolding ord2ymd_alt Let_def n400_def [symmetric] a_def [symmetric] n100_def [symmetric]
      b_def [symmetric] n4_def [symmetric] c_def [symmetric] n1_def [symmetric] r_def [symmetric]
    by (rule refl)
  show ?thesis
  proof (cases "n1 = 4 \<or> n100 = 4")
    case True
    have "n4 = 0 \<and> n1 = 0 \<and> r = 0" if "n100 = 4"
      using that ab bc cr a b c r bounds by (intro conjI; linarith)
    moreover have "r = 0" if "n1 = 4" using that cr c r by linarith
    ultimately have "n100 = 4 \<and> n4 = 0 \<and> n1 = 0 \<and> r = 0 \<or> n100 \<le> 3 \<and> n1 = 4 \<and> r = 0"
      using True bounds by force
    then show ?thesis
    proof
      assume h: "n100 = 4 \<and> n4 = 0 \<and> n1 = 0 \<and> r = 0"
      then have y: "?y - 1 = n400 * 400 + 1 + 3 * 100 + 24 * 4 + 3" by simp
      have "days_before_year (?y - 1) = 146097 * n400 + 36524 * 3 + 1461 * 24 + 365 * 3"
        unfolding y by (rule days_before_year_parts) simp_all
      moreover have "is_leap (?y - 1)" unfolding y by (subst is_leap_parts) simp_all
      ultimately show ?thesis using assms res True h n
        by (auto simp: ymd2ord_def days_before_month_def days_in_month_def)
    next
      assume h: "n100 \<le> 3 \<and> n1 = 4 \<and> r = 0"
      then have y: "?y - 1 = n400 * 400 + 1 + n100 * 100 + n4 * 4 + 3" by simp
      have l: "n4 \<noteq> 24 \<or> n100 = 3" using h bc cr b by linarith
      have "days_before_year (?y - 1) = 146097 * n400 + 36524 * n100 + 1461 * n4 + 365 * 3"
        unfolding y using bounds h by (intro days_before_year_parts) simp_all
      moreover have "is_leap (?y - 1)" unfolding y using bounds h l by (subst is_leap_parts) simp_all
      ultimately show ?thesis using assms res True h n
        by (auto simp: ymd2ord_def days_before_month_def days_in_month_def)
    qed
  next
    case False
    with bounds have le: "n100 \<le> 3" "n1 \<le> 3" by simp_all
    have "month_day_ok (is_leap ?y) r" by (rule month_day_correct) (use r in auto)
    moreover have "days_before_year ?y = 146097 * n400 + 36524 * n100 + 1461 * n4 + 365 * n1"
      using bounds le by (intro days_before_year_parts) simp_all
    ultimately show ?thesis using assms res False n
      by (auto simp: month_day_ok_def ymd2ord_def days_leap)
  qed
qed

lemma div_100_of_4:
  fixes z :: int
  shows "25 * (z div 100) \<le> z div 4" "z div 4 \<le> 25 * (z div 100) + 24"
proof -
  have "z div 100 = z div 4 div 25" using zdiv_zmult2_eq [of 25 z 4] by simp
  then show "25 * (z div 100) \<le> z div 4" "z div 4 \<le> 25 * (z div 100) + 24" by simp_all
qed

lemma days_before_year_low: "y \<le> 0 \<Longrightarrow> days_before_year y \<le> -366"
proof -
  assume y: "y \<le> 0"
  have "(y - 1) div 4 \<le> 25 * ((y - 1) div 100) + 24" by (rule div_100_of_4)
  moreover have "(y - 1) div 100 \<le> -1" "(y - 1) div 400 \<le> -1"
    using y zdiv_mono1 [of "y - 1" "-1" 100] zdiv_mono1 [of "y - 1" "-1" 400] by simp_all
  ultimately show ?thesis using y by (simp add: days_before_year_def Let_def)
qed

lemma days_before_year_high: "10000 \<le> y \<Longrightarrow> 3652059 \<le> days_before_year y"
proof (cases "y = 10000")
  case True
  then show ?thesis by (simp add: days_before_year_def)
next
  case False
  assume "10000 \<le> y"
  with False have y: "10000 \<le> y - 1" by simp
  have "25 * ((y - 1) div 100) \<le> (y - 1) div 4" by (rule div_100_of_4)
  moreover have "100 \<le> (y - 1) div 100" "25 \<le> (y - 1) div 400"
    using y zdiv_mono1 [of 10000 "y - 1" 100] zdiv_mono1 [of 10000 "y - 1" 400] by simp_all
  ultimately show ?thesis using y by (simp add: days_before_year_def Let_def)
qed

lemma day_of_year_bounds:
  assumes "1 \<le> m" "m \<le> 12" "1 \<le> d" "d \<le> days_in_month y m"
  shows "1 \<le> days_before_month y m + d" "days_before_month y m + d \<le> 366"
proof -
  consider "m = 1" | "m = 2" | "m = 3" | "m = 4" | "m = 5" | "m = 6" | "m = 7" | "m = 8"
    | "m = 9" | "m = 10" | "m = 11" | "m = 12"
    using twelve [OF assms(1,2)] by auto
  then have "1 \<le> days_before_month y m + d \<and> days_before_month y m + d \<le> 366"
    using assms(3,4) by cases (auto simp: days_before_month_def days_in_month_def split: if_splits)
  then show "1 \<le> days_before_month y m + d" "days_before_month y m + d \<le> 366" by simp_all
qed

lemma ord2ymd_year:
  assumes "ord2ymd n = (y, m, d)" "1 \<le> n" "n \<le> 3652059"
  shows "1 \<le> y \<and> y \<le> 9999"
proof (rule ccontr)
  note c = ord2ymd_correct [OF assms(1)]
  have b: "1 \<le> days_before_month y m + d" "days_before_month y m + d \<le> 366"
    using c by (auto intro: day_of_year_bounds)
  assume "\<not> (1 \<le> y \<and> y \<le> 9999)"
  then consider "y \<le> 0" | "10000 \<le> y" by linarith
  then show False
    using days_before_year_low [of y] days_before_year_high [of y] b c assms(2,3)
    by cases (simp_all add: ymd2ord_def)
qed

lemma hms_parts:
  fixes s :: int
  shows "(s div 3600 * 60 + s div 60 mod 60) * 60 + s mod 60 = s"
proof -
  have "s div 3600 = s div 60 div 60" using zdiv_zmult2_eq [of 60 s 60] by simp
  then have "s div 3600 * 60 + s div 60 mod 60 = s div 60" by simp
  then show ?thesis by (simp only: div_mult_mod_eq)
qed

lemma wall_us_of_wall_us: "wall_us (of_wall_us z us) = us"
proof -
  obtain y m d where o: "ord2ymd (us div DAY_US + 719163) = (y, m, d)" by (metis prod_cases3)
  have "us div DAY_US * DAY_US + (us mod DAY_US div 1000000 * 1000000 + us mod DAY_US mod 1000000) = us"
    by (simp only: div_mult_mod_eq)
  then show ?thesis
    using ord2ymd_correct [OF o] unfolding wall_us_def of_wall_us_def Let_def o
    by (simp only: split datetime.simps hms_parts add_diff_cancel_right' add.assoc)
qed

lemma valid_of_wall_us:
  assumes "MIN_US \<le> us" "us < MAX_US"
  shows "valid_datetime (of_wall_us (Some 0) us)"
proof -
  obtain y m d where o: "ord2ymd (us div DAY_US + 719163) = (y, m, d)" by (metis prod_cases3)
  have "(1 - 719163) * DAY_US div DAY_US \<le> us div DAY_US"
    using assms(1) by (intro zdiv_mono1) (simp_all add: MIN_US_def DAY_US_def)
  moreover have "us div DAY_US < 3652059 - 719163 + 1"
    using assms(2) by (simp add: MAX_US_def DAY_US_def div_less_iff_less_mult)
  ultimately have "1 \<le> us div DAY_US + 719163" "us div DAY_US + 719163 \<le> 3652059"
    by (simp_all add: DAY_US_def)
  from ord2ymd_year [OF o this] ord2ymd_correct [OF o]
  have date: "1 \<le> y \<and> y \<le> 9999 \<and> 1 \<le> m \<and> m \<le> 12 \<and> 1 \<le> d \<and> d \<le> days_in_month y m" by simp
  define r s where "r = us mod DAY_US" and "s = r div 1000000"
  have r: "0 \<le> r" "r < 86400000000" by (simp_all add: r_def DAY_US_def)
  have s: "0 \<le> s" "s < 86400" using r by (simp_all add: s_def pos_imp_zdiv_nonneg_iff)
  have h: "0 \<le> s div 3600" "s div 3600 < 24" using s by (simp_all add: pos_imp_zdiv_nonneg_iff)
  have "0 \<le> s div 60 mod 60" "s div 60 mod 60 < 60" "0 \<le> s mod 60" "s mod 60 < 60"
    "0 \<le> r mod 1000000" "r mod 1000000 < 1000000" "- DAY_US < 0" "0 < DAY_US"
    by (simp_all add: DAY_US_def)
  with date h show ?thesis
    unfolding valid_datetime_def of_wall_us_def Let_def o r_def [symmetric] s_def [symmetric]
    by (simp only: split datetime.simps option.case simp_thms)
qed

text \<open>An instant that is written is read back as the same instant.\<close>

lemma isoformat_utc_reads_back:
  assumes "MIN_US \<le> us" "us < MAX_US"
  obtains d where "fromisoformat (isoformat_utc us) = Inr d" "utcoffset d = Some 0" "wall_us d = us"
proof -
  have "utcoffset (of_wall_us (Some 0) us) = Some 0"
    by (simp add: of_wall_us_def Let_def split: prod.split)
  then show ?thesis
    using that fromisoformat_isoformat [OF valid_of_wall_us [OF assms]] wall_us_of_wall_us
    by (simp add: isoformat_utc_def)
qed

definition date_range :: "int \<Rightarrow> bool" where
  "date_range us \<longleftrightarrow> MIN_US \<le> us \<and> us < MAX_US"

lemma days_before_year_mono: "y \<le> y' \<Longrightarrow> days_before_year y \<le> days_before_year y'"
proof -
  have step: "days_before_year k \<le> days_before_year (k + 1)" for k
  proof -
    have "(k - 1) div 4 \<le> k div 4" "(k - 1) div 400 \<le> k div 400"
      by (rule zdiv_mono1; simp)+
    moreover have "k div 100 \<le> (k - 1) div 100 + 1" by simp
    ultimately show ?thesis by (simp add: days_before_year_def Let_def)
  qed
  show "y \<le> y' \<Longrightarrow> ?thesis"
    by (induction rule: int_ge_induct) (use step in \<open>auto intro: order_trans\<close>)
qed

lemma ord_of_year:
  assumes "ord2ymd n = (y, m, d)" "1 \<le> y" "y \<le> 9999"
  shows "1 \<le> n \<and> n \<le> 3652059"
proof -
  note c = ord2ymd_correct [OF assms(1)]
  have b: "1 \<le> days_before_month y m + d" using c by (auto intro: day_of_year_bounds)
  have "days_before_year 1 = 0" by (simp add: days_before_year_def)
  then have "0 \<le> days_before_year y" using days_before_year_mono [OF assms(2)] by simp
  then have lo: "1 \<le> n" using c b by (simp add: ymd2ord_def)
  have "n \<le> 3652059"
  proof (cases "y \<le> 9998")
    case True
    have "days_before_year 9999 = 3651694" by (simp add: days_before_year_def)
    then have "days_before_year y + 365 \<le> 3652059"
      using days_before_year_mono [of y 9998] True by (simp add: days_before_year_def)
    moreover have "days_before_month y m + d \<le> 366" using c by (auto intro: day_of_year_bounds)
    moreover have "days_before_year 9998 = 3651329" by (simp add: days_before_year_def)
    ultimately show ?thesis using c days_before_year_mono [of y 9998] True by (simp add: ymd2ord_def)
  next
    case False
    with assms(3) have y: "y = 9999" by simp
    consider "m = 1" | "m = 2" | "m = 3" | "m = 4" | "m = 5" | "m = 6" | "m = 7" | "m = 8"
      | "m = 9" | "m = 10" | "m = 11" | "m = 12"
      using twelve [of m] c by auto
    then show ?thesis using c y
      by cases (auto simp: ymd2ord_def days_before_year_def days_before_month_def days_in_month_def is_leap_def)
  qed
  with lo show ?thesis by simp
qed

lemma fromtimestamp_range: "fromtimestamp_int ts = Inr us \<Longrightarrow> date_range us"
proof -
  assume h: "fromtimestamp_int ts = Inr us"
  obtain y m d where o: "ord2ymd (ts div 86400 + 719163) = (y, m, d)" by (metis prod_cases3)
  from h o have "1 \<le> y" "y \<le> 9999" and us: "us = ts * 1000000"
    by (auto simp: fromtimestamp_int_def Let_def split: if_splits)
  from ord_of_year [OF o this(1,2)]
  have "1 - 719163 \<le> ts div 86400" "ts div 86400 \<le> 3652059 - 719163" by simp_all
  then have "(1 - 719163) * 86400 \<le> ts" "ts < (3652059 - 719163 + 1) * 86400" by simp_all
  then show ?thesis by (simp add: date_range_def MIN_US_def MAX_US_def DAY_US_def us)
qed

end
