(* ===== verification/Revert.thy ===== *)
theory Revert
  imports PyText
begin

text \<open>
  The revert patterns of \<^verbatim>\<open>common/models.py\<close>. A regular expression of Python's
  \<^verbatim>\<open>re\<close> module is a term; \<open>ends\<close> gives the positions where a match that starts
  at a position can end. Only whether there is a match matters here, so the order in which the
  engine tries alternatives does not. The Unicode tables behind \<open>\w\<close> and
  \<open>IGNORECASE\<close> are the record \<open>unicode\<close>.
\<close>

record unicode =
  word_char :: "nat \<Rightarrow> bool"
  same_letter :: "nat \<Rightarrow> nat \<Rightarrow> bool"

datatype rx =
  Lit nat
| OneOf "nat list"
| NoneOfStar "nat list"
| NonWord
| Boundary
| AtStart
| AtEnd
| Opt rx
| Seq "rx list"
| Alt "rx list"

definition char_ok :: "(nat \<Rightarrow> bool) \<Rightarrow> ustr \<Rightarrow> nat \<Rightarrow> nat list" where
  "char_ok p s i = (if i < length s \<and> p (s ! i) then [Suc i] else [])"

definition at_boundary :: "unicode \<Rightarrow> ustr \<Rightarrow> nat \<Rightarrow> bool" where
  "at_boundary U s i \<longleftrightarrow>
     (0 < i \<and> word_char U (s ! (i - 1))) \<noteq> (i < length s \<and> word_char U (s ! i))"

definition at_end :: "ustr \<Rightarrow> nat \<Rightarrow> bool" where
  "at_end s i \<longleftrightarrow> i = length s \<or> Suc i = length s \<and> s ! i = 10"

fun ends :: "unicode \<Rightarrow> rx \<Rightarrow> ustr \<Rightarrow> nat \<Rightarrow> nat list"
  and ends_seq :: "unicode \<Rightarrow> rx list \<Rightarrow> ustr \<Rightarrow> nat \<Rightarrow> nat list"
  and ends_alt :: "unicode \<Rightarrow> rx list \<Rightarrow> ustr \<Rightarrow> nat \<Rightarrow> nat list" where
  "ends U (Lit c) s i = char_ok (same_letter U c) s i"
| "ends U (OneOf cs) s i = char_ok (\<lambda>d. \<exists>c \<in> set cs. same_letter U c d) s i"
| "ends U (NoneOfStar cs) s i =
     map (\<lambda>n. i + n)
       [0 ..< Suc (length (takeWhile (\<lambda>d. \<not> (\<exists>c \<in> set cs. same_letter U c d)) (drop i s)))]"
| "ends U NonWord s i = char_ok (\<lambda>d. \<not> word_char U d) s i"
| "ends U Boundary s i = (if at_boundary U s i then [i] else [])"
| "ends U AtStart s i = (if i = 0 then [i] else [])"
| "ends U AtEnd s i = (if at_end s i then [i] else [])"
| "ends U (Opt r) s i = ends U r s i @ [i]"
| "ends U (Seq rs) s i = ends_seq U rs s i"
| "ends U (Alt rs) s i = ends_alt U rs s i"
| "ends_seq U [] s i = [i]"
| "ends_seq U (r # rs) s i = concat (map (ends_seq U rs s) (ends U r s i))"
| "ends_alt U [] s i = []"
| "ends_alt U (r # rs) s i = ends U r s i @ ends_alt U rs s i"

text \<open>\<open>pattern.search(s)\<close> finds a match.\<close>

definition search :: "unicode \<Rightarrow> rx \<Rightarrow> ustr \<Rightarrow> bool" where
  "search U r s \<longleftrightarrow> list_ex (\<lambda>i. ends U r s i \<noteq> []) [0 ..< Suc (length s)]"

abbreviation lits :: "ustr \<Rightarrow> rx" where
  "lits cs \<equiv> Seq (map Lit cs)"

abbreviation litstr :: "string \<Rightarrow> rx" where
  "litstr s \<equiv> lits (ascii s)"

subsection \<open>The phrases\<close>

definition EN_WORDS :: "rx list" where
  "EN_WORDS =
     [Seq [litstr ''revert'', Opt (Alt [litstr ''ed'', litstr ''ing''])],
      litstr ''undid revision'', litstr ''undo'',
      Seq [litstr ''rv'', Opt (OneOf (ascii ''tv''))],
      litstr ''rollback'']"

definition EN :: rx where
  "EN = Seq [Alt [AtStart, NonWord], Alt EN_WORDS, Alt [NonWord, AtEnd]]"

definition WIKIDATA :: rx where
  "WIKIDATA = Seq [litstr ''/* '', Alt [litstr ''undo'', litstr ''restore''], litstr '':'']"

definition DE :: rx where
  "DE = Alt
     [Seq [litstr ''r'', lits [252], litstr ''ckg'', lits [228], litstr ''ngig gemacht''],
      Seq [Boundary, litstr ''wurde verworfen'', Boundary]]"

definition ES_PT :: rx where
  "ES_PT = Alt
     [Seq [Boundary, litstr ''revertid'', OneOf (ascii ''oa''), Opt (litstr ''s''), Boundary],
      Seq [Boundary, litstr ''deshecha la edici'', OneOf [111, 243], litstr ''n''],
      Seq [Boundary, litstr ''desfeita a edi'', OneOf [99, 231], OneOf [97, 227], litstr ''o'']]"

definition FR :: rx where
  "FR = Alt
     [Seq [Boundary, litstr ''r'', OneOf [233, 101], litstr ''vocation des modifications''],
      Seq [Boundary, litstr ''annulation de la '',
           Opt (Seq [litstr ''[['', NoneOfStar (ascii '']|''), litstr ''|'']), litstr ''modification'']]"

definition IT :: rx where
  "IT = Seq [Boundary, litstr ''annullat'', OneOf (ascii ''ae''), litstr '' l'', OneOf (ascii ''ae''),
             litstr '' modific'']"

definition NL :: rx where
  "NL = Seq [Boundary, litstr ''ongedaan gemaakt'', Boundary]"

definition PL :: rx where
  "PL = Alt
     [Seq [Boundary, litstr ''wycofano '', Alt [litstr ''edycj'', litstr ''ostatni'']],
      Seq [Boundary, litstr ''anulowanie wersji'']]"

definition CS :: rx where
  "CS = Seq [litstr ''vr'', OneOf [97, 225], litstr ''cen'', Opt (OneOf (ascii ''ya'')), litstr '' do p'',
             lits [345], litstr ''edchoz'', lits [237], litstr ''ho stavu'']"

definition RU :: rx where
  "RU = Alt
     [Seq [Boundary, lits [1086, 1090, 1084, 1077, 1085, 1072], litstr '' '',
           lits [1087, 1088, 1072, 1074, 1082, 1080], Boundary],
      Seq [Boundary, lits [1086, 1090, 1082, 1072, 1090], litstr '' '',
           lits [1087, 1088, 1072, 1074, 1086, 1082], Boundary]]"

definition ZH :: rx where
  "ZH = Alt
     [lits [22238, 36864], lits [25764, 38144], lits [25764, 37559], lits [36996, 21407],
      lits [36824, 21407]]"

definition JA :: rx where
  "JA = Alt [lits [21462, 12426, 28040, 12375], lits [24059, 12365, 25147, 12375]]"

definition REVERT_PHRASES :: "rx list" where
  "REVERT_PHRASES = [EN, WIKIDATA, DE, ES_PT, FR, IT, NL, PL, CS, RU, ZH, JA]"

definition REVERT_PATTERNS :: rx where
  "REVERT_PATTERNS = Alt REVERT_PHRASES"

definition is_revert_comment :: "unicode \<Rightarrow> ustr \<Rightarrow> bool" where
  "is_revert_comment U comment = search U REVERT_PATTERNS comment"

subsection \<open>Facts on the matcher\<close>

named_theorems rx_simps \<open>what a regular expression matches at a position\<close>

lemma ends_seq_append:
  "set (ends_seq U (rs @ rs') s i) = (\<Union>j \<in> set (ends_seq U rs s i). set (ends_seq U rs' s j))"
  by (induction rs arbitrary: i) auto

lemma ends_alt_set: "set (ends_alt U rs s i) = (\<Union>r \<in> set rs. set (ends U r s i))"
  by (induction rs) auto

lemma nonempty_member: "xs \<noteq> [] \<Longrightarrow> \<exists>j. j \<in> set xs"
  by (cases xs) auto

lemma searchI: "\<lbrakk>i \<le> length s; j \<in> set (ends U r s i)\<rbrakk> \<Longrightarrow> search U r s"
  unfolding search_def list_ex_iff by (rule bexI [of _ i]) (auto simp del: upt_Suc)

lemma searchE:
  assumes "search U r s"
  obtains i j where "i \<le> length s" "j \<in> set (ends U r s i)"
proof -
  from assms obtain i where i: "i \<in> set [0 ..< Suc (length s)]" "ends U r s i \<noteq> []"
    unfolding search_def list_ex_iff by blast
  moreover from i(1) have "i \<le> length s" by (auto simp del: upt_Suc)
  ultimately show ?thesis using that nonempty_member by blast
qed

lemma ends_Seq3:
  "\<lbrakk>k \<in> set (ends U a s i); l \<in> set (ends U b s k); j \<in> set (ends U c s l)\<rbrakk>
   \<Longrightarrow> j \<in> set (ends U (Seq [a, b, c]) s i)"
  by auto

lemma search_Alt: "search U (Alt rs) s \<longleftrightarrow> (\<exists>r \<in> set rs. search U r s)"
proof -
  have "ends_alt U rs s i \<noteq> [] \<longleftrightarrow> (\<exists>r \<in> set rs. ends U r s i \<noteq> [])" for i
    by (simp only: set_empty [symmetric] ends_alt_set) simp
  then show ?thesis by (auto simp: search_def list_ex_iff)
qed

text \<open>A literal text is found where each letter of the subject is the same letter.\<close>

lemma ends_lits:
  "list_all2 (same_letter U) cs w \<Longrightarrow>
   ends_seq U (map Lit cs) (pre @ w @ post) (length pre) = [length pre + length w]"
proof (induction cs w arbitrary: pre rule: list_all2_induct)
  case (Cons c cs d w)
  have "ends_seq U (map Lit cs) ((pre @ [d]) @ w @ post) (length (pre @ [d])) =
      [length (pre @ [d]) + length w]"
    by (rule Cons.IH)
  with Cons.hyps show ?case by (simp add: char_ok_def nth_append)
qed simp

text \<open>The least number of characters a match consumes.\<close>

fun min_len :: "rx \<Rightarrow> nat" where
  "min_len (Lit c) = 1"
| "min_len (OneOf cs) = 1"
| "min_len (NoneOfStar cs) = 0"
| "min_len NonWord = 1"
| "min_len Boundary = 0"
| "min_len AtStart = 0"
| "min_len AtEnd = 0"
| "min_len (Opt r) = 0"
| "min_len (Seq rs) = sum_list (map min_len rs)"
| "min_len (Alt rs) = (if rs = [] then 0 else Min (set (map min_len rs)))"

lemma ends_bounds:
  "j \<in> set (ends U r s i) \<Longrightarrow> i \<le> length s \<Longrightarrow> i + min_len r \<le> j \<and> j \<le> length s"
  "j \<in> set (ends_seq U rs s i) \<Longrightarrow> i \<le> length s \<Longrightarrow> i + min_len (Seq rs) \<le> j \<and> j \<le> length s"
  "j \<in> set (ends_alt U rs s i) \<Longrightarrow> i \<le> length s \<Longrightarrow> i + min_len (Alt rs) \<le> j \<and> j \<le> length s"
proof (induction U r s i and U rs s i and U rs s i arbitrary: j and j and j
    rule: ends_ends_seq_ends_alt.induct)
  case (3 U cs s i)
  then have "j \<le> i + length (takeWhile (\<lambda>d. \<not> (\<exists>c \<in> set cs. same_letter U c d)) (drop i s))" "i \<le> j"
    by auto
  moreover have "length (takeWhile (\<lambda>d. \<not> (\<exists>c \<in> set cs. same_letter U c d)) (drop i s)) \<le> length s - i"
    using length_takeWhile_le [of _ "drop i s"] by simp
  ultimately show ?case using 3(2) by simp
next
  case (8 U r s i)
  then show ?case using add_leD1 by fastforce
next
  case (12 U r rs s i)
  then obtain k where k: "k \<in> set (ends U r s i)" "j \<in> set (ends_seq U rs s k)" by auto
  from 12(1) [OF k(1) 12(4)] 12(2) [OF k] show ?case using k by simp
next
  case (14 U r rs s i)
  then consider "j \<in> set (ends U r s i)" | "j \<in> set (ends_alt U rs s i)" by auto
  then show ?case
  proof cases
    case 1
    moreover have "min_len (Alt (r # rs)) \<le> min_len r" by (cases rs) auto
    ultimately show ?thesis using 14(1) [OF 1 14(4)] by linarith
  next
    case 2
    then have "rs \<noteq> []" by auto
    then have "min_len (Alt (r # rs)) \<le> min_len (Alt rs)" by (cases rs) auto
    with 14(2) [OF 2 14(4)] show ?thesis by linarith
  qed
qed (auto simp: char_ok_def split: if_splits)

lemma min_len_lits [simp]: "sum_list (map (min_len \<circ> Lit) cs) = length cs"
  by (induction cs) simp_all

lemma length_ascii [simp]: "length (ascii s) = length s"
  by (simp add: ascii_def)

lemma min_len_patterns: "2 \<le> min_len REVERT_PATTERNS"
  by (simp add: REVERT_PATTERNS_def REVERT_PHRASES_def EN_def EN_WORDS_def WIKIDATA_def DE_def
      ES_PT_def FR_def IT_def NL_def PL_def CS_def RU_def ZH_def JA_def)

subsection \<open>What counts as a revert\<close>

lemma last_boundary: "ends U (Alt [NonWord, AtEnd]) (s @ post) (length s) \<noteq> []"
  if "post = [] \<or> \<not> word_char U (hd post)"
  using that by (cases post) (auto simp: char_ok_def nth_append at_end_def)

text \<open>The English words and phrases.\<close>

definition EN_PHRASES :: "ustr list" where
  "EN_PHRASES =
     map ascii [''revert'', ''reverted'', ''reverting'', ''undid revision'', ''undo'', ''rv'',
                ''rvt'', ''rvv'', ''rollback'']"

lemma ends_Opt_Seq:
  assumes "list_all2 (same_letter U) (c1 @ c2) w"
    and "\<And>pre w2. list_all2 (same_letter U) c2 w2 \<Longrightarrow>
      length pre + length w2 \<in> set (ends U r (pre @ w2 @ post) (length pre))"
  shows "length pre + length w \<in> set (ends_seq U [lits c1, Opt r] (pre @ w @ post) (length pre))"
proof -
  obtain w1 w2 where w: "w = w1 @ w2" and l: "list_all2 (same_letter U) c1 w1"
    "list_all2 (same_letter U) c2 w2"
    using assms(1) by (auto simp: list_all2_append1)
  have "ends_seq U (map Lit c1) (pre @ w @ post) (length pre) = [length pre + length w1]"
    using ends_lits [OF l(1), of pre "w2 @ post"] w by simp
  with assms(2) [OF l(2), of "pre @ w1"] w show ?thesis by (simp add: add.assoc)
qed

lemma ends_word:
  assumes "c \<in> set EN_PHRASES" and "list_all2 (same_letter U) c w"
  shows "length pre + length w \<in> set (ends_alt U EN_WORDS (pre @ w @ post) (length pre))"
proof -
  let ?s = "pre @ w @ post"
  have lit: "length pre + length w \<in> set (ends U (lits c) ?s (length pre))"
    using ends_lits [OF assms(2)] by simp
  have opt: "length pre + length w \<in> set (ends U (Seq [lits c1, Opt r]) ?s (length pre))"
    if "c = c1" for c1 r
    using ends_lits [OF assms(2), of pre post] that by simp
  have suffix: "length pre + length w2 \<in> set (ends U (Alt [litstr ''ed'', litstr ''ing'']) (pre @ w2 @ post) (length pre))"
    if "c2 \<in> {ascii ''ed'', ascii ''ing''}" "list_all2 (same_letter U) c2 w2" for c2 w2 pre
    using that ends_lits [OF that(2), of pre post] by auto
  have letter: "length pre + length w2 \<in> set (ends U (OneOf (ascii ''tv'')) (pre @ w2 @ post) (length pre))"
    if "c2 \<in> {ascii ''t'', ascii ''v''}" "list_all2 (same_letter U) c2 w2" for c2 w2 pre
    using that by (auto simp: ascii_def list_all2_Cons1 char_ok_def nth_append)
  have words: "ascii ''reverted'' = ascii ''revert'' @ ascii ''ed''"
    "ascii ''reverting'' = ascii ''revert'' @ ascii ''ing''"
    "ascii ''rvt'' = ascii ''rv'' @ ascii ''t''" "ascii ''rvv'' = ascii ''rv'' @ ascii ''v''"
    by (simp_all add: ascii_def)
  let ?found = "\<exists>r \<in> set EN_WORDS. length pre + length w \<in> set (ends U r ?s (length pre))"
  have found: ?found if "r \<in> set EN_WORDS" "length pre + length w \<in> set (ends U r ?s (length pre))" for r
    using that by blast
  have in_words: "Seq [litstr ''revert'', Opt (Alt [litstr ''ed'', litstr ''ing''])] \<in> set EN_WORDS"
    "litstr ''undid revision'' \<in> set EN_WORDS" "litstr ''undo'' \<in> set EN_WORDS"
    "Seq [litstr ''rv'', Opt (OneOf (ascii ''tv''))] \<in> set EN_WORDS"
    "litstr ''rollback'' \<in> set EN_WORDS"
    unfolding EN_WORDS_def list.set by blast+
  have revert: ?found if "c = ascii ''revert'' @ c2" "c2 \<in> {ascii ''ed'', ascii ''ing''}" for c2
    by (rule found [OF in_words(1)], unfold ends.simps(9), rule ends_Opt_Seq)
      (use assms(2) that suffix in auto)
  have rv: ?found if "c = ascii ''rv'' @ c2" "c2 \<in> {ascii ''t'', ascii ''v''}" for c2
    by (rule found [OF in_words(4)], unfold ends.simps(9), rule ends_Opt_Seq)
      (use assms(2) that letter in auto)
  have "c = ascii ''revert'' \<or> c = ascii ''reverted'' \<or> c = ascii ''reverting'' \<or>
      c = ascii ''undid revision'' \<or> c = ascii ''undo'' \<or> c = ascii ''rv'' \<or> c = ascii ''rvt'' \<or>
      c = ascii ''rvv'' \<or> c = ascii ''rollback''"
    using assms(1) by (simp only: EN_PHRASES_def list.map list.set insert_iff empty_iff simp_thms)
  then have ?found
  proof (elim disjE)
    assume "c = ascii ''revert''" then show ?found by (intro found [OF in_words(1)] opt)
  next
    assume "c = ascii ''reverted''" then show ?found using revert words by blast
  next
    assume "c = ascii ''reverting''" then show ?found using revert words by blast
  next
    assume "c = ascii ''undid revision''" with lit show ?found by (intro found [OF in_words(2)]) simp
  next
    assume "c = ascii ''undo''" with lit show ?found by (intro found [OF in_words(3)]) simp
  next
    assume "c = ascii ''rv''" then show ?found by (intro found [OF in_words(4)] opt)
  next
    assume "c = ascii ''rvt''" then show ?found using rv words by blast
  next
    assume "c = ascii ''rvv''" then show ?found using rv words by blast
  next
    assume "c = ascii ''rollback''" with lit show ?found by (intro found [OF in_words(5)]) simp
  qed
  then show ?thesis by (simp only: ends_alt_set) blast
qed

lemma word_is_revert:
  assumes "phrase \<in> set EN_PHRASES" and "list_all2 (same_letter U) phrase w"
    and "pre = [] \<or> \<not> word_char U (last pre)" and "post = [] \<or> \<not> word_char U (hd post)"
  shows "is_revert_comment U (pre @ w @ post)"
proof -
  let ?s = "pre @ w @ post"
  have "\<exists>i \<le> length pre. length pre \<in> set (ends U (Alt [AtStart, NonWord]) ?s i)"
  proof (cases pre rule: rev_cases)
    case (snoc p c)
    with assms(3) have "length pre \<in> set (ends U (Alt [AtStart, NonWord]) ?s (length p))"
      by (simp add: char_ok_def nth_append)
    with snoc show ?thesis by (intro exI [of _ "length p"]) simp
  qed simp
  then obtain i where i: "i \<le> length pre" "length pre \<in> set (ends U (Alt [AtStart, NonWord]) ?s i)"
    by blast
  have "ends U (Alt [NonWord, AtEnd]) ((pre @ w) @ post) (length (pre @ w)) \<noteq> []"
    using assms(4) by (rule last_boundary)
  then have "ends U (Alt [NonWord, AtEnd]) ?s (length pre + length w) \<noteq> []"
    by (simp only: append.assoc length_append simp_thms)
  then obtain j where j: "j \<in> set (ends U (Alt [NonWord, AtEnd]) ?s (length pre + length w))"
    using nonempty_member by blast
  have "length pre + length w \<in> set (ends U (Alt EN_WORDS) ?s (length pre))"
    using ends_word [OF assms(1,2)] by (simp only: ends.simps(10))
  from ends_Seq3 [OF i(2) this j] have "j \<in> set (ends U EN ?s i)" unfolding EN_def .
  then have "search U EN ?s" using i(1) by (intro searchI) auto
  then show ?thesis
    unfolding is_revert_comment_def REVERT_PATTERNS_def search_Alt REVERT_PHRASES_def by simp
qed

text \<open>
  C27. An English revert summary is recognised wherever the word stands on its own, whatever its
  letter case: if the comment contains one of the words or phrases (\<open>revert\<close>,
  \<open>reverted\<close>, \<open>reverting\<close>, \<open>undid revision\<close>, \<open>undo\<close>, \<open>rv\<close>,
  \<open>rvt\<close>, \<open>rvv\<close>, \<open>rollback\<close>), letter for letter up to case, with the start
  or end of the comment or a character that is not a word character on either side, then
  \<open>is_revert_comment\<close> holds. The context does not matter, so a notice about a revert is taken
  for one, against what the comment over the patterns says of such a notice
  (\<open>revert_notice_taken_for_revert\<close>).
\<close>

theorem revert_word_recognised:
  assumes "phrase \<in> set EN_PHRASES" and "list_all2 (same_letter U) phrase w"
    and "pre = [] \<or> \<not> word_char U (last pre)" and "post = [] \<or> \<not> word_char U (hd post)"
  shows "is_revert_comment U (pre @ w @ post)"
  using assms by (rule word_is_revert)

definition ascii_unicode :: unicode where
  "ascii_unicode =
     \<lparr>word_char = (\<lambda>c. is_digit c \<or> 65 \<le> c \<and> c \<le> 90 \<or> 97 \<le> c \<and> c \<le> 122 \<or> c = 95),
      same_letter = (\<lambda>c d. c = d \<or> 97 \<le> c \<and> c \<le> 122 \<and> d + 32 = c)\<rparr>"

theorem revert_word_recognised_witness:
  "is_revert_comment ascii_unicode (ascii ''(Reverted edits by X)'')"
  using revert_word_recognised [of "ascii ''reverted''" ascii_unicode "ascii ''Reverted''" "ascii ''(''"
      "ascii '' edits by X)''"]
  by (simp add: EN_PHRASES_def ascii_def ascii_unicode_def is_digit_def)

text \<open>
  The example the comment over the patterns gives of what does not match, a talk page notice saying
  \<open>your edit was reverted\<close>, matches: the English phrase stands on its own in it.
\<close>

lemma revert_notice_taken_for_revert:
  "is_revert_comment ascii_unicode (ascii ''your edit was reverted'')"
proof -
  have "is_revert_comment ascii_unicode (ascii ''your edit was '' @ ascii ''reverted'' @ [])"
    by (rule word_is_revert [where phrase = "ascii ''reverted''"])
      (simp_all add: EN_PHRASES_def ascii_def ascii_unicode_def is_digit_def)
  then show ?thesis by (simp add: ascii_def)
qed

text \<open>
  No comment of fewer than two characters is a revert, in particular not the empty one,
  which is what \<open>comment or ""\<close> makes of a missing comment: every phrase of every language
  has at least two characters.
\<close>

theorem revert_needs_two_characters:
  assumes "length comment < 2"
  shows "\<not> is_revert_comment U comment"
proof
  assume "is_revert_comment U comment"
  then obtain i j where i: "i \<le> length comment" and j: "j \<in> set (ends U REVERT_PATTERNS comment i)"
    unfolding is_revert_comment_def by (rule searchE)
  from ends_bounds(1) [OF j i] have "min_len REVERT_PATTERNS \<le> length comment" by linarith
  moreover have "2 \<le> min_len REVERT_PATTERNS" by (rule min_len_patterns)
  ultimately show False using assms by linarith
qed

theorem revert_needs_two_characters_witness: "\<not> is_revert_comment ascii_unicode [114]"
  by (rule revert_needs_two_characters) simp

end
