(* ===== verification/Models.thy ===== *)
theory Models
  imports PyJson PyTime Revert
begin

text \<open>
  \<^verbatim>\<open>common/models.py\<close>: parsing and validating recent-change events. An exception is a
  \<open>ParseError\<close> with its reason, which the cleaner expects, or an exception of the
  standard library, which it does not. What the code asks of the interpreter beyond the modelled
  standard library is the record \<open>runtime\<close>: the Unicode tables, the local time zone,
  \<open>str\<close> and \<open>repr\<close> of values that are not strings, and the float conversions.
\<close>

record runtime =
  rt_unicode :: unicode
  rt_local :: "datetime \<Rightarrow> pyexc + int"     \<comment> \<open>a naive time as an instant in microseconds\<close>
  rt_naive_ms :: "datetime \<Rightarrow> pyexc + int"  \<comment> \<open>\<open>int(dt.timestamp() * 1000)\<close> of a naive time\<close>
  rt_str :: "json \<Rightarrow> ustr"
  rt_repr :: "json \<Rightarrow> ustr"
  rt_json_error :: "ustr \<Rightarrow> ustr"           \<comment> \<open>the message for a text that is not JSON\<close>
  rt_float_zero :: "ustr \<Rightarrow> bool"
  rt_float_repr :: "ustr \<Rightarrow> ustr"
  rt_wide :: "encoding \<Rightarrow> bytes \<Rightarrow> pyexc + ustr"

datatype parse_reason =
  MissingMetaId
| BadMetaId
| NotUtf8
| NotText
| InvalidJson ustr
| NotAnObject
| UnknownType json
| MissingWiki
| MissingTitle
| BadNamespace
| ExpectedInt json
| NoEventTime

datatype exc = ParseError parse_reason | Py pyexc

fun type_name :: "json \<Rightarrow> ustr" where
  "type_name JNull = ascii ''NoneType''"
| "type_name (JBool _) = ascii ''bool''"
| "type_name (JInt _) = ascii ''int''"
| "type_name (JFloat _) = ascii ''float''"
| "type_name (JNonFinite _) = ascii ''float''"
| "type_name (JStr _) = ascii ''str''"
| "type_name (JList _) = ascii ''list''"
| "type_name (JObj _) = ascii ''dict''"

text \<open>\<open>str(exc)\<close> of a \<open>ParseError\<close>.\<close>

fun reason_text :: "runtime \<Rightarrow> parse_reason \<Rightarrow> ustr" where
  "reason_text rt MissingMetaId = ascii ''missing meta.id''"
| "reason_text rt BadMetaId = ascii ''meta.id is not a non-empty string''"
| "reason_text rt NotUtf8 = ascii ''value is not valid utf-8''"
| "reason_text rt NotText =
     ascii ''invalid json: the JSON object must be str, bytes or bytearray, not NoneType''"
| "reason_text rt (InvalidJson s) = ascii ''invalid json: '' @ rt_json_error rt s"
| "reason_text rt NotAnObject = ascii ''event is not a json object''"
| "reason_text rt (UnknownType v) = ascii ''unknown event type: '' @ rt_repr rt v"
| "reason_text rt MissingWiki = ascii ''missing wiki''"
| "reason_text rt MissingTitle = ascii ''missing title''"
| "reason_text rt BadNamespace = ascii ''namespace is not an int''"
| "reason_text rt (ExpectedInt v) = ascii ''expected int, got '' @ type_name v"
| "reason_text rt NoEventTime = ascii ''no usable event time''"

definition EVENT_TYPES :: "ustr list" where
  "EVENT_TYPES = map ascii [''edit'', ''new'', ''log'', ''categorize'']"

definition CANARY_DOMAIN :: ustr where
  "CANARY_DOMAIN = ascii ''canary''"

type_synonym raw = "(ustr, json) pydict"

text \<open>\<open>raw.get(name)\<close>\<close>

definition field_of :: "raw \<Rightarrow> string \<Rightarrow> json" where
  "field_of raw name = get_default raw (ascii name) JNull"

definition is_canary :: "raw \<Rightarrow> bool" where
  "is_canary raw =
     (case field_of raw ''meta'' of
        JObj meta \<Rightarrow> field_of meta ''domain'' = JStr CANARY_DOMAIN
      | _ \<Rightarrow> False)"

subsection \<open>Clean events\<close>

record CleanEvent =
  event_id :: ustr
  wiki :: ustr
  title :: ustr
  etype :: ustr
  namespace :: int
  user :: ustr
  bot :: bool
  minor :: bool
  comment :: ustr
  event_time :: ustr
  rev_old :: "int option"
  rev_new :: "int option"
  length_old :: "int option"
  length_new :: "int option"
  server_name :: ustr
  log_type :: "ustr option"
  log_action :: "ustr option"

definition page_key :: "CleanEvent \<Rightarrow> ustr" where
  "page_key e = wiki e @ [58] @ title e"

definition is_revert :: "runtime \<Rightarrow> CleanEvent \<Rightarrow> bool" where
  "is_revert rt e \<longleftrightarrow> etype e = ascii ''edit'' \<and> is_revert_comment (rt_unicode rt) (comment e)"

definition size_delta :: "CleanEvent \<Rightarrow> int option" where
  "size_delta e =
     (case (length_old e, length_new e) of (Some a, Some b) \<Rightarrow> Some (b - a) | _ \<Rightarrow> None)"

definition opt_int_json :: "int option \<Rightarrow> json" where
  "opt_int_json x = (case x of None \<Rightarrow> JNull | Some n \<Rightarrow> JInt n)"

definition opt_str_json :: "ustr option \<Rightarrow> json" where
  "opt_str_json x = (case x of None \<Rightarrow> JNull | Some s \<Rightarrow> JStr s)"

definition asdict :: "CleanEvent \<Rightarrow> (ustr, json) pydict" where
  "asdict e =
     [(ascii ''event_id'', JStr (event_id e)), (ascii ''wiki'', JStr (wiki e)),
      (ascii ''title'', JStr (title e)), (ascii ''type'', JStr (etype e)),
      (ascii ''namespace'', JInt (namespace e)), (ascii ''user'', JStr (user e)),
      (ascii ''bot'', JBool (bot e)), (ascii ''minor'', JBool (minor e)),
      (ascii ''comment'', JStr (comment e)), (ascii ''event_time'', JStr (event_time e)),
      (ascii ''rev_old'', opt_int_json (rev_old e)), (ascii ''rev_new'', opt_int_json (rev_new e)),
      (ascii ''length_old'', opt_int_json (length_old e)),
      (ascii ''length_new'', opt_int_json (length_new e)),
      (ascii ''server_name'', JStr (server_name e)),
      (ascii ''log_type'', opt_str_json (log_type e)),
      (ascii ''log_action'', opt_str_json (log_action e))]"

definition to_json :: "runtime \<Rightarrow> CleanEvent \<Rightarrow> pyexc + bytes" where
  "to_json rt e = utf8_encode (dumps (rt_float_repr rt) (JObj (asdict e)))"

definition required_fields :: "ustr list" where
  "required_fields =
     map ascii [''event_id'', ''wiki'', ''title'', ''type'', ''namespace'', ''user'', ''bot'',
                ''minor'', ''comment'', ''event_time'', ''rev_old'', ''rev_new'', ''length_old'',
                ''length_new'', ''server_name'']"

definition optional_fields :: "ustr list" where
  "optional_fields = map ascii [''log_type'', ''log_action'']"

fun as_str :: "json \<Rightarrow> ustr option" where
  "as_str (JStr s) = Some s"
| "as_str _ = None"

fun as_int :: "json \<Rightarrow> int option" where
  "as_int (JInt n) = Some n"
| "as_int _ = None"

fun as_bool :: "json \<Rightarrow> bool option" where
  "as_bool (JBool b) = Some b"
| "as_bool _ = None"

fun as_opt_int :: "json \<Rightarrow> int option option" where
  "as_opt_int JNull = Some None"
| "as_opt_int (JInt n) = Some (Some n)"
| "as_opt_int _ = None"

fun as_opt_str :: "json \<Rightarrow> ustr option option" where
  "as_opt_str JNull = Some None"
| "as_opt_str (JStr s) = Some (Some s)"
| "as_opt_str _ = None"

text \<open>
  The dataclass does not check the types of its fields. An object whose fields have the declared
  types is a \<open>CleanEvent\<close>; one with other types, which no producer of \<^verbatim>\<open>wiki.clean\<close>
  writes, is \<open>None\<close>.
\<close>

definition typed_event :: "(ustr, json) pydict \<Rightarrow> CleanEvent option" where
  "typed_event d =
     (let f = field_of d
      in case (as_str (f ''event_id''), as_str (f ''wiki''), as_str (f ''title''), as_str (f ''type''),
               as_int (f ''namespace''), as_str (f ''user''), as_bool (f ''bot''), as_bool (f ''minor''),
               as_str (f ''comment''), as_str (f ''event_time''), as_opt_int (f ''rev_old''),
               as_opt_int (f ''rev_new''), as_opt_int (f ''length_old''), as_opt_int (f ''length_new''),
               as_str (f ''server_name''), as_opt_str (f ''log_type''), as_opt_str (f ''log_action''))
         of (Some v1, Some v2, Some v3, Some v4, Some v5, Some v6, Some v7, Some v8, Some v9, Some v10,
             Some v11, Some v12, Some v13, Some v14, Some v15, Some v16, Some v17) \<Rightarrow>
              Some \<lparr>event_id = v1, wiki = v2, title = v3, etype = v4, namespace = v5, user = v6,
                    bot = v7, minor = v8, comment = v9, event_time = v10, rev_old = v11,
                    rev_new = v12, length_old = v13, length_new = v14, server_name = v15,
                    log_type = v16, log_action = v17\<rparr>
          | _ \<Rightarrow> None)"

text \<open>A Kafka value may be absent; \<open>json.loads(None)\<close> is a \<open>TypeError\<close>.\<close>

definition from_json :: "runtime \<Rightarrow> bytes option \<Rightarrow> pyexc + CleanEvent option" where
  "from_json rt payload =
     (case payload of
        None \<Rightarrow> Inl TypeError
      | Some b \<Rightarrow>
          bind_res (json_loads_bytes (rt_wide rt) b) (\<lambda>v.
            case v of
              JObj d \<Rightarrow>
                if list_all (\<lambda>k. k \<in> set required_fields \<union> set optional_fields) (map fst d)
                   \<and> list_all (\<lambda>k. map_of d k \<noteq> None) required_fields
                then Inr (typed_event d)
                else Inl TypeError
            | _ \<Rightarrow> Inl TypeError))"

subsection \<open>Validation\<close>

definition event_id_of :: "raw \<Rightarrow> exc + ustr" where
  "event_id_of raw =
     (case map_of raw (ascii ''meta'') of
        Some (JObj meta) \<Rightarrow>
          (case map_of meta (ascii ''id'') of
             None \<Rightarrow> Inl (ParseError MissingMetaId)
           | Some (JStr s) \<Rightarrow> if s = [] then Inl (ParseError BadMetaId) else Inr s
           | Some _ \<Rightarrow> Inl (ParseError BadMetaId))
      | _ \<Rightarrow> Inl (ParseError MissingMetaId))"

fun optional_int :: "json \<Rightarrow> exc + int option" where
  "optional_int JNull = Inr None"
| "optional_int (JInt n) = Inr (Some n)"
| "optional_int v = Inl (ParseError (ExpectedInt v))"

fun optional_str :: "json \<Rightarrow> ustr option" where
  "optional_str (JStr s) = (if s = [] then None else Some s)"
| "optional_str _ = None"

definition replace_z :: "ustr \<Rightarrow> ustr" where
  "replace_z s = concat (map (\<lambda>c. if c = 90 then ascii ''+00:00'' else [c]) s)"

fun of_timestamp :: "json \<Rightarrow> exc + ustr" where
  "of_timestamp (JInt ts) = map_sum Py isoformat_utc (fromtimestamp_int ts)"
| "of_timestamp _ = Inl (ParseError NoEventTime)"

definition event_time_of :: "runtime \<Rightarrow> raw \<Rightarrow> exc + ustr" where
  "event_time_of rt raw =
     (case get_default raw (ascii ''meta'') (JObj []) of
        JObj meta \<Rightarrow>
          (case field_of meta ''dt'' of
             JStr dt \<Rightarrow>
               (case bind_res (fromisoformat (replace_z dt)) (astimezone_utc (rt_local rt)) of
                  Inr us \<Rightarrow> Inr (isoformat_utc us)
                | Inl e \<Rightarrow>
                    if is_value_error e then of_timestamp (field_of raw ''timestamp'')
                    else Inl (Py e))
           | _ \<Rightarrow> of_timestamp (field_of raw ''timestamp''))
      | _ \<Rightarrow> Inl (Py AttributeError))"

text \<open>A payload is absent (a Kafka tombstone), text (the live feed) or bytes.\<close>

datatype payload = Absent | Text ustr | Bytes bytes

definition parse_text :: "ustr \<Rightarrow> exc + raw" where
  "parse_text s =
     (case json_loads s of
        Inr (JObj d) \<Rightarrow> Inr d
      | Inr _ \<Rightarrow> Inl (ParseError NotAnObject)
      | Inl e \<Rightarrow>
          if e = JSONDecodeError \<or> e = TypeError then Inl (ParseError (InvalidJson s))
          else Inl (Py e))"

fun parse_raw :: "payload \<Rightarrow> exc + raw" where
  "parse_raw Absent = Inl (ParseError NotText)"
| "parse_raw (Text s) = parse_text s"
| "parse_raw (Bytes b) =
     (case utf8_decode False b of Inl _ \<Rightarrow> Inl (ParseError NotUtf8) | Inr s \<Rightarrow> parse_text s)"

definition payload_of :: "bytes option \<Rightarrow> payload" where
  "payload_of v = (case v of None \<Rightarrow> Absent | Some b \<Rightarrow> Bytes b)"

fun truthy :: "runtime \<Rightarrow> json \<Rightarrow> bool" where
  "truthy rt JNull = False"
| "truthy rt (JBool b) = b"
| "truthy rt (JInt n) = (n \<noteq> 0)"
| "truthy rt (JFloat t) = (\<not> rt_float_zero rt t)"
| "truthy rt (JNonFinite t) = True"
| "truthy rt (JStr s) = (s \<noteq> [])"
| "truthy rt (JList vs) = (vs \<noteq> [])"
| "truthy rt (JObj d) = (d \<noteq> [])"

text \<open>\<open>str(v or "")\<close>\<close>

definition str_or_empty :: "runtime \<Rightarrow> json \<Rightarrow> ustr" where
  "str_or_empty rt v =
     (if truthy rt v then (case v of JStr s \<Rightarrow> s | _ \<Rightarrow> rt_str rt v) else [])"

text \<open>\<open>v or {}\<close>, of which \<open>get\<close> is called next.\<close>

definition dict_or_empty :: "runtime \<Rightarrow> json \<Rightarrow> exc + raw" where
  "dict_or_empty rt v =
     (if truthy rt v then (case v of JObj d \<Rightarrow> Inr d | _ \<Rightarrow> Inl (Py AttributeError)) else Inr [])"

definition check_type :: "json \<Rightarrow> exc + ustr" where
  "check_type v =
     (case v of
        JStr s \<Rightarrow> if s \<in> set EVENT_TYPES then Inr s else Inl (ParseError (UnknownType v))
      | JList _ \<Rightarrow> Inl (Py TypeError)  \<comment> \<open>unhashable\<close>
      | JObj _ \<Rightarrow> Inl (Py TypeError)
      | _ \<Rightarrow> Inl (ParseError (UnknownType v)))"

fun check_wiki :: "json \<Rightarrow> exc + ustr" where
  "check_wiki (JStr s) = (if s = [] then Inl (ParseError MissingWiki) else Inr s)"
| "check_wiki _ = Inl (ParseError MissingWiki)"

fun check_title :: "json \<Rightarrow> exc + ustr" where
  "check_title (JStr s) = (if strip s = [] then Inl (ParseError MissingTitle) else Inr s)"
| "check_title _ = Inl (ParseError MissingTitle)"

fun check_namespace :: "json \<Rightarrow> exc + int" where
  "check_namespace (JInt n) = Inr n"
| "check_namespace _ = Inl (ParseError BadNamespace)"

text \<open>The four lengths and revisions, evaluated in the order of the constructor's arguments.\<close>

definition optional_ints :: "runtime \<Rightarrow> raw \<Rightarrow> exc + int option \<times> int option \<times> int option \<times> int option" where
  "optional_ints rt raw =
     bind_res (dict_or_empty rt (field_of raw ''revision'')) (\<lambda>revision.
     bind_res (optional_int (field_of revision ''old'')) (\<lambda>rev_old.
     bind_res (optional_int (field_of revision ''new'')) (\<lambda>rev_new.
     bind_res (dict_or_empty rt (field_of raw ''length'')) (\<lambda>length'.
     bind_res (optional_int (field_of length' ''old'')) (\<lambda>length_old.
     bind_res (optional_int (field_of length' ''new'')) (\<lambda>length_new.
       Inr (rev_old, rev_new, length_old, length_new)))))))"

definition clean_event :: "runtime \<Rightarrow> raw \<Rightarrow> exc + CleanEvent" where
  "clean_event rt raw =
     bind_res (event_id_of raw) (\<lambda>eid.
     bind_res (check_type (field_of raw ''type'')) (\<lambda>ty.
     bind_res (check_wiki (field_of raw ''wiki'')) (\<lambda>w.
     bind_res (check_title (field_of raw ''title'')) (\<lambda>t.
     bind_res (check_namespace (field_of raw ''namespace'')) (\<lambda>ns.
     bind_res (event_time_of rt raw) (\<lambda>time.
     bind_res (optional_ints rt raw) (\<lambda>(ro, rn, lo, ln).
       Inr \<lparr>event_id = eid, wiki = w, title = normalise_space t, etype = ty, namespace = ns,
            user = str_or_empty rt (field_of raw ''user''),
            bot = truthy rt (field_of raw ''bot''),
            minor = truthy rt (field_of raw ''minor''),
            comment = strip (str_or_empty rt (field_of raw ''comment'')),
            event_time = time, rev_old = ro, rev_new = rn, length_old = lo, length_new = ln,
            server_name = str_or_empty rt (field_of raw ''server_name''),
            log_type = optional_str (field_of raw ''log_type''),
            log_action = optional_str (field_of raw ''log_action'')\<rparr>)))))))"

subsection \<open>What a clean event satisfies\<close>

lemma event_time_of_iso:
  "event_time_of rt raw = Inr t \<Longrightarrow> \<exists>us. date_range us \<and> t = isoformat_utc us"
proof -
  have ts: "of_timestamp v = Inr t \<Longrightarrow> \<exists>us. date_range us \<and> t = isoformat_utc us" for v
  proof (cases v)
    case (JInt n)
    then show "of_timestamp v = Inr t \<Longrightarrow> ?thesis"
      by (cases "fromtimestamp_int n") (auto dest: fromtimestamp_range)
  qed simp_all
  have us: "date_range us" if "bind_res r (astimezone_utc f) = Inr us" for r f us
    using that by (auto simp: bind_res_Inr_iff astimezone_utc_def date_range_def split: if_splits)
  show "event_time_of rt raw = Inr t \<Longrightarrow> ?thesis"
    by (auto simp: event_time_of_def split: json.splits sum.splits if_splits dest: ts us)
qed

definition well_formed_event :: "CleanEvent \<Rightarrow> bool" where
  "well_formed_event e \<longleftrightarrow>
     event_id e \<noteq> [] \<and> wiki e \<noteq> [] \<and> title e \<noteq> [] \<and> normalise_space (title e) = title e \<and>
     etype e \<in> set EVENT_TYPES \<and> strip (comment e) = comment e \<and>
     log_type e \<noteq> Some [] \<and> log_action e \<noteq> Some []"

lemma event_id_of_nonempty: "event_id_of raw = Inr s \<Longrightarrow> s \<noteq> []"
  by (auto simp: event_id_of_def split: option.splits json.splits if_splits)

lemma check_type_ok: "check_type v = Inr s \<Longrightarrow> s \<in> set EVENT_TYPES"
  by (auto simp: check_type_def split: json.splits if_splits)

lemma check_wiki_ok: "check_wiki v = Inr s \<Longrightarrow> s \<noteq> []"
  by (cases v) (auto split: if_splits)

lemma check_title_ok: "check_title v = Inr s \<Longrightarrow> strip s \<noteq> []"
  by (cases v) (auto split: if_splits)

lemma join_nonempty: "ws \<noteq> [] \<Longrightarrow> \<forall>w \<in> set ws. w \<noteq> [] \<Longrightarrow> join sep ws \<noteq> []"
  by (cases ws; cases "tl ws") auto

lemma normalise_space_nonempty: "strip s \<noteq> [] \<Longrightarrow> normalise_space s \<noteq> []"
  unfolding normalise_space_def
  by (rule join_nonempty) (use split_ws_empty split_ws_words in blast)+

lemma optional_str_ok: "optional_str v \<noteq> Some []"
  by (cases v) auto

lemma clean_eventE:
  assumes "clean_event rt raw = Inr e"
  obtains t v where
    "event_id_of raw = Inr (event_id e)" "check_type (field_of raw ''type'') = Inr (etype e)"
    "check_wiki (field_of raw ''wiki'') = Inr (wiki e)"
    "check_title (field_of raw ''title'') = Inr t" "title e = normalise_space t"
    "check_namespace (field_of raw ''namespace'') = Inr (namespace e)"
    "event_time_of rt raw = Inr (event_time e)"
    "optional_ints rt raw = Inr (rev_old e, rev_new e, length_old e, length_new e)"
    "comment e = strip v"
    "log_type e = optional_str (field_of raw ''log_type'')"
    "log_action e = optional_str (field_of raw ''log_action'')"
  using assms unfolding clean_event_def bind_res_Inr_iff by (auto split: prod.splits)

text \<open>
  C21. Every event the cleaner accepts is well formed, whatever the raw object held: its id, wiki
  and title are not empty, the title is in normal form (words separated by single spaces), the
  type is one of the four the pipeline knows, the comment has no white space around it, an empty
  log field became null, and the event time is the ISO form of an instant of the years 1 to 9999.
\<close>

theorem clean_event_well_formed:
  assumes "clean_event rt raw = Inr e"
  shows "well_formed_event e \<and> (\<exists>us. date_range us \<and> event_time e = isoformat_utc us)"
proof -
  obtain t v where f:
    "event_id_of raw = Inr (event_id e)" "check_type (field_of raw ''type'') = Inr (etype e)"
    "check_wiki (field_of raw ''wiki'') = Inr (wiki e)"
    "check_title (field_of raw ''title'') = Inr t" "title e = normalise_space t"
    "event_time_of rt raw = Inr (event_time e)" "comment e = strip v"
    "log_type e = optional_str (field_of raw ''log_type'')"
    "log_action e = optional_str (field_of raw ''log_action'')"
    using assms by (elim clean_eventE)
  show ?thesis
    unfolding well_formed_event_def
    using event_id_of_nonempty [OF f(1)] check_type_ok [OF f(2)] check_wiki_ok [OF f(3)]
      normalise_space_nonempty [OF check_title_ok [OF f(4)]] f(5-9) optional_str_ok
      event_time_of_iso [OF f(6)]
    by (simp add: normalise_space_idem strip_idem)
qed

text \<open>A runtime whose time zone is UTC and whose letters are ASCII, for concrete runs.\<close>

definition plain_runtime :: runtime where
  "plain_runtime =
     \<lparr>rt_unicode = ascii_unicode, rt_local = (\<lambda>d. Inr (wall_us d)),
      rt_naive_ms = (\<lambda>d. Inr (timestamp_ms (wall_us d))), rt_str = (\<lambda>_. ascii ''value''),
      rt_repr = (\<lambda>_. ascii ''value''), rt_json_error = (\<lambda>_. ascii ''Expecting value''),
      rt_float_zero = (\<lambda>t. \<forall>c \<in> set t. c = 48 \<or> c = 46 \<or> c = 45), rt_float_repr = id,
      rt_wide = (\<lambda>_ _. Inl UnicodeDecodeError)\<rparr>"

definition sample_raw :: raw where
  "sample_raw =
     [(ascii ''meta'', JObj [(ascii ''id'', JStr (ascii ''a1'')), (ascii ''dt'', JStr (ascii ''2024-09-22T10:13:20Z''))]),
      (ascii ''type'', JStr (ascii ''edit'')), (ascii ''wiki'', JStr (ascii ''enwiki'')),
      (ascii ''title'', JStr (ascii '' Main  Page'')), (ascii ''namespace'', JInt 0),
      (ascii ''bot'', JBool True), (ascii ''comment'', JStr (ascii ''rv '')),
      (ascii ''revision'', JObj [(ascii ''old'', JInt 7), (ascii ''new'', JInt 8)])]"

definition sample_event :: CleanEvent where
  "sample_event =
     \<lparr>event_id = ascii ''a1'', wiki = ascii ''enwiki'', title = ascii ''Main Page'',
      etype = ascii ''edit'', namespace = 0, user = [], bot = True, minor = False,
      comment = ascii ''rv'', event_time = ascii ''2024-09-22T10:13:20+00:00'', rev_old = Some 7,
      rev_new = Some 8, length_old = None, length_new = None, server_name = [], log_type = None,
      log_action = None\<rparr>"

definition sample_time :: datetime where
  "sample_time = \<lparr>year = 2024, month = 9, day = 22, hour = 10, minute = 13, second = 20,
     microsecond = 0, utcoffset = Some 0\<rparr>"

lemma sample_time_iso: "isoformat_of sample_time = ascii ''2024-09-22T10:13:20+00:00''"
  by (simp add: isoformat_of_def sample_time_def pad4_def pad2_def ascii_def)

lemma sample_time_us: "wall_us sample_time = 1727000000000000"
  by (simp add: wall_us_def sample_time_def ymd2ord_def days_before_year_def days_before_month_def
      is_leap_def DAY_US_def)

lemma sample_time_valid: "valid_datetime sample_time"
  by (simp add: valid_datetime_def sample_time_def days_in_month_def DAY_US_def)

lemma sample_day: "ord2ymd 739151 = (2024, 9, 22)"
proof -
  have "is_leap 2024" by (simp add: is_leap_def)
  then have "days_before_month 2024 9 = 244" "days_before_month 2024 10 = 274"
    by (simp_all add: days_before_month_def)
  then show ?thesis unfolding ord2ymd_def Let_def by simp
qed

lemma sample_us_time: "of_wall_us (Some 0) 1727000000000000 = sample_time"
  unfolding of_wall_us_def sample_time_def DAY_US_def Let_def by (simp add: sample_day)

lemma sample_event_time:
  "event_time_of plain_runtime sample_raw = Inr (ascii ''2024-09-22T10:13:20+00:00'')"
proof -
  have "field_of sample_raw ''meta'' =
      JObj [(ascii ''id'', JStr (ascii ''a1'')), (ascii ''dt'', JStr (ascii ''2024-09-22T10:13:20Z''))]"
    by (simp add: sample_raw_def field_of_def)
  then have m: "get_default sample_raw (ascii ''meta'') (JObj []) =
      JObj [(ascii ''id'', JStr (ascii ''a1'')), (ascii ''dt'', JStr (ascii ''2024-09-22T10:13:20Z''))]"
    by (simp add: sample_raw_def)
  have z: "replace_z (ascii ''2024-09-22T10:13:20Z'') = isoformat_of sample_time"
    by (simp add: sample_time_iso replace_z_def ascii_def)
  have "fromisoformat (isoformat_of sample_time) = Inr sample_time"
    by (rule fromisoformat_isoformat [OF sample_time_valid]) (simp add: sample_time_def)
  moreover have "astimezone_utc f sample_time = Inr 1727000000000000" for f
    using sample_time_us
    by (simp add: astimezone_utc_def MIN_US_def MAX_US_def DAY_US_def) (simp add: sample_time_def)
  moreover have "isoformat_utc 1727000000000000 = ascii ''2024-09-22T10:13:20+00:00''"
    by (simp add: isoformat_utc_def sample_us_time sample_time_iso)
  ultimately show ?thesis
    unfolding event_time_of_def m by (simp add: field_of_def z)
qed

lemma sample_clean: "clean_event plain_runtime sample_raw = Inr sample_event"
proof -
  have "normalise_space (ascii '' Main  Page'') = ascii ''Main Page''"
    "strip (ascii ''rv '') = ascii ''rv''" "strip (ascii '' Main  Page'') \<noteq> []" "strip [] = []"
    by (simp_all add: normalise_space_def split_ws.simps is_space_def ascii_def strip_def)
  then show ?thesis
    unfolding clean_event_def sample_event_time
    by (simp add: sample_raw_def field_of_def sample_event_def event_id_of_def check_type_def
        EVENT_TYPES_def optional_ints_def dict_or_empty_def str_or_empty_def)
qed

theorem clean_event_well_formed_witness:
  "well_formed_event sample_event \<and> (\<exists>us. date_range us \<and> event_time sample_event = isoformat_utc us)"
  using clean_event_well_formed [OF sample_clean] .

subsection \<open>The JSON form of an event\<close>

definition int_ok :: "int option \<Rightarrow> bool" where
  "int_ok x \<longleftrightarrow> (case x of None \<Rightarrow> True | Some n \<Rightarrow> json_ok (JInt n))"

text \<open>Its integers have at most 4300 digits, as every integer read from JSON has.\<close>

definition small_ints :: "CleanEvent \<Rightarrow> bool" where
  "small_ints e \<longleftrightarrow>
     json_ok (JInt (namespace e)) \<and> int_ok (rev_old e) \<and> int_ok (rev_new e) \<and>
     int_ok (length_old e) \<and> int_ok (length_new e)"

lemma json_ok_opt:
  "json_ok (opt_int_json x) \<longleftrightarrow> int_ok x" "json_ok (opt_str_json y)"
  by (auto simp: opt_int_json_def opt_str_json_def int_ok_def split: option.splits)

lemma asdict_keys: "map fst (asdict e) = required_fields @ optional_fields"
  by (simp add: asdict_def required_fields_def optional_fields_def)

lemma distinct_fields: "distinct (required_fields @ optional_fields)"
  by (simp add: required_fields_def optional_fields_def)

lemma json_ok_asdict: "small_ints e \<Longrightarrow> json_ok (JObj (asdict e))"
  using distinct_fields asdict_keys [of e]
  by (simp add: asdict_def small_ints_def json_ok_opt)

lemma as_opt [simp]: "as_opt_int (opt_int_json x) = Some x" "as_opt_str (opt_str_json y) = Some y"
  by (simp_all add: opt_int_json_def opt_str_json_def split: option.splits)

lemma typed_event_asdict: "typed_event (asdict e) = Some e"
  by (simp add: typed_event_def field_of_def asdict_def)

lemma detect_object:
  assumes "utf8_encode (123 # 34 # c # d # s) = Inr b" and "c < 0x80" "0 < c" "d < 0x80"
  shows "detect_encoding b = Utf8"
  using assms by (auto simp: bind_res_Inr_iff utf8_char_def detect_encoding_def startswith_def)

lemma to_json_loads:
  assumes "to_json rt e = Inr b" and "small_ints e"
  shows "json_loads_bytes (rt_wide rt) b = Inr (JObj (asdict e))"
proof -
  let ?s = "dumps (rt_float_repr rt) (JObj (asdict e))"
  have enc: "utf8_encode ?s = Inr b" using assms(1) by (simp add: to_json_def)
  have "\<exists>t. ?s = 123 # 34 # 101 # 118 # t"
    by (simp add: asdict_def quote_str_def ascii_def escape_char_def)
  then obtain t where s: "?s = 123 # 34 # 101 # 118 # t" by blast
  from enc have "utf8_encode (123 # 34 # 101 # 118 # t) = Inr b" by (simp only: s)
  then have "detect_encoding b = Utf8" by (rule detect_object) simp_all
  then show ?thesis
    using utf8_roundtrip [OF enc, of True] json_loads_dumps [OF json_ok_asdict [OF assms(2)]]
    by (simp add: json_loads_bytes_def)
qed

lemma from_json_to_json:
  assumes "to_json rt e = Inr b" and "small_ints e"
  shows "from_json rt (Some b) = Inr (Some e)"
proof -
  note to_json_loads [OF assms]
  moreover have "list_all (\<lambda>k. k \<in> set required_fields \<union> set optional_fields) (map fst (asdict e))"
    unfolding asdict_keys list_all_iff by simp
  moreover have "list_all (\<lambda>k. map_of (asdict e) k \<noteq> None) required_fields"
    unfolding list_all_iff map_of_eq_None_iff
    using arg_cong [OF asdict_keys [of e], of set] by (auto simp del: set_map simp: set_map [symmetric])
  ultimately show ?thesis by (simp add: from_json_def typed_event_asdict)
qed

text \<open>
  C22. Writing an event and reading it back gives the same event: if \<open>to_json\<close> succeeds and
  the integers of the event are within the digit limit that every integer read from JSON obeys,
  \<open>from_json\<close> of the bytes is the event. So every consumer of \<^verbatim>\<open>wiki.clean\<close> sees
  exactly what the cleaner wrote, whatever characters the texts hold.
\<close>

theorem event_json_roundtrip:
  assumes "to_json rt e = Inr b" and "small_ints e"
  shows "from_json rt (Some b) = Inr (Some e)"
  using assms by (rule from_json_to_json)

text \<open>No text of the event holds a lone surrogate.\<close>

definition encodable_event :: "CleanEvent \<Rightarrow> bool" where
  "encodable_event e \<longleftrightarrow>
     encodable (event_id e) \<and> encodable (wiki e) \<and> encodable (title e) \<and> encodable (etype e) \<and>
     encodable (user e) \<and> encodable (comment e) \<and> encodable (event_time e) \<and>
     encodable (server_name e) \<and> (\<forall>s. log_type e = Some s \<longrightarrow> encodable s) \<and>
     (\<forall>s. log_action e = Some s \<longrightarrow> encodable s)"

lemma encodable_small: "\<forall>c \<in> set s. c < 256 \<Longrightarrow> encodable s"
  by (auto simp: encodable_def surrogate_def)

lemma encodable_ascii [simp]: "encodable (ascii s)"
proof -
  have "of_char c < (256 :: nat)" for c using of_char_mod_256 [of c, where ?'a = nat]
    by (metis mod_less_divisor zero_less_numeral)
  then show ?thesis by (intro encodable_small) (simp add: ascii_def)
qed

lemma encodable_escape: "c < 0x110000 \<Longrightarrow> \<not> surrogate c \<Longrightarrow> encodable (escape_char c)"
proof (cases "map_of [(34, 34), (92, 92), (10, 110), (13, 114), (9, 116), (12, 102), (8, 98 :: nat)] c")
  case None
  assume "c < 0x110000" "\<not> surrogate c"
  moreover have "encodable [92, 117, 48, 48, hex_char (c div 16), hex_char (c mod 16)]" if "c < 32"
    using that by (intro encodable_small) (auto simp: hex_char_def)
  ultimately show ?thesis using None by (simp add: escape_char_def)
next
  case (Some e)
  then have "e < 256" by (auto split: if_splits)
  with Some show ?thesis by (simp add: escape_char_def surrogate_def)
qed

lemma encodable_quote [simp]: "encodable s \<Longrightarrow> encodable (quote_str s)"
  unfolding quote_str_def
  by (induction s) (auto simp: encodable_escape surrogate_def)

lemma encodable_digits [simp]: "encodable (digits_of n)"
  by (rule encodable_small) (auto dest: digits_of_digits simp: is_digit_def)

lemma encodable_int_repr [simp]: "encodable (int_repr n)"
  by (simp add: int_repr_def surrogate_def)

lemma encodable_opt:
  "encodable (dumps fr (opt_int_json x))"
  "(\<forall>s. y = Some s \<longrightarrow> encodable s) \<Longrightarrow> encodable (dumps fr (opt_str_json y))"
  by (auto simp: opt_int_json_def opt_str_json_def split: option.splits)

lemma to_json_ok: "encodable_event e \<Longrightarrow> \<exists>b. to_json rt e = Inr b"
  unfolding to_json_def
  by (rule utf8_encode_ok)
    (simp add: asdict_def encodable_event_def encodable_opt surrogate_def)

theorem event_json_roundtrip_witness:
  "\<exists>b. to_json plain_runtime sample_event = Inr b \<and>
       from_json plain_runtime (Some b) = Inr (Some sample_event)"
proof -
  have "encodable_event sample_event" by (simp add: encodable_event_def sample_event_def)
  then obtain b where b: "to_json plain_runtime sample_event = Inr b" using to_json_ok by blast
  have "small_ints sample_event"
    by (simp add: small_ints_def int_ok_def sample_event_def digits_of.simps MAX_STR_DIGITS_def)
  with event_json_roundtrip [OF b] b show ?thesis by blast
qed

end
