(* ===== verification/Dlq.thy ===== *)
theory Dlq
  imports Models
begin

text \<open>
  \<^verbatim>\<open>common/dlq.py\<close>: the one format of records sent to \<^verbatim>\<open>wiki.dlq\<close>. The
  current time is an argument.
\<close>

text \<open>\<open>repr(b)\<close> of a byte string.\<close>

definition bytes_repr_char :: "nat \<Rightarrow> nat \<Rightarrow> ustr" where
  "bytes_repr_char quote c =
     (if c = quote \<or> c = 92 then [92, c]
      else if c = 9 then [92, 116] else if c = 10 then [92, 110] else if c = 13 then [92, 114]
      else if c < 32 \<or> 127 \<le> c then [92, 120, hex_char (c div 16), hex_char (c mod 16)]
      else [c])"

definition bytes_repr :: "bytes \<Rightarrow> ustr" where
  "bytes_repr b =
     (let quote = (if 39 \<in> set b \<and> 34 \<notin> set b then 34 else 39)
      in [98, quote] @ concat (map (bytes_repr_char quote) b) @ [quote])"

fun decode_payload :: "payload \<Rightarrow> ustr" where
  "decode_payload Absent = []"
| "decode_payload (Text s) = s"
| "decode_payload (Bytes b) = (case utf8_decode False b of Inr s \<Rightarrow> s | Inl _ \<Rightarrow> bytes_repr b)"

definition dlq_object ::
  "ustr \<Rightarrow> ustr \<Rightarrow> payload \<Rightarrow> ustr \<Rightarrow> (ustr, json) pydict \<Rightarrow> ustr \<Rightarrow> (ustr, json) pydict" where
  "dlq_object stage reason p source position failed_at =
     [(ascii ''stage'', JStr stage), (ascii ''reason'', JStr reason),
      (ascii ''source'', JStr source), (ascii ''position'', JObj position),
      (ascii ''failed_at'', JStr failed_at), (ascii ''payload'', JStr (decode_payload p))]"

definition dlq_record ::
  "runtime \<Rightarrow> ustr \<Rightarrow> ustr \<Rightarrow> payload \<Rightarrow> ustr \<Rightarrow> (ustr, json) pydict \<Rightarrow> ustr \<Rightarrow> pyexc + bytes" where
  "dlq_record rt stage reason p source position failed_at =
     utf8_encode
       (dumps (rt_float_repr rt) (JObj (dlq_object stage reason p source position failed_at)))"

text \<open>
  A dead-letter record can be inspected: it is JSON again, and reading it gives back the
  stage, the reason, the source, the position and the original payload, for payloads that are
  text. Nothing that was rejected is lost or altered on the way, provided the record can be
  written at all and the position's values can be read back.
\<close>

theorem dlq_record_readable:
  assumes "dlq_record rt stage reason (Bytes b) source position failed_at = Inr out"
    and "utf8_encode s = Inr b" and "json_ok (JObj position)"
  shows "json_loads_bytes (rt_wide rt) out =
    Inr (JObj [(ascii ''stage'', JStr stage), (ascii ''reason'', JStr reason),
      (ascii ''source'', JStr source), (ascii ''position'', JObj position),
      (ascii ''failed_at'', JStr failed_at), (ascii ''payload'', JStr s)])"
proof -
  let ?obj = "dlq_object stage reason (Bytes b) source position failed_at"
  let ?s = "dumps (rt_float_repr rt) (JObj ?obj)"
  have enc: "utf8_encode ?s = Inr out" using assms(1) by (simp only: dlq_record_def)
  have "\<exists>t. ?s = 123 # 34 # 115 # 116 # t"
    by (simp add: dlq_object_def quote_str_def ascii_def escape_char_def)
  then obtain t where t: "?s = 123 # 34 # 115 # 116 # t" by blast
  from enc have "utf8_encode (123 # 34 # 115 # 116 # t) = Inr out" by (simp only: t)
  then have "detect_encoding out = Utf8" by (rule detect_object) simp_all
  moreover have "json_ok (JObj ?obj)" using assms(3) by (simp add: dlq_object_def)
  then have "json_loads ?s = Inr (JObj ?obj)" by (rule json_loads_dumps)
  ultimately have "json_loads_bytes (rt_wide rt) out = Inr (JObj ?obj)"
    using utf8_roundtrip [OF enc, of True] by (simp add: json_loads_bytes_def)
  moreover have "decode_payload (Bytes b) = s" using utf8_roundtrip [OF assms(2)] by simp
  ultimately show ?thesis by (simp only: dlq_object_def)
qed

theorem dlq_record_readable_witness:
  "\<exists>out. dlq_record plain_runtime (ascii ''cleaner'') (ascii ''missing wiki'') (Bytes [123, 125])
       (ascii ''wiki.raw'') [(ascii ''offset'', JInt 5)] (ascii ''now'') = Inr out \<and>
     json_loads_bytes (rt_wide plain_runtime) out =
       Inr (JObj [(ascii ''stage'', JStr (ascii ''cleaner'')),
         (ascii ''reason'', JStr (ascii ''missing wiki'')),
         (ascii ''source'', JStr (ascii ''wiki.raw'')),
         (ascii ''position'', JObj [(ascii ''offset'', JInt 5)]),
         (ascii ''failed_at'', JStr (ascii ''now'')), (ascii ''payload'', JStr [123, 125])])"
proof -
  have enc: "utf8_encode [123, 125] = Inr [123, 125]" by (simp add: utf8_char_def)
  have "encodable (dumps (rt_float_repr plain_runtime)
      (JObj (dlq_object (ascii ''cleaner'') (ascii ''missing wiki'') (Bytes [123, 125])
        (ascii ''wiki.raw'') [(ascii ''offset'', JInt 5)] (ascii ''now''))))"
    using utf8_roundtrip [OF enc] by (simp add: dlq_object_def surrogate_def)
  then obtain out where out: "dlq_record plain_runtime (ascii ''cleaner'') (ascii ''missing wiki'')
       (Bytes [123, 125]) (ascii ''wiki.raw'') [(ascii ''offset'', JInt 5)] (ascii ''now'') = Inr out"
    unfolding dlq_record_def using utf8_encode_ok by blast
  have "json_ok (JObj [(ascii ''offset'', JInt 5)])"
    by (simp add: digits_of.simps MAX_STR_DIGITS_def)
  from dlq_record_readable [OF out enc this] out show ?thesis by blast
qed

end
