(* ===== verification/Dedup.thy ===== *)
theory Dedup
  imports Prelude
begin

text \<open>
  \<^verbatim>\<open>processors/dedup.py\<close>: the bounded, time windowed set of event ids the cleaner keeps
  for one partition. The buckets are an \<open>OrderedDict\<close> from bucket index to a set of ids,
  oldest insertion first. \<open>DedupCache\<close> holds the state, \<open>is_new\<close> the operation, and
  two locales state what its users rely on: \<open>id_cache\<close> (an id is refused only when it is
  held) and \<open>window_cache\<close> (an id stays held for the length of the window).
\<close>

subsection \<open>The interface the cleaner and the warm-up use\<close>

text \<open>Offer a list of (id, time) pairs one after the other and collect the answers.\<close>

fun feed :: "('c \<Rightarrow> 'i \<Rightarrow> int \<Rightarrow> 'c \<times> bool) \<Rightarrow> 'c \<Rightarrow> ('i \<times> int) list \<Rightarrow> 'c \<times> bool list" where
  "feed offer c [] = (c, [])"
| "feed offer c ((i, t) # xs) =
     (let (c1, b) = offer c i t; (c2, bs) = feed offer c1 xs in (c2, b # bs))"

lemma feed_append:
  "feed offer c (xs @ ys) =
     (let (c1, bs) = feed offer c xs; (c2, cs) = feed offer c1 ys in (c2, bs @ cs))"
  by (induction xs arbitrary: c) (auto simp: split_beta Let_def)

lemma length_feed [simp]: "length (snd (feed offer c xs)) = length xs"
  by (induction xs arbitrary: c) (auto simp: split_beta Let_def)

text \<open>The ids accepted along the way, in order.\<close>

fun accepted :: "('c \<Rightarrow> 'i \<Rightarrow> int \<Rightarrow> 'c \<times> bool) \<Rightarrow> 'c \<Rightarrow> ('i \<times> int) list \<Rightarrow> 'i list" where
  "accepted offer c [] = []"
| "accepted offer c ((i, t) # xs) =
     (let (c1, b) = offer c i t in (if b then [i] else []) @ accepted offer c1 xs)"

lemma accepted_subset: "set (accepted offer c xs) \<subseteq> fst ` set xs"
proof (induction xs arbitrary: c)
  case (Cons x xs)
  obtain i t where x: "x = (i, t)" by (cases x)
  have "set (accepted offer (fst (offer c i t)) xs) \<subseteq> fst ` set xs" by (rule Cons.IH)
  then show ?case by (auto simp: x split_beta Let_def)
qed simp

lemma accepted_split:
  "i \<in> set (accepted offer c xs) \<Longrightarrow>
   \<exists>ys t zs. xs = ys @ (i, t) # zs \<and> snd (offer (fst (feed offer c ys)) i t)"
proof (induction xs arbitrary: c)
  case (Cons x xs)
  obtain j t where x: "x = (j, t)" by (cases x)
  show ?case
  proof (cases "snd (offer c j t) \<and> i = j")
    case True
    then show ?thesis by (intro exI [of _ "[]"] exI [of _ t] exI [of _ xs]) (simp add: x)
  next
    case False
    with Cons.prems have "i \<in> set (accepted offer (fst (offer c j t)) xs)"
      by (auto simp: x split_beta Let_def split: if_splits)
    then obtain ys t' zs where
      "xs = ys @ (i, t') # zs" "snd (offer (fst (feed offer (fst (offer c j t)) ys)) i t')"
      using Cons.IH by blast
    then show ?thesis
      by (intro exI [of _ "(j, t) # ys"] exI [of _ t'] exI [of _ zs]) (simp add: x split_beta Let_def)
  qed
qed simp

locale id_cache =
  fixes held :: "'c \<Rightarrow> 'i set"
    and offer :: "'c \<Rightarrow> 'i \<Rightarrow> int \<Rightarrow> 'c \<times> bool"
    and valid :: "'c \<Rightarrow> bool"
  assumes valid_offer: "valid c \<Longrightarrow> valid (fst (offer c i t))"
    and refused_held: "valid c \<Longrightarrow> \<not> snd (offer c i t) \<Longrightarrow> i \<in> held c"
    and held_offer: "valid c \<Longrightarrow> held (fst (offer c i t)) \<subseteq> insert i (held c)"
begin

lemma valid_feed: "valid c \<Longrightarrow> valid (fst (feed offer c xs))"
proof (induction xs arbitrary: c)
  case (Cons x xs)
  then show ?case
    by (cases x) (simp add: split_beta Let_def valid_offer)
qed simp

lemma held_feed: "valid c \<Longrightarrow> held (fst (feed offer c xs)) \<subseteq> fst ` set xs \<union> held c"
proof (induction xs arbitrary: c)
  case (Cons x xs)
  obtain i t where x: "x = (i, t)" by (cases x)
  have "held (fst (feed offer (fst (offer c i t)) xs))
      \<subseteq> fst ` set xs \<union> held (fst (offer c i t))"
    using Cons.IH Cons.prems valid_offer by blast
  with held_offer [OF Cons.prems, of i t] show ?case
    by (auto simp: x split_beta Let_def)
qed simp

text \<open>Nothing is dropped as a duplicate unless it, or its twin, was offered before.\<close>

lemma refused_seen_before:
  assumes "valid c" and "\<not> snd (offer (fst (feed offer c xs)) i t)"
  shows "i \<in> fst ` set xs \<union> held c"
proof -
  from assms have "i \<in> held (fst (feed offer c xs))"
    by (auto intro: refused_held valid_feed)
  with held_feed [OF assms(1), of xs] show ?thesis by blast
qed

text \<open>Every id offered is accepted once, or was held from the start.\<close>

lemma accepted_all: "valid c \<Longrightarrow> fst ` set xs \<subseteq> set (accepted offer c xs) \<union> held c"
proof (induction xs arbitrary: c)
  case (Cons x xs)
  obtain i t where x: "x = (i, t)" by (cases x)
  have "fst ` set xs \<subseteq> set (accepted offer (fst (offer c i t)) xs) \<union> held (fst (offer c i t))"
    using Cons.IH Cons.prems valid_offer by blast
  moreover have "\<not> snd (offer c i t) \<Longrightarrow> i \<in> held c" using Cons.prems by (rule refused_held)
  ultimately show ?case
    using held_offer [OF Cons.prems, of i t] by (auto simp: x split_beta Let_def)
qed simp

end

locale window_cache = id_cache held offer valid
  for held :: "'c \<Rightarrow> 'i set" and offer :: "'c \<Rightarrow> 'i \<Rightarrow> int \<Rightarrow> 'c \<times> bool"
    and valid :: "'c \<Rightarrow> bool" +
  fixes held_since :: "'c \<Rightarrow> int \<Rightarrow> 'i \<Rightarrow> bool"
    and evictions :: "'c \<Rightarrow> int"
    and window :: "'c \<Rightarrow> int"
  assumes window_offer: "window (fst (offer c i t)) = window c"
    and evictions_mono: "valid c \<Longrightarrow> evictions c \<le> evictions (fst (offer c i t))"
    and since_offered: "valid c \<Longrightarrow> snd (offer c i t) \<Longrightarrow>
       evictions (fst (offer c i t)) = evictions c \<Longrightarrow> held_since (fst (offer c i t)) t i"
    and since_kept: "valid c \<Longrightarrow> held_since c t0 j \<Longrightarrow> t \<le> t0 + window c \<Longrightarrow>
       evictions (fst (offer c i t)) = evictions c \<Longrightarrow> held_since (fst (offer c i t)) t0 j"
    and since_refused: "valid c \<Longrightarrow> held_since c t0 i \<Longrightarrow> t \<le> t0 + window c \<Longrightarrow>
       \<not> snd (offer c i t)"
begin

lemma evictions_feed: "valid c \<Longrightarrow> evictions c \<le> evictions (fst (feed offer c xs))"
proof (induction xs arbitrary: c)
  case (Cons x xs)
  obtain i t where x: "x = (i, t)" by (cases x)
  have "evictions c \<le> evictions (fst (offer c i t))"
    using Cons.prems by (rule evictions_mono)
  also have "\<dots> \<le> evictions (fst (feed offer (fst (offer c i t)) xs))"
    using Cons.prems by (intro Cons.IH valid_offer)
  finally show ?case by (simp add: x split_beta Let_def)
qed simp

lemma window_feed: "window (fst (feed offer c xs)) = window c"
  by (induction xs arbitrary: c) (auto simp: split_beta Let_def window_offer)

lemma since_feed:
  assumes "valid c" and "held_since c t0 j" and "\<forall>(i, t) \<in> set xs. t \<le> t0 + window c"
    and "evictions (fst (feed offer c xs)) = evictions c"
  shows "held_since (fst (feed offer c xs)) t0 j"
  using assms
proof (induction xs arbitrary: c)
  case (Cons x xs)
  obtain i t where x: "x = (i, t)" by (cases x)
  let ?c = "fst (offer c i t)"
  have v: "valid ?c" using Cons.prems(1) by (rule valid_offer)
  have "evictions c \<le> evictions ?c" "evictions ?c \<le> evictions (fst (feed offer ?c xs))"
    using Cons.prems(1) v by (simp_all add: evictions_mono evictions_feed)
  with Cons.prems(4) have e: "evictions ?c = evictions c"
    "evictions (fst (feed offer ?c xs)) = evictions ?c"
    by (auto simp: x split_beta Let_def)
  have "held_since ?c t0 j"
    using Cons.prems(1-3) e(1) by (intro since_kept) (auto simp: x)
  then have "held_since (fst (feed offer ?c xs)) t0 j"
    using Cons.prems(3) v e(2) by (intro Cons.IH) (auto simp: window_offer)
  then show ?case by (simp add: x split_beta Let_def)
qed simp

text \<open>
  The guarantee behind exactly-once cleaning: after an id was accepted at time \<open>t0\<close>,
  every later copy within the window is refused, as long as nothing was evicted early.
\<close>

lemma copy_refused:
  assumes "valid c" and "snd (offer c i t0)"
    and "\<forall>(j, t) \<in> set xs. t \<le> t0 + window c" and "t \<le> t0 + window c"
    and "evictions (fst (feed offer (fst (offer c i t0)) xs)) = evictions c"
  shows "\<not> snd (offer (fst (feed offer (fst (offer c i t0)) xs)) i t)"
proof -
  let ?c = "fst (offer c i t0)"
  have v: "valid ?c" using assms(1) by (rule valid_offer)
  have "evictions c \<le> evictions ?c" "evictions ?c \<le> evictions (fst (feed offer ?c xs))"
    using assms(1) v by (simp_all add: evictions_mono evictions_feed)
  with assms(5) have e: "evictions ?c = evictions c"
    "evictions (fst (feed offer ?c xs)) = evictions ?c" by auto
  have "held_since ?c t0 i" using assms(1,2) e(1) by (rule since_offered)
  then have "held_since (fst (feed offer ?c xs)) t0 i"
    using assms(3) v e(2) by (intro since_feed) (auto simp: window_offer)
  then show ?thesis
    using assms(4) v by (intro since_refused [of _ t0]) (auto simp: valid_feed window_feed window_offer)
qed

lemma accepted_distinct:
  assumes "valid c" and "\<forall>(i, t) \<in> set xs. \<forall>(j, t') \<in> set xs. t' \<le> t + window c"
    and "evictions (fst (feed offer c xs)) = evictions c"
  shows "distinct (accepted offer c xs)"
  using assms
proof (induction xs arbitrary: c)
  case (Cons x xs)
  obtain i t where x: "x = (i, t)" by (cases x)
  let ?c = "fst (offer c i t)"
  have v: "valid ?c" using Cons.prems(1) by (rule valid_offer)
  have "evictions c \<le> evictions ?c" "evictions ?c \<le> evictions (fst (feed offer ?c xs))"
    using Cons.prems(1) v by (simp_all add: evictions_mono evictions_feed)
  with Cons.prems(3) have e: "evictions ?c = evictions c"
    "evictions (fst (feed offer ?c xs)) = evictions ?c"
    by (auto simp: x split_beta Let_def)
  have w: "\<And>j t'. (j, t') \<in> set xs \<Longrightarrow> t' \<le> t + window c"
    using Cons.prems(2) by (force simp: x)
  have d: "distinct (accepted offer ?c xs)"
    using Cons.prems(2) v e(2) by (intro Cons.IH) (auto simp: window_offer)
  have "i \<notin> set (accepted offer ?c xs)" if acc: "snd (offer c i t)"
  proof
    assume "i \<in> set (accepted offer ?c xs)"
    then obtain ys t' zs where xs: "xs = ys @ (i, t') # zs" and
      new: "snd (offer (fst (feed offer ?c ys)) i t')"
      using accepted_split by metis
    have "evictions ?c \<le> evictions (fst (feed offer ?c ys))"
      by (rule evictions_feed [OF v])
    moreover have "evictions (fst (feed offer ?c ys)) \<le>
         evictions (fst (feed offer (fst (feed offer ?c ys)) ((i, t') # zs)))"
      by (rule evictions_feed [OF valid_feed [OF v]])
    moreover have "fst (feed offer (fst (feed offer ?c ys)) ((i, t') # zs)) = fst (feed offer ?c xs)"
      unfolding xs feed_append by (simp add: split_beta Let_def)
    ultimately have "evictions (fst (feed offer ?c ys)) = evictions c" using e by simp
    then have "\<not> snd (offer (fst (feed offer ?c ys)) i t')"
      using Cons.prems(1) acc w by (intro copy_refused) (auto simp: xs)
    with new show False by simp
  qed
  with d show ?case by (auto simp: x split_beta Let_def)
qed simp

end

subsection \<open>The cache\<close>

definition HOUR_MS :: int where
  "HOUR_MS = 60 * 60 * 1000"

record DedupCache =
  window_ms :: int
  nbuckets :: int
  max_ids :: int
  buckets :: "(int, ustr set) pydict"
  seen_count :: int
  duplicate_count :: int
  evicted_early :: int

definition new_cache :: DedupCache where
  "new_cache = \<lparr>window_ms = HOUR_MS, nbuckets = 12, max_ids = 500000, buckets = [],
     seen_count = 0, duplicate_count = 0, evicted_early = 0\<rparr>"

definition bucket_span_ms :: "DedupCache \<Rightarrow> int" where
  "bucket_span_ms c = max (window_ms c div nbuckets c) 1"

definition total_ids :: "(int, ustr set) pydict \<Rightarrow> int" where
  "total_ids bs = (\<Sum>(_, ids) \<leftarrow> bs. int (card ids))"

definition cache_size :: "DedupCache \<Rightarrow> int" where
  "cache_size c = total_ids (buckets c)"

definition expire :: "DedupCache \<Rightarrow> int \<Rightarrow> DedupCache" where
  "expire c now_ms =
     (let cutoff = (now_ms - window_ms c) div bucket_span_ms c
      in c\<lparr>buckets := filter (\<lambda>(index, _). \<not> index < cutoff) (buckets c)\<rparr>)"

text \<open>The loop of \<open>_enforce_size\<close>: \<open>popitem(last=False)\<close> drops the head.\<close>

fun drop_oldest :: "int \<Rightarrow> (int, ustr set) pydict \<Rightarrow> int \<Rightarrow> (int, ustr set) pydict \<times> int" where
  "drop_oldest m [] evicted = ([], evicted)"
| "drop_oldest m ((index, ids) # bs) evicted =
     (if total_ids ((index, ids) # bs) > m \<and> length ((index, ids) # bs) > 1
      then drop_oldest m bs (evicted + int (card ids))
      else ((index, ids) # bs, evicted))"

definition enforce_size :: "DedupCache \<Rightarrow> DedupCache" where
  "enforce_size c =
     (let (bs, evicted) = drop_oldest (max_ids c) (buckets c) (evicted_early c)
      in c\<lparr>buckets := bs, evicted_early := evicted\<rparr>)"

definition is_new :: "DedupCache \<Rightarrow> ustr \<Rightarrow> int \<Rightarrow> DedupCache \<times> bool" where
  "is_new c event_id event_time_ms =
     (let c1 = expire (c\<lparr>seen_count := seen_count c + 1\<rparr>) event_time_ms
      in if \<exists>(_, ids) \<in> set (buckets c1). event_id \<in> ids
         then (c1\<lparr>duplicate_count := duplicate_count c1 + 1\<rparr>, False)
         else
           let index = event_time_ms div bucket_span_ms c1;
               ids = get_default (buckets c1) index {}
           in (enforce_size
                 (c1\<lparr>buckets := AList.update index (insert event_id ids) (buckets c1)\<rparr>), True))"

definition cache_clear :: "DedupCache \<Rightarrow> DedupCache" where
  "cache_clear c = c\<lparr>buckets := []\<rparr>"

text \<open>\<open>stats()\<close>: ids, seen, duplicates, evicted early.\<close>

definition cache_stats :: "DedupCache \<Rightarrow> int \<times> int \<times> int \<times> int" where
  "cache_stats c = (cache_size c, seen_count c, duplicate_count c, evicted_early c)"

subsection \<open>What the cache holds\<close>

definition held_ids :: "DedupCache \<Rightarrow> ustr set" where
  "held_ids c = (\<Union>(_, ids) \<in> set (buckets c). ids)"

text \<open>The id sits in a bucket no older than the one of time \<open>t0\<close>.\<close>

definition held_since :: "DedupCache \<Rightarrow> int \<Rightarrow> ustr \<Rightarrow> bool" where
  "held_since c t0 i \<longleftrightarrow>
     (\<exists>(index, ids) \<in> set (buckets c). i \<in> ids \<and> t0 div bucket_span_ms c \<le> index)"

text \<open>
  Well-formed: distinct bucket indices, finite non-empty buckets, and no id in two buckets,
  so that \<open>size\<close>, the sum over the buckets, counts each id once.
\<close>

definition disjoint_buckets :: "(int, ustr set) pydict \<Rightarrow> bool" where
  "disjoint_buckets bs \<longleftrightarrow>
     (\<forall>(k, ids) \<in> set bs. \<forall>(k', ids') \<in> set bs. k \<noteq> k' \<longrightarrow> ids \<inter> ids' = {})"

definition wf_buckets :: "(int, ustr set) pydict \<Rightarrow> bool" where
  "wf_buckets bs \<longleftrightarrow>
     wf_dict bs \<and> (\<forall>(_, ids) \<in> set bs. finite ids \<and> ids \<noteq> {}) \<and> disjoint_buckets bs"

definition wf_cache :: "DedupCache \<Rightarrow> bool" where
  "wf_cache c \<longleftrightarrow> wf_buckets (buckets c) \<and> (cache_size c \<le> max_ids c \<or> length (buckets c) \<le> 1)"

lemma total_ids_simps [simp]:
  "total_ids [] = 0"
  "total_ids ((k, ids) # bs) = int (card ids) + total_ids bs"
  by (simp_all add: total_ids_def)

lemma total_ids_nonneg: "0 \<le> total_ids bs"
  by (induction bs) auto

lemma bucket_span_pos: "0 < bucket_span_ms c"
  by (simp add: bucket_span_ms_def)

lemma bucket_span_same:
  "window_ms c' = window_ms c \<Longrightarrow> nbuckets c' = nbuckets c \<Longrightarrow> bucket_span_ms c' = bucket_span_ms c"
  by (simp add: bucket_span_ms_def)

lemma wf_buckets_iff:
  "wf_buckets bs \<longleftrightarrow> wf_dict bs \<and>
     (\<forall>k ids. (k, ids) \<in> set bs \<longrightarrow> finite ids \<and> ids \<noteq> {}) \<and>
     (\<forall>k ids k' ids' x. (k, ids) \<in> set bs \<longrightarrow> (k', ids') \<in> set bs \<longrightarrow>
        x \<in> ids \<longrightarrow> x \<in> ids' \<longrightarrow> k = k')"
  by (simp add: wf_buckets_def disjoint_buckets_def Ball_def disjoint_iff) blast

lemma disjoint_bucketsD:
  assumes "disjoint_buckets bs" and "(k, ids) \<in> set bs" and "(k', ids') \<in> set bs" and "k \<noteq> k'"
  shows "ids \<inter> ids' = {}"
  using bspec [OF bspec [OF assms(1) [unfolded disjoint_buckets_def] assms(2), simplified] assms(3)]
    assms(4) by simp

lemma wf_buckets_Cons:
  "wf_buckets ((k, ids) # bs) \<Longrightarrow> wf_buckets bs \<and> finite ids \<and> ids \<noteq> {}"
  unfolding wf_buckets_iff by (auto simp del: fst_conv)

lemma wf_buckets_filter: "wf_buckets bs \<Longrightarrow> wf_buckets (filter P bs)"
  unfolding wf_buckets_iff by (simp, blast)

lemma default_or_member:
  "get_default bs k {} = {} \<or> (k, get_default bs k {}) \<in> set bs"
  by (auto simp: get_default_def dest: map_of_SomeD split: option.splits)

lemma wf_buckets_insert:
  assumes wfb: "wf_buckets bs" and new: "\<forall>(_, ids) \<in> set bs. i \<notin> ids"
  shows "wf_buckets (AList.update k (insert i (get_default bs k {})) bs)"
proof -
  have wf: "wf_dict bs" using wfb by (simp add: wf_buckets_def)
  have fin: "finite (get_default bs k {})"
    using default_or_member [of bs k] wfb unfolding wf_buckets_iff by fastforce
  have other: "k' = k" if "(k', ids') \<in> set bs" "x \<in> ids'" "x \<in> insert i (get_default bs k {})"
    for k' ids' x
    using that default_or_member [of bs k] wfb new unfolding wf_buckets_iff by blast
  show ?thesis
    unfolding wf_buckets_iff set_update [OF wf]
  proof (intro conjI allI impI)
    show "wf_dict (AList.update k (insert i (get_default bs k {})) bs)" using wf by simp
  next
    fix k1 ids1 assume "(k1, ids1) \<in> insert (k, insert i (get_default bs k {})) {x \<in> set bs. fst x \<noteq> k}"
    then show "finite ids1" "ids1 \<noteq> {}" using fin wfb unfolding wf_buckets_iff by auto
  next
    fix k1 ids1 k2 ids2 x
    assume "(k1, ids1) \<in> insert (k, insert i (get_default bs k {})) {x \<in> set bs. fst x \<noteq> k}"
      "(k2, ids2) \<in> insert (k, insert i (get_default bs k {})) {x \<in> set bs. fst x \<noteq> k}"
      "x \<in> ids1" "x \<in> ids2"
    moreover have "k1 = k2" if "(k1, ids1) \<in> set bs" "(k2, ids2) \<in> set bs"
      using that calculation(3,4) wfb unfolding wf_buckets_iff by blast
    ultimately show "k1 = k2"
      using other [of k1 ids1 x] other [of k2 ids2 x] by auto
  qed
qed

subsection \<open>Dropping the oldest buckets\<close>

lemma drop_oldest_suffix: "\<exists>ys. bs = ys @ fst (drop_oldest m bs e)"
proof (induction m bs e rule: drop_oldest.induct)
  case (2 m index ids bs evicted)
  show ?case
  proof (cases "total_ids ((index, ids) # bs) > m \<and> length ((index, ids) # bs) > 1")
    case True
    with 2 obtain ys where "bs = ys @ fst (drop_oldest m bs (evicted + int (card ids)))" by auto
    with True show ?thesis by (intro exI [of _ "(index, ids) # ys"]) simp
  next
    case False
    then show ?thesis by (intro exI [of _ "[]"]) auto
  qed
qed simp

lemma drop_oldest_subset: "set (fst (drop_oldest m bs e)) \<subseteq> set bs"
  using drop_oldest_suffix [of bs m e] by (metis set_append Un_upper2)

lemma drop_oldest_wf: "wf_buckets bs \<Longrightarrow> wf_buckets (fst (drop_oldest m bs e))"
  by (induction m bs e rule: drop_oldest.induct) (auto dest: wf_buckets_Cons)

lemma drop_oldest_bound:
  "total_ids (fst (drop_oldest m bs e)) \<le> m \<or> length (fst (drop_oldest m bs e)) \<le> 1"
  by (induction m bs e rule: drop_oldest.induct) auto

lemma drop_oldest_count:
  "snd (drop_oldest m bs e) = e + (total_ids bs - total_ids (fst (drop_oldest m bs e)))"
  by (induction m bs e rule: drop_oldest.induct) auto

lemma drop_oldest_total: "total_ids (fst (drop_oldest m bs e)) \<le> total_ids bs"
  by (induction m bs e rule: drop_oldest.induct) auto

lemma drop_oldest_unchanged:
  "wf_buckets bs \<Longrightarrow> snd (drop_oldest m bs e) = e \<Longrightarrow> fst (drop_oldest m bs e) = bs"
proof (cases bs)
  case (Cons b bs')
  assume wf: "wf_buckets bs" and same: "snd (drop_oldest m bs e) = e"
  obtain k ids where b: "b = (k, ids)" by (cases b)
  have pos: "0 < card ids" using wf by (auto simp: Cons b card_gt_0_iff dest: wf_buckets_Cons)
  show ?thesis
  proof (cases "total_ids bs > m \<and> length bs > 1")
    case True
    have "e + int (card ids) \<le> snd (drop_oldest m bs e)"
      using True drop_oldest_total [of m bs' "e + int (card ids)"]
      by (simp add: Cons b drop_oldest_count)
    with pos same show ?thesis by simp
  next
    case False
    then show ?thesis by (auto simp: Cons b)
  qed
qed simp

lemma drop_oldest_small: "total_ids bs \<le> m \<Longrightarrow> drop_oldest m bs e = (bs, e)"
  by (cases bs) auto

subsection \<open>One call of is_new\<close>

lemma expire_simps [simp]:
  "window_ms (expire c t) = window_ms c" "nbuckets (expire c t) = nbuckets c"
  "max_ids (expire c t) = max_ids c" "evicted_early (expire c t) = evicted_early c"
  "seen_count (expire c t) = seen_count c" "duplicate_count (expire c t) = duplicate_count c"
  "bucket_span_ms (expire c t) = bucket_span_ms c"
  by (simp_all add: expire_def Let_def bucket_span_ms_def)

lemma buckets_expire:
  "buckets (expire c t) =
     filter (\<lambda>(index, _). (t - window_ms c) div bucket_span_ms c \<le> index) (buckets c)"
  by (simp add: expire_def Let_def not_less)

text \<open>The two branches of \<open>is_new\<close>, over the buckets that survive the expiry.\<close>

definition live :: "DedupCache \<Rightarrow> int \<Rightarrow> (int, ustr set) pydict" where
  "live c t = buckets (expire c t)"

definition grown :: "DedupCache \<Rightarrow> ustr \<Rightarrow> int \<Rightarrow> (int, ustr set) pydict" where
  "grown c i t =
     AList.update (t div bucket_span_ms c)
       (insert i (get_default (live c t) (t div bucket_span_ms c) {})) (live c t)"

lemma live_set:
  "(k, ids) \<in> set (live c t) \<longleftrightarrow>
     (k, ids) \<in> set (buckets c) \<and> (t - window_ms c) div bucket_span_ms c \<le> k"
  by (auto simp: live_def buckets_expire)

lemma span_expire_seen [simp]:
  "bucket_span_ms (expire (c\<lparr>seen_count := n\<rparr>) t) = bucket_span_ms c"
  "buckets (expire (c\<lparr>seen_count := n\<rparr>) t) = live c t"
  by (simp_all add: live_def buckets_expire bucket_span_ms_def)

lemma is_new_eq:
  "is_new c i t =
     (if \<exists>(_, ids) \<in> set (live c t). i \<in> ids
      then (c\<lparr>buckets := live c t, seen_count := seen_count c + 1,
              duplicate_count := duplicate_count c + 1\<rparr>, False)
      else (c\<lparr>buckets := fst (drop_oldest (max_ids c) (grown c i t) (evicted_early c)),
              seen_count := seen_count c + 1,
              evicted_early := snd (drop_oldest (max_ids c) (grown c i t) (evicted_early c))\<rparr>, True))"
  by (simp add: is_new_def Let_def enforce_size_def grown_def split_beta)
     (simp add: expire_def live_def Let_def bucket_span_ms_def)

lemma is_new_snd: "snd (is_new c i t) \<longleftrightarrow> (\<forall>(_, ids) \<in> set (live c t). i \<notin> ids)"
  by (auto simp: is_new_eq)

lemma is_new_window [simp]:
  "window_ms (fst (is_new c i t)) = window_ms c" "nbuckets (fst (is_new c i t)) = nbuckets c"
  "max_ids (fst (is_new c i t)) = max_ids c"
  "bucket_span_ms (fst (is_new c i t)) = bucket_span_ms c"
  by (simp_all add: is_new_eq bucket_span_ms_def)

lemma live_wf: "wf_cache c \<Longrightarrow> wf_buckets (live c t)"
  by (simp add: live_def buckets_expire wf_cache_def wf_buckets_filter)

lemma grown_wf: "wf_cache c \<Longrightarrow> snd (is_new c i t) \<Longrightarrow> wf_buckets (grown c i t)"
  unfolding grown_def by (rule wf_buckets_insert) (auto simp: live_wf is_new_snd)

lemma total_filter_le: "total_ids (filter P bs) \<le> total_ids bs"
  by (induction bs) auto

lemma wf_is_new: "wf_cache c \<Longrightarrow> wf_cache (fst (is_new c i t))"
proof -
  assume wf: "wf_cache c"
  show ?thesis
  proof (cases "snd (is_new c i t)")
    case True
    then have "wf_buckets (fst (drop_oldest (max_ids c) (grown c i t) (evicted_early c)))"
      using wf by (intro drop_oldest_wf grown_wf)
    with True show ?thesis
      using drop_oldest_bound [of "max_ids c" "grown c i t" "evicted_early c"]
      by (auto simp: is_new_eq wf_cache_def cache_size_def split: if_splits)
  next
    case False
    have "total_ids (live c t) \<le> cache_size c" "length (live c t) \<le> length (buckets c)"
      by (simp_all add: live_def buckets_expire cache_size_def total_filter_le)
    with False wf live_wf [OF wf, of t] show ?thesis
      by (auto simp: is_new_eq wf_cache_def cache_size_def split: if_splits)
  qed
qed

lemma grown_set:
  assumes "wf_cache c" and "(k, ids) \<in> set (grown c i t)"
  shows "(k, ids) \<in> set (live c t) \<or>
     k = t div bucket_span_ms c \<and> ids = insert i (get_default (live c t) k {})"
proof -
  have "wf_dict (live c t)" using live_wf [OF assms(1)] by (simp add: wf_buckets_def)
  with assms(2) show ?thesis by (auto simp: grown_def set_update)
qed

lemma get_default_held:
  "j \<in> get_default bs k {} \<Longrightarrow> (k, get_default bs k {}) \<in> set bs"
  by (auto simp: get_default_def dest: map_of_SomeD split: option.splits)

lemma held_is_new: "wf_cache c \<Longrightarrow> held_ids (fst (is_new c i t)) \<subseteq> insert i (held_ids c)"
proof
  fix j assume wf: "wf_cache c" and "j \<in> held_ids (fst (is_new c i t))"
  then obtain k ids where ids: "j \<in> ids" "(k, ids) \<in> set (buckets (fst (is_new c i t)))"
    by (auto simp: held_ids_def)
  have "(k, ids) \<in> set (live c t) \<or> (k, ids) \<in> set (grown c i t)"
    using ids(2) drop_oldest_subset [of "max_ids c" "grown c i t" "evicted_early c"]
    by (auto simp: is_new_eq split: if_splits)
  then have "(k, ids) \<in> set (live c t) \<or> ids = insert i (get_default (live c t) k {})"
    using grown_set [OF wf] by blast
  then have "j = i \<or> (\<exists>k ids. (k, ids) \<in> set (live c t) \<and> j \<in> ids)"
    using ids(1) by (blast dest: get_default_held)
  then show "j \<in> insert i (held_ids c)"
    by (auto simp: held_ids_def live_set)
qed

lemma is_new_refused_held: "\<not> snd (is_new c i t) \<Longrightarrow> i \<in> held_ids c"
  by (auto simp: is_new_snd held_ids_def live_set)

lemma is_new_evicted_mono: "evicted_early c \<le> evicted_early (fst (is_new c i t))"
  using drop_oldest_total [of "max_ids c" "grown c i t" "evicted_early c"]
  by (simp add: is_new_eq drop_oldest_count)

lemma is_new_not_evicted:
  assumes "wf_cache c" and "evicted_early (fst (is_new c i t)) = evicted_early c"
  shows "buckets (fst (is_new c i t)) = (if snd (is_new c i t) then grown c i t else live c t)"
proof (cases "snd (is_new c i t)")
  case True
  then have e: "snd (drop_oldest (max_ids c) (grown c i t) (evicted_early c)) = evicted_early c"
    using assms(2) by (auto simp: is_new_eq split: if_splits)
  have "fst (drop_oldest (max_ids c) (grown c i t) (evicted_early c)) = grown c i t"
    using assms(1) True e by (intro drop_oldest_unchanged grown_wf)
  with True show ?thesis by (auto simp: is_new_eq split: if_splits)
qed (auto simp: is_new_eq split: if_splits)

lemma grown_keeps:
  assumes "wf_cache c" and "(k, ids) \<in> set (live c t)" and "j \<in> ids"
  shows "\<exists>ids'. (k, ids') \<in> set (grown c i t) \<and> j \<in> ids'"
proof -
  have wf: "wf_dict (live c t)" using live_wf [OF assms(1)] by (simp add: wf_buckets_def)
  show ?thesis
  proof (cases "k = t div bucket_span_ms c")
    case True
    have "map_of (live c t) k = Some ids" using assms(2) wf by (simp add: in_dict_iff)
    then have "get_default (live c t) k {} = ids" by (simp add: get_default_def)
    with assms(3) True show ?thesis by (auto simp: grown_def set_update [OF wf])
  next
    case False
    with assms(2,3) show ?thesis by (auto simp: grown_def set_update [OF wf])
  qed
qed

lemma grown_has: "wf_cache c \<Longrightarrow> \<exists>ids. (t div bucket_span_ms c, ids) \<in> set (grown c i t) \<and> i \<in> ids"
  using live_wf [of c t] by (auto simp: grown_def wf_buckets_def set_update)

subsection \<open>The cache provides the interfaces\<close>

lemma since_iff:
  "held_since c t0 i \<longleftrightarrow>
     (\<exists>k ids. (k, ids) \<in> set (buckets c) \<and> i \<in> ids \<and> t0 div bucket_span_ms c \<le> k)"
  by (auto simp: held_since_def)

lemma since_survives_expiry:
  assumes "held_since c t0 j" and "t \<le> t0 + window_ms c"
  shows "\<exists>k ids. (k, ids) \<in> set (live c t) \<and> j \<in> ids \<and> t0 div bucket_span_ms c \<le> k"
proof -
  have "(t - window_ms c) div bucket_span_ms c \<le> t0 div bucket_span_ms c"
    using assms(2) bucket_span_pos [of c] by (intro zdiv_mono1) auto
  with assms(1) show ?thesis unfolding since_iff live_set by force
qed

lemma since_is_new:
  assumes wf: "wf_cache c" and since: "held_since c t0 j" and t: "t \<le> t0 + window_ms c"
    and e: "evicted_early (fst (is_new c i t)) = evicted_early c"
  shows "held_since (fst (is_new c i t)) t0 j"
proof -
  obtain k ids where k: "(k, ids) \<in> set (live c t)" "j \<in> ids" "t0 div bucket_span_ms c \<le> k"
    using since_survives_expiry [OF since t] by blast
  then obtain ids' where "(k, ids') \<in> set (grown c i t)" "j \<in> ids'"
    using grown_keeps [OF wf] by blast
  with k show ?thesis
    unfolding since_iff is_new_not_evicted [OF wf e] by auto
qed

interpretation dedup: window_cache held_ids is_new wf_cache held_since evicted_early window_ms
proof unfold_locales
  fix c i t t0 j
  show "wf_cache (fst (is_new c i t))" if "wf_cache c" using that by (rule wf_is_new)
  show "i \<in> held_ids c" if "\<not> snd (is_new c i t)" using that by (rule is_new_refused_held)
  show "held_ids (fst (is_new c i t)) \<subseteq> insert i (held_ids c)" if "wf_cache c"
    using that by (rule held_is_new)
  show "window_ms (fst (is_new c i t)) = window_ms c" by simp
  show "evicted_early c \<le> evicted_early (fst (is_new c i t))" by (rule is_new_evicted_mono)
  show "held_since (fst (is_new c i t)) t i"
    if "wf_cache c" "snd (is_new c i t)" "evicted_early (fst (is_new c i t)) = evicted_early c"
    using that grown_has [OF that(1), of t i] by (auto simp: since_iff is_new_not_evicted)
  show "held_since (fst (is_new c i t)) t0 j"
    if "wf_cache c" "held_since c t0 j" "t \<le> t0 + window_ms c"
      "evicted_early (fst (is_new c i t)) = evicted_early c"
    using that by (rule since_is_new)
  show "\<not> snd (is_new c i t)" if "held_since c t0 i" "t \<le> t0 + window_ms c"
    using since_survives_expiry [OF that] by (auto simp: is_new_snd)
qed

subsection \<open>Size and early evictions\<close>

lemma wf_new_cache [simp]: "wf_cache new_cache"
  by (simp add: wf_cache_def new_cache_def wf_buckets_def disjoint_buckets_def)

lemma wf_cache_clear [simp]: "wf_cache (cache_clear c)"
  by (simp add: wf_cache_def cache_clear_def wf_buckets_def disjoint_buckets_def)

lemma held_clear [simp]: "held_ids (cache_clear c) = {}"
  by (simp add: held_ids_def cache_clear_def)

lemma total_ids_update:
  "wf_dict bs \<Longrightarrow> total_ids (AList.update k ids bs)
     = total_ids bs - int (card (get_default bs k {})) + int (card ids)"
  by (induction bs) auto

lemma total_grown:
  assumes "wf_cache c"
  shows "total_ids (grown c i t) \<le> cache_size c + 1"
proof -
  have "total_ids (live c t) \<le> cache_size c"
    by (simp add: live_def buckets_expire cache_size_def total_filter_le)
  moreover have "total_ids (grown c i t) \<le> total_ids (live c t) + 1"
    using live_wf [OF assms, of t] card_insert_le_Suc [of i "get_default (live c t) (t div bucket_span_ms c) {}"]
    by (simp add: grown_def total_ids_update wf_buckets_def)
  ultimately show ?thesis by simp
qed

lemma cache_size_is_new:
  assumes "wf_cache c"
  shows "cache_size (fst (is_new c i t)) \<le> cache_size c + 1"
proof -
  have "total_ids (live c t) \<le> cache_size c"
    by (simp add: live_def buckets_expire cache_size_def total_filter_le)
  moreover have "total_ids (fst (drop_oldest (max_ids c) (grown c i t) (evicted_early c)))
      \<le> cache_size c + 1"
    using drop_oldest_total total_grown [OF assms] by (rule order_trans)
  ultimately show ?thesis by (simp add: is_new_eq cache_size_def)
qed

lemma room_no_eviction:
  "wf_cache c \<Longrightarrow> cache_size c < max_ids c \<Longrightarrow> evicted_early (fst (is_new c i t)) = evicted_early c"
  using total_grown [of c i t] by (simp add: is_new_eq drop_oldest_small)

lemma room_feed_no_eviction:
  assumes "wf_cache c" and "cache_size c + int (length xs) \<le> max_ids c"
  shows "evicted_early (fst (feed is_new c xs)) = evicted_early c"
  using assms
proof (induction xs arbitrary: c)
  case (Cons x xs)
  obtain i t where x: "x = (i, t)" by (cases x)
  have "evicted_early (fst (feed is_new (fst (is_new c i t)) xs)) = evicted_early (fst (is_new c i t))"
    using Cons.prems cache_size_is_new [OF Cons.prems(1), of i t]
    by (intro Cons.IH) (simp_all add: wf_is_new)
  also have "\<dots> = evicted_early c" using Cons.prems by (intro room_no_eviction) auto
  finally show ?case by (simp add: x split_beta Let_def)
qed simp

lemma total_ids_card: "wf_buckets bs \<Longrightarrow> total_ids bs = int (card (\<Union>(_, ids) \<in> set bs. ids))"
proof (induction bs)
  case (Cons b bs)
  obtain k ids where b: "b = (k, ids)" by (cases b)
  have k: "k \<notin> fst ` set bs" using Cons.prems by (simp add: wf_buckets_def b)
  have "ids \<inter> ids' = {}" if "(k', ids') \<in> set bs" for k' ids'
  proof (rule disjoint_bucketsD)
    show "disjoint_buckets (b # bs)" using Cons.prems by (simp add: wf_buckets_def)
    show "(k, ids) \<in> set (b # bs)" "(k', ids') \<in> set (b # bs)" using that by (simp_all add: b)
    show "k \<noteq> k'" using that k by force
  qed
  then have "ids \<inter> (\<Union>(_, ids) \<in> set bs. ids) = {}" by auto
  moreover have "finite ids" "finite (\<Union>(_, ids) \<in> set bs. ids)"
    using Cons.prems by (auto simp: wf_buckets_def b)
  ultimately show ?case
    using Cons wf_buckets_Cons [of k ids bs] by (simp add: b card_Un_disjoint)
qed simp

lemma cache_size_held: "wf_cache c \<Longrightarrow> cache_size c = int (card (held_ids c))"
  by (simp add: cache_size_def held_ids_def total_ids_card wf_cache_def)

subsection \<open>Properties\<close>

text \<open>
  C9. A duplicate within the window is caught. Once \<open>is_new\<close> has accepted an id at time
  \<open>t0\<close>, then after any further calls whose times are at most \<open>t0 + window_ms\<close>, a
  call with the same id in the window is refused, provided the cache has room for the ids
  offered in between (an early eviction is the only way to forget sooner).
\<close>

theorem dedup_catches_duplicates:
  assumes "wf_cache c" and "snd (is_new c i t0)"
    and "cache_size c + int (length xs) < max_ids c"
    and "\<forall>(j, t) \<in> set xs. t \<le> t0 + window_ms c" and "t \<le> t0 + window_ms c"
  shows "\<not> snd (is_new (fst (feed is_new (fst (is_new c i t0)) xs)) i t)"
proof -
  have "evicted_early (fst (feed is_new c ((i, t0) # xs))) = evicted_early c"
    using assms(1,3) by (intro room_feed_no_eviction) auto
  then have "evicted_early (fst (feed is_new (fst (is_new c i t0)) xs)) = evicted_early c"
    by (simp add: split_beta Let_def)
  with assms show ?thesis by (intro dedup.copy_refused) auto
qed

theorem dedup_catches_duplicates_witness:
  "\<not> snd (is_new (fst (feed is_new (fst (is_new new_cache (ascii ''a'') 1000))
      [(ascii ''b'', 2000), (ascii ''c'', 3600000)])) (ascii ''a'') 3601000)"
  by (rule dedup_catches_duplicates)
    (simp_all add: new_cache_def HOUR_MS_def is_new_snd live_def buckets_expire cache_size_def
      wf_cache_def wf_buckets_def disjoint_buckets_def)

text \<open>
  Nothing is dropped by mistake. Starting from a cleared cache, an id is refused only
  if it was offered before: an event seen for the first time is never a duplicate.
\<close>

theorem dedup_no_false_duplicate:
  assumes "\<not> snd (is_new (fst (feed is_new (cache_clear c) xs)) i t)"
  shows "i \<in> fst ` set xs"
  using dedup.refused_seen_before [OF wf_cache_clear assms] by simp

theorem dedup_no_false_duplicate_witness:
  "ascii ''a'' \<in> fst ` set [(ascii ''a'', 5 :: int)]"
  by (rule dedup_no_false_duplicate [of "new_cache" _ _ 6])
    (simp add: new_cache_def HOUR_MS_def cache_clear_def is_new_eq live_def buckets_expire grown_def
      split_beta Let_def bucket_span_ms_def)

text \<open>
  C20. Memory is bounded. After any sequence of calls the cache holds each id once (its size
  is the number of ids it would refuse), and that number is at most \<open>max_ids\<close> unless a
  single bucket is left.
\<close>

theorem dedup_memory_bound:
  "let c = fst (feed is_new new_cache xs)
   in cache_size c = int (card (held_ids c)) \<and>
      (cache_size c \<le> max_ids c \<or> length (buckets c) \<le> 1)"
proof -
  let ?c = "fst (feed is_new new_cache xs)"
  have wf: "wf_cache ?c" by (rule dedup.valid_feed [OF wf_new_cache])
  from cache_size_held [OF wf] wf [unfolded wf_cache_def] show ?thesis
    unfolding Let_def by blast
qed

text \<open>
  Old ids are forgotten. After a call at time \<open>t\<close> every bucket left in the cache ends
  after \<open>t - window_ms\<close>: an id recorded one bucket span before the window is gone.
\<close>

theorem dedup_forgets_old_ids:
  assumes "wf_cache c" and "0 \<le> window_ms c" and "(k, ids) \<in> set (buckets (fst (is_new c i t)))"
  shows "t - window_ms c < (k + 1) * bucket_span_ms c"
proof -
  let ?s = "bucket_span_ms c"
  have "(k, ids) \<in> set (live c t) \<or> (k, ids) \<in> set (grown c i t)"
    using assms(3) drop_oldest_subset [of "max_ids c" "grown c i t" "evicted_early c"]
    by (auto simp: is_new_eq split: if_splits)
  then have "(t - window_ms c) div ?s \<le> k"
  proof
    assume "(k, ids) \<in> set (grown c i t)"
    from grown_set [OF assms(1) this] show ?thesis
      using assms(2) bucket_span_pos [of c] by (auto simp: live_set intro: zdiv_mono1)
  qed (simp add: live_set)
  then have "((t - window_ms c) div ?s + 1) * ?s \<le> (k + 1) * ?s"
    using bucket_span_pos [of c] by (intro mult_right_mono) auto
  moreover have "t - window_ms c < ((t - window_ms c) div ?s + 1) * ?s"
    using pos_mod_bound [OF bucket_span_pos [of c], of "t - window_ms c"]
      div_mult_mod_eq [of "t - window_ms c" ?s] unfolding distrib_right by linarith
  ultimately show ?thesis by linarith
qed

theorem dedup_forgets_old_ids_witness:
  "(5000000 :: int) - HOUR_MS < (16 + 1) * 300000"
proof -
  have "(16, {ascii ''a''}) \<in> set (buckets (fst (is_new new_cache (ascii ''a'') 5000000)))"
    by (simp add: new_cache_def HOUR_MS_def is_new_eq live_def buckets_expire grown_def
        bucket_span_ms_def)
  from dedup_forgets_old_ids [OF _ _ this] show ?thesis
    by (simp add: new_cache_def HOUR_MS_def bucket_span_ms_def)
qed

end
