(* ===== verification/Transform.thy ===== *)
theory Transform
  imports Dlq Dedup
begin

text \<open>
  \<^verbatim>\<open>processors/transform.py\<close>: one raw message becomes one outcome. The dedup cache is
  threaded through; an exception that is not a \<open>ParseError\<close> escapes.
\<close>

datatype outcome =
  Clean CleanEvent
| Duplicate ustr
| Rejected parse_reason bytes
| Skipped ustr

text \<open>\<open>Rejected.envelope\<close>\<close>

definition envelope ::
  "runtime \<Rightarrow> parse_reason \<Rightarrow> bytes \<Rightarrow> ustr \<Rightarrow> int \<Rightarrow> int \<Rightarrow> ustr \<Rightarrow> pyexc + bytes" where
  "envelope rt reason payload source_topic partition_no offset now =
     dlq_record rt (ascii ''cleaner'') (reason_text rt reason) (Bytes payload) source_topic
       [(ascii ''partition'', JInt partition_no), (ascii ''offset'', JInt offset)] now"

definition event_time_ms :: "runtime \<Rightarrow> CleanEvent \<Rightarrow> int option \<Rightarrow> pyexc + int" where
  "event_time_ms rt e fallback_ms =
     (case bind_res (fromisoformat (event_time e)) (datetime_ms (rt_naive_ms rt)) of
        Inr ms \<Rightarrow> Inr ms
      | Inl x \<Rightarrow>
          if is_value_error x \<or> x = TypeError
          then Inr (case fallback_ms of Some ms \<Rightarrow> ms | None \<Rightarrow> 0)
          else Inl x)"

fun rejected_payload :: "payload \<Rightarrow> bytes" where
  "rejected_payload (Bytes b) = b"
| "rejected_payload _ = []"

definition transform ::
  "runtime \<Rightarrow> payload \<Rightarrow> DedupCache \<Rightarrow> int option \<Rightarrow> pyexc + outcome \<times> DedupCache" where
  "transform rt payload cache message_time_ms =
     (let parsed =
        bind_res (parse_raw payload) (\<lambda>raw.
          if is_canary raw then Inr None else map_sum id Some (clean_event rt raw))
      in case parsed of
           Inl (ParseError r) \<Rightarrow> Inr (Rejected r (rejected_payload payload), cache)
         | Inl (Py e) \<Rightarrow> Inl e
         | Inr None \<Rightarrow> Inr (Skipped (ascii ''canary''), cache)
         | Inr (Some event) \<Rightarrow>
             bind_res (event_time_ms rt event message_time_ms) (\<lambda>timestamp.
               case is_new cache (event_id event) timestamp of
                 (cache', new) \<Rightarrow>
                   Inr (if new then Clean event else Duplicate (event_id event), cache')))"

subsection \<open>The event time of a clean event\<close>

lemma clean_event_time:
  assumes "event_time e = isoformat_utc us" and "date_range us"
  shows "event_time_ms rt e fb = Inr (timestamp_ms us)"
proof -
  obtain d where "fromisoformat (isoformat_utc us) = Inr d" "utcoffset d = Some 0" "wall_us d = us"
    using isoformat_utc_reads_back [of us] assms(2) unfolding date_range_def by blast
  then show ?thesis by (simp add: event_time_ms_def assms(1) datetime_ms_def)
qed

text \<open>
  The event time of a clean event can always be read: for every event \<open>clean_event\<close>
  accepts there is one instant its text stands for, and \<open>event_time_ms\<close> is that instant in
  milliseconds (by the double arithmetic of \<open>timestamp()\<close>), whatever the fallback is. The
  message time is never used in its place, so windows, dedup and detection agree on the time.
\<close>

theorem clean_event_time_never_falls_back:
  assumes "clean_event rt raw = Inr e"
  shows "\<exists>us. date_range us \<and> event_time e = isoformat_utc us \<and>
    (\<forall>fallback. event_time_ms rt e fallback = Inr (timestamp_ms us))"
proof -
  have "event_time_of rt raw = Inr (event_time e)" using assms by (elim clean_eventE)
  then obtain us where "date_range us" "event_time e = isoformat_utc us"
    using event_time_of_iso by blast
  with clean_event_time show ?thesis by blast
qed

theorem clean_event_time_never_falls_back_witness:
  "\<exists>us. date_range us \<and> event_time sample_event = isoformat_utc us \<and>
    (\<forall>fallback. event_time_ms plain_runtime sample_event fallback = Inr (timestamp_ms us))"
  by (rule clean_event_time_never_falls_back [OF sample_clean])

subsection \<open>Outcomes\<close>

text \<open>How a payload is judged before the cache is asked.\<close>

definition validated :: "runtime \<Rightarrow> payload \<Rightarrow> exc + CleanEvent option" where
  "validated rt p =
     bind_res (parse_raw p) (\<lambda>raw.
       if is_canary raw then Inr None else map_sum id Some (clean_event rt raw))"

lemma validated_event:
  assumes "validated rt p = Inr (Some e)"
  shows "\<exists>raw. parse_raw p = Inr raw \<and> clean_event rt raw = Inr e"
proof -
  obtain raw where raw: "parse_raw p = Inr raw"
    and "(if is_canary raw then Inr None else map_sum id Some (clean_event rt raw)) = Inr (Some e)"
    using assms by (auto simp: validated_def bind_res_Inr_iff)
  then have "clean_event rt raw = Inr e" by (cases "clean_event rt raw") (auto split: if_splits)
  with raw show ?thesis by blast
qed

text \<open>A partition's messages one after the other, with the outcome of each.\<close>

fun transform_all ::
  "runtime \<Rightarrow> DedupCache \<Rightarrow> (payload \<times> int option) list \<Rightarrow> pyexc + outcome list \<times> DedupCache" where
  "transform_all rt c [] = Inr ([], c)"
| "transform_all rt c ((p, t) # ps) =
     bind_res (transform rt p c t) (\<lambda>(out, c1).
       bind_res (transform_all rt c1 ps) (\<lambda>(outs, c2). Inr (out # outs, c2)))"

fun clean_ids :: "outcome list \<Rightarrow> ustr list" where
  "clean_ids [] = []"
| "clean_ids (Clean e # outs) = event_id e # clean_ids outs"
| "clean_ids (_ # outs) = clean_ids outs"

text \<open>The ids and times of the valid events among the messages.\<close>

definition stamp :: "runtime \<Rightarrow> payload \<times> int option \<Rightarrow> (ustr \<times> int) option" where
  "stamp rt pt =
     (case validated rt (fst pt) of
        Inr (Some e) \<Rightarrow>
          (case event_time_ms rt e (snd pt) of Inr ms \<Rightarrow> Some (event_id e, ms) | Inl _ \<Rightarrow> None)
      | _ \<Rightarrow> None)"

definition stamps :: "runtime \<Rightarrow> (payload \<times> int option) list \<Rightarrow> (ustr \<times> int) list" where
  "stamps rt ps = List.map_filter (stamp rt) ps"

lemma stamps_simps [simp]:
  "stamps rt [] = []"
  "stamps rt (x # ps) = (case stamp rt x of None \<Rightarrow> [] | Some s \<Rightarrow> [s]) @ stamps rt ps"
  by (simp_all add: stamps_def List.map_filter_simps split: option.split)

lemma transform_step:
  assumes "transform rt p c t = Inr (out, c1)"
  shows "case stamp rt (p, t) of
      None \<Rightarrow> c1 = c \<and> (\<forall>e. validated rt p \<noteq> Inr (Some e)) \<and> clean_ids [out] = []
    | Some (i, ms) \<Rightarrow> is_new c i ms = (c1, clean_ids [out] = [i]) \<and>
        (clean_ids [out] = [i] \<or> out = Duplicate i)"
proof (cases "validated rt p")
  case (Inl x)
  with assms show ?thesis
    by (cases x) (auto simp: transform_def validated_def [symmetric] stamp_def)
next
  case (Inr r)
  show ?thesis
  proof (cases r)
    case None
    with assms Inr show ?thesis
      by (auto simp: transform_def validated_def [symmetric] stamp_def)
  next
    case (Some e)
    from assms Inr Some obtain ms where ms: "event_time_ms rt e t = Inr ms"
      by (auto simp: transform_def validated_def [symmetric] bind_res_Inr_iff)
    with assms Inr Some show ?thesis
      by (auto simp: transform_def validated_def [symmetric] stamp_def split: prod.splits if_splits)
  qed
qed

lemma clean_ids_Cons: "clean_ids (x # xs) = clean_ids [x] @ clean_ids xs"
  by (cases x) simp_all

lemma transform_all_accepted:
  "transform_all rt c ps = Inr (outs, c') \<Longrightarrow>
   clean_ids outs = accepted is_new c (stamps rt ps) \<and> c' = fst (feed is_new c (stamps rt ps))"
proof (induction ps arbitrary: c outs)
  case (Cons x ps)
  obtain p t where x: "x = (p, t)" by (cases x)
  obtain out c1 where step: "transform rt p c t = Inr (out, c1)"
    using Cons.prems by (cases "transform rt p c t") (auto simp: x)
  obtain outs' where rest: "transform_all rt c1 ps = Inr (outs', c')" and outs: "outs = out # outs'"
    using Cons.prems by (cases "transform_all rt c1 ps") (auto simp: x step)
  have ids: "clean_ids outs = clean_ids [out] @ clean_ids outs'"
    unfolding outs by (rule clean_ids_Cons)
  note ih = Cons.IH [OF rest] and st = transform_step [OF step]
  show ?case
  proof (cases "stamp rt (p, t)")
    case None
    with st ih ids show ?thesis by (simp add: x)
  next
    case (Some s)
    obtain i ms where s: "s = (i, ms)" by (cases s)
    from st Some s have new: "is_new c i ms = (c1, clean_ids [out] = [i])"
      and cl: "clean_ids [out] = [i] \<or> out = Duplicate i" by simp_all
    from cl have "clean_ids [out] = (if clean_ids [out] = [i] then [i] else [])" by auto
    with ih new Some s ids show ?thesis by (simp add: x split_beta Let_def)
  qed
qed simp

lemma stamps_valid:
  assumes "transform_all rt c ps = Inr (outs, c')"
  shows "fst ` set (stamps rt ps) = {event_id e | e p t. (p, t) \<in> set ps \<and> validated rt p = Inr (Some e)}"
proof -
  have stamped: "\<exists>ms. stamp rt (p, t) = Some (event_id e, ms)"
    if "(p, t) \<in> set ps" "validated rt p = Inr (Some e)" for p t e
  proof -
    note valid = that(2)
    obtain raw where "clean_event rt raw = Inr e" using validated_event [OF valid] by blast
    then have "event_time_of rt raw = Inr (event_time e)"
      by (elim clean_eventE)
    then obtain us where "date_range us" "event_time e = isoformat_utc us"
      using event_time_of_iso by blast
    with clean_event_time valid show ?thesis by (auto simp: stamp_def)
  qed
  have set_stamps: "set (stamps rt ps) = {s. \<exists>x \<in> set ps. stamp rt x = Some s}"
    by (auto simp: stamps_def List.map_filter_def) force
  show ?thesis
  proof (intro equalityI subsetI)
    fix i assume "i \<in> fst ` set (stamps rt ps)"
    then obtain p t ms where "(p, t) \<in> set ps" "stamp rt (p, t) = Some (i, ms)"
      by (auto simp: set_stamps)
    then show "i \<in> {event_id e | e p t. (p, t) \<in> set ps \<and> validated rt p = Inr (Some e)}"
      by (force simp: stamp_def split: sum.splits option.splits)
  next
    fix i assume "i \<in> {event_id e | e p t. (p, t) \<in> set ps \<and> validated rt p = Inr (Some e)}"
    then obtain e p t where "i = event_id e" "(p, t) \<in> set ps" "validated rt p = Inr (Some e)" by blast
    with stamped show "i \<in> fst ` set (stamps rt ps)" by (force simp: set_stamps)
  qed
qed

text \<open>
  C23. Nothing is lost in the cleaner. Starting with an empty dedup cache, if the messages of a
  partition are transformed one after the other, the ids of the events that come out clean are
  exactly the ids of the valid events that went in: rejected and heartbeat messages contribute
  none, and every id that was sent as a valid event is cleaned at least once.
\<close>

theorem transform_loses_nothing:
  assumes "transform_all rt (cache_clear c) ps = Inr (outs, c')"
  shows "set (clean_ids outs) =
    {event_id e | e p t. (p, t) \<in> set ps \<and> validated rt p = Inr (Some e)}"
proof -
  have "set (clean_ids outs) = fst ` set (stamps rt ps)"
    using transform_all_accepted [OF assms] dedup.accepted_all [OF wf_cache_clear [of c], of "stamps rt ps"]
      accepted_subset [of is_new "cache_clear c" "stamps rt ps"] by auto
  then show ?thesis by (simp only: stamps_valid [OF assms])
qed

text \<open>
  Nothing is cleaned twice. If the event times of the messages lie within one dedup window of
  each other and the cache has room for them, no two clean outcomes have the same id.
\<close>

theorem transform_cleans_once:
  assumes "transform_all rt c ps = Inr (outs, c')" and "wf_cache c"
    and "\<forall>(i, t) \<in> set (stamps rt ps). \<forall>(j, t') \<in> set (stamps rt ps). t' \<le> t + window_ms c"
    and "cache_size c + int (length (stamps rt ps)) \<le> max_ids c"
  shows "distinct (clean_ids outs)"
  using transform_all_accepted [OF assms(1)]
    dedup.accepted_distinct [OF assms(2,3) room_feed_no_eviction [OF assms(2,4)]] by simp

subsection \<open>A concrete run\<close>

definition sample_payload :: payload where
  "sample_payload = Text (dumps id (JObj sample_raw))"

lemma sample_parse: "parse_raw sample_payload = Inr sample_raw"
proof -
  have "json_ok (JObj sample_raw)"
    by (simp add: sample_raw_def digits_of.simps MAX_STR_DIGITS_def)
  from json_loads_dumps [OF this] show ?thesis
    by (simp only: sample_payload_def parse_raw.simps parse_text_def sum.case json.case)
qed

lemma sample_validated: "validated plain_runtime sample_payload = Inr (Some sample_event)"
proof -
  have "\<not> is_canary sample_raw" by (simp add: is_canary_def sample_raw_def field_of_def)
  then show ?thesis by (simp add: validated_def sample_parse sample_clean)
qed

lemma sample_stamp:
  "\<exists>ms. \<forall>t. event_time_ms plain_runtime sample_event t = Inr ms \<and>
        stamp plain_runtime (sample_payload, t) = Some (event_id sample_event, ms)"
  using clean_event_time [of sample_event]
    event_time_of_iso [of plain_runtime sample_raw "event_time sample_event"] sample_event_time
  by (auto simp: stamp_def sample_validated) (auto simp: sample_event_def)

lemma sample_run:
  "\<exists>outs c'. transform_all plain_runtime c [(sample_payload, None), (sample_payload, Some 5)] = Inr (outs, c')"
proof -
  obtain ms where ms: "event_time_ms plain_runtime sample_event t = Inr ms" for t
    using sample_stamp by blast
  have "transform plain_runtime sample_payload c t =
      (case is_new c (event_id sample_event) ms of
         (c', new) \<Rightarrow> Inr (if new then Clean sample_event else Duplicate (event_id sample_event), c'))" for c t
    using sample_validated ms by (simp add: transform_def validated_def [symmetric])
  then show ?thesis by (simp add: split_beta)
qed

theorem transform_loses_nothing_witness:
  "\<exists>outs c'. transform_all plain_runtime (cache_clear new_cache)
       [(sample_payload, None), (sample_payload, Some 5)] = Inr (outs, c') \<and>
     set (clean_ids outs) = {event_id e | e p t. (p, t) \<in> set [(sample_payload, None), (sample_payload, Some (5 :: int))]
       \<and> validated plain_runtime p = Inr (Some e)}"
proof -
  obtain outs c' where run: "transform_all plain_runtime (cache_clear new_cache)
       [(sample_payload, None), (sample_payload, Some 5)] = Inr (outs, c')"
    using sample_run by blast
  from transform_loses_nothing [OF run] run show ?thesis by blast
qed

theorem transform_cleans_once_witness:
  "\<exists>outs c'. transform_all plain_runtime new_cache
       [(sample_payload, None), (sample_payload, Some 5)] = Inr (outs, c') \<and> distinct (clean_ids outs)"
proof -
  obtain outs c' where run: "transform_all plain_runtime new_cache
       [(sample_payload, None), (sample_payload, Some 5)] = Inr (outs, c')"
    using sample_run by blast
  obtain ms where st: "stamp plain_runtime (sample_payload, t) = Some (event_id sample_event, ms)" for t
    using sample_stamp by blast
  have "distinct (clean_ids outs)"
    by (rule transform_cleans_once [OF run wf_new_cache])
      (simp_all add: st new_cache_def HOUR_MS_def cache_size_def)
  with run show ?thesis by blast
qed

end
