(* ===== verification/Kafka.thy ===== *)
theory Kafka
  imports PyText
begin

text \<open>
  What the program sees of the Kafka client: messages, the results of \<open>poll\<close>, records
  handed to the producer. A client error is the end of a partition, fatal, or one the client is
  already retrying. The functions at the end are those of \<^verbatim>\<open>common/topics.py\<close> and of
  the batch loop shared by \<^verbatim>\<open>processors/transactional.py\<close> and
  \<^verbatim>\<open>sinks/postgres_sink.py\<close>.
\<close>

record kmsg =
  k_topic :: ustr
  k_partition :: int
  k_offset :: int
  k_time :: int
  k_key :: "bytes option"
  k_value :: "bytes option"

datatype kerror = PartitionEof | FatalError | RetriedError

datatype poll = NoMessage | Message kmsg | PollError kerror

record outgoing =
  out_topic :: ustr
  out_key :: "bytes option"
  out_value :: "bytes option"
  out_time :: int      \<comment> \<open>0 leaves the time to the client\<close>

text \<open>
  \<open>check_consumer_error\<close>: \<open>True\<close> when it raises.
\<close>

fun check_consumer_error :: "kerror \<Rightarrow> bool" where
  "check_consumer_error PartitionEof = False"
| "check_consumer_error FatalError = True"
| "check_consumer_error RetriedError = False"

text \<open>
  \<open>collect_batch\<close> on the results of successive polls, each with the time left before its
  deadline when it was made. The loop also ends when the process is told to stop, which is a poll
  list that ends. \<open>None\<close> is the exception of a fatal error. The second component is what
  was not polled.
\<close>

fun collect_batch :: "nat \<Rightarrow> (int \<times> poll) list \<Rightarrow> (kmsg list \<times> (int \<times> poll) list) option" where
  "collect_batch 0 polls = Some ([], polls)"
| "collect_batch (Suc room) [] = Some ([], [])"
| "collect_batch (Suc room) ((remaining, p) # polls) =
     (if remaining \<le> 0 then Some ([], (remaining, p) # polls)
      else
        (case p of
           NoMessage \<Rightarrow> collect_batch (Suc room) polls
         | PollError e \<Rightarrow> if check_consumer_error e then None else collect_batch (Suc room) polls
         | Message m \<Rightarrow> map_option (apfst ((#) m)) (collect_batch room polls)))"

definition messages :: "(int \<times> poll) list \<Rightarrow> kmsg list" where
  "messages polls = List.map_filter (\<lambda>(_, p). case p of Message m \<Rightarrow> Some m | _ \<Rightarrow> None) polls"

lemma messages_simps [simp]:
  "messages [] = []"
  "messages ((r, NoMessage) # ps) = messages ps"
  "messages ((r, PollError e) # ps) = messages ps"
  "messages ((r, Message m) # ps) = m # messages ps"
  by (simp_all add: messages_def List.map_filter_simps)

lemma collect_batch_split:
  "collect_batch room polls = Some (batch, rest) \<Longrightarrow>
   length batch \<le> room \<and> messages polls = batch @ messages rest"
proof (induction room polls arbitrary: batch rule: collect_batch.induct)
  case (3 room remaining p polls)
  then show ?case by (cases p) (auto split: if_splits)
qed auto

end
