(* ===== verification/Warmup.thy ===== *)
theory Warmup
  imports Kafka Models Dedup
begin

text \<open>
  \<^verbatim>\<open>processors/warmup.py\<close>: memory state rebuilt from a partition's recent history. What the
  broker answers is an argument: the low watermark, the record at a position, the answer of
  \<open>offsets_for_times\<close>, and the polls that follow the seek. The callback is a function on
  the state it fills.
\<close>

definition MAX_RECORDS :: int where
  "MAX_RECORDS = 200000"

record WarmupResult =
  wr_partition :: int
  loaded :: int
  skipped :: int
  from_offset :: int
  until_offset :: int

definition replayed :: "WarmupResult \<Rightarrow> int" where
  "replayed r = loaded r + skipped r"

record PartitionReplayer =
  pr_topic :: ustr
  pr_window_ms :: int
  pr_max_records :: int
  pr_now_ms :: int

text \<open>The answers of the broker: \<open>at_time\<close> is negative when no record is that new.\<close>

record broker =
  low :: int
  at_offset :: "int \<Rightarrow> poll"
  at_time :: "int \<Rightarrow> int"

definition anchor_time :: "PartitionReplayer \<Rightarrow> broker \<Rightarrow> int \<Rightarrow> int" where
  "anchor_time r b until =
     (case at_offset b (until - 1) of
        Message m \<Rightarrow> if k_time m > 0 then k_time m else pr_now_ms r
      | _ \<Rightarrow> pr_now_ms r)"

definition start_offset :: "PartitionReplayer \<Rightarrow> broker \<Rightarrow> int \<Rightarrow> int option" where
  "start_offset r b until =
     (if until \<le> low b then None
      else
        let cutoff = anchor_time r b until - pr_window_ms r;
            found = at_time b cutoff
        in if found < 0 then None
           else
             let start = max found (max (low b) (until - pr_max_records r))
             in if start < until then Some start else None)"

text \<open>The polling loop; \<open>None\<close> is the \<open>KafkaException\<close> of a client error.\<close>

fun replay_polls ::
  "('s \<Rightarrow> kmsg \<Rightarrow> 's \<times> bool) \<Rightarrow> int \<Rightarrow> poll list \<Rightarrow> 's \<Rightarrow> WarmupResult \<Rightarrow> ('s \<times> WarmupResult) option" where
  "replay_polls on_message until [] s res = Some (s, res)"
| "replay_polls on_message until (p # ps) s res =
     (case p of
        NoMessage \<Rightarrow> Some (s, res)
      | PollError e \<Rightarrow> if e = PartitionEof then Some (s, res) else None
      | Message m \<Rightarrow>
          if k_offset m \<ge> until then Some (s, res)
          else
            (case on_message s m of
               (s', used) \<Rightarrow>
                 replay_polls on_message until ps s'
                   (if used then res\<lparr>loaded := loaded res + 1\<rparr>
                    else res\<lparr>skipped := skipped res + 1\<rparr>)))"

text \<open>\<open>polls\<close> gives what is polled after the seek to an offset.\<close>

definition replay ::
  "PartitionReplayer \<Rightarrow> broker \<Rightarrow> (int \<Rightarrow> poll list) \<Rightarrow> int \<Rightarrow> int \<Rightarrow>
   ('s \<Rightarrow> kmsg \<Rightarrow> 's \<times> bool) \<Rightarrow> 's \<Rightarrow> ('s \<times> WarmupResult) option" where
  "replay r b polls partition_no until on_message s =
     (let res = \<lparr>wr_partition = partition_no, loaded = 0, skipped = 0, from_offset = -1,
                 until_offset = until\<rparr>
      in if until \<le> 0 then Some (s, res)
         else
           (case start_offset r b until of
              None \<Rightarrow> Some (s, res)
            | Some start \<Rightarrow>
                replay_polls on_message until (polls start) s (res\<lparr>from_offset := start\<rparr>)))"

subsection \<open>The cleaner's cache\<close>

text \<open>\<open>CacheWarmer._load\<close>; an exception that is not a \<open>ParseError\<close> is \<open>None\<close>.\<close>

definition load_id :: "int \<Rightarrow> DedupCache option \<Rightarrow> kmsg \<Rightarrow> DedupCache option \<times> bool" where
  "load_id now_ms c m =
     (case bind_res (parse_raw (payload_of (k_value m))) event_id_of of
        Inl (ParseError _) \<Rightarrow> (c, False)
      | Inl (Py _) \<Rightarrow> (None, False)
      | Inr i \<Rightarrow>
          (map_option (\<lambda>cache. fst (is_new cache i (if k_time m > 0 then k_time m else now_ms))) c,
           True))"

definition warm_cache ::
  "PartitionReplayer \<Rightarrow> broker \<Rightarrow> (int \<Rightarrow> poll list) \<Rightarrow> int \<Rightarrow> DedupCache \<Rightarrow> int \<Rightarrow>
   (DedupCache option \<times> WarmupResult) option" where
  "warm_cache r b polls partition_no cache until =
     replay r b polls partition_no until (load_id (pr_now_ms r)) (Some cache)"

subsection \<open>What a replay reads\<close>

text \<open>The messages a replay hands to the callback.\<close>

fun replay_messages :: "int \<Rightarrow> poll list \<Rightarrow> kmsg list" where
  "replay_messages until [] = []"
| "replay_messages until (p # ps) =
     (case p of
        Message m \<Rightarrow> if k_offset m \<ge> until then [] else m # replay_messages until ps
      | _ \<Rightarrow> [])"

lemma replay_polls_fold:
  "replay_polls f until ps s res = Some (s', res') \<Longrightarrow>
   s' = fold (\<lambda>m s. fst (f s m)) (replay_messages until ps) s \<and>
   loaded res' + skipped res' = loaded res + skipped res + int (length (replay_messages until ps)) \<and>
   from_offset res' = from_offset res \<and> until_offset res' = until_offset res"
proof (induction ps arbitrary: s res)
  case (Cons p ps)
  show ?case
  proof (cases p)
    case (Message m)
    obtain s1 used where f: "f s m = (s1, used)" by (cases "f s m")
    show ?thesis
    proof (cases "until \<le> k_offset m")
      case False
      let ?res = "if used then res\<lparr>loaded := loaded res + 1\<rparr> else res\<lparr>skipped := skipped res + 1\<rparr>"
      have "replay_polls f until ps s1 ?res = Some (s', res')"
        using Cons.prems Message f False by simp
      from Cons.IH [OF this] Message f False show ?thesis by (cases used) auto
    qed (use Cons.prems Message in auto)
  qed (use Cons.prems in \<open>auto split: if_splits\<close>)
qed simp

lemma replay_messages_until: "m \<in> set (replay_messages until ps) \<Longrightarrow> k_offset m < until"
  by (induction ps) (auto split: poll.splits if_splits)

lemma replay_messages_polled: "m \<in> set (replay_messages until ps) \<Longrightarrow> Message m \<in> set ps"
  by (induction ps) (auto split: poll.splits if_splits)

text \<open>
  The polls on a log of increasing offsets, from a position to the end of the partition.
\<close>

definition log_polls :: "kmsg list \<Rightarrow> int \<Rightarrow> poll list" where
  "log_polls log start = map Message (filter (\<lambda>m. start \<le> k_offset m) log) @ [PollError PartitionEof]"

lemma replay_messages_sorted:
  "sorted_wrt (\<lambda>m n. k_offset m < k_offset n) ms \<Longrightarrow>
   replay_messages until (map Message ms @ [PollError PartitionEof]) = filter (\<lambda>m. k_offset m < until) ms"
proof (induction ms)
  case (Cons m ms)
  show ?case
  proof (cases "until \<le> k_offset m")
    case True
    with Cons.prems have "\<forall>n \<in> set ms. \<not> k_offset n < until" by auto
    with True show ?thesis by (simp add: filter_False)
  qed (use Cons in simp)
qed simp

lemma replayE:
  assumes "replay r b polls p until f s = Some (s', res)"
  obtains "s' = s" "replayed res = 0"
    "until \<le> 0 \<or> start_offset r b until = None"
  | start where "0 < until" "start_offset r b until = Some start" "from_offset res = start"
      "s' = fold (\<lambda>m s. fst (f s m)) (replay_messages until (polls start)) s"
      "replayed res = int (length (replay_messages until (polls start)))"
proof (cases "until \<le> 0 \<or> start_offset r b until = None")
  case True
  with assms have "s' = s" "replayed res = 0"
    by (auto simp: replay_def replayed_def Let_def split: if_splits)
  with True show ?thesis by (intro that(1))
next
  case False
  then obtain start where start: "start_offset r b until = Some start" by auto
  with assms False have "replay_polls f until (polls start) s
      \<lparr>wr_partition = p, loaded = 0, skipped = 0, from_offset = start, until_offset = until\<rparr> = Some (s', res)"
    by (simp add: replay_def)
  from replay_polls_fold [OF this] start False show ?thesis
    by (intro that(2) [of start]) (auto simp: replayed_def)
qed

text \<open>
  The warm-up never looks past the commit point. Whatever the broker answers and wherever the
  polls stop, the state it fills is the callback folded over messages that were polled and whose
  offsets are all below \<open>until_offset\<close>: a record that was not committed is never loaded, so it
  cannot be mistaken for one already handled.
\<close>

theorem warmup_never_past_commit:
  assumes "replay r b polls p until f s = Some (s', res)"
  shows "\<exists>ms. (\<forall>m \<in> set ms. k_offset m < until) \<and> (\<exists>start. Message ` set ms \<subseteq> set (polls start)) \<and>
    s' = fold (\<lambda>m s. fst (f s m)) ms s \<and> replayed res = int (length ms)"
  using assms
proof (cases rule: replayE)
  case 1
  then show ?thesis by (intro exI [of _ "[]"]) simp
next
  case (2 start)
  then show ?thesis
    using replay_messages_until [of _ until "polls start"] replay_messages_polled [of _ until "polls start"]
    by (intro exI [of _ "replay_messages until (polls start)"]) blast
qed

lemma start_offset_range:
  "start_offset r b until = Some start \<Longrightarrow>
   low b \<le> start \<and> until - pr_max_records r \<le> start \<and> start < until"
  by (auto simp: start_offset_def Let_def split: if_splits)

lemma replay_log_fold:
  assumes "replay r b (log_polls log) p until f s = Some (s', res)"
    and "sorted_wrt (\<lambda>m n. k_offset m < k_offset n) log"
    and "start_offset r b until = Some start" and "0 < until"
  shows "s' = fold (\<lambda>m s. fst (f s m)) (filter (\<lambda>m. start \<le> k_offset m \<and> k_offset m < until) log) s"
proof -
  have "replay_messages until (log_polls log start) =
      filter (\<lambda>m. k_offset m < until) (filter (\<lambda>m. start \<le> k_offset m) log)"
    unfolding log_polls_def using assms(2)
    by (intro replay_messages_sorted) (rule sorted_wrt_filter)
  then have msgs: "replay_messages until (log_polls log start) =
      filter (\<lambda>m. start \<le> k_offset m \<and> k_offset m < until) log"
    by (simp add: conj_commute)
  have "s' = fold (\<lambda>m s. fst (f s m)) (replay_messages until (log_polls log start)) s"
    using assms(1)
  proof (cases rule: replayE)
    case 1
    with assms(3,4) show ?thesis by simp
  next
    case (2 start')
    with assms(3) show ?thesis by simp
  qed
  then show ?thesis unfolding msgs .
qed

text \<open>
  The warm-up loads the whole window. On a partition whose log is read to its end without an
  empty poll or an error, with offsets in order, the state is the callback folded over exactly the
  records from the start offset to the commit point, in order, and the start is at most
  \<open>max_records\<close> behind the commit point and never below the low watermark.
\<close>

theorem warmup_loads_window:
  assumes "replay r b (log_polls log) p until f s = Some (s', res)"
    and "sorted_wrt (\<lambda>m n. k_offset m < k_offset n) log"
    and "start_offset r b until = Some start" and "0 < until"
  shows "s' = fold (\<lambda>m s. fst (f s m)) (filter (\<lambda>m. start \<le> k_offset m \<and> k_offset m < until) log) s \<and>
    low b \<le> start \<and> until - pr_max_records r \<le> start \<and> start < until"
  using replay_log_fold [OF assms] start_offset_range [OF assms(3)] by blast

subsection \<open>What a warmed cache refuses\<close>

definition id_of_msg :: "kmsg \<Rightarrow> exc + ustr" where
  "id_of_msg m = bind_res (parse_raw (payload_of (k_value m))) event_id_of"

lemma load_fold_held:
  assumes "fold (\<lambda>m c. fst (load_id now c m)) ms (Some c) = Some c'" and "wf_cache c"
  shows "wf_cache c' \<and> held_ids c' \<subseteq> held_ids c \<union> {i. \<exists>m \<in> set ms. id_of_msg m = Inr i}"
  using assms
proof (induction ms arbitrary: c)
  case (Cons m ms)
  have none: "fold (\<lambda>m c. fst (load_id now c m)) ms None = None" for ms
    by (induction ms) (auto simp: load_id_def split: sum.split exc.split)
  consider (rej) r where "id_of_msg m = Inl (ParseError r)" | (exn) e where "id_of_msg m = Inl (Py e)"
    | (id) i where "id_of_msg m = Inr i"
    by (metis exc.exhaust sum.exhaust)
  then show ?case
  proof cases
    case rej
    then have "load_id now (Some c) m = (Some c, False)" by (simp add: load_id_def id_of_msg_def)
    with Cons show ?thesis by fastforce
  next
    case exn
    then have "load_id now (Some c) m = (None, False)" by (simp add: load_id_def id_of_msg_def)
    with Cons.prems none show ?thesis by simp
  next
    case (id i)
    let ?c = "fst (is_new c i (if k_time m > 0 then k_time m else now))"
    from id have "load_id now (Some c) m = (Some ?c, True)" by (simp add: load_id_def id_of_msg_def)
    with Cons.prems have "fold (\<lambda>m c. fst (load_id now c m)) ms (Some ?c) = Some c'" by simp
    from Cons.IH [OF this dedup.valid_offer [OF Cons.prems(2)]]
    have "wf_cache c' \<and> held_ids c' \<subseteq> held_ids ?c \<union> {i. \<exists>m \<in> set ms. id_of_msg m = Inr i}" .
    with dedup.held_offer [OF Cons.prems(2)] id show ?thesis by fastforce
  qed
qed simp

text \<open>
  C24. A restart drops nothing that was not handled before. After the cleaner's cache was warmed
  from empty up to the committed offset, an event is refused as a duplicate only if a message
  below the committed offset carried the same id: whatever the broker's answers, an event after
  the commit point whose id is new is cleaned.
\<close>

theorem warmed_cache_refuses_only_committed:
  assumes "warm_cache r b polls p (cache_clear c0) until = Some (Some c, res)"
    and "\<not> snd (is_new c i t)"
  shows "\<exists>m start. Message m \<in> set (polls start) \<and> k_offset m < until \<and> id_of_msg m = Inr i"
proof -
  have replay: "replay r b polls p until (load_id (pr_now_ms r)) (Some (cache_clear c0)) = Some (Some c, res)"
    using assms(1) by (simp add: warm_cache_def)
  have held: "i \<in> held_ids c" using assms(2) by (rule is_new_refused_held)
  from replay show ?thesis
  proof (cases rule: replayE)
    case 1
    with held show ?thesis by simp
  next
    case (2 start)
    let ?ms = "replay_messages until (polls start)"
    from load_fold_held [OF 2(4) [symmetric] wf_cache_clear] held
    obtain m where "m \<in> set ?ms" "id_of_msg m = Inr i" by auto
    with replay_messages_until replay_messages_polled show ?thesis by blast
  qed
qed

text \<open>
  An empty poll ends the warm-up without a trace. If, before the commit point is reached, one
  poll returns nothing within its five seconds, the replay returns normally with only the records
  polled so far: the rest of the window up to the commit point is missing from the cache, and
  the result does not tell it from a complete replay.
\<close>

theorem interrupted_warmup_is_silent:
  assumes "0 < until" and "start_offset r b until = Some start"
    and "polls start = map Message ms @ NoMessage # rest" and "\<forall>m \<in> set ms. k_offset m < until"
  shows "\<exists>res. replay r b polls p until f s = Some (fold (\<lambda>m s. fst (f s m)) ms s, res) \<and>
    replayed res = int (length ms)"
proof -
  have "\<exists>s' res'. replay_polls f until (map Message ms @ NoMessage # rest) s res = Some (s', res')" for s res
    using assms(4) by (induction ms arbitrary: s res) (auto split: prod.splits)
  then have "\<exists>s' res. replay r b polls p until f s = Some (s', res)"
    using assms(1-3) by (simp add: replay_def Let_def del: replay_polls.simps)
  then obtain s' res where run: "replay r b polls p until f s = Some (s', res)" by blast
  have msgs: "replay_messages until (map Message ms @ NoMessage # rest) = ms"
    using assms(4) by (induction ms) auto
  from run show ?thesis
  proof (cases rule: replayE)
    case 1
    with assms(1,2) show ?thesis by simp
  next
    case (2 start')
    with assms(2,3) msgs run show ?thesis by simp
  qed
qed

subsection \<open>Concrete runs\<close>

definition sample_msg :: "int \<Rightarrow> kmsg" where
  "sample_msg off = \<lparr>k_topic = ascii ''wiki.raw'', k_partition = 0, k_offset = off, k_time = 1000 + off,
     k_key = None, k_value = None\<rparr>"

definition sample_broker :: broker where
  "sample_broker = \<lparr>low = 2, at_offset = (\<lambda>off. Message (sample_msg off)), at_time = (\<lambda>_. 3)\<rparr>"

definition sample_replayer :: PartitionReplayer where
  "sample_replayer = \<lparr>pr_topic = ascii ''wiki.raw'', pr_window_ms = 500, pr_max_records = MAX_RECORDS,
     pr_now_ms = 9000\<rparr>"

definition sample_log :: "kmsg list" where
  "sample_log = map sample_msg [2, 3, 4, 5]"

definition count_msgs :: "int list \<Rightarrow> kmsg \<Rightarrow> int list \<times> bool" where
  "count_msgs s m = (s @ [k_offset m], True)"

lemmas sample_defs = sample_msg_def sample_broker_def sample_replayer_def sample_log_def count_msgs_def
  replay_def start_offset_def anchor_time_def log_polls_def MAX_RECORDS_def

lemma sample_replay:
  "replay sample_replayer sample_broker (log_polls sample_log) 0 5 count_msgs [] =
     Some ([3, 4], \<lparr>wr_partition = 0, loaded = 2, skipped = 0, from_offset = 3, until_offset = 5\<rparr>)"
  by (simp add: sample_defs)

lemma sample_start: "start_offset sample_replayer sample_broker 5 = Some 3"
  by (simp add: sample_defs)

theorem warmup_never_past_commit_witness:
  "\<exists>ms. (\<forall>m \<in> set ms. k_offset m < 5) \<and>
     (\<exists>start. Message ` set ms \<subseteq> set (log_polls sample_log start)) \<and>
     [3, 4] = fold (\<lambda>m s. fst (count_msgs s m)) ms [] \<and> 2 = int (length ms)"
  using warmup_never_past_commit [OF sample_replay] by (simp add: replayed_def)

theorem warmup_loads_window_witness:
  "[3, 4] = fold (\<lambda>m s. fst (count_msgs s m))
       (filter (\<lambda>m. 3 \<le> k_offset m \<and> k_offset m < 5) sample_log) [] \<and>
     low sample_broker \<le> 3 \<and> 5 - pr_max_records sample_replayer \<le> 3 \<and> (3 :: int) < 5"
  by (rule warmup_loads_window [OF sample_replay _ sample_start]) (simp_all add: sample_log_def sample_msg_def)

lemma object_bytes:
  assumes "json_ok (JObj raw)" and "encodable (dumps id (JObj raw))"
  shows "\<exists>b. utf8_encode (dumps id (JObj raw)) = Inr b \<and> parse_raw (Bytes b) = Inr raw"
proof -
  obtain b where b: "utf8_encode (dumps id (JObj raw)) = Inr b"
    using assms(2) utf8_encode_ok by blast
  with utf8_roundtrip [OF b, of False] json_loads_dumps [OF assms(1), of id] show ?thesis
    by (auto simp: parse_text_def simp del: dumps.simps)
qed

definition id_json :: json where
  "id_json = JObj [(ascii ''meta'', JObj [(ascii ''id'', JStr (ascii ''a''))])]"

lemma id_json_bytes:
  "\<exists>b. utf8_encode (dumps id id_json) = Inr b \<and> parse_raw (Bytes b) =
     Inr [(ascii ''meta'', JObj [(ascii ''id'', JStr (ascii ''a''))])]"
  unfolding id_json_def by (rule object_bytes) (simp_all add: surrogate_def)

theorem warmed_cache_refuses_only_committed_witness:
  "\<exists>b m. Message m \<in> set [Message ((sample_msg 3)\<lparr>k_value := Some b\<rparr>)] \<and> k_offset m < 5 \<and>
     id_of_msg m = Inr (ascii ''a'')"
proof -
  obtain b where b: "parse_raw (Bytes b) = Inr [(ascii ''meta'', JObj [(ascii ''id'', JStr (ascii ''a''))])]"
    using id_json_bytes by blast
  let ?m = "(sample_msg 3)\<lparr>k_value := Some b\<rparr>"
  let ?c = "fst (is_new (cache_clear new_cache) (ascii ''a'') 1003)"
  have "k_value ?m = Some b" "k_time ?m = 1003" by (simp_all add: sample_msg_def)
  then have load: "load_id 9000 (Some (cache_clear new_cache)) ?m = (Some ?c, True)"
    by (simp add: load_id_def payload_of_def b event_id_of_def del: parse_raw.simps)
  have run: "warm_cache sample_replayer sample_broker (\<lambda>_. [Message ?m]) 0 (cache_clear new_cache) 5 =
      Some (Some ?c, \<lparr>wr_partition = 0, loaded = 1, skipped = 0, from_offset = 3, until_offset = 5\<rparr>)"
    using load by (simp add: warm_cache_def sample_defs)
  have "\<not> snd (is_new ?c (ascii ''a'') 1003)"
    by (simp add: new_cache_def HOUR_MS_def cache_clear_def is_new_eq live_def buckets_expire grown_def
        split_beta Let_def bucket_span_ms_def)
  from warmed_cache_refuses_only_committed [OF run this] show ?thesis by blast
qed

theorem interrupted_warmup_is_silent_witness:
  "\<exists>res. replay sample_replayer sample_broker (\<lambda>_. [Message (sample_msg 3), NoMessage, Message (sample_msg 4)])
      0 5 count_msgs [] = Some ([3], res) \<and> replayed res = 1"
  using interrupted_warmup_is_silent [of 5 sample_replayer sample_broker 3
      "\<lambda>_. [Message (sample_msg 3), NoMessage, Message (sample_msg 4)]" "[sample_msg 3]"
      "[Message (sample_msg 4)]" 0 count_msgs "[]"]
  by (simp add: sample_start) (simp add: count_msgs_def sample_msg_def)

end
