(* ===== verification/IntLimits.thy ===== *)
theory IntLimits
  imports Models
begin

text \<open>
  The interpreter's digit limit holds for every integer inside a value that was read from JSON, so
  for every integer of a clean event: what the cleaner writes can always be read back.
\<close>

fun small_json :: "json \<Rightarrow> bool" where
  "small_json (JInt n) = (length (digits_of (nat \<bar>n\<bar>)) \<le> MAX_STR_DIGITS)"
| "small_json (JList vs) = (\<forall>v \<in> set vs. small_json v)"
| "small_json (JObj kvs) = (\<forall>kv \<in> set kvs. small_json (snd kv))"
| "small_json _ = True"

lemma digits_of_length: "n < 10 ^ k \<Longrightarrow> 0 < k \<Longrightarrow> length (digits_of n) \<le> k"
proof (induction k arbitrary: n)
  case (Suc k)
  show ?case
  proof (cases "n < 10")
    case False
    have "0 < k" using Suc.prems(1) False by (cases k) auto
    moreover have "n div 10 < 10 ^ k" using Suc.prems(1) by (simp add: less_mult_imp_div_less mult.commute)
    ultimately show ?thesis using Suc.IH False by (subst digits_of.simps) simp
  qed (subst digits_of.simps, simp)
qed simp

lemma foldl_digits_bound:
  "\<forall>c \<in> set ds. is_digit c \<Longrightarrow> foldl (\<lambda>n d. 10 * n + (d - 48)) a ds < (a + 1) * 10 ^ length ds"
proof (induction ds arbitrary: a)
  case (Cons d ds)
  have "d - 48 \<le> 9" using Cons.prems by (auto simp: is_digit_def)
  then have "10 * a + (d - 48) + 1 \<le> (a + 1) * 10" by simp
  then have "(10 * a + (d - 48) + 1) * 10 ^ length ds \<le> (a + 1) * 10 * 10 ^ length ds" by (rule mult_right_mono) simp
  with Cons.IH [of "10 * a + (d - 48)"] Cons.prems show ?case by (simp add: algebra_simps)
qed simp

lemma value_of_bound: "\<forall>c \<in> set ds. is_digit c \<Longrightarrow> value_of ds < 10 ^ length ds"
  using foldl_digits_bound [of ds 0] by (simp add: value_of_def)

lemma small_numeral:
  assumes "int_of_numeral neg ds = Inr n" and "\<forall>c \<in> set ds. is_digit c" and "ds \<noteq> []"
  shows "small_json (JInt n)"
proof -
  have "length ds \<le> MAX_STR_DIGITS" "nat \<bar>n\<bar> = value_of ds"
    using assms(1) by (auto simp: int_of_numeral_def split: if_splits)
  moreover have "length (digits_of (value_of ds)) \<le> length ds"
    using digits_of_length [OF value_of_bound [OF assms(2)]] assms(3) by simp
  ultimately show ?thesis by simp
qed

lemma small_pnumber:
  assumes "pnumber s = Inr (v, r)"
  shows "small_json v"
proof -
  let ?neg = "case s of c # _ \<Rightarrow> c = 45 | [] \<Rightarrow> False"
  let ?body = "if ?neg then tl s else s"
  let ?run = "takeWhile is_digit ?body"
  let ?ds = "if ?run \<noteq> [] \<and> hd ?run = 48 then [48] else ?run"
  have d: "\<forall>c \<in> set ?ds. is_digit c" by (auto simp: is_digit_def dest: set_takeWhileD)
  show ?thesis
  proof (cases v)
    case (JInt n)
    have "?ds \<noteq> [] \<and> int_of_numeral ?neg ?ds = Inr n"
      using assms unfolding pnumber_def Let_def JInt by (auto simp: bind_res_Inr_iff split: if_splits prod.splits)
    then show ?thesis using small_numeral [OF _ d] unfolding JInt by blast
  qed (use assms in \<open>auto simp: pnumber_def Let_def bind_res_Inr_iff split: if_splits prod.splits\<close>)
qed

lemma small_pscalar: "pscalar s = Inr (v, r) \<Longrightarrow> small_json v"
  by (auto simp: pscalar_def keyword_def split: list.splits if_splits dest: small_pnumber)

lemma small_update: "(\<forall>kv \<in> set d. small_json (snd kv)) \<Longrightarrow> small_json v \<Longrightarrow> \<forall>kv \<in> set (AList.update k v d). small_json (snd kv)"
  using set_update_subset [of k v d] by auto

lemma small_parsed:
  "pvalue n s = Inr (v, r) \<Longrightarrow> small_json v"
  "pelems n s = Inr (vs, r) \<Longrightarrow> \<forall>v \<in> set vs. small_json v"
  "pmembers n s o' = Inr (d, r) \<Longrightarrow> \<forall>kv \<in> set o'. small_json (snd kv) \<Longrightarrow> \<forall>kv \<in> set d. small_json (snd kv)"
proof (induction n arbitrary: s v vs o' d r)
  case (Suc n)
  {
    case 1
    then show ?case using Suc.IH(2,3) small_pscalar
      by (fastforce simp: bind_res_Inr_iff split: list.splits if_splits)
  next
    case 2
    then obtain v r' where v: "pvalue n s = Inr (v, r')"
      and t: "(case skip_ws r' of [] \<Rightarrow> Inl JSONDecodeError
        | d # r1 \<Rightarrow> (if d = 44 then bind_res (pelems n (skip_ws r1)) (\<lambda>(vs, r2). Inr (v # vs, r2))
             else if d = 93 then Inr ([v], r1) else Inl JSONDecodeError)) = Inr (vs, r)"
      by (auto simp: bind_res_Inr_iff)
    have "small_json v" by (rule Suc.IH(1) [OF v])
    with t Suc.IH(2) show ?case by (fastforce simp: bind_res_Inr_iff split: list.splits if_splits)
  next
    case 3
    obtain s1 where s: "s = 34 # s1" using 3(1) by (cases s) (auto split: if_splits)
    obtain k r1 where t1: "(case skip_ws r1 of [] \<Rightarrow> Inl JSONDecodeError
              | d # r2 \<Rightarrow>
                  (if d \<noteq> 58 then Inl JSONDecodeError
                   else bind_res (pvalue n (skip_ws r2)) (\<lambda>(v, r3).
                     (case skip_ws r3 of
                        [] \<Rightarrow> Inl JSONDecodeError
                      | e # r4 \<Rightarrow>
                          (if e = 44 then pmembers n (skip_ws r4) (AList.update k v o')
                           else if e = 125 then Inr (AList.update k v o', r4)
                           else Inl JSONDecodeError))))) = Inr (d, r)"
      using 3(1) by (cases "pstring s1") (auto simp: s)
    obtain r2 where "skip_ws r1 = 58 # r2" using t1 by (cases "skip_ws r1") (auto split: if_splits)
    with t1 obtain v r3 where v: "pvalue n (skip_ws r2) = Inr (v, r3)"
      and t: "(case skip_ws r3 of [] \<Rightarrow> Inl JSONDecodeError
         | e # r4 \<Rightarrow> (if e = 44 then pmembers n (skip_ws r4) (AList.update k v o')
                   else if e = 125 then Inr (AList.update k v o', r4) else Inl JSONDecodeError)) = Inr (d, r)"
      by (cases "pvalue n (skip_ws r2)") auto
    have "\<forall>kv \<in> set (AList.update k v o'). small_json (snd kv)"
      by (rule small_update [OF 3(2) Suc.IH(1) [OF v]])
    with t Suc.IH(3) show ?case by (auto split: list.splits if_splits)
  }
qed simp_all

lemma small_loads: "json_loads s = Inr v \<Longrightarrow> small_json v"
  by (auto simp: json_loads_def bind_res_Inr_iff split: if_splits prod.splits dest: small_parsed(1) simp del: pvalue.simps)

lemma small_parse_text: "parse_text s = Inr raw \<Longrightarrow> \<forall>kv \<in> set raw. small_json (snd kv)"
  using small_loads [of s "JObj raw"] by (auto simp: parse_text_def split: sum.splits json.splits if_splits)

lemma small_parse_raw: "parse_raw p = Inr raw \<Longrightarrow> \<forall>kv \<in> set raw. small_json (snd kv)"
  using small_parse_text by (cases p) (auto split: sum.splits)

lemma small_field: "\<forall>kv \<in> set d. small_json (snd kv) \<Longrightarrow> small_json (field_of d k)"
  by (auto simp: field_of_def get_default_def split: option.splits dest!: map_of_SomeD)

lemma small_optional_int: "optional_int v = Inr x \<Longrightarrow> small_json v \<Longrightarrow> int_ok x"
  by (cases v) (auto simp: int_ok_def)

lemma small_dict: "dict_or_empty rt v = Inr d \<Longrightarrow> small_json v \<Longrightarrow> \<forall>kv \<in> set d. small_json (snd kv)"
  by (auto simp: dict_or_empty_def split: if_splits json.splits)

lemma clean_event_small:
  assumes "parse_raw p = Inr raw" and "clean_event rt raw = Inr e"
  shows "small_ints e"
proof -
  note small = small_parse_raw [OF assms(1)]
  obtain t v where c: "check_namespace (field_of raw ''namespace'') = Inr (namespace e)"
    "optional_ints rt raw = Inr (rev_old e, rev_new e, length_old e, length_new e)"
    using assms(2) by (elim clean_eventE)
  have "json_ok (JInt (namespace e))"
    using c(1) small_field [OF small, of "''namespace''"] by (cases "field_of raw ''namespace''") auto
  moreover obtain revision length' where
    "dict_or_empty rt (field_of raw ''revision'') = Inr revision" "dict_or_empty rt (field_of raw ''length'') = Inr length'"
    "optional_int (field_of revision ''old'') = Inr (rev_old e)" "optional_int (field_of revision ''new'') = Inr (rev_new e)"
    "optional_int (field_of length' ''old'') = Inr (length_old e)" "optional_int (field_of length' ''new'') = Inr (length_new e)"
    using c(2) by (auto simp: optional_ints_def bind_res_Inr_iff)
  ultimately show ?thesis
    using small_optional_int small_field small_dict small by (simp add: small_ints_def)
qed

end
