(* ===== verification/Cleaner.thy ===== *)
theory Cleaner
  imports Transform Warmup IntLimits
begin

text \<open>
  \<^verbatim>\<open>processors/cleaner.py\<close>: one dedup cache per partition and four counters.
  \<open>handle\<close> turns one message into at most one outgoing record; \<open>warm\<close> and
  \<open>partitions_revoked\<close> build and drop the caches as partitions move. A left result is an
  exception that ends the process.
\<close>

record Cleaner =
  caches :: "(int, DedupCache) pydict"
  produced :: int
  duplicates :: int
  skipped_msgs :: int
  rejected_msgs :: int

definition new_cleaner :: Cleaner where
  "new_cleaner = \<lparr>caches = [], produced = 0, duplicates = 0, skipped_msgs = 0, rejected_msgs = 0\<rparr>"

definition cache_for :: "Cleaner \<Rightarrow> int \<Rightarrow> DedupCache" where
  "cache_for cl p = get_default (caches cl) p new_cache"

definition clean_record :: "runtime \<Rightarrow> ustr \<Rightarrow> kmsg \<Rightarrow> CleanEvent \<Rightarrow> pyexc + outgoing" where
  "clean_record rt topic_clean m e =
     bind_res (utf8_encode (page_key e)) (\<lambda>key.
     bind_res (to_json rt e) (\<lambda>value.
       Inr \<lparr>out_topic = topic_clean, out_key = Some key, out_value = Some value,
            out_time = (if k_time m > 0 then k_time m else 0)\<rparr>))"

definition dlq_message :: "runtime \<Rightarrow> ustr \<Rightarrow> ustr \<Rightarrow> kmsg \<Rightarrow> parse_reason \<Rightarrow> bytes \<Rightarrow> pyexc + outgoing" where
  "dlq_message rt topic_dlq now m reason payload =
     bind_res (envelope rt reason payload (k_topic m) (k_partition m) (k_offset m) now) (\<lambda>value.
       Inr \<lparr>out_topic = topic_dlq, out_key = None, out_value = Some value, out_time = 0\<rparr>)"

definition handle ::
  "runtime \<Rightarrow> ustr \<Rightarrow> ustr \<Rightarrow> ustr \<Rightarrow> Cleaner \<Rightarrow> kmsg \<Rightarrow> pyexc + Cleaner \<times> outgoing list" where
  "handle rt topic_clean topic_dlq now cl m =
     bind_res (transform rt (payload_of (k_value m)) (cache_for cl (k_partition m)) (Some (k_time m)))
       (\<lambda>(result, cache).
         let cl1 = cl\<lparr>caches := AList.update (k_partition m) cache (caches cl)\<rparr>
         in case result of
              Clean e \<Rightarrow>
                bind_res (clean_record rt topic_clean m e) (\<lambda>out.
                  Inr (cl1\<lparr>produced := produced cl1 + 1\<rparr>, [out]))
            | Duplicate _ \<Rightarrow> Inr (cl1\<lparr>duplicates := duplicates cl1 + 1\<rparr>, [])
            | Skipped _ \<Rightarrow> Inr (cl1\<lparr>skipped_msgs := skipped_msgs cl1 + 1\<rparr>, [])
            | Rejected reason payload \<Rightarrow>
                bind_res (dlq_message rt topic_dlq now m reason payload) (\<lambda>out.
                  Inr (cl1\<lparr>rejected_msgs := rejected_msgs cl1 + 1\<rparr>, [out])))"

text \<open>
  \<open>warm\<close>: the committed offsets (negative or missing for none) bound the replay of each
  newly assigned partition. \<open>None\<close> is an exception of the replay.
\<close>

fun warm ::
  "PartitionReplayer \<Rightarrow> (int \<Rightarrow> broker) \<Rightarrow> (int \<Rightarrow> int \<Rightarrow> poll list) \<Rightarrow> (int \<Rightarrow> int option) \<Rightarrow>
   int list \<Rightarrow> (int, DedupCache) pydict \<Rightarrow> (int, DedupCache) pydict option" where
  "warm r b polls committed [] cs = Some cs"
| "warm r b polls committed (p # ps) cs =
     (let cache = get_default cs p new_cache;
          cs1 = AList.update p cache cs
      in case committed p of
           None \<Rightarrow> warm r b polls committed ps cs1
         | Some offset \<Rightarrow>
             (if offset < 0 then warm r b polls committed ps cs1
              else
                (case warm_cache r (b p) (polls p) p cache offset of
                   Some (Some cache', _) \<Rightarrow> warm r b polls committed ps (AList.update p cache' cs1)
                 | _ \<Rightarrow> None)))"

definition partitions_assigned ::
  "PartitionReplayer \<Rightarrow> (int \<Rightarrow> broker) \<Rightarrow> (int \<Rightarrow> int \<Rightarrow> poll list) \<Rightarrow> (int \<Rightarrow> int option) \<Rightarrow>
   int list \<Rightarrow> Cleaner \<Rightarrow> Cleaner option" where
  "partitions_assigned r b polls committed ps cl =
     map_option (\<lambda>cs. cl\<lparr>caches := cs\<rparr>) (warm r b polls committed ps (caches cl))"

definition partitions_revoked :: "int list \<Rightarrow> Cleaner \<Rightarrow> Cleaner" where
  "partitions_revoked ps cl = cl\<lparr>caches := fold AList.delete ps (caches cl)\<rparr>"

subsection \<open>Properties\<close>

text \<open>The four counters: produced, duplicates, skipped, rejected.\<close>

definition counters :: "Cleaner \<Rightarrow> int \<times> int \<times> int \<times> int" where
  "counters cl = (produced cl, duplicates cl, skipped_msgs cl, rejected_msgs cl)"

lemma validated_small: "validated rt p = Inr (Some e) \<Longrightarrow> small_ints e"
  using validated_event [of rt p e] clean_event_small by blast

text \<open>A clean event's record reads back as the event.\<close>

lemma clean_record_reads_back:
  assumes "clean_record rt tc m e = Inr out" and "small_ints e"
  shows "\<exists>key value. out = \<lparr>out_topic = tc, out_key = Some key, out_value = Some value,
        out_time = (if k_time m > 0 then k_time m else 0)\<rparr> \<and>
     utf8_decode False key = Inr (page_key e) \<and> from_json rt (Some value) = Inr (Some e)"
  using assms from_json_to_json [of rt e] utf8_roundtrip [of "page_key e" _ False]
  by (auto simp: clean_record_def bind_res_Inr_iff)

text \<open>
  C25. Every message ends in exactly one outcome, the one its content calls for, and is accounted
  for. When \<open>handle\<close> returns: a message that is not a valid edit is counted as rejected and
  leaves one record in the dead-letter topic, the envelope of its reason, its payload and where it
  was; a heartbeat is counted as skipped and produces nothing; a valid edit whose id the partition's
  cache does not hold at the time of the event is counted as produced and leaves one record in the
  clean topic, with the message's time, whose key decodes to the page key and whose value
  \<open>from_json\<close> reads back as that very event; and one whose id it holds is counted as a duplicate
  and produces nothing. The other three counters do not change.
\<close>

theorem cleaner_accounts_for_every_message:
  assumes "handle rt tc td now cl m = Inr (cl', outs)"
  shows "case validated rt (payload_of (k_value m)) of
      Inl (ParseError reason) \<Rightarrow>
        counters cl' = (produced cl, duplicates cl, skipped_msgs cl, rejected_msgs cl + 1) \<and>
        (\<exists>value. envelope rt reason (rejected_payload (payload_of (k_value m))) (k_topic m) (k_partition m) (k_offset m) now = Inr value \<and>
           outs = [\<lparr>out_topic = td, out_key = None, out_value = Some value, out_time = 0\<rparr>])
    | Inl (Py _) \<Rightarrow> False
    | Inr None \<Rightarrow>
        counters cl' = (produced cl, duplicates cl, skipped_msgs cl + 1, rejected_msgs cl) \<and> outs = []
    | Inr (Some e) \<Rightarrow>
        (\<exists>t. event_time_ms rt e (Some (k_time m)) = Inr t \<and>
           (if snd (is_new (cache_for cl (k_partition m)) (event_id e) t)
            then counters cl' = (produced cl + 1, duplicates cl, skipped_msgs cl, rejected_msgs cl) \<and>
              (\<exists>key value. outs = [\<lparr>out_topic = tc, out_key = Some key, out_value = Some value,
                   out_time = (if k_time m > 0 then k_time m else 0)\<rparr>] \<and>
                 utf8_decode False key = Inr (page_key e) \<and> from_json rt (Some value) = Inr (Some e))
            else counters cl' = (produced cl, duplicates cl + 1, skipped_msgs cl, rejected_msgs cl) \<and> outs = []))"
proof -
  let ?p = "payload_of (k_value m)" and ?cache = "cache_for cl (k_partition m)"
  obtain result cache where t: "transform rt ?p ?cache (Some (k_time m)) = Inr (result, cache)"
    using assms by (auto simp: handle_def bind_res_Inr_iff)
  note tr = t [unfolded transform_def validated_def [symmetric] Let_def]
  show ?thesis
  proof (cases "validated rt ?p")
    case (Inl x)
    then obtain reason where "x = ParseError reason" using tr by (cases x) auto
    with Inl tr t assms show ?thesis
      by (auto simp: handle_def Let_def dlq_message_def bind_res_Inr_iff counters_def)
  next
    case (Inr o')
    show ?thesis
    proof (cases o')
      case None
      with Inr tr t assms show ?thesis by (auto simp: handle_def Let_def counters_def)
    next
      case (Some e)
      obtain time where time: "event_time_ms rt e (Some (k_time m)) = Inr time"
        and r: "result = (if snd (is_new ?cache (event_id e) time) then Clean e else Duplicate (event_id e))"
      proof -
        from tr Inr Some obtain time where "event_time_ms rt e (Some (k_time m)) = Inr time"
          "(case is_new ?cache (event_id e) time of (c, new) \<Rightarrow> Inr (if new then Clean e else Duplicate (event_id e), c))
             = (Inr (result, cache) :: pyexc + outcome \<times> DedupCache)" by (auto simp: bind_res_Inr_iff)
        then show thesis by (intro that) (auto split: prod.splits)
      qed
      have small: "small_ints e" using validated_small Inr Some by blast
      show ?thesis
      proof (cases "snd (is_new ?cache (event_id e) time)")
        case True
        with assms t r obtain out where "clean_record rt tc m e = Inr out" "outs = [out]"
          "counters cl' = (produced cl + 1, duplicates cl, skipped_msgs cl, rejected_msgs cl)"
          by (cases "clean_record rt tc m e") (auto simp: handle_def Let_def counters_def)
        with clean_record_reads_back [OF _ small] time True Inr Some show ?thesis by fastforce
      next
        case False
        with assms t r have "outs = []" "counters cl' = (produced cl, duplicates cl + 1, skipped_msgs cl, rejected_msgs cl)"
          by (auto simp: handle_def Let_def counters_def)
        with time False Inr Some show ?thesis by auto
      qed
    qed
  qed
qed

lemma sample_bytes: "\<exists>b. parse_raw (Bytes b) = Inr sample_raw"
  using object_bytes [of sample_raw]
  by (auto simp: sample_raw_def digits_of.simps MAX_STR_DIGITS_def surrogate_def)

definition raw_message :: "bytes \<Rightarrow> kmsg" where
  "raw_message b = \<lparr>k_topic = ascii ''wiki.raw'', k_partition = 0, k_offset = 7, k_time = 5, k_key = None,
     k_value = Some b\<rparr>"

theorem cleaner_accounts_for_every_message_witness:
  "\<exists>b cl' out value. handle plain_runtime (ascii ''wiki.clean'') (ascii ''wiki.dlq'') [] new_cleaner (raw_message b) = Inr (cl', [out]) \<and>
     counters cl' = (1, 0, 0, 0) \<and> out_value out = Some value \<and> from_json plain_runtime (Some value) = Inr (Some sample_event)"
proof -
  obtain b where b: "parse_raw (Bytes b) = Inr sample_raw" using sample_bytes by blast
  have "\<not> is_canary sample_raw" by (simp add: is_canary_def sample_raw_def field_of_def)
  then have v: "validated plain_runtime (Bytes b) = Inr (Some sample_event)"
    by (simp add: validated_def b sample_clean del: parse_raw.simps)
  obtain ms where ms: "event_time_ms plain_runtime sample_event t = Inr ms" for t
    using sample_stamp by blast
  have fresh: "snd (is_new new_cache i t)" for i t
    by (simp add: new_cache_def HOUR_MS_def is_new_eq live_def buckets_expire)
  then obtain c where c: "is_new new_cache (event_id sample_event) ms = (c, True)"
    by (metis prod.collapse)
  have t: "transform plain_runtime (Bytes b) new_cache (Some 5) = Inr (Clean sample_event, c)"
    using v ms c by (simp add: transform_def validated_def [symmetric] del: parse_raw.simps)
  obtain key where key: "utf8_encode (page_key sample_event) = Inr key"
    using utf8_encode_ok [of "page_key sample_event"] by (auto simp: page_key_def sample_event_def surrogate_def)
  have "encodable_event sample_event" by (simp add: encodable_event_def sample_event_def)
  then obtain val where val: "to_json plain_runtime sample_event = Inr val" using to_json_ok by blast
  have "\<exists>cl' outs. handle plain_runtime (ascii ''wiki.clean'') (ascii ''wiki.dlq'') [] new_cleaner (raw_message b) = Inr (cl', outs)"
    using t key val
    by (simp add: handle_def raw_message_def payload_of_def cache_for_def new_cleaner_def clean_record_def Let_def)
  then obtain cl' outs where run:
    "handle plain_runtime (ascii ''wiki.clean'') (ascii ''wiki.dlq'') [] new_cleaner (raw_message b) = Inr (cl', outs)"
    by blast
  have "validated plain_runtime (payload_of (k_value (raw_message b))) = Inr (Some sample_event)"
    "cache_for new_cleaner (k_partition (raw_message b)) = new_cache"
    using v by (simp_all add: raw_message_def payload_of_def cache_for_def new_cleaner_def)
  with cleaner_accounts_for_every_message [OF run] fresh
  obtain out w where "counters cl' = (1, 0, 0, 0)" "outs = [out]" "out_value out = Some w"
    "from_json plain_runtime (Some w) = Inr (Some sample_event)"
    by (auto simp: new_cleaner_def)
  with run show ?thesis by blast
qed

text \<open>
  Some valid JSON stops the cleaner instead of reaching the dead-letter topic. There is a raw
  message whose \<open>type\<close> is a list (not hashable) and one whose \<open>revision\<close> is a number:
  on these \<open>handle\<close> raises \<open>TypeError\<close> and \<open>AttributeError\<close>, whatever the
  cleaner's state, so the process ends with the offset uncommitted and meets the same message
  again after every restart.
\<close>

theorem cleaner_crashes_on_valid_json:
  "\<exists>b1 b2. \<forall>cl. handle plain_runtime tc td now cl (raw_message b1) = Inl TypeError \<and>
                 handle plain_runtime tc td now cl (raw_message b2) = Inl AttributeError"
proof -
  let ?raw1 = "AList.update (ascii ''type'') (JList []) sample_raw"
  let ?raw2 = "AList.update (ascii ''revision'') (JInt 5) sample_raw"
  obtain b1 b2 where b: "parse_raw (Bytes b1) = Inr ?raw1" "parse_raw (Bytes b2) = Inr ?raw2"
    using object_bytes [of ?raw1] object_bytes [of ?raw2]
    by (auto simp: sample_raw_def digits_of.simps MAX_STR_DIGITS_def surrogate_def simp del: parse_raw.simps)
  have c1: "clean_event plain_runtime ?raw1 = Inl (Py TypeError)" "\<not> is_canary ?raw1"
    by (simp_all add: clean_event_def event_id_of_def check_type_def field_of_def sample_raw_def is_canary_def)
  have time: "event_time_of plain_runtime ?raw2 = event_time_of plain_runtime sample_raw"
  proof -
    have "get_default ?raw2 (ascii ''meta'') d = get_default sample_raw (ascii ''meta'') d" for d
      by (simp add: dict_simps)
    moreover have "field_of ?raw2 ''timestamp'' = field_of sample_raw ''timestamp''"
      by (simp add: field_of_def dict_simps)
    ultimately show ?thesis by (simp only: event_time_of_def)
  qed
  have c2: "clean_event plain_runtime ?raw2 = Inl (Py AttributeError)" "\<not> is_canary ?raw2"
  proof -
    have "strip (ascii '' Main  Page'') \<noteq> []" by (simp add: strip_def is_space_def ascii_def)
    then show "clean_event plain_runtime ?raw2 = Inl (Py AttributeError)"
      unfolding clean_event_def time sample_event_time
      by (simp add: sample_raw_def event_id_of_def check_type_def EVENT_TYPES_def field_of_def
          optional_ints_def dict_or_empty_def)
    show "\<not> is_canary ?raw2" by (simp add: field_of_def sample_raw_def is_canary_def)
  qed
  have "handle plain_runtime tc td now cl (raw_message b1) = Inl TypeError"
    "handle plain_runtime tc td now cl (raw_message b2) = Inl AttributeError" for cl
    using c1 c2 b
    by (simp_all add: handle_def raw_message_def payload_of_def transform_def del: parse_raw.simps)
  then show ?thesis by blast
qed

end
