(* ===== verification/EditWarDetector.thy ===== *)
theory EditWarDetector
  imports Models "HOL-Library.Multiset"
begin

text \<open>
  \<^verbatim>\<open>processors/edit_war_detector.py\<close>: per page, the reverts of the last window and the
  time up to which the page was alerted. SHA-256 is the argument \<open>sha256_hex\<close>.
\<close>

definition DEFAULT_WINDOW_MS :: int where
  "DEFAULT_WINDOW_MS = 30 * 60000"

record Revert =
  rv_event_id :: ustr
  rv_user :: ustr
  rv_time :: int

record EditWarAlert =
  alert_id :: ustr
  al_wiki :: ustr
  al_title :: ustr
  revert_count :: int
  al_users :: "ustr list"
  al_event_ids :: "ustr list"
  window_start :: ustr
  window_end :: ustr

definition alert_page_key :: "EditWarAlert \<Rightarrow> ustr" where
  "alert_page_key a = al_wiki a @ [58] @ al_title a"

definition alert_asdict :: "EditWarAlert \<Rightarrow> (ustr, json) pydict" where
  "alert_asdict a =
     [(ascii ''alert_id'', JStr (alert_id a)), (ascii ''wiki'', JStr (al_wiki a)),
      (ascii ''title'', JStr (al_title a)), (ascii ''revert_count'', JInt (revert_count a)),
      (ascii ''users'', JList (map JStr (al_users a))),
      (ascii ''event_ids'', JList (map JStr (al_event_ids a))),
      (ascii ''window_start'', JStr (window_start a)), (ascii ''window_end'', JStr (window_end a))]"

definition alert_to_json :: "runtime \<Rightarrow> EditWarAlert \<Rightarrow> pyexc + bytes" where
  "alert_to_json rt a = utf8_encode (dumps (rt_float_repr rt) (JObj (alert_asdict a)))"

text \<open>\<open>tuple(v)\<close> of a JSON value: a string gives its characters, an object its keys.\<close>

fun as_tuple :: "json \<Rightarrow> pyexc + json list" where
  "as_tuple (JList vs) = Inr vs"
| "as_tuple (JStr s) = Inr (map (\<lambda>c. JStr [c]) s)"
| "as_tuple (JObj d) = Inr (map (JStr \<circ> fst) d)"
| "as_tuple _ = Inl TypeError"

definition alert_fields :: "ustr list" where
  "alert_fields =
     map ascii [''alert_id'', ''wiki'', ''title'', ''revert_count'', ''users'', ''event_ids'',
                ''window_start'', ''window_end'']"

fun all_strs :: "json list \<Rightarrow> ustr list option" where
  "all_strs [] = Some []"
| "all_strs (v # vs) =
     (case (as_str v, all_strs vs) of (Some s, Some ss) \<Rightarrow> Some (s # ss) | _ \<Rightarrow> None)"

text \<open>Fields of other types than declared are \<open>None\<close>, as for clean events.\<close>

definition typed_alert :: "(ustr, json) pydict \<Rightarrow> json list \<Rightarrow> json list \<Rightarrow> EditWarAlert option" where
  "typed_alert d us ids =
     (let f = field_of d
      in case (as_str (f ''alert_id''), as_str (f ''wiki''), as_str (f ''title''),
               as_int (f ''revert_count''), all_strs us, all_strs ids,
               as_str (f ''window_start''), as_str (f ''window_end''))
         of (Some i, Some w, Some t, Some n, Some u, Some e, Some a, Some b) \<Rightarrow>
              Some \<lparr>alert_id = i, al_wiki = w, al_title = t, revert_count = n, al_users = u,
                    al_event_ids = e, window_start = a, window_end = b\<rparr>
          | _ \<Rightarrow> None)"

definition alert_from_json :: "runtime \<Rightarrow> bytes option \<Rightarrow> pyexc + EditWarAlert option" where
  "alert_from_json rt payload =
     (case payload of
        None \<Rightarrow> Inl TypeError
      | Some b \<Rightarrow>
          bind_res (json_loads_bytes (rt_wide rt) b) (\<lambda>v.
            case v of
              JObj d \<Rightarrow>
                (case (map_of d (ascii ''users''), map_of d (ascii ''event_ids'')) of
                   (Some u, Some e) \<Rightarrow>
                     bind_res (as_tuple u) (\<lambda>us.
                     bind_res (as_tuple e) (\<lambda>ids.
                       if list_all (\<lambda>k. k \<in> set alert_fields) (map fst d)
                          \<and> list_all (\<lambda>k. map_of d k \<noteq> None) alert_fields
                       then Inr (typed_alert d us ids)
                       else Inl TypeError))
                 | (Some u, None) \<Rightarrow> bind_res (as_tuple u) (\<lambda>_. Inl KeyError)
                 | (None, _) \<Rightarrow> Inl KeyError)
            | _ \<Rightarrow> Inl TypeError))"

definition alert_id_for :: "(bytes \<Rightarrow> ustr) \<Rightarrow> ustr \<Rightarrow> ustr \<Rightarrow> ustr \<Rightarrow> pyexc + ustr" where
  "alert_id_for sha256_hex w t first_event_id =
     map_sum id (\<lambda>b. take 32 (sha256_hex b)) (utf8_encode (w @ [0] @ t @ [0] @ first_event_id))"

record PageState =
  reverts :: "Revert list"
  alerted_until_ms :: int

definition new_page :: PageState where
  "new_page = \<lparr>reverts = [], alerted_until_ms = -1\<rparr>"

record EditWarDetector =
  det_window_ms :: int
  min_reverts :: int
  min_users :: int
  ignore_bots :: bool
  pages :: "(ustr, PageState) pydict"
  det_watermark :: int
  reverts_seen :: int
  alerts_raised :: int

definition new_detector :: "int \<Rightarrow> int \<Rightarrow> int \<Rightarrow> bool \<Rightarrow> EditWarDetector" where
  "new_detector w reverts_needed users_needed bots =
     \<lparr>det_window_ms = w, min_reverts = reverts_needed, min_users = users_needed,
      ignore_bots = bots, pages = [], det_watermark = 0, reverts_seen = 0, alerts_raised = 0\<rparr>"

abbreviation default_detector :: EditWarDetector where
  "default_detector \<equiv> new_detector DEFAULT_WINDOW_MS 3 2 True"

definition evict :: "int \<Rightarrow> int \<Rightarrow> Revert list \<Rightarrow> Revert list" where
  "evict window now rs = dropWhile (\<lambda>r. rv_time r < now - window) rs"

definition make_alert :: "(bytes \<Rightarrow> ustr) \<Rightarrow> CleanEvent \<Rightarrow> Revert list \<Rightarrow> pyexc + EditWarAlert" where
  "make_alert sha256_hex e rs =
     (let sorted = sort_key (\<lambda>r. (rv_time r, rv_event_id r)) rs
      in map_sum id (\<lambda>i.
           \<lparr>alert_id = i, al_wiki = wiki e, al_title = title e,
            revert_count = int (length sorted),
            al_users = sorted_list_of_set (set (map rv_user rs)),
            al_event_ids = map rv_event_id sorted,
            window_start = ms_iso (rv_time (hd sorted)),
            window_end = ms_iso (rv_time (last sorted))\<rparr>)
           (alert_id_for sha256_hex (wiki e) (title e) (rv_event_id (hd sorted))))"

text \<open>
  \<open>observe\<close>. The only exception is that of the alert's id when a text holds a lone surrogate.
\<close>

definition observe ::
  "runtime \<Rightarrow> (bytes \<Rightarrow> ustr) \<Rightarrow> EditWarDetector \<Rightarrow> CleanEvent \<Rightarrow> int \<Rightarrow>
   pyexc + EditWarDetector \<times> EditWarAlert option" where
  "observe rt sha256_hex d e t =
     (let d1 = d\<lparr>det_watermark := max (det_watermark d) t\<rparr>
      in if \<not> is_revert rt e \<or> ignore_bots d \<and> bot e then Inr (d1, None)
         else
           let old = get_default (pages d) (page_key e) new_page;
               r = \<lparr>rv_event_id = event_id e, rv_user = user e, rv_time = t\<rparr>;
               rs = evict (det_window_ms d) t (reverts old @ [r]);
               save = (\<lambda>until. d1\<lparr>reverts_seen := reverts_seen d + 1,
                 pages := AList.update (page_key e)
                            \<lparr>reverts = rs, alerted_until_ms = until\<rparr> (pages d)\<rparr>)
           in if t \<le> alerted_until_ms old then Inr (save (t + det_window_ms d), None)
              else if int (length rs) < min_reverts d
                      \<or> int (card (set (map rv_user rs))) < min_users d
                then Inr (save (alerted_until_ms old), None)
              else
                bind_res (make_alert sha256_hex e rs) (\<lambda>alert.
                  Inr ((save (t + det_window_ms d))\<lparr>alerts_raised := alerts_raised d + 1\<rparr>,
                       Some alert)))"

definition is_quiet :: "EditWarDetector \<Rightarrow> PageState \<Rightarrow> bool" where
  "is_quiet d p \<longleftrightarrow>
     (reverts p = [] \<or> rv_time (last (reverts p)) < det_watermark d - det_window_ms d)
     \<and> alerted_until_ms p < det_watermark d"

definition det_expire :: "EditWarDetector \<Rightarrow> EditWarDetector \<times> int" where
  "det_expire d =
     (d\<lparr>pages := filter (\<lambda>(_, p). \<not> is_quiet d p) (pages d)\<rparr>,
      int (length (filter (\<lambda>(_, p). is_quiet d p) (pages d))))"

definition forget :: "ustr list \<Rightarrow> EditWarDetector \<Rightarrow> EditWarDetector" where
  "forget keys d = d\<lparr>pages := fold AList.delete keys (pages d)\<rparr>"

definition det_stats :: "EditWarDetector \<Rightarrow> int \<times> int \<times> int" where
  "det_stats d = (int (length (pages d)), reverts_seen d, alerts_raised d)"

subsection \<open>Feeding a detector\<close>

datatype step = Observe CleanEvent int | Expire

text \<open>A run: events in order of arrival, with \<open>expire\<close> called at any point between them.\<close>

fun det_run ::
  "runtime \<Rightarrow> (bytes \<Rightarrow> ustr) \<Rightarrow> EditWarDetector \<Rightarrow> step list \<Rightarrow>
   pyexc + EditWarDetector \<times> EditWarAlert option list" where
  "det_run rt sha d [] = Inr (d, [])"
| "det_run rt sha d (Observe e t # steps) =
     bind_res (observe rt sha d e t) (\<lambda>(d1, a).
       bind_res (det_run rt sha d1 steps) (\<lambda>(d2, as). Inr (d2, a # as)))"
| "det_run rt sha d (Expire # steps) = det_run rt sha (fst (det_expire d)) steps"

fun observed :: "step list \<Rightarrow> (CleanEvent \<times> int) list" where
  "observed [] = []"
| "observed (Observe e t # steps) = (e, t) # observed steps"
| "observed (Expire # steps) = observed steps"

text \<open>The reverts of one page among the events, in order of arrival.\<close>

definition counts :: "runtime \<Rightarrow> bool \<Rightarrow> CleanEvent \<Rightarrow> bool" where
  "counts rt bots e \<longleftrightarrow> is_revert rt e \<and> \<not> (bots \<and> bot e)"

definition page_reverts :: "runtime \<Rightarrow> bool \<Rightarrow> ustr \<Rightarrow> (CleanEvent \<times> int) list \<Rightarrow> Revert list" where
  "page_reverts rt bots k xs =
     map (\<lambda>(e, t). \<lparr>rv_event_id = event_id e, rv_user = user e, rv_time = t\<rparr>)
       (filter (\<lambda>(e, t). counts rt bots e \<and> page_key e = k) xs)"

abbreviation page_of :: "EditWarDetector \<Rightarrow> ustr \<Rightarrow> PageState" where
  "page_of d k \<equiv> get_default (pages d) k new_page"

definition since :: "int \<Rightarrow> Revert list \<Rightarrow> Revert list" where
  "since t rs = filter (\<lambda>r. t \<le> rv_time r) rs"

abbreviation in_order :: "Revert list \<Rightarrow> bool" where
  "in_order rs \<equiv> sorted (map rv_time rs)"

lemma evict_since: "in_order rs \<Longrightarrow> evict w t rs = since (t - w) rs"
proof (induction rs)
  case (Cons r rs)
  show ?case
  proof (cases "rv_time r < t - w")
    case True
    with Cons show ?thesis by (simp add: evict_def since_def)
  next
    case False
    with Cons.prems have "\<forall>q \<in> set rs. t - w \<le> rv_time q" by auto
    with False show ?thesis by (simp add: evict_def since_def)
  qed
qed (simp add: evict_def since_def)

lemma since_append [simp]: "since t (rs @ qs) = since t rs @ since t qs"
  by (simp add: since_def)

lemma since_Nil [simp]: "since t [] = []"
  by (simp add: since_def)

lemma since_since: "t \<le> t' \<Longrightarrow> since t' (since t rs) = since t' rs"
  by (induction rs) (auto simp: since_def)

lemma in_order_since [simp]: "in_order rs \<Longrightarrow> in_order (since t rs)"
  by (induction rs) (auto simp: since_def)

lemma since_empty: "\<forall>r \<in> set rs. rv_time r < t \<Longrightarrow> since t rs = []"
  by (auto simp: since_def filter_empty_conv)

text \<open>The invariant of a run in which event times never go back.\<close>

definition tracks :: "runtime \<Rightarrow> EditWarDetector \<Rightarrow> (CleanEvent \<times> int) list \<Rightarrow> bool" where
  "tracks rt d xs \<longleftrightarrow>
     wf_dict (pages d) \<and> 0 \<le> det_window_ms d \<and> (\<forall>(e, t) \<in> set xs. t \<le> det_watermark d) \<and>
     (\<forall>k. in_order (reverts (page_of d k)) \<and>
          (\<forall>r \<in> set (reverts (page_of d k)). rv_time r \<le> det_watermark d) \<and>
          (\<forall>t \<ge> det_watermark d. since (t - det_window_ms d) (reverts (page_of d k)) =
             since (t - det_window_ms d) (page_reverts rt (ignore_bots d) k xs)))"

lemma page_reverts_snoc:
  "page_reverts rt bots k (xs @ [(e, t)]) = page_reverts rt bots k xs @
     (if counts rt bots e \<and> page_key e = k
      then [\<lparr>rv_event_id = event_id e, rv_user = user e, rv_time = t\<rparr>] else [])"
  by (simp add: page_reverts_def)

lemma tracks_new: "0 \<le> w \<Longrightarrow> tracks rt (new_detector w n u bots) []"
  by (simp add: tracks_def new_detector_def new_page_def page_reverts_def)

text \<open>What \<open>observe\<close> does, by cases.\<close>

lemma observe_ignored:
  "\<not> counts rt (ignore_bots d) e \<Longrightarrow>
   observe rt sha d e t = Inr (d\<lparr>det_watermark := max (det_watermark d) t\<rparr>, None)"
  by (auto simp: observe_def counts_def)

lemma observe_result:
  assumes "observe rt sha d e t = Inr (d', a)" and "counts rt (ignore_bots d) e"
  defines "rs \<equiv> evict (det_window_ms d) t (reverts (page_of d (page_key e)) @
      [\<lparr>rv_event_id = event_id e, rv_user = user e, rv_time = t\<rparr>])"
  defines "until \<equiv> alerted_until_ms (page_of d (page_key e))"
  defines "war \<equiv> min_reverts d \<le> int (length rs) \<and> min_users d \<le> int (card (set (map rv_user rs)))"
  shows "det_watermark d' = max (det_watermark d) t" "det_window_ms d' = det_window_ms d"
    "ignore_bots d' = ignore_bots d" "min_reverts d' = min_reverts d" "min_users d' = min_users d"
    "pages d' = AList.update (page_key e)
       \<lparr>reverts = rs, alerted_until_ms = (if t \<le> until \<or> war then t + det_window_ms d else until)\<rparr> (pages d)"
    "a \<noteq> None \<longleftrightarrow> until < t \<and> war"
    "a = Some al \<Longrightarrow> make_alert sha e rs = Inr al"
proof -
  have c: "\<not> (\<not> is_revert rt e \<or> ignore_bots d \<and> bot e)" using assms(2) by (auto simp: counts_def)
  consider (quiet) "t \<le> until" | (few) "until < t" "\<not> war" | (alert) "until < t" war
    by linarith
  then have "det_watermark d' = max (det_watermark d) t \<and> det_window_ms d' = det_window_ms d \<and>
    ignore_bots d' = ignore_bots d \<and> min_reverts d' = min_reverts d \<and> min_users d' = min_users d \<and>
    pages d' = AList.update (page_key e)
       \<lparr>reverts = rs, alerted_until_ms = (if t \<le> until \<or> war then t + det_window_ms d else until)\<rparr> (pages d) \<and>
    (a \<noteq> None \<longleftrightarrow> until < t \<and> war) \<and> (a = Some al \<longrightarrow> make_alert sha e rs = Inr al)"
  proof cases
    case quiet
    with assms(1) c show ?thesis by (auto simp: observe_def Let_def rs_def until_def)
  next
    case few
    then have "int (length rs) < min_reverts d \<or> int (card (set (map rv_user rs))) < min_users d"
      by (auto simp: war_def)
    with assms(1) c few show ?thesis
      by (auto simp: observe_def Let_def rs_def [symmetric] until_def [symmetric])
  next
    case alert
    then have "\<not> (int (length rs) < min_reverts d \<or> int (card (set (map rv_user rs))) < min_users d)"
      by (auto simp: war_def)
    with assms(1) c alert show ?thesis
      by (cases "make_alert sha e rs")
        (auto simp: observe_def Let_def rs_def [symmetric] until_def [symmetric])
  qed
  then show "det_watermark d' = max (det_watermark d) t" "det_window_ms d' = det_window_ms d"
    "ignore_bots d' = ignore_bots d" "min_reverts d' = min_reverts d" "min_users d' = min_users d"
    "pages d' = AList.update (page_key e)
       \<lparr>reverts = rs, alerted_until_ms = (if t \<le> until \<or> war then t + det_window_ms d else until)\<rparr> (pages d)"
    "a \<noteq> None \<longleftrightarrow> until < t \<and> war"
    "a = Some al \<Longrightarrow> make_alert sha e rs = Inr al"
    by blast+
qed

lemma tracks_observe:
  assumes tr: "tracks rt d xs" and t: "det_watermark d \<le> t" and obs: "observe rt sha d e t = Inr (d', a)"
  shows "tracks rt d' (xs @ [(e, t)])"
proof (cases "counts rt (ignore_bots d) e")
  case False
  from observe_ignored [OF this, of sha t] obs t
  have d': "d' = d\<lparr>det_watermark := t\<rparr>" by simp
  have old: "\<forall>k. \<forall>r \<in> set (reverts (page_of d k)). rv_time r \<le> t" "\<forall>(e, s) \<in> set xs. s \<le> t"
    using tr t by (force simp: tracks_def)+
  show ?thesis
    using tr t old False by (auto simp: tracks_def d' page_reverts_snoc)
next
  case True
  let ?k = "page_key e" and ?w = "det_window_ms d"
  let ?r = "\<lparr>rv_event_id = event_id e, rv_user = user e, rv_time = t\<rparr>"
  let ?old = "reverts (page_of d ?k)"
  let ?rs = "evict ?w t (?old @ [?r])"
  note res = observe_result [OF obs True]
  have old: "\<forall>r \<in> set (reverts (page_of d k)). rv_time r \<le> t" for k
    using tr t by (force simp: tracks_def)
  have "in_order (?old @ [?r])" using tr old by (auto simp: tracks_def sorted_append)
  then have rs: "?rs = since (t - ?w) (?old @ [?r])" "in_order ?rs"
    by (simp_all add: evict_since del: since_append)
  have rs_time: "\<forall>r \<in> set ?rs. rv_time r \<le> t"
    using old [of ?k] rs(1) by (auto simp: since_def)
  have page: "reverts (page_of d' k) = (if k = ?k then ?rs else reverts (page_of d k))" for k
    by (simp add: res(6) dict_simps)
  have wm: "det_watermark d' = t" using res(1) t by simp
  have sin: "since (s - ?w) (reverts (page_of d' k)) = since (s - ?w) (page_reverts rt (ignore_bots d) k (xs @ [(e, t)]))"
    if "t \<le> s" for s k
  proof -
    have "since (s - ?w) (reverts (page_of d k)) = since (s - ?w) (page_reverts rt (ignore_bots d) k xs)"
      using tr t that by (simp add: tracks_def)
    moreover have "since (s - ?w) ?rs = since (s - ?w) (?old @ [?r])"
      unfolding rs(1) using that by (intro since_since) simp
    ultimately show ?thesis using page [of k] True by (auto simp: page_reverts_snoc)
  qed
  have xs: "\<forall>(e, s) \<in> set (xs @ [(e, t)]). s \<le> t" using tr t by (force simp: tracks_def)
  have wf: "wf_dict (pages d')" and w0: "0 \<le> ?w" using tr by (simp_all add: res(6) tracks_def)
  have each: "in_order (reverts (page_of d' k)) \<and> (\<forall>r \<in> set (reverts (page_of d' k)). rv_time r \<le> t)" for k
    using page [of k] rs(2) rs_time old [of k] tr by (auto simp: tracks_def)
  show ?thesis
    unfolding tracks_def wm res(2,3)
  proof (intro conjI allI impI)
    show "wf_dict (pages d')" "0 \<le> ?w" "\<forall>(e, s) \<in> set (xs @ [(e, t)]). s \<le> t"
      by (rule wf, rule w0, rule xs)
  next
    fix k
    show "in_order (reverts (page_of d' k))" "\<forall>r \<in> set (reverts (page_of d' k)). rv_time r \<le> t"
      using each [of k] by simp_all
    show "since (s - ?w) (reverts (page_of d' k)) =
        since (s - ?w) (page_reverts rt (ignore_bots d) k (xs @ [(e, t)]))" if "t \<le> s" for s
      using that by (rule sin)
  qed
qed

lemma quiet_since:
  assumes "tracks rt d xs" and "is_quiet d (page_of d k)" and "det_watermark d \<le> t"
  shows "since (t - det_window_ms d) (reverts (page_of d k)) = []"
proof (cases "reverts (page_of d k) = []")
  case True
  then show ?thesis by (simp add: since_def)
next
  case False
  let ?rs = "reverts (page_of d k)"
  have "\<forall>r \<in> set ?rs. rv_time r \<le> rv_time (last ?rs)"
  proof
    fix r assume "r \<in> set ?rs"
    then obtain i where "i < length ?rs" "r = ?rs ! i" by (auto simp: in_set_conv_nth)
    moreover have "in_order ?rs" using assms(1) by (simp add: tracks_def)
    ultimately show "rv_time r \<le> rv_time (last ?rs)"
      using sorted_nth_mono [of "map rv_time ?rs" i "length ?rs - 1"] False
      by (simp add: last_conv_nth)
  qed
  moreover have "rv_time (last ?rs) < det_watermark d - det_window_ms d"
    using assms(2) False by (simp add: is_quiet_def)
  ultimately show ?thesis using assms(3) by (intro since_empty) force
qed

lemma page_of_expire:
  assumes "wf_dict (pages d)"
  shows "page_of (fst (det_expire d)) k =
    (if is_quiet d (page_of d k) \<and> map_of (pages d) k \<noteq> None then new_page else page_of d k)"
  using map_of_filter_value [OF assms, of "\<lambda>p. \<not> is_quiet d p" k]
  by (auto simp: det_expire_def get_default_def split: option.splits)

lemma tracks_expire: "tracks rt d xs \<Longrightarrow> tracks rt (fst (det_expire d)) xs"
proof -
  assume tr: "tracks rt d xs"
  then have wf: "wf_dict (pages d)" by (simp add: tracks_def)
  let ?d = "fst (det_expire d)"
  have same: "det_window_ms ?d = det_window_ms d" "det_watermark ?d = det_watermark d"
    "ignore_bots ?d = ignore_bots d" by (simp_all add: det_expire_def)
  have "in_order (reverts (page_of ?d k)) \<and> (\<forall>r \<in> set (reverts (page_of ?d k)). rv_time r \<le> det_watermark d) \<and>
      (\<forall>t \<ge> det_watermark d. since (t - det_window_ms d) (reverts (page_of ?d k)) =
         since (t - det_window_ms d) (page_reverts rt (ignore_bots d) k xs))" for k
  proof (cases "is_quiet d (page_of d k) \<and> map_of (pages d) k \<noteq> None")
    case True
    then have "page_of ?d k = new_page" by (simp add: page_of_expire [OF wf])
    moreover have "since (t - det_window_ms d) (page_reverts rt (ignore_bots d) k xs) = []"
      if "det_watermark d \<le> t" for t
      using quiet_since [OF tr _ that, of k] True tr that by (simp add: tracks_def)
    ultimately show ?thesis by (simp add: new_page_def since_def)
  next
    case False
    then have "page_of ?d k = page_of d k" unfolding page_of_expire [OF wf] by (rule if_not_P)
    with tr show ?thesis by (simp add: tracks_def)
  qed
  moreover have "wf_dict (pages ?d)" using wf by (auto simp: det_expire_def)
  ultimately show ?thesis using tr unfolding tracks_def same by blast
qed

definition same_config :: "EditWarDetector \<Rightarrow> EditWarDetector \<Rightarrow> bool" where
  "same_config d d' \<longleftrightarrow>
     det_window_ms d' = det_window_ms d \<and> ignore_bots d' = ignore_bots d \<and>
     min_reverts d' = min_reverts d \<and> min_users d' = min_users d"

lemma observe_config:
  assumes "observe rt sha d e t = Inr (d', a)"
  shows "same_config d d' \<and> det_watermark d' = max (det_watermark d) t"
proof (cases "counts rt (ignore_bots d) e")
  case True
  from observe_result(1-5) [OF assms True] show ?thesis by (simp add: same_config_def)
next
  case False
  from observe_ignored [OF this, of sha t] assms show ?thesis by (auto simp: same_config_def)
qed

lemma run_tracks:
  assumes "det_run rt sha d steps = Inr (d', as)" and "tracks rt d xs"
    and "sorted (det_watermark d # map snd (observed steps))"
  shows "tracks rt d' (xs @ observed steps) \<and> same_config d d' \<and>
    (\<forall>t. det_watermark d \<le> t \<longrightarrow> (\<forall>s \<in> set (map snd (observed steps)). s \<le> t) \<longrightarrow> det_watermark d' \<le> t)"
  using assms
proof (induction steps arbitrary: d xs as)
  case Nil
  then show ?case by (simp add: same_config_def)
next
  case (Cons st steps)
  show ?case
  proof (cases st)
    case (Observe e t)
    obtain d1 a where obs: "observe rt sha d e t = Inr (d1, a)"
      using Cons.prems(1) Observe by (cases "observe rt sha d e t") auto
    obtain as' where rest: "det_run rt sha d1 steps = Inr (d', as')"
      using Cons.prems(1) Observe obs by (cases "det_run rt sha d1 steps") auto
    have t: "det_watermark d \<le> t" using Cons.prems(3) Observe by simp
    have conf: "same_config d d1" "det_watermark d1 = t"
      using observe_config [OF obs] t by simp_all
    have "sorted (det_watermark d1 # map snd (observed steps))"
      using Cons.prems(3) Observe conf by simp
    from Cons.IH [OF rest tracks_observe [OF Cons.prems(2) t obs] this] Observe conf
    show ?thesis by (auto simp: same_config_def)
  next
    case Expire
    have wm: "det_watermark (fst (det_expire d)) = det_watermark d" by (simp add: det_expire_def)
    from Cons.prems(1,3) Expire have "det_run rt sha (fst (det_expire d)) steps = Inr (d', as)"
      "sorted (det_watermark (fst (det_expire d)) # map snd (observed steps))" by (simp_all add: wm)
    from Cons.IH [OF this(1) tracks_expire [OF Cons.prems(2)] this(2)] Expire show ?thesis
      by (simp add: wm) (simp add: same_config_def det_expire_def)
  qed
qed

lemma make_alert_facts:
  assumes "make_alert sha e rs = Inr al"
  shows "revert_count al = int (length rs)" "set (al_users al) = rv_user ` set rs"
    "mset (al_event_ids al) = mset (map rv_event_id rs)" "al_wiki al = wiki e" "al_title al = title e"
    "sorted (al_users al)"
  using assms
  by (cases "alert_id_for sha (wiki e) (title e) (rv_event_id (hd (sort_key (\<lambda>r. (rv_time r, rv_event_id r)) rs)))";
      force simp: make_alert_def Let_def)+

text \<open>
  C8. The detector applies its rule exactly, as long as event times do not go back. After any run
  of a fresh detector, with \<open>expire\<close> called at any points, the next event raises an alert if
  and only if it is itself a counted revert, the page is not still alerted, and the counted
  reverts of its page in the last \<open>window_ms\<close>, the new one included, are at least
  \<open>min_reverts\<close>, by at least \<open>min_users\<close> different users. The alert lists exactly
  these reverts and these users.
\<close>

theorem detector_alerts_exactly_wars:
  assumes "det_run rt sha (new_detector w n u bots) steps = Inr (d, as)" and "0 \<le> w"
    and "sorted (0 # map snd (observed steps @ [(e, t)]))"
    and "observe rt sha d e t = Inr (d', a)"
  defines "rs \<equiv> since (t - w) (page_reverts rt bots (page_key e) (observed steps @ [(e, t)]))"
  shows "(a \<noteq> None \<longleftrightarrow> counts rt bots e \<and> alerted_until_ms (page_of d (page_key e)) < t \<and>
      n \<le> int (length rs) \<and> u \<le> int (card (set (map rv_user rs)))) \<and>
    (\<forall>al. a = Some al \<longrightarrow> revert_count al = int (length rs) \<and> set (al_users al) = rv_user ` set rs \<and>
       mset (al_event_ids al) = mset (map rv_event_id rs) \<and> al_wiki al = wiki e \<and> al_title al = title e)"
proof -
  have "sorted (det_watermark (new_detector w n u bots) # map snd (observed steps))"
    using assms(3) by (simp add: new_detector_def sorted_append)
  from run_tracks [OF assms(1) tracks_new [OF assms(2)] this]
  have tr: "tracks rt d (observed steps)" and conf: "same_config (new_detector w n u bots) d"
    and "\<forall>t. det_watermark (new_detector w n u bots) \<le> t \<longrightarrow>
      (\<forall>s \<in> set (map snd (observed steps)). s \<le> t) \<longrightarrow> det_watermark d \<le> t"
    by simp_all
  then have t: "det_watermark d \<le> t"
    using assms(3) by (force simp: new_detector_def sorted_append)
  have c: "det_window_ms d = w" "ignore_bots d = bots" "min_reverts d = n" "min_users d = u"
    using conf by (simp_all add: same_config_def new_detector_def)
  show ?thesis
  proof (cases "counts rt bots e")
    case False
    with observe_ignored [of rt d e sha t] assms(4) c show ?thesis by auto
  next
    case True
    let ?r = "\<lparr>rv_event_id = event_id e, rv_user = user e, rv_time = t\<rparr>"
    let ?old = "reverts (page_of d (page_key e))"
    have "in_order (?old @ [?r])" using tr t by (force simp: tracks_def sorted_append)
    then have "evict w t (?old @ [?r]) = since (t - w) ?old @ since (t - w) [?r]"
      by (simp add: evict_since)
    also have "\<dots> = rs"
      using tr t c True by (simp add: rs_def tracks_def page_reverts_snoc)
    finally have rs: "evict w t (?old @ [?r]) = rs" .
    have True': "counts rt (ignore_bots d) e" using True c by simp
    note res = observe_result(7,8) [OF assms(4) True', unfolded c rs]
    show ?thesis
    proof (intro conjI)
      show "a \<noteq> None \<longleftrightarrow> counts rt bots e \<and> alerted_until_ms (page_of d (page_key e)) < t \<and>
          n \<le> int (length rs) \<and> u \<le> int (card (set (map rv_user rs)))"
        using res(1) True by blast
      show "\<forall>al. a = Some al \<longrightarrow> revert_count al = int (length rs) \<and> set (al_users al) = rv_user ` set rs \<and>
          mset (al_event_ids al) = mset (map rv_event_id rs) \<and> al_wiki al = wiki e \<and> al_title al = title e"
      proof (intro allI impI)
        fix al assume "a = Some al"
        from make_alert_facts(1-5) [OF res(2) [OF this]]
        show "revert_count al = int (length rs) \<and> set (al_users al) = rv_user ` set rs \<and>
          mset (al_event_ids al) = mset (map rv_event_id rs) \<and> al_wiki al = wiki e \<and> al_title al = title e"
          by simp
      qed
    qed
  qed
qed

definition sample_revert :: "string \<Rightarrow> string \<Rightarrow> CleanEvent" where
  "sample_revert i u = sample_event\<lparr>event_id := ascii i, user := ascii u, bot := False\<rparr>"

lemma sample_revert_counts [simp]: "counts plain_runtime bots (sample_revert i u)"
proof -
  have "list_all2 (same_letter ascii_unicode) (ascii ''rv'') (ascii ''rv'')"
    by (rule list.rel_refl) (simp add: ascii_unicode_def)
  from word_is_revert [OF _ this, of "[]" "[]"] have "is_revert_comment ascii_unicode (ascii ''rv'')"
    by (simp add: EN_PHRASES_def)
  then show ?thesis
    by (simp add: counts_def is_revert_def sample_revert_def sample_event_def plain_runtime_def)
qed

lemma sample_revert_simps [simp]:
  "page_key (sample_revert i u) = ascii ''enwiki:Main Page''" "event_id (sample_revert i u) = ascii i"
  "user (sample_revert i u) = ascii u" "wiki (sample_revert i u) = ascii ''enwiki''"
  "title (sample_revert i u) = ascii ''Main Page''"
  by (simp_all add: sample_revert_def sample_event_def page_key_def ascii_def)

text \<open>An alert for a page whose texts can be encoded does not fail.\<close>

lemma make_alert_ok:
  assumes "encodable (wiki e)" "encodable (title e)" "\<forall>r \<in> set rs. encodable (rv_event_id r)" "rs \<noteq> []"
  shows "\<exists>al. make_alert sha e rs = Inr al"
proof -
  let ?s = "sort_key (\<lambda>r. (rv_time r, rv_event_id r)) rs"
  have "hd ?s \<in> set rs" using assms(4) by (metis hd_in_set length_0_conv length_sort set_sort)
  then have "encodable (wiki e @ [0] @ title e @ [0] @ rv_event_id (hd ?s))"
    using assms by (simp add: surrogate_def)
  then obtain b where "utf8_encode (wiki e @ [0] @ title e @ [0] @ rv_event_id (hd ?s)) = Inr b"
    using utf8_encode_ok by blast
  then show ?thesis by (simp add: make_alert_def alert_id_for_def Let_def)
qed

text \<open>Three reverts by two users within half an hour.\<close>

abbreviation sample_war :: "step list" where
  "sample_war \<equiv> [Observe (sample_revert ''a'' ''Ann'') 1000, Expire, Observe (sample_revert ''b'' ''Bob'') 2000]"

lemma observe_counted:
  "counts rt (ignore_bots d) e \<Longrightarrow> observe rt sha d e t =
     (let old = page_of d (page_key e);
          rs = evict (det_window_ms d) t (reverts old @
            [\<lparr>rv_event_id = event_id e, rv_user = user e, rv_time = t\<rparr>]);
          save = (\<lambda>until. d\<lparr>det_watermark := max (det_watermark d) t, reverts_seen := reverts_seen d + 1,
            pages := AList.update (page_key e) \<lparr>reverts = rs, alerted_until_ms = until\<rparr> (pages d)\<rparr>)
      in if t \<le> alerted_until_ms old then Inr (save (t + det_window_ms d), None)
         else if int (length rs) < min_reverts d \<or> int (card (set (map rv_user rs))) < min_users d
           then Inr (save (alerted_until_ms old), None)
         else bind_res (make_alert sha e rs) (\<lambda>alert.
           Inr ((save (t + det_window_ms d))\<lparr>alerts_raised := alerts_raised d + 1\<rparr>, Some alert)))"
  by (auto simp: observe_def counts_def Let_def)

lemma sample_war_run:
  "\<exists>d d' al. det_run plain_runtime sha default_detector sample_war = Inr (d, [None, None]) \<and>
     observe plain_runtime sha d (sample_revert ''c'' ''Ann'') 3000 = Inr (d', Some al)"
proof -
  let ?rs = "[\<lparr>rv_event_id = ascii ''a'', rv_user = ascii ''Ann'', rv_time = 1000\<rparr>,
      \<lparr>rv_event_id = ascii ''b'', rv_user = ascii ''Bob'', rv_time = 2000\<rparr>,
      \<lparr>rv_event_id = ascii ''c'', rv_user = ascii ''Ann'', rv_time = 3000\<rparr>]"
  obtain al where "make_alert sha (sample_revert ''c'' ''Ann'') ?rs = Inr al"
    using make_alert_ok [of "sample_revert ''c'' ''Ann''" ?rs] by auto
  then show ?thesis
    by (simp add: observe_counted new_detector_def DEFAULT_WINDOW_MS_def new_page_def Let_def evict_def
        det_expire_def is_quiet_def card_insert_if)
qed

theorem detector_alerts_exactly_wars_witness:
  "\<exists>d d' al. det_run plain_runtime (\<lambda>_. []) default_detector sample_war = Inr (d, [None, None]) \<and>
     observe plain_runtime (\<lambda>_. []) d (sample_revert ''c'' ''Ann'') 3000 = Inr (d', Some al) \<and>
     revert_count al = 3 \<and> set (al_users al) = {ascii ''Ann'', ascii ''Bob''}"
proof -
  obtain d d' al where
    run: "det_run plain_runtime (\<lambda>_. []) default_detector sample_war = Inr (d, [None, None])" and
    obs: "observe plain_runtime (\<lambda>_. []) d (sample_revert ''c'' ''Ann'') 3000 = Inr (d', Some al)"
    using sample_war_run by blast
  have "sorted (0 # map snd (observed sample_war @ [(sample_revert ''c'' ''Ann'', 3000)]))" by simp
  from detector_alerts_exactly_wars [OF run _ this obs] run obs show ?thesis
    by (simp add: DEFAULT_WINDOW_MS_def page_reverts_def since_def) blast
qed

subsection \<open>Expiry does not change the alerts\<close>

text \<open>Two detectors that have seen the same events and will answer alike from now on.\<close>

definition alike :: "runtime \<Rightarrow> (CleanEvent \<times> int) list \<Rightarrow> EditWarDetector \<Rightarrow> EditWarDetector \<Rightarrow> bool" where
  "alike rt xs d d' \<longleftrightarrow>
     tracks rt d xs \<and> tracks rt d' xs \<and> same_config d d' \<and> det_watermark d' = det_watermark d \<and>
     0 \<le> det_watermark d \<and>
     (\<forall>k. alerted_until_ms (page_of d k) = alerted_until_ms (page_of d' k) \<or>
          alerted_until_ms (page_of d k) < det_watermark d \<and>
          alerted_until_ms (page_of d' k) < det_watermark d)"

lemma observe_answer:
  "map_sum id snd (observe rt sha d e t) =
     (let old = page_of d (page_key e);
          rs = evict (det_window_ms d) t (reverts old @
            [\<lparr>rv_event_id = event_id e, rv_user = user e, rv_time = t\<rparr>])
      in if \<not> counts rt (ignore_bots d) e \<or> t \<le> alerted_until_ms old \<or>
            int (length rs) < min_reverts d \<or> int (card (set (map rv_user rs))) < min_users d
         then Inr None else map_sum id Some (make_alert sha e rs))"
proof (cases "counts rt (ignore_bots d) e")
  case False
  with observe_ignored [of rt d e sha t] show ?thesis by simp
next
  case True
  let ?rs = "evict (det_window_ms d) t (reverts (page_of d (page_key e)) @
            [\<lparr>rv_event_id = event_id e, rv_user = user e, rv_time = t\<rparr>])"
  show ?thesis
    unfolding observe_counted [OF True] Let_def
    by (cases "make_alert sha e ?rs") (simp_all add: True)
qed

lemma alike_evict:
  assumes "alike rt xs d d'" and "det_watermark d \<le> t"
  shows "evict (det_window_ms d) t (reverts (page_of d k) @ [\<lparr>rv_event_id = i, rv_user = u, rv_time = t\<rparr>]) =
    evict (det_window_ms d') t (reverts (page_of d' k) @ [\<lparr>rv_event_id = i, rv_user = u, rv_time = t\<rparr>])"
proof -
  have tr: "tracks rt d xs" "tracks rt d' xs" "det_window_ms d' = det_window_ms d"
    "ignore_bots d' = ignore_bots d" "det_watermark d' = det_watermark d"
    using assms(1) by (auto simp: alike_def same_config_def)
  have "in_order (reverts (page_of d k) @ [\<lparr>rv_event_id = i, rv_user = u, rv_time = t\<rparr>])"
    "in_order (reverts (page_of d' k) @ [\<lparr>rv_event_id = i, rv_user = u, rv_time = t\<rparr>])"
    using tr assms(2) by (force simp: tracks_def sorted_append)+
  then show ?thesis
    using tr assms(2) by (simp add: evict_since tracks_def)
qed

lemma alike_until:
  assumes "alike rt xs d d'" and "det_watermark d \<le> t"
  shows "t \<le> alerted_until_ms (page_of d' k) \<longleftrightarrow> t \<le> alerted_until_ms (page_of d k)"
proof -
  have "alerted_until_ms (page_of d k) = alerted_until_ms (page_of d' k) \<or>
        alerted_until_ms (page_of d k) < det_watermark d \<and>
        alerted_until_ms (page_of d' k) < det_watermark d"
    using assms(1) by (simp add: alike_def)
  with assms(2) show ?thesis by linarith
qed

text \<open>Alike detectors answer alike.\<close>

lemma alike_answer:
  assumes "alike rt xs d d'" and "det_watermark d \<le> t"
  shows "map_sum id snd (observe rt sha d e t) = map_sum id snd (observe rt sha d' e t)"
proof -
  have conf: "ignore_bots d' = ignore_bots d" "min_reverts d' = min_reverts d" "min_users d' = min_users d"
    using assms(1) by (simp_all add: alike_def same_config_def)
  show ?thesis
    unfolding observe_answer Let_def conf alike_until [OF assms] alike_evict [OF assms] by (rule refl)
qed

lemma alike_observe:
  assumes al: "alike rt xs d d'" and t: "det_watermark d \<le> t"
    and obs: "observe rt sha d e t = Inr (d1, a)"
  shows "\<exists>d1'. observe rt sha d' e t = Inr (d1', a) \<and> alike rt (xs @ [(e, t)]) d1 d1'"
proof (cases "counts rt (ignore_bots d) e")
  case False
  have conf: "same_config d d'" "det_watermark d' = det_watermark d" using al by (simp_all add: alike_def)
  then have f': "\<not> counts rt (ignore_bots d') e" using False by (simp add: same_config_def)
  have r: "d1 = d\<lparr>det_watermark := t\<rparr>" "a = None"
    using observe_ignored [OF False, of sha t] obs t by simp_all
  have r': "observe rt sha d' e t = Inr (d'\<lparr>det_watermark := t\<rparr>, None)"
    using observe_ignored [OF f', of sha t] t conf by simp
  have tr: "tracks rt d1 (xs @ [(e, t)])" "tracks rt (d'\<lparr>det_watermark := t\<rparr>) (xs @ [(e, t)])"
    using tracks_observe [OF _ t obs] tracks_observe [OF _ _ r'] al t conf by (simp_all add: alike_def)
  have "alike rt (xs @ [(e, t)]) d1 (d'\<lparr>det_watermark := t\<rparr>)"
    unfolding alike_def
  proof (intro conjI allI)
    fix k
    have "alerted_until_ms (page_of d k) = alerted_until_ms (page_of d' k) \<or>
          alerted_until_ms (page_of d k) < det_watermark d \<and>
          alerted_until_ms (page_of d' k) < det_watermark d"
      using al by (simp add: alike_def)
    then show "alerted_until_ms (page_of d1 k) = alerted_until_ms (page_of (d'\<lparr>det_watermark := t\<rparr>) k) \<or>
        alerted_until_ms (page_of d1 k) < det_watermark d1 \<and>
        alerted_until_ms (page_of (d'\<lparr>det_watermark := t\<rparr>) k) < det_watermark d1"
      using t by (auto simp: r)
  qed (use tr conf al t in \<open>simp_all add: r same_config_def alike_def\<close>)
  with r r' show ?thesis by blast
next
  case True
  have conf: "same_config d d'" "det_watermark d' = det_watermark d" using al by (simp_all add: alike_def)
  then have true': "counts rt (ignore_bots d') e" using True by (simp add: same_config_def)
  let ?k = "page_key e"
  let ?r = "\<lparr>rv_event_id = event_id e, rv_user = user e, rv_time = t\<rparr>"
  let ?rs = "evict (det_window_ms d) t (reverts (page_of d ?k) @ [?r])"
  have rs: "evict (det_window_ms d') t (reverts (page_of d' ?k) @ [?r]) = ?rs"
    using alike_evict [OF al t] by simp
  note until = alike_until [OF al t]
  define war where "war \<longleftrightarrow> min_reverts d \<le> int (length ?rs) \<and> min_users d \<le> int (card (set (map rv_user ?rs)))"
  note res = observe_result [OF obs True]
  have "map_sum id snd (observe rt sha d' e t) = Inr a"
    using alike_answer [OF al t, of sha e] obs by simp
  then have "\<exists>d1'. observe rt sha d' e t = Inr (d1', a)"
    by (cases "observe rt sha d' e t") auto
  then obtain d1' where obs': "observe rt sha d' e t = Inr (d1', a)" by blast
  note res' = observe_result [OF obs' true', unfolded rs]
  have tr: "tracks rt d1 (xs @ [(e, t)])" "tracks rt d1' (xs @ [(e, t)])"
    using tracks_observe [OF _ t obs] tracks_observe [OF _ _ obs'] al t conf by (simp_all add: alike_def)
  have wm: "det_watermark d1 = t" "det_watermark d1' = t" using res(1) res'(1) t conf by simp_all
  have u: "alerted_until_ms (page_of d1 k) = alerted_until_ms (page_of d1' k) \<or>
      alerted_until_ms (page_of d1 k) < t \<and> alerted_until_ms (page_of d1' k) < t" for k
  proof -
    have old: "alerted_until_ms (page_of d k) = alerted_until_ms (page_of d' k) \<or>
          alerted_until_ms (page_of d k) < t \<and> alerted_until_ms (page_of d' k) < t" for k
    proof -
      have "alerted_until_ms (page_of d k) = alerted_until_ms (page_of d' k) \<or>
            alerted_until_ms (page_of d k) < det_watermark d \<and>
            alerted_until_ms (page_of d' k) < det_watermark d"
        using al by (simp add: alike_def)
      with t show ?thesis by linarith
    qed
    have p: "alerted_until_ms (page_of d1 k) = (if k = ?k then
        (if t \<le> alerted_until_ms (page_of d ?k) \<or> war then t + det_window_ms d else alerted_until_ms (page_of d ?k))
        else alerted_until_ms (page_of d k))"
      by (simp add: res(6) dict_simps war_def)
    have p': "alerted_until_ms (page_of d1' k) = (if k = ?k then
        (if t \<le> alerted_until_ms (page_of d ?k) \<or> war then t + det_window_ms d else alerted_until_ms (page_of d' ?k))
        else alerted_until_ms (page_of d' k))"
      using conf until [of ?k] by (simp add: res'(6) dict_simps war_def same_config_def)
    show ?thesis unfolding p p' using old [of k] old [of ?k] by auto
  qed
  have "alike rt (xs @ [(e, t)]) d1 d1'"
    using tr wm u res(2-5) res'(2-5) conf al t by (simp add: alike_def same_config_def)
  with obs' show ?thesis by blast
qed

lemma alike_expire: "alike rt xs d d' \<Longrightarrow> alike rt xs (fst (det_expire d)) d'"
proof -
  assume al: "alike rt xs d d'"
  then have tr: "tracks rt d xs" and wf: "wf_dict (pages d)" and pos: "0 \<le> det_watermark d"
    by (simp_all add: alike_def tracks_def)
  have "alerted_until_ms (page_of (fst (det_expire d)) k) = alerted_until_ms (page_of d' k) \<or>
      alerted_until_ms (page_of (fst (det_expire d)) k) < det_watermark d \<and>
      alerted_until_ms (page_of d' k) < det_watermark d" for k
  proof -
    have old: "alerted_until_ms (page_of d k) = alerted_until_ms (page_of d' k) \<or>
          alerted_until_ms (page_of d k) < det_watermark d \<and>
          alerted_until_ms (page_of d' k) < det_watermark d"
      using al by (simp add: alike_def)
    show ?thesis
    proof (cases "is_quiet d (page_of d k) \<and> map_of (pages d) k \<noteq> None")
      case True
      then have "alerted_until_ms (page_of d k) < det_watermark d" by (simp add: is_quiet_def)
      with old pos True show ?thesis
        unfolding page_of_expire [OF wf] by (auto simp: new_page_def)
    next
      case False
      then have "page_of (fst (det_expire d)) k = page_of d k"
        unfolding page_of_expire [OF wf] by (rule if_not_P)
      with old show ?thesis by simp
    qed
  qed
  with al tracks_expire [OF tr] show ?thesis
    by (simp add: alike_def) (simp add: det_expire_def same_config_def)
qed

lemma alike_run:
  assumes "alike rt xs d d'" and "sorted (det_watermark d # map snd (observed steps))"
  shows "map_sum id snd (det_run rt sha d steps) =
    map_sum id snd (det_run rt sha d' (filter (\<lambda>s. s \<noteq> Expire) steps))"
  using assms
proof (induction steps arbitrary: d d' xs)
  case (Cons st steps)
  show ?case
  proof (cases st)
    case Expire
    have "det_watermark (fst (det_expire d)) = det_watermark d" by (simp add: det_expire_def)
    with Cons.IH [OF alike_expire [OF Cons.prems(1)]] Cons.prems(2) Expire show ?thesis by simp
  next
    case (Observe e t)
    have t: "det_watermark d \<le> t" using Cons.prems(2) Observe by simp
    show ?thesis
    proof (cases "observe rt sha d e t")
      case (Inr r)
      obtain d1 a where r: "r = (d1, a)" by (cases r)
      from alike_observe [OF Cons.prems(1) t Inr [unfolded r]] obtain d1' where
        obs': "observe rt sha d' e t = Inr (d1', a)" and al: "alike rt (xs @ [(e, t)]) d1 d1'" by blast
      have "det_watermark d1 = t" using observe_config [OF Inr [unfolded r]] t by simp
      then have "sorted (det_watermark d1 # map snd (observed steps))"
        using Cons.prems(2) Observe by simp
      note ih = Cons.IH [OF al this]
      have run: "map_sum id snd (bind_res (det_run rt sha d1 ss) (\<lambda>(d2, as). Inr (d2, a # as))) =
          map_sum id (\<lambda>as. a # as) (map_sum id snd (det_run rt sha d1 ss))" for d1 ss
        by (cases "det_run rt sha d1 ss") auto
      have "filter (\<lambda>s. s \<noteq> Expire) (st # steps) = Observe e t # filter (\<lambda>s. s \<noteq> Expire) steps"
        by (simp add: Observe)
      then show ?thesis
        by (simp only: Observe det_run.simps Inr r obs' bind_res_simps split run ih)
    next
      case (Inl x)
      have "map_sum id snd (observe rt sha d' e t) = Inl x"
        using alike_answer [OF Cons.prems(1) t, of sha e] Inl by simp
      then have "observe rt sha d' e t = Inl x" by (cases "observe rt sha d' e t") auto
      with Inl Observe show ?thesis by simp
    qed
  qed
qed simp

text \<open>
  C26. Expiring quiet pages never changes an alert. On any run of a fresh detector with event
  times that do not go back, the answers are the same as those of the run without the calls of
  \<open>expire\<close>: forgetting a page loses neither a war in progress nor the memory that a war
  was alerted.
\<close>

theorem expire_changes_no_alert:
  assumes "0 \<le> w" and "sorted (0 # map snd (observed steps))"
  shows "map_sum id snd (det_run rt sha (new_detector w n u bots) steps) =
    map_sum id snd (det_run rt sha (new_detector w n u bots) (filter (\<lambda>s. s \<noteq> Expire) steps))"
proof (rule alike_run)
  show "alike rt [] (new_detector w n u bots) (new_detector w n u bots)"
    using tracks_new [OF assms(1)] by (simp add: alike_def same_config_def new_detector_def)
  show "sorted (det_watermark (new_detector w n u bots) # map snd (observed steps))"
    using assms(2) by (simp add: new_detector_def)
qed

theorem expire_changes_no_alert_witness:
  "map_sum id snd (det_run plain_runtime (\<lambda>_. []) default_detector
      [Observe (sample_revert ''a'' ''Ann'') 1000, Expire, Observe (sample_revert ''b'' ''Bob'') 9000000]) =
    map_sum id snd (det_run plain_runtime (\<lambda>_. []) default_detector
      (filter (\<lambda>s. s \<noteq> Expire)
        [Observe (sample_revert ''a'' ''Ann'') 1000, Expire, Observe (sample_revert ''b'' ''Bob'') 9000000]))"
  by (rule expire_changes_no_alert) (simp_all add: DEFAULT_WINDOW_MS_def)

text \<open>
  Events out of order can raise an alert that is not a war. The deque is trimmed only at its
  front, so a late, older revert stays behind a newer one: three reverts of one page of which only
  two lie within any thirty minutes are alerted as three reverts.
\<close>

theorem late_revert_raises_false_alert:
  "\<exists>d d' al. det_run plain_runtime sha default_detector
       [Observe (sample_revert ''a'' ''Ann'') 6000000, Observe (sample_revert ''b'' ''Bob'') 4200000] = Inr (d, [None, None]) \<and>
     observe plain_runtime sha d (sample_revert ''c'' ''Ann'') 6060000 = Inr (d', Some al) \<and>
     revert_count al = 3 \<and> 6060000 - 4200000 > DEFAULT_WINDOW_MS"
proof -
  let ?rs = "[\<lparr>rv_event_id = ascii ''a'', rv_user = ascii ''Ann'', rv_time = 6000000\<rparr>,
      \<lparr>rv_event_id = ascii ''b'', rv_user = ascii ''Bob'', rv_time = 4200000\<rparr>,
      \<lparr>rv_event_id = ascii ''c'', rv_user = ascii ''Ann'', rv_time = 6060000\<rparr>]"
  obtain al where al: "make_alert sha (sample_revert ''c'' ''Ann'') ?rs = Inr al"
    using make_alert_ok [of "sample_revert ''c'' ''Ann''" ?rs] by auto
  have "revert_count al = 3" using make_alert_facts(1) [OF al] by simp
  with al show ?thesis
    by (simp add: observe_counted new_detector_def DEFAULT_WINDOW_MS_def new_page_def Let_def evict_def
        card_insert_if)
qed

end
