(* ===== verification/Windows.thy ===== *)
theory Windows
  imports Prelude
begin

text \<open>
  \<^verbatim>\<open>processors/windows.py\<close>: edits counted per page per minute, and the offset it is safe
  to commit. \<open>PartitionState\<close> is the state of one partition, \<open>MinuteWindows\<close> the
  dictionary of all of them with the two counters. The body of \<open>add\<close> that works on one
  partition's state is \<open>add_state\<close>, the loop body of \<open>pop_closed\<close> is
  \<open>pop_state\<close>, and that of \<open>commit_offsets\<close> is \<open>commit_offset\<close>.
\<close>

subsection \<open>State\<close>

definition MINUTE_MS :: int where
  "MINUTE_MS = 60000"

definition DEFAULT_LATENESS_MS :: int where
  "DEFAULT_LATENESS_MS = 2 * MINUTE_MS"

definition MAX_WINDOWS_PER_PARTITION :: int where
  "MAX_WINDOWS_PER_PARTITION = 200000"

text \<open>\<open>WindowKey\<close>: wiki, title and minute.\<close>

type_synonym WindowKey = "ustr \<times> ustr \<times> int"

abbreviation minute_of :: "WindowKey \<Rightarrow> int" where
  "minute_of key \<equiv> snd (snd key)"

record Window =
  wcount :: int
  first_offset :: int

definition new_window :: Window where
  "new_window = \<lparr>wcount = 0, first_offset = -1\<rparr>"

definition window_add :: "Window \<Rightarrow> int \<Rightarrow> Window" where
  "window_add w offset =
     \<lparr>wcount = wcount w + 1,
      first_offset = (if first_offset w < 0 \<or> offset < first_offset w then offset
                      else first_offset w)\<rparr>"

record ClosedWindow =
  cw_wiki :: ustr
  cw_title :: ustr
  cw_minute_ms :: int
  cw_count :: int

record PartitionState =
  windows :: "(WindowKey, Window) pydict"
  last_offset :: int
  flushed_minutes :: "int set"
  watermark_ms :: int
  partial_floor :: int

definition new_state :: PartitionState where
  "new_state = \<lparr>windows = [], last_offset = -1, flushed_minutes = {}, watermark_ms = 0,
     partial_floor = -1\<rparr>"

definition minute_start :: "int \<Rightarrow> int" where
  "minute_start event_time_ms = (event_time_ms div MINUTE_MS) * MINUTE_MS"

record MinuteWindows =
  lateness_ms :: int
  max_windows :: int
  partitions :: "(int, PartitionState) pydict"
  late_events :: int
  counted :: int

definition new_minute_windows :: "int \<Rightarrow> int \<Rightarrow> MinuteWindows" where
  "new_minute_windows lateness cap =
     \<lparr>lateness_ms = lateness, max_windows = cap, partitions = [], late_events = 0, counted = 0\<rparr>"

subsection \<open>Operations on one partition\<close>

definition closed_before :: "int \<Rightarrow> PartitionState \<Rightarrow> int" where
  "closed_before lateness st = minute_start (watermark_ms st - lateness)"

text \<open>
  The loop of \<open>_enforce_cap\<close>. The source takes the \<open>min\<close> of the open minutes, which
  raises on an empty dictionary; with a cap of at least 0 the loop is left before that.
\<close>

definition oldest_minute :: "PartitionState \<Rightarrow> int" where
  "oldest_minute st = Min (set (map (\<lambda>(key, _). minute_of key) (windows st)))"

definition drop_minute :: "int \<Rightarrow> PartitionState \<Rightarrow> PartitionState" where
  "drop_minute oldest st =
     st\<lparr>windows := filter (\<lambda>(key, _). minute_of key \<noteq> oldest) (windows st),
        flushed_minutes := insert oldest (flushed_minutes st)\<rparr>"

lemma oldest_minute_mem:
  "windows st \<noteq> [] \<Longrightarrow> oldest_minute st \<in> (\<lambda>(key, _). minute_of key) ` set (windows st)"
  unfolding oldest_minute_def set_map by (rule Min_in) auto

lemma drop_minute_shorter:
  "windows st \<noteq> [] \<Longrightarrow> length (windows (drop_minute (oldest_minute st) st)) < length (windows st)"
  using oldest_minute_mem [of st] by (auto simp: drop_minute_def intro!: length_filter_less)

function enforce_cap :: "int \<Rightarrow> PartitionState \<Rightarrow> PartitionState" where
  "enforce_cap cap st =
     (if int (length (windows st)) > cap \<and> windows st \<noteq> []
      then enforce_cap cap (drop_minute (oldest_minute st) st)
      else st)"
  by pat_completeness auto
termination
  by (relation "measure (\<lambda>(cap, st). length (windows st))") (auto dest: drop_minute_shorter)

declare enforce_cap.simps [simp del]

definition note_event :: "PartitionState \<Rightarrow> int \<Rightarrow> int \<Rightarrow> PartitionState" where
  "note_event st offset event_time_ms =
     st\<lparr>last_offset := max (last_offset st) offset,
        watermark_ms := max (watermark_ms st) event_time_ms\<rparr>"

definition is_late :: "int \<Rightarrow> PartitionState \<Rightarrow> WindowKey \<Rightarrow> bool" where
  "is_late lateness st key \<longleftrightarrow>
     (let already_written =
        minute_of key \<in> flushed_minutes st \<and> map_of (windows st) key = None
      in minute_of key < closed_before lateness st \<or> already_written)"

definition add_state ::
  "int \<Rightarrow> int \<Rightarrow> PartitionState \<Rightarrow> int \<Rightarrow> ustr \<Rightarrow> ustr \<Rightarrow> int \<Rightarrow> PartitionState \<times> bool" where
  "add_state lateness cap st offset wiki title event_time_ms =
     (let st1 = note_event st offset event_time_ms;
          key = (wiki, title, minute_start event_time_ms)
      in if is_late lateness st1 key then (st1, False)
         else
           let w = window_add (get_default (windows st1) key new_window) offset
           in (enforce_cap cap (st1\<lparr>windows := AList.update key w (windows st1)\<rparr>), True))"

definition close_window :: "WindowKey \<times> Window \<Rightarrow> ClosedWindow" where
  "close_window kw = (case kw of ((wiki, title, minute), w) \<Rightarrow>
     \<lparr>cw_wiki = wiki, cw_title = title, cw_minute_ms = minute, cw_count = wcount w\<rparr>)"

definition lower_floor :: "int \<Rightarrow> int \<Rightarrow> int" where
  "lower_floor first floor = (if floor < 0 then first else min floor first)"

definition pop_state :: "bool \<Rightarrow> int \<Rightarrow> PartitionState \<Rightarrow> PartitionState \<times> ClosedWindow list" where
  "pop_state final lateness st =
     (let cutoff = closed_before lateness st;
          finished = filter (\<lambda>(key, _). final \<or> minute_of key < cutoff) (windows st);
          rest = filter (\<lambda>(key, _). \<not> (final \<or> minute_of key < cutoff)) (windows st);
          flushed = flushed_minutes st \<union> (\<lambda>(key, _). minute_of key) ` set finished;
          floor = fold (\<lambda>(key, w) f. if final \<and> minute_of key \<ge> cutoff
                                      then lower_floor (first_offset w) f else f)
                       finished (partial_floor st)
      in (st\<lparr>windows := rest, flushed_minutes := {m \<in> flushed. m \<ge> cutoff},
             partial_floor := floor\<rparr>,
          map close_window finished))"

definition commit_offset :: "PartitionState \<Rightarrow> int option" where
  "commit_offset st =
     (let base = (if windows st \<noteq> [] then Some (Min (set (map (\<lambda>(_, w). first_offset w) (windows st))))
                  else if last_offset st \<ge> 0 then Some (last_offset st + 1)
                  else None)
      in map_option (\<lambda>offset. if partial_floor st \<ge> 0 then min offset (partial_floor st) else offset)
           base)"

subsection \<open>Operations on all partitions\<close>

definition state_of :: "MinuteWindows \<Rightarrow> int \<Rightarrow> PartitionState" where
  "state_of m p = get_default (partitions m) p new_state"

definition add :: "MinuteWindows \<Rightarrow> int \<Rightarrow> int \<Rightarrow> ustr \<Rightarrow> ustr \<Rightarrow> int \<Rightarrow> MinuteWindows \<times> bool" where
  "add m p offset wiki title event_time_ms =
     (let (st, counts) =
        add_state (lateness_ms m) (max_windows m) (state_of m p) offset wiki title event_time_ms;
        m1 = m\<lparr>partitions := AList.update p st (partitions m)\<rparr>
      in if counts then (m1\<lparr>counted := counted m1 + 1\<rparr>, True)
         else (m1\<lparr>late_events := late_events m1 + 1\<rparr>, False))"

definition pop_closed :: "bool \<Rightarrow> MinuteWindows \<Rightarrow> MinuteWindows \<times> ClosedWindow list" where
  "pop_closed final m =
     (m\<lparr>partitions := map (\<lambda>(p, st). (p, fst (pop_state final (lateness_ms m) st))) (partitions m)\<rparr>,
      concat (map (\<lambda>(_, st). snd (pop_state final (lateness_ms m) st)) (partitions m)))"

definition commit_offsets :: "MinuteWindows \<Rightarrow> (int, int) pydict" where
  "commit_offsets m =
     List.map_filter (\<lambda>(p, st). map_option (Pair p) (commit_offset st)) (partitions m)"

definition revoke :: "int list \<Rightarrow> MinuteWindows \<Rightarrow> MinuteWindows" where
  "revoke ps m = m\<lparr>partitions := fold AList.delete ps (partitions m)\<rparr>"

definition open_windows :: "MinuteWindows \<Rightarrow> int" where
  "open_windows m = (\<Sum>(_, st) \<leftarrow> partitions m. int (length (windows st)))"

text \<open>\<open>open_windows(partition)\<close> creates the state of an unknown partition, as
  \<open>state\<close> does.\<close>

definition open_windows_of :: "MinuteWindows \<Rightarrow> int \<Rightarrow> MinuteWindows \<times> int" where
  "open_windows_of m p =
     (m\<lparr>partitions := (if map_of (partitions m) p = None then partitions m @ [(p, new_state)]
                       else partitions m)\<rparr>,
      int (length (windows (state_of m p))))"

definition reported_watermark :: "MinuteWindows \<Rightarrow> int" where
  "reported_watermark m =
     (if partitions m = [] then 0 else Max (set (map (\<lambda>(_, st). watermark_ms st) (partitions m))))"

text \<open>\<open>stats()\<close>: counted, open windows, late events, watermark.\<close>

definition window_stats :: "MinuteWindows \<Rightarrow> int \<times> int \<times> int \<times> int" where
  "window_stats m = (counted m, open_windows m, late_events m, reported_watermark m)"

subsection \<open>One partition at a time\<close>

named_theorems part_simps \<open>the state of one partition after an operation on all\<close>

lemma enforce_cap_below: "int (length (windows st)) \<le> cap \<Longrightarrow> enforce_cap cap st = st"
  by (subst enforce_cap.simps) simp

lemma enforce_cap_fields:
  "last_offset (enforce_cap cap st) = last_offset st \<and>
   watermark_ms (enforce_cap cap st) = watermark_ms st \<and>
   partial_floor (enforce_cap cap st) = partial_floor st \<and>
   set (windows (enforce_cap cap st)) \<subseteq> set (windows st)"
proof (induction cap st rule: enforce_cap.induct)
  case (1 cap st)
  show ?case
  proof (cases "int (length (windows st)) > cap \<and> windows st \<noteq> []")
    case True
    from 1 [OF True] True show ?thesis
      by (subst (1 2 3 4) enforce_cap.simps) (auto simp: drop_minute_def)
  next
    case False
    then have "enforce_cap cap st = st" by (subst enforce_cap.simps) (rule if_not_P)
    then show ?thesis by simp
  qed
qed

lemma enforce_cap_length: "0 \<le> cap \<Longrightarrow> int (length (windows (enforce_cap cap st))) \<le> cap"
proof (induction cap st rule: enforce_cap.induct)
  case (1 cap st)
  then show ?case
    by (cases "int (length (windows st)) > cap \<and> windows st \<noteq> []"; subst enforce_cap.simps) auto
qed

lemma state_of_add [part_simps]:
  "state_of (fst (add m p offset w t ms)) q =
     (if q = p then fst (add_state (lateness_ms m) (max_windows m) (state_of m p) offset w t ms)
      else state_of m q)"
  by (auto simp: add_def state_of_def dict_simps Let_def split: prod.split)

lemma add_result: "snd (add m p offset w t ms) =
    snd (add_state (lateness_ms m) (max_windows m) (state_of m p) offset w t ms)"
  by (auto simp: add_def Let_def split: prod.split)

lemma add_config [simp]:
  "lateness_ms (fst (add m p offset w t ms)) = lateness_ms m"
  "max_windows (fst (add m p offset w t ms)) = max_windows m"
  by (auto simp: add_def Let_def split: prod.split)

lemma map_of_map_value: "map_of (map (\<lambda>(k, v). (k, f v)) d) k = map_option f (map_of d k)"
  by (induction d) auto

lemma pop_new_state: "pop_state final l new_state = (new_state, [])"
  by (simp add: pop_state_def new_state_def Let_def)

lemma state_of_pop [part_simps]:
  "state_of (fst (pop_closed final m)) q = fst (pop_state final (lateness_ms m) (state_of m q))"
  by (cases "map_of (partitions m) q")
    (simp_all add: pop_closed_def state_of_def get_default_def map_of_map_value pop_new_state)

lemma pop_config [simp]:
  "lateness_ms (fst (pop_closed final m)) = lateness_ms m"
  "max_windows (fst (pop_closed final m)) = max_windows m"
  by (simp_all add: pop_closed_def)

lemma delete_fold: "map_of (fold AList.delete ps d) k = (if k \<in> set ps then None else map_of d k)"
  by (induction ps arbitrary: d) (auto simp: dict_simps)

lemma state_of_revoke [part_simps]:
  "state_of (revoke ps m) q = (if q \<in> set ps then new_state else state_of m q)"
  by (simp add: revoke_def state_of_def get_default_def delete_fold)

lemma revoke_config [simp]:
  "lateness_ms (revoke ps m) = lateness_ms m" "max_windows (revoke ps m) = max_windows m"
  by (simp_all add: revoke_def)

definition wf_windows :: "MinuteWindows \<Rightarrow> bool" where
  "wf_windows m \<longleftrightarrow> wf_dict (partitions m)"

lemma wf_windows_step [simp]:
  "wf_windows (new_minute_windows l c)"
  "wf_windows m \<Longrightarrow> wf_windows (fst (add m p offset w t ms))"
  "wf_windows m \<Longrightarrow> wf_windows (fst (pop_closed final m))"
  "wf_windows m \<Longrightarrow> wf_windows (revoke ps m)"
proof -
  show "wf_windows (new_minute_windows l c)" by (simp add: wf_windows_def new_minute_windows_def)
  show "wf_windows m \<Longrightarrow> wf_windows (fst (add m p offset w t ms))"
    by (auto simp: wf_windows_def add_def Let_def split: prod.split)
  show "wf_windows m \<Longrightarrow> wf_windows (fst (pop_closed final m))"
    by (simp add: wf_windows_def pop_closed_def wf_dict_def split_def comp_def)
  have "wf_dict d \<Longrightarrow> wf_dict (fold AList.delete ps d)" for d :: "(int, PartitionState) pydict"
    by (induction ps arbitrary: d) auto
  then show "wf_windows m \<Longrightarrow> wf_windows (revoke ps m)" by (simp add: wf_windows_def revoke_def)
qed

lemma commit_new_state: "commit_offset new_state = None"
  by (simp add: commit_offset_def new_state_def)

lemma map_of_map_filter:
  "wf_dict d \<Longrightarrow> map_of (List.map_filter (\<lambda>(k, v). map_option (Pair k) (f v)) d) k =
     (case map_of d k of None \<Rightarrow> None | Some v \<Rightarrow> f v)"
proof (induction d)
  case (Cons x d)
  obtain k' v where x: "x = (k', v)" by (cases x)
  have "map_of d k' = None" using Cons.prems by (simp add: x map_of_eq_None_iff)
  with Cons show ?case by (auto simp: x List.map_filter_simps split: option.splits)
qed (simp add: List.map_filter_simps)

lemma commit_offsets_of [part_simps]:
  "wf_windows m \<Longrightarrow> map_of (commit_offsets m) p = commit_offset (state_of m p)"
  by (simp add: commit_offsets_def wf_windows_def map_of_map_filter state_of_def get_default_def
      commit_new_state split: option.split)

lemma popped_windows:
  "wf_windows m \<Longrightarrow> set (snd (pop_closed final m)) =
     (\<Union>p. set (snd (pop_state final (lateness_ms m) (state_of m p))))"
proof -
  assume wf: "wf_windows m"
  have "set (snd (pop_closed final m)) =
      (\<Union>(p, st) \<in> set (partitions m). set (snd (pop_state final (lateness_ms m) st)))"
    by (auto simp: pop_closed_def)
  also have "\<dots> = (\<Union>p. set (snd (pop_state final (lateness_ms m) (state_of m p))))"
  proof (intro equalityI subsetI)
    fix w assume "w \<in> (\<Union>(p, st) \<in> set (partitions m). set (snd (pop_state final (lateness_ms m) st)))"
    then obtain p st where "(p, st) \<in> set (partitions m)"
      "w \<in> set (snd (pop_state final (lateness_ms m) st))" by blast
    moreover from this wf have "state_of m p = st"
      by (simp add: wf_windows_def in_dict_iff state_of_def get_default_def)
    ultimately show "w \<in> (\<Union>p. set (snd (pop_state final (lateness_ms m) (state_of m p))))" by blast
  next
    fix w assume "w \<in> (\<Union>p. set (snd (pop_state final (lateness_ms m) (state_of m p))))"
    then obtain p where w: "w \<in> set (snd (pop_state final (lateness_ms m) (state_of m p)))" by blast
    then obtain st where "map_of (partitions m) p = Some st"
      by (cases "map_of (partitions m) p") (simp_all add: state_of_def get_default_def pop_new_state)
    with w show "w \<in> (\<Union>(p, st) \<in> set (partitions m). set (snd (pop_state final (lateness_ms m) st)))"
      by (force simp: state_of_def get_default_def dest: map_of_SomeD)
  qed
  finally show ?thesis .
qed

end
