(* ===== verification/SinksDb.thy ===== *)
theory SinksDb
  imports EditWarDetector Windows
begin

text \<open>
  \<^verbatim>\<open>sinks/db.py\<close>: the three idempotent writes, and the connection that is reopened when
  it is lost. A table is a dictionary from its primary key to its other columns. What PostgreSQL
  refuses to store (a NUL character, an integer that does not fit its column) is the argument
  \<open>storable\<close>; a refused row rolls the whole write back. Each statement of a write carries at
  most 500 rows (\<open>execute_values\<close> with \<open>page_size=500\<close>), and \<open>cur.rowcount\<close> is
  that of the last statement.
\<close>

datatype pgerror = DataError | CardinalityViolation

subsection \<open>Rows\<close>

text \<open>The columns of \<open>edits\<close> after the event id, in the order of \<open>as_row\<close>.\<close>

type_synonym edit_columns =
  "ustr \<times> ustr \<times> ustr \<times> int \<times> ustr \<times> bool \<times> bool \<times> ustr \<times> ustr \<times> int option \<times> int option
   \<times> int option \<times> int option \<times> ustr \<times> bool"

definition as_row :: "runtime \<Rightarrow> CleanEvent \<Rightarrow> ustr \<times> edit_columns" where
  "as_row rt e =
     (event_id e, wiki e, title e, etype e, namespace e, user e, bot e, minor e, comment e,
      event_time e, rev_old e, rev_new e, length_old e, length_new e, server_name e, is_revert rt e)"

type_synonym alert_columns = "ustr \<times> ustr \<times> int \<times> ustr list \<times> ustr \<times> ustr"

definition alert_row :: "EditWarAlert \<Rightarrow> ustr \<times> alert_columns" where
  "alert_row a =
     (alert_id a, al_wiki a, al_title a, revert_count a, al_users a, window_start a, window_end a)"

text \<open>\<open>ClosedWindow.as_row\<close>: the minute is written as its instant.\<close>

definition trending_row :: "ClosedWindow \<Rightarrow> WindowKey \<times> int" where
  "trending_row w = ((cw_wiki w, cw_title w, cw_minute_ms w), cw_count w)"

subsection \<open>Statements\<close>

text \<open>\<open>ON CONFLICT DO NOTHING\<close>: the table and the number of rows inserted.\<close>

fun insert_missing :: "('k \<times> 'v) list \<Rightarrow> ('k, 'v) pydict \<Rightarrow> ('k, 'v) pydict \<times> int" where
  "insert_missing [] tbl = (tbl, 0)"
| "insert_missing ((k, v) # rows) tbl =
     (if map_of tbl k = None
      then (case insert_missing rows (tbl @ [(k, v)]) of (t, n) \<Rightarrow> (t, n + 1))
      else insert_missing rows tbl)"

text \<open>\<open>ON CONFLICT DO UPDATE SET edit_count = GREATEST(old, new)\<close>\<close>

definition put_greatest :: "('k \<times> int) \<Rightarrow> ('k, int) pydict \<Rightarrow> ('k, int) pydict" where
  "put_greatest kc tbl =
     (case kc of (k, c) \<Rightarrow>
        AList.update k (case map_of tbl k of None \<Rightarrow> c | Some old \<Rightarrow> max old c) tbl)"

text \<open>The pages of a write.\<close>

function paged :: "nat \<Rightarrow> 'a list \<Rightarrow> 'a list list" where
  "paged n xs = (if n = 0 \<or> xs = [] then [] else take n xs # paged n (drop n xs))"
  by pat_completeness auto
termination
  by (relation "measure (length \<circ> snd)") auto

declare paged.simps [simp del]

definition PAGE_SIZE :: nat where
  "PAGE_SIZE = 500"

fun run_pages :: "('a list \<Rightarrow> 't \<Rightarrow> 't \<times> int) \<Rightarrow> 'a list list \<Rightarrow> 't \<Rightarrow> 't \<times> int" where
  "run_pages stmt [] tbl = (tbl, 0)"
| "run_pages stmt [p] tbl = stmt p tbl"
| "run_pages stmt (p # ps) tbl = run_pages stmt ps (fst (stmt p tbl))"

subsection \<open>The writes\<close>

definition insert_rows ::
  "('k \<times> 'v \<Rightarrow> bool) \<Rightarrow> ('k \<times> 'v) list \<Rightarrow> ('k, 'v) pydict \<Rightarrow> pgerror + ('k, 'v) pydict \<times> int" where
  "insert_rows storable rows tbl =
     (if list_all storable rows then Inr (run_pages insert_missing (paged PAGE_SIZE rows) tbl)
      else Inl DataError)"

definition insert_edits ::
  "runtime \<Rightarrow> (ustr \<times> edit_columns \<Rightarrow> bool) \<Rightarrow> CleanEvent list \<Rightarrow> (ustr, edit_columns) pydict \<Rightarrow>
   pgerror + (ustr, edit_columns) pydict \<times> int" where
  "insert_edits rt storable events tbl = insert_rows storable (map (as_row rt) events) tbl"

definition insert_alerts ::
  "(ustr \<times> alert_columns \<Rightarrow> bool) \<Rightarrow> EditWarAlert list \<Rightarrow> (ustr, alert_columns) pydict \<Rightarrow>
   pgerror + (ustr, alert_columns) pydict \<times> int" where
  "insert_alerts storable alerts tbl = insert_rows storable (map alert_row alerts) tbl"

text \<open>
  \<open>DO UPDATE\<close> cannot touch a row twice in one statement, so a page must not hold a key twice.
\<close>

definition upsert_trending ::
  "(WindowKey \<times> int \<Rightarrow> bool) \<Rightarrow> (WindowKey \<times> int) list \<Rightarrow> (WindowKey, int) pydict \<Rightarrow>
   pgerror + (WindowKey, int) pydict \<times> int" where
  "upsert_trending storable rows tbl =
     (if \<not> list_all storable rows then Inl DataError
      else if \<not> list_all (\<lambda>p. distinct (map fst p)) (paged PAGE_SIZE rows) then Inl CardinalityViolation
      else Inr (run_pages (\<lambda>p t. (fold put_greatest p t, int (length p))) (paged PAGE_SIZE rows) tbl))"

text \<open>
  \<open>Database.write\<close>: each attempt may lose its connection, before the transaction committed or
  after (the client cannot tell). The list gives the lost attempts, \<open>True\<close> for one that had
  committed; the attempt after them succeeds.
\<close>

fun db_write :: "('t \<Rightarrow> pgerror + 't \<times> int) \<Rightarrow> bool list \<Rightarrow> 't \<Rightarrow> pgerror + 't \<times> int" where
  "db_write operation [] tbl = operation tbl"
| "db_write operation (False # lost) tbl = db_write operation lost tbl"
| "db_write operation (True # lost) tbl =
     bind_res (operation tbl) (\<lambda>(tbl', _). db_write operation lost tbl')"

subsection \<open>The contract of a write\<close>

text \<open>
  A store that takes rows one at a time and absorbs a row it has seen: putting it again, whatever
  was put in between, changes nothing.
\<close>

locale row_store =
  fixes put :: "'r \<Rightarrow> 't \<Rightarrow> 't"
  assumes absorb: "put r (fold put rs (put r t)) = fold put rs (put r t)"
begin

lemma absorb_member: "r \<in> set rs \<Longrightarrow> put r (fold put rs t) = fold put rs t"
proof -
  assume "r \<in> set rs"
  then obtain xs ys where "rs = xs @ r # ys" by (meson split_list)
  then show ?thesis by (simp add: absorb)
qed

lemma replay_absorbed: "set rs \<subseteq> set done \<Longrightarrow> fold put rs (fold put done t) = fold put done t"
  by (induction rs) (simp_all add: absorb_member)

text \<open>Writing a segment that starts within what was written extends it, as if written once.\<close>

lemma replay_extends:
  assumes "i \<le> n" and "n \<le> length log"
  shows "fold put (take k (drop i log)) (fold put (take n log) t) = fold put (take (max n (i + k)) log) t"
proof (cases "i + k \<le> n")
  case True
  have "set (take k (drop i log)) \<subseteq> set (take n log)"
  proof -
    have "take k (drop i log) = drop i (take (i + k) log)" by (simp add: take_drop add.commute)
    also have "set \<dots> \<subseteq> set (take (i + k) log)" by (rule set_drop_subset)
    also have "set (take (i + k) log) \<subseteq> set (take n log)" using True by (rule set_take_subset_set_take)
    finally show ?thesis .
  qed
  with True show ?thesis by (simp add: replay_absorbed max_def)
next
  case False
  let ?more = "drop n (take (i + k) log)"
  have whole: "take (i + k) log = take n log @ ?more"
    using False by (metis append_take_drop_id linear min.absorb1 take_take)
  have "take k (drop i log) = drop i (take (i + k) log)" by (simp add: take_drop add.commute)
  also have "\<dots> = drop i (take n log @ ?more)" by (simp only: whole [symmetric])
  also have "\<dots> = drop i (take n log) @ ?more" using assms by simp
  finally have seg: "take k (drop i log) = drop i (take n log) @ ?more" .
  have "fold put (drop i (take n log)) (fold put (take n log) t) = fold put (take n log) t"
    by (rule replay_absorbed) (rule set_drop_subset)
  then have "fold put (take k (drop i log)) (fold put (take n log) t) = fold put (take n log @ ?more) t"
    unfolding seg by simp
  with False show ?thesis by (simp add: max_def flip: whole)
qed

end

subsection \<open>The stores of the program\<close>

definition put_missing :: "('k \<times> 'v) \<Rightarrow> ('k, 'v) pydict \<Rightarrow> ('k, 'v) pydict" where
  "put_missing kv tbl = (if map_of tbl (fst kv) = None then tbl @ [kv] else tbl)"

lemma map_of_snoc: "map_of (tbl @ [(k, v)]) = (\<lambda>k'. case map_of tbl k' of Some x \<Rightarrow> Some x | None \<Rightarrow> if k' = k then Some v else None)"
  by (auto simp: map_add_def fun_eq_iff split: option.split)

lemma put_missing_keeps: "map_of tbl k = Some v \<Longrightarrow> map_of (put_missing kv tbl) k = Some v"
  by (cases kv) (auto simp: put_missing_def map_of_snoc)

lemma fold_put_missing_keeps: "map_of tbl k = Some v \<Longrightarrow> map_of (fold put_missing rs tbl) k = Some v"
  by (induction rs arbitrary: tbl) (auto simp: put_missing_keeps)

lemma put_missing_has: "map_of (put_missing kv tbl) (fst kv) \<noteq> None"
  by (cases kv; cases "map_of tbl (fst kv)") (simp_all add: put_missing_def map_of_snoc del: map_of_append)

interpretation edits_store: row_store put_missing
proof
  fix r :: "'a \<times> 'b" and rs t
  obtain v where "map_of (put_missing r t) (fst r) = Some v" using put_missing_has by fastforce
  then have "map_of (fold put_missing rs (put_missing r t)) (fst r) = Some v"
    by (rule fold_put_missing_keeps)
  then show "put_missing r (fold put_missing rs (put_missing r t)) = fold put_missing rs (put_missing r t)"
    by (simp add: put_missing_def [of r "fold _ _ _"])
qed

lemma update_same: "map_of d k = Some v \<Longrightarrow> AList.update k v d = d"
  by (induction d) auto

lemma put_greatest_lookup:
  "map_of (put_greatest (k, c) tbl) k' =
     (if k' = k then Some (case map_of tbl k of None \<Rightarrow> c | Some old \<Rightarrow> max old c) else map_of tbl k')"
  by (simp add: put_greatest_def dict_simps)

lemma fold_put_greatest_ge:
  "map_of tbl k = Some x \<Longrightarrow> \<exists>y. map_of (fold put_greatest rs tbl) k = Some y \<and> x \<le> y"
proof (induction rs arbitrary: tbl x)
  case (Cons r rs)
  obtain k' c where r: "r = (k', c)" by (cases r)
  have "\<exists>x'. map_of (put_greatest r tbl) k = Some x' \<and> x \<le> x'"
    using Cons.prems by (cases "k = k'") (simp_all add: r put_greatest_lookup)
  then obtain x' where x': "map_of (put_greatest r tbl) k = Some x'" "x \<le> x'" by blast
  from Cons.IH [OF x'(1)] x'(2) show ?case by fastforce
qed simp

interpretation trending_store: row_store put_greatest
proof
  fix r :: "'a \<times> int" and rs t
  obtain k c where r: "r = (k, c)" by (cases r)
  obtain x where x: "map_of (put_greatest r t) k = Some x" "c \<le> x"
    by (auto simp: r put_greatest_lookup split: option.split)
  with fold_put_greatest_ge [OF x(1), of rs] obtain y where
    y: "map_of (fold put_greatest rs (put_greatest r t)) k = Some y" "c \<le> y" by auto
  then show "put_greatest r (fold put_greatest rs (put_greatest r t)) = fold put_greatest rs (put_greatest r t)"
    by (simp add: r put_greatest_def [of "(k, c)" "fold _ _ _"] max_def update_same)
qed

lemma insert_missing_fold: "fst (insert_missing rows tbl) = fold put_missing rows tbl"
  by (induction rows tbl rule: insert_missing.induct) (auto simp: put_missing_def split_beta)

lemma insert_missing_count:
  "snd (insert_missing rows tbl) = int (length (fst (insert_missing rows tbl))) - int (length tbl)"
  by (induction rows tbl rule: insert_missing.induct) (auto simp: split_beta)

lemma concat_paged: "0 < n \<Longrightarrow> concat (paged n xs) = xs"
proof (induction n xs rule: paged.induct)
  case (1 n xs)
  then show ?case by (subst paged.simps) simp
qed

lemma paged_one: "xs \<noteq> [] \<Longrightarrow> length xs \<le> n \<Longrightarrow> paged n xs = [xs]"
  by (cases n) (simp_all add: paged.simps)

lemma run_pages_fold:
  assumes "\<And>p t. fst (stmt p t) = fold put p t"
  shows "fst (run_pages stmt ps t) = fold put (concat ps) t"
  using assms by (induction stmt ps t rule: run_pages.induct) (simp_all add: fold_append)

lemma insert_rows_result:
  "insert_rows storable rows tbl = Inr (tbl', n) \<Longrightarrow> tbl' = fold put_missing rows tbl"
  using run_pages_fold [of insert_missing put_missing "paged PAGE_SIZE rows" tbl]
  by (auto simp: insert_rows_def insert_missing_fold concat_paged PAGE_SIZE_def split: if_splits)

lemma upsert_result:
  "upsert_trending storable rows tbl = Inr (tbl', n) \<Longrightarrow> tbl' = fold put_greatest rows tbl"
  using run_pages_fold [of "\<lambda>p t. (fold put_greatest p t, int (length p))" put_greatest "paged PAGE_SIZE rows" tbl]
  by (auto simp: upsert_trending_def concat_paged PAGE_SIZE_def split: if_splits)

text \<open>An operation that succeeds again on its own result, changing nothing, survives retries.\<close>

lemma db_write_retries:
  assumes "operation t = Inr (t', n)" and "\<exists>n'. operation t' = Inr (t', n')"
  shows "\<exists>n'. db_write operation lost t = Inr (t', n') \<and> (True \<notin> set lost \<longrightarrow> n' = n)"
proof -
  have again: "\<exists>n'. db_write operation lost t' = Inr (t', n')" for lost
  proof (induction lost)
    case (Cons b lost)
    with assms(2) show ?case by (cases b) auto
  qed (use assms(2) in simp)
  show ?thesis
  proof (induction lost)
    case (Cons b lost)
    then show ?case using assms(1) again [of lost] by (cases b) auto
  qed (use assms(1) in simp)
qed

lemma upsert_lookup:
  "distinct (map fst rows) \<Longrightarrow> map_of (fold put_greatest rows t) k =
     (case map_of rows k of
        None \<Rightarrow> map_of t k
      | Some c \<Rightarrow> Some (case map_of t k of None \<Rightarrow> c | Some old \<Rightarrow> max old c))"
proof (induction rows arbitrary: t)
  case (Cons r rows)
  obtain k' c where r: "r = (k', c)" by (cases r)
  have "map_of rows k' = None" using Cons.prems by (simp add: r map_of_eq_None_iff)
  with Cons show ?case by (auto simp: r put_greatest_lookup split: option.splits)
qed simp

lemma insert_lookup:
  "map_of (fold put_missing rows t) k =
     (case map_of t k of Some v \<Rightarrow> Some v | None \<Rightarrow> map_of rows k)"
proof (induction rows arbitrary: t)
  case (Cons r rows)
  obtain k' v where r: "r = (k', v)" by (cases r)
  have "map_of (put_missing (k', v) t) k =
      (case map_of t k of Some x \<Rightarrow> Some x | None \<Rightarrow> if k = k' then Some v else None)"
    by (cases "map_of t k'") (auto simp: put_missing_def map_of_snoc split: option.split simp del: map_of_append)
  with Cons show ?case by (auto simp: r split: option.splits)
qed (simp split: option.split)

lemma insert_missing_again: "set rows \<subseteq> set done \<Longrightarrow>
  fst (insert_missing rows (fold put_missing done t)) = fold put_missing done t"
  by (simp add: insert_missing_fold edits_store.replay_absorbed)

lemma insert_rows_again:
  assumes "insert_rows storable rows tbl = Inr (tbl', n)"
  shows "\<exists>n'. insert_rows storable rows tbl' = Inr (tbl', n')"
proof -
  have st: "list_all storable rows" using assms by (simp add: insert_rows_def split: if_splits)
  have tbl': "tbl' = fold put_missing rows tbl" using assms by (rule insert_rows_result)
  have "fst (run_pages insert_missing (paged PAGE_SIZE rows) tbl') = fold put_missing rows tbl'"
    using run_pages_fold [of insert_missing put_missing "paged PAGE_SIZE rows" tbl']
    by (simp add: insert_missing_fold concat_paged PAGE_SIZE_def)
  also have "\<dots> = tbl'" unfolding tbl' by (rule edits_store.replay_absorbed) simp
  finally show ?thesis
    using st by (cases "run_pages insert_missing (paged PAGE_SIZE rows) tbl'") (simp add: insert_rows_def)
qed

lemma upsert_again:
  assumes "upsert_trending storable rows tbl = Inr (tbl', n)"
  shows "\<exists>n'. upsert_trending storable rows tbl' = Inr (tbl', n')"
proof -
  let ?stmt = "\<lambda>p t. (fold put_greatest p t, int (length p))"
  have ok: "list_all storable rows" "list_all (\<lambda>p. distinct (map fst p)) (paged PAGE_SIZE rows)"
    using assms by (simp_all add: upsert_trending_def split: if_splits)
  have tbl': "tbl' = fold put_greatest rows tbl" using assms by (rule upsert_result)
  have "fst (run_pages ?stmt (paged PAGE_SIZE rows) tbl') = fold put_greatest rows tbl'"
    using run_pages_fold [of ?stmt put_greatest "paged PAGE_SIZE rows" tbl']
    by (simp add: concat_paged PAGE_SIZE_def)
  also have "\<dots> = tbl'" unfolding tbl' by (rule trending_store.replay_absorbed) simp
  finally show ?thesis
    using ok by (cases "run_pages ?stmt (paged PAGE_SIZE rows) tbl'") (simp add: upsert_trending_def)
qed

text \<open>
  C16. A lost connection neither loses nor doubles a write. For each of the three writes of the
  program: if the write succeeds on a table, then \<open>Database.write\<close> ends with the same table,
  however often the connection is lost on the way and whether or not the lost attempts had
  already committed. Inserts keep every row that was there and add the first row of each new
  key; the trending write keeps the greater of the two counts of each key.
\<close>

theorem database_write_survives_lost_connections:
  assumes "insert_edits rt se events et = Inr (et', n)"
    and "insert_alerts sa alerts at = Inr (at', m)"
    and "upsert_trending st rows tt = Inr (tt', l)" and "distinct (map fst rows)"
  shows "(\<exists>n'. db_write (insert_edits rt se events) lost et = Inr (et', n')) \<and>
    (\<exists>m'. db_write (insert_alerts sa alerts) lost at = Inr (at', m')) \<and>
    (\<exists>l'. db_write (upsert_trending st rows) lost tt = Inr (tt', l')) \<and>
    (\<forall>k. map_of et' k = (case map_of et k of Some v \<Rightarrow> Some v | None \<Rightarrow> map_of (map (as_row rt) events) k)) \<and>
    (\<forall>k. map_of at' k = (case map_of at k of Some v \<Rightarrow> Some v | None \<Rightarrow> map_of (map alert_row alerts) k)) \<and>
    (\<forall>k. map_of tt' k = (case map_of rows k of None \<Rightarrow> map_of tt k
       | Some c \<Rightarrow> Some (case map_of tt k of None \<Rightarrow> c | Some old \<Rightarrow> max old c)))"
proof (intro conjI)
  have e: "\<exists>n'. insert_edits rt se events et' = Inr (et', n')"
    using assms(1) unfolding insert_edits_def by (rule insert_rows_again)
  show "\<exists>n'. db_write (insert_edits rt se events) lost et = Inr (et', n')"
    using db_write_retries [of "insert_edits rt se events", OF assms(1) e] by blast
  have a: "\<exists>n'. insert_alerts sa alerts at' = Inr (at', n')"
    using assms(2) unfolding insert_alerts_def by (rule insert_rows_again)
  show "\<exists>m'. db_write (insert_alerts sa alerts) lost at = Inr (at', m')"
    using db_write_retries [of "insert_alerts sa alerts", OF assms(2) a] by blast
  show "\<exists>l'. db_write (upsert_trending st rows) lost tt = Inr (tt', l')"
    using db_write_retries [of "upsert_trending st rows", OF assms(3) upsert_again [OF assms(3)]] by blast
  show "\<forall>k. map_of et' k = (case map_of et k of Some v \<Rightarrow> Some v | None \<Rightarrow> map_of (map (as_row rt) events) k)"
    using insert_rows_result [OF assms(1) [unfolded insert_edits_def]] by (simp add: insert_lookup)
  show "\<forall>k. map_of at' k = (case map_of at k of Some v \<Rightarrow> Some v | None \<Rightarrow> map_of (map alert_row alerts) k)"
    using insert_rows_result [OF assms(2) [unfolded insert_alerts_def]] by (simp add: insert_lookup)
  show "\<forall>k. map_of tt' k = (case map_of rows k of None \<Rightarrow> map_of tt k
       | Some c \<Rightarrow> Some (case map_of tt k of None \<Rightarrow> c | Some old \<Rightarrow> max old c))"
    using upsert_result [OF assms(3)] upsert_lookup [OF assms(4)] by simp
qed

definition sample_alert :: EditWarAlert where
  "sample_alert = \<lparr>alert_id = ascii ''f00'', al_wiki = ascii ''enwiki'', al_title = ascii ''Main Page'',
     revert_count = 3, al_users = [ascii ''Ann'', ascii ''Bob''], al_event_ids = [ascii ''a''],
     window_start = ascii ''s'', window_end = ascii ''e''\<rparr>"

theorem database_write_survives_lost_connections_witness:
  "\<exists>et' at' tt' n m l.
     db_write (insert_edits plain_runtime (\<lambda>_. True) [sample_event, sample_event]) [True, False] [] = Inr (et', n) \<and>
     db_write (insert_alerts (\<lambda>_. True) [sample_alert]) [True, False] [] = Inr (at', m) \<and>
     db_write (upsert_trending (\<lambda>_. True) [((ascii ''w'', ascii ''t'', 60000), 3)]) [True, False]
       [((ascii ''w'', ascii ''t'', 60000), 5)] = Inr (tt', l) \<and>
     map_of tt' (ascii ''w'', ascii ''t'', 60000) = Some 5"
proof -
  have "\<exists>et' n. insert_edits plain_runtime (\<lambda>_. True) [sample_event, sample_event] [] = Inr (et', n)"
    by (simp add: insert_edits_def insert_rows_def)
  moreover have "\<exists>at' m. insert_alerts (\<lambda>_. True) [sample_alert] [] = Inr (at', m)"
    by (simp add: insert_alerts_def insert_rows_def)
  moreover have "\<exists>tt' l. upsert_trending (\<lambda>_. True) [((ascii ''w'', ascii ''t'', 60000), 3)]
       [((ascii ''w'', ascii ''t'', 60000), 5)] = Inr (tt', l)"
    by (simp add: upsert_trending_def paged_one PAGE_SIZE_def)
  ultimately obtain et' n at' m tt' l where
    h: "insert_edits plain_runtime (\<lambda>_. True) [sample_event, sample_event] [] = Inr (et', n)"
    "insert_alerts (\<lambda>_. True) [sample_alert] [] = Inr (at', m)"
    "upsert_trending (\<lambda>_. True) [((ascii ''w'', ascii ''t'', 60000), 3)]
       [((ascii ''w'', ascii ''t'', 60000), 5)] = Inr (tt', l)" by metis
  have "distinct (map fst [((ascii ''w'', ascii ''t'', 60000 :: int), 3 :: int)])" by simp
  note c = database_write_survives_lost_connections [OF h this, of "[True, False]"]
  then have "map_of tt' (ascii ''w'', ascii ''t'', 60000) = Some 5" by simp
  with c show ?thesis by blast
qed

end
