(* ===== verification/Transactional.thy ===== *)
theory Transactional
  imports Kafka
begin

text \<open>
  \<^verbatim>\<open>processors/transactional.py\<close>: the loop shared by the cleaner, the edit war processor
  and the page state. A processor is its handler's state, the flag \<open>in_transaction\<close> and the
  positions the consumer has reached on the partitions it owns. What the handler does with one
  message, and what it builds or drops as partitions move, are arguments (the hooks of the class).
  How Kafka ends a transaction is an argument too (\<open>fate\<close>).
\<close>

type_synonym 's handler = "'s \<Rightarrow> kmsg \<Rightarrow> pyexc + 's \<times> outgoing list"

record 's processor =
  pstate :: 's
  in_transaction :: bool
  positions :: "(int, int) pydict"

text \<open>The side that outlives a process: output in committed transactions, committed offsets.\<close>

record kafka =
  committed_out :: "outgoing list"
  committed_offsets :: "(int, int) pydict"

text \<open>
  The transaction commits; it commits but the answer is lost and the exception ends the process;
  Kafka asks for an abort after some messages; another exception ends the process. A count beyond
  the batch is an error of \<open>send_offsets_to_transaction\<close> or \<open>commit_transaction\<close>.
\<close>

datatype fate = Commits | CommitsThenDies | AbortsAfter nat | DiesAfter nat

text \<open>The loop over the batch, with the output of each message.\<close>

fun handle_each :: "'s handler \<Rightarrow> 's \<Rightarrow> kmsg list \<Rightarrow> pyexc + 's \<times> outgoing list list" where
  "handle_each h s [] = Inr (s, [])"
| "handle_each h s (m # ms) =
     bind_res (h s m) (\<lambda>(s1, out).
     bind_res (handle_each h s1 ms) (\<lambda>(s2, outs). Inr (s2, out # outs)))"

text \<open>\<open>_abort\<close>: a failing abort is logged and passed over.\<close>

definition abort_txn :: "'s processor \<Rightarrow> 's processor" where
  "abort_txn tp = tp\<lparr>in_transaction := False\<rparr>"

text \<open>
  \<open>process_batch\<close>. No processor is left when an exception escapes. The positions sent with
  the transaction are those of the whole assignment.
\<close>

definition process_batch ::
  "'s handler \<Rightarrow> fate \<Rightarrow> kmsg list \<Rightarrow> 's processor \<Rightarrow> kafka \<Rightarrow> 's processor option \<times> kafka" where
  "process_batch h fate batch tp k =
     (let tp1 = tp\<lparr>in_transaction := True\<rparr>
      in case fate of
           DiesAfter n \<Rightarrow> (None, k)
         | AbortsAfter n \<Rightarrow>
             (case handle_each h (pstate tp1) (take n batch) of
                Inl e \<Rightarrow> (None, k)
              | Inr (s, _) \<Rightarrow> (Some (abort_txn (tp1\<lparr>pstate := s\<rparr>)), k))
         | _ \<Rightarrow>
             (case handle_each h (pstate tp1) batch of
                Inl e \<Rightarrow> (None, k)
              | Inr (s, outs) \<Rightarrow>
                  (if fate = Commits then Some (tp1\<lparr>pstate := s, in_transaction := False\<rparr>) else None,
                   k\<lparr>committed_out := committed_out k @ concat outs,
                     committed_offsets := fold (\<lambda>(p, n). AList.update p n) (positions tp)
                       (committed_offsets k)\<rparr>)))"

text \<open>The handler's hooks: what it builds for a partition from its committed offset, what it drops.\<close>

definition txn_assign ::
  "(int \<Rightarrow> int option \<Rightarrow> 's \<Rightarrow> 's) \<Rightarrow> kafka \<Rightarrow> int list \<Rightarrow> 's processor \<Rightarrow> 's processor" where
  "txn_assign assigned k ps tp =
     tp\<lparr>pstate := fold (\<lambda>p. assigned p (map_of (committed_offsets k) p)) ps (pstate tp)\<rparr>"

definition txn_revoke :: "(int list \<Rightarrow> 's \<Rightarrow> 's) \<Rightarrow> int list \<Rightarrow> 's processor \<Rightarrow> 's processor" where
  "txn_revoke revoked ps tp =
     (let tp1 = (if in_transaction tp then abort_txn tp else tp)
      in tp1\<lparr>pstate := revoked ps (pstate tp1), positions := fold AList.delete ps (positions tp1)\<rparr>)"

text \<open>A message that \<open>poll\<close> returned moves the position of its partition.\<close>

definition note_polled :: "kmsg \<Rightarrow> 's processor \<Rightarrow> 's processor" where
  "note_polled m tp = tp\<lparr>positions := AList.update (k_partition m) (k_offset m + 1) (positions tp)\<rparr>"

text \<open>The shutdown of a processor.\<close>

definition txn_shutdown :: "'s processor \<Rightarrow> 's processor" where
  "txn_shutdown tp = (if in_transaction tp then abort_txn tp else tp)"

subsection \<open>A group of processors\<close>

text \<open>
  \<open>effects\<close> records, for the statements only, which message each committed output comes
  from. \<open>fetch_at\<close> is the index in a partition's log of the next record to poll.
\<close>

record 's txn_group =
  members :: "nat \<Rightarrow> 's processor"
  batches :: "nat \<Rightarrow> kmsg list"
  powner :: "int \<Rightarrow> nat option"
  fetch_at :: "int \<Rightarrow> nat"
  broker_side :: kafka
  effects :: "(kmsg \<times> outgoing list) list"

definition new_processor :: "'s \<Rightarrow> 's processor" where
  "new_processor s = \<lparr>pstate = s, in_transaction = False, positions = []\<rparr>"

definition start_txn_group :: "'s \<Rightarrow> 's txn_group" where
  "start_txn_group s0 =
     \<lparr>members = (\<lambda>_. new_processor s0), batches = (\<lambda>_. []), powner = (\<lambda>_. None), fetch_at = (\<lambda>_. 0),
      broker_side = \<lparr>committed_out = [], committed_offsets = []\<rparr>, effects = []\<rparr>"

definition resume_index :: "kmsg list \<Rightarrow> int option \<Rightarrow> nat" where
  "resume_index ms c = (case c of None \<Rightarrow> 0 | Some n \<Rightarrow> length (takeWhile (\<lambda>m. k_offset m < n) ms))"

definition committed_effects :: "'s handler \<Rightarrow> fate \<Rightarrow> 's \<Rightarrow> kmsg list \<Rightarrow> (kmsg \<times> outgoing list) list" where
  "committed_effects h fate s batch =
     (if fate = Commits \<or> fate = CommitsThenDies
      then (case handle_each h s batch of Inl _ \<Rightarrow> [] | Inr (_, outs) \<Rightarrow> zip batch outs)
      else [])"

definition release :: "nat \<Rightarrow> (int \<Rightarrow> nat option) \<Rightarrow> int \<Rightarrow> nat option" where
  "release i own p = (if own p = Some i then None else own p)"

definition txn_restart :: "'s \<Rightarrow> nat \<Rightarrow> 's txn_group \<Rightarrow> 's txn_group" where
  "txn_restart s0 i g =
     g\<lparr>members := (members g)(i := new_processor s0), batches := (batches g)(i := []),
       powner := release i (powner g)\<rparr>"

text \<open>
  The two flags allow the two steps that break the guarantee: going on after an aborted
  transaction, and a rebalance while a batch is being collected.
\<close>

inductive txn_step ::
  "bool \<Rightarrow> bool \<Rightarrow> 's handler \<Rightarrow> (int \<Rightarrow> int option \<Rightarrow> 's \<Rightarrow> 's) \<Rightarrow> (int list \<Rightarrow> 's \<Rightarrow> 's) \<Rightarrow> 's \<Rightarrow>
   (int \<Rightarrow> kmsg list) \<Rightarrow> 's txn_group \<Rightarrow> 's txn_group \<Rightarrow> bool"
  for aborts mid_batch h assigned revoked s0 logs where
  joined: "powner g p = None \<Longrightarrow>
    txn_step aborts mid_batch h assigned revoked s0 logs g
      (g\<lparr>powner := (powner g)(p := Some i),
         fetch_at := (fetch_at g)(p := resume_index (logs p) (map_of (committed_offsets (broker_side g)) p)),
         members := (members g)(i := txn_assign assigned (broker_side g) [p] (members g i))\<rparr>)"
| polled: "powner g p = Some i \<Longrightarrow> fetch_at g p < length (logs p) \<Longrightarrow> m = logs p ! fetch_at g p \<Longrightarrow>
    txn_step aborts mid_batch h assigned revoked s0 logs g
      (g\<lparr>members := (members g)(i := note_polled m (members g i)),
         batches := (batches g)(i := batches g i @ [m]),
         fetch_at := (fetch_at g)(p := Suc (fetch_at g p))\<rparr>)"
| processed: "process_batch h fate (batches g i) (members g i) (broker_side g) = (Some tp, k) \<Longrightarrow>
    batches g i \<noteq> [] \<Longrightarrow> fate = Commits \<or> aborts \<Longrightarrow>
    txn_step aborts mid_batch h assigned revoked s0 logs g
      (g\<lparr>members := (members g)(i := tp), batches := (batches g)(i := []), broker_side := k,
         effects := effects g @ committed_effects h fate (pstate (members g i)) (batches g i)\<rparr>)"
| died: "process_batch h fate (batches g i) (members g i) (broker_side g) = (None, k) \<Longrightarrow>
    batches g i \<noteq> [] \<Longrightarrow> txn_step aborts mid_batch h assigned revoked s0 logs g
      (txn_restart s0 i
        (g\<lparr>broker_side := k,
           effects := effects g @ committed_effects h fate (pstate (members g i)) (batches g i)\<rparr>))"
| crashed: "txn_step aborts mid_batch h assigned revoked s0 logs g (txn_restart s0 i g)"
| gave_up: "\<forall>p \<in> set ps. powner g p = Some i \<Longrightarrow> mid_batch \<or> batches g i = [] \<Longrightarrow>
    txn_step aborts mid_batch h assigned revoked s0 logs g
      (g\<lparr>members := (members g)(i := txn_revoke revoked ps (members g i)),
         powner := (\<lambda>p. if p \<in> set ps then None else powner g p)\<rparr>)"

inductive txn_reaches ::
  "bool \<Rightarrow> bool \<Rightarrow> 's handler \<Rightarrow> (int \<Rightarrow> int option \<Rightarrow> 's \<Rightarrow> 's) \<Rightarrow> (int list \<Rightarrow> 's \<Rightarrow> 's) \<Rightarrow> 's \<Rightarrow>
   (int \<Rightarrow> kmsg list) \<Rightarrow> 's txn_group \<Rightarrow> bool"
  for aborts mid_batch h assigned revoked s0 logs where
  started: "txn_reaches aborts mid_batch h assigned revoked s0 logs (start_txn_group s0)"
| stepped: "txn_reaches aborts mid_batch h assigned revoked s0 logs g \<Longrightarrow>
    txn_step aborts mid_batch h assigned revoked s0 logs g g' \<Longrightarrow>
    txn_reaches aborts mid_batch h assigned revoked s0 logs g'"


subsection \<open>Logs and positions\<close>

definition log_ok :: "(int \<Rightarrow> kmsg list) \<Rightarrow> bool" where
  "log_ok logs \<longleftrightarrow>
     (\<forall>p. sorted_wrt (<) (map k_offset (logs p)) \<and> (\<forall>m \<in> set (logs p). k_partition m = p))"

lemma log_okD:
  assumes "log_ok logs"
  shows "x < y \<Longrightarrow> y < length (logs p) \<Longrightarrow> k_offset (logs p ! x) < k_offset (logs p ! y)"
    and "x < length (logs p) \<Longrightarrow> k_partition (logs p ! x) = p"
  using assms unfolding log_ok_def by (auto simp: sorted_wrt_map sorted_wrt_iff_nth_less)

lemma resume_after:
  assumes "log_ok logs" and "n < length (logs p)"
  shows "resume_index (logs p) (Some (k_offset (logs p ! n) + 1)) = Suc n"
proof -
  let ?P = "\<lambda>m. k_offset m < k_offset (logs p ! n) + 1"
  have all: "\<forall>m \<in> set (take (Suc n) (logs p)). ?P m"
  proof
    fix m assume "m \<in> set (take (Suc n) (logs p))"
    then obtain x where x: "x < Suc n" "m = logs p ! x" using assms(2) by (auto simp: in_set_conv_nth)
    then show "?P m" using log_okD(1) [OF assms(1), of x n p] assms(2) by (cases "x = n") auto
  qed
  have none: "takeWhile ?P (drop (Suc n) (logs p)) = []"
  proof (cases "drop (Suc n) (logs p)")
    case (Cons m ms)
    then have "Suc n < length (logs p)" "m = logs p ! Suc n"
      by (metis drop_eq_Nil linorder_not_less list.distinct(1)) (metis Cons nth_via_drop)
    then have "\<not> ?P m" using log_okD(1) [OF assms(1), of n "Suc n" p] by simp
    then show ?thesis by (simp add: Cons)
  qed simp
  have "takeWhile ?P (logs p) = takeWhile ?P (take (Suc n) (logs p) @ drop (Suc n) (logs p))" by simp
  also have "\<dots> = take (Suc n) (logs p) @ takeWhile ?P (drop (Suc n) (logs p))"
    using all by (intro takeWhile_append2) blast
  also have "\<dots> = take (Suc n) (logs p)" unfolding none by simp
  finally have "takeWhile ?P (logs p) = take (Suc n) (logs p)" .
  then show ?thesis using assms(2) by (simp add: resume_index_def)
qed

lemma resume_index_le: "resume_index ms c \<le> length ms"
  by (auto simp: resume_index_def length_takeWhile_le split: option.split)

lemma commit_positions:
  "wf_dict ps \<Longrightarrow> map_of (fold (\<lambda>(p, n). AList.update p n) ps d) q =
     (case map_of ps q of Some n \<Rightarrow> Some n | None \<Rightarrow> map_of d q)"
proof (induction ps arbitrary: d)
  case (Cons x ps)
  obtain p n where x: "x = (p, n)" by (cases x)
  have "map_of ps p = None" using Cons.prems by (simp add: x map_of_eq_None_iff)
  with Cons show ?case by (auto simp: x dict_simps split: option.splits)
qed simp

lemma handle_each_length: "handle_each h s ms = Inr (s', outs) \<Longrightarrow> length outs = length ms"
  by (induction h s ms arbitrary: s' outs rule: handle_each.induct) (auto simp: bind_res_Inr_iff)

lemma filter_zip_fst:
  "length outs = length ms \<Longrightarrow> map fst (filter (\<lambda>(m, _). P m) (zip ms outs)) = filter P ms"
  by (induction outs ms rule: list_induct2) auto

lemma map_of_fold_delete: "map_of (fold AList.delete ps d) k = (if k \<in> set ps then None else map_of d k)"
  by (induction ps arbitrary: d) (auto simp: dict_simps)

lemma wf_dict_fold_delete [simp]: "wf_dict d \<Longrightarrow> wf_dict (fold AList.delete ps d)"
  by (induction ps arbitrary: d) auto

subsection \<open>The invariant\<close>

abbreviation idx :: "(int \<Rightarrow> kmsg list) \<Rightarrow> 's txn_group \<Rightarrow> int \<Rightarrow> nat" where
  "idx logs g p \<equiv> resume_index (logs p) (map_of (committed_offsets (broker_side g)) p)"

abbreviation of_part :: "int \<Rightarrow> kmsg list \<Rightarrow> kmsg list" where
  "of_part p ms \<equiv> filter (\<lambda>m. k_partition m = p) ms"

definition owned_ok :: "(int \<Rightarrow> kmsg list) \<Rightarrow> 's txn_group \<Rightarrow> nat \<Rightarrow> int \<Rightarrow> bool" where
  "owned_ok logs g i p \<longleftrightarrow>
     idx logs g p \<le> fetch_at g p \<and> fetch_at g p \<le> length (logs p) \<and>
     of_part p (batches g i) = drop (idx logs g p) (take (fetch_at g p) (logs p)) \<and>
     (map_of (positions (members g i)) p = None \<longrightarrow> fetch_at g p = idx logs g p) \<and>
     (\<forall>n. map_of (positions (members g i)) p = Some n \<longrightarrow> resume_index (logs p) (Some n) = fetch_at g p)"

definition txn_inv :: "(int \<Rightarrow> kmsg list) \<Rightarrow> 's txn_group \<Rightarrow> bool" where
  "txn_inv logs g \<longleftrightarrow>
     (\<forall>p. map fst (filter (\<lambda>(m, _). k_partition m = p) (effects g)) = take (idx logs g p) (logs p)) \<and>
     committed_out (broker_side g) = concat (map snd (effects g)) \<and>
     (\<forall>i. wf_dict (positions (members g i))) \<and>
     (\<forall>i p. if powner g p = Some i then owned_ok logs g i p
        else of_part p (batches g i) = [] \<and> map_of (positions (members g i)) p = None)"

lemma txn_invD:
  assumes "txn_inv logs g"
  shows "map fst (filter (\<lambda>(m, _). k_partition m = p) (effects g)) = take (idx logs g p) (logs p)"
    and "committed_out (broker_side g) = concat (map snd (effects g))"
    and "wf_dict (positions (members g i))"
    and "powner g p = Some i \<Longrightarrow> owned_ok logs g i p"
    and "powner g p \<noteq> Some i \<Longrightarrow> of_part p (batches g i) = []"
    and "powner g p \<noteq> Some i \<Longrightarrow> map_of (positions (members g i)) p = None"
  using assms unfolding txn_inv_def by (blast, blast, blast, presburger, presburger, presburger)


lemma txn_invI:
  assumes "\<And>p. map fst (filter (\<lambda>(m, _). k_partition m = p) (effects g)) = take (idx logs g p) (logs p)"
    and "committed_out (broker_side g) = concat (map snd (effects g))"
    and "\<And>i. wf_dict (positions (members g i))"
    and "\<And>i p. powner g p = Some i \<Longrightarrow> owned_ok logs g i p"
    and "\<And>i p. powner g p \<noteq> Some i \<Longrightarrow> of_part p (batches g i) = []"
    and "\<And>i p. powner g p \<noteq> Some i \<Longrightarrow> map_of (positions (members g i)) p = None"
  shows "txn_inv logs g"
  using assms unfolding txn_inv_def by presburger

lemma txn_inv_start: "txn_inv logs (start_txn_group s0)"
  by (rule txn_invI) (simp_all add: start_txn_group_def new_processor_def resume_index_def)

lemma positions_after [simp]:
  "positions (txn_assign assigned k ps tp) = positions tp"
  "positions (note_polled m tp) = AList.update (k_partition m) (k_offset m + 1) (positions tp)"
  "positions (txn_revoke revoked ps tp) = fold AList.delete ps (positions tp)"
  "positions (new_processor s) = []"
  by (simp_all add: txn_assign_def note_polled_def txn_revoke_def Let_def abort_txn_def new_processor_def)

lemma txn_inv_joined:
  assumes inv: "txn_inv logs g" and free: "powner g p = None"
  shows "txn_inv logs (g\<lparr>powner := (powner g)(p := Some i), fetch_at := (fetch_at g)(p := idx logs g p),
    members := (members g)(i := txn_assign assigned (broker_side g) [p] (members g i))\<rparr>)"
proof -
  note d = txn_invD [OF inv]
  show ?thesis
  proof (rule txn_invI, goal_cases)
    case (4 j q)
    then show ?case
      using d(4) [of q j] d(5,6) [of p i] free resume_index_le [of "logs p"]
      by (auto simp: owned_ok_def dict_simps map_of_fold_delete split: if_splits)
  next
    case (5 j q)
    then show ?case using d(5) [of q j] free by (auto split: if_splits)
  next
    case (6 j q)
    then show ?case using d(6) [of q j] free by (auto simp: map_of_fold_delete split: if_splits)
  qed (use d(1,2,3) in \<open>simp_all\<close>)
qed

lemma txn_inv_polled:
  assumes inv: "txn_inv logs g" and ok: "log_ok logs" and own: "powner g p = Some i"
    and n: "fetch_at g p < length (logs p)" and m: "m = logs p ! fetch_at g p"
  shows "txn_inv logs (g\<lparr>members := (members g)(i := note_polled m (members g i)),
    batches := (batches g)(i := batches g i @ [m]), fetch_at := (fetch_at g)(p := Suc (fetch_at g p))\<rparr>)"
proof -
  note d = txn_invD [OF inv]
  have mp: "k_partition m = p" using log_okD(2) [OF ok n] m by simp
  show ?thesis
  proof (rule txn_invI, goal_cases)
    case (4 j q)
    show ?case
    proof (cases "q = p")
      case True
      then have "j = i" using 4 own by simp
      moreover have "take (Suc (fetch_at g p)) (logs p) = take (fetch_at g p) (logs p) @ [m]"
        using n m by (simp add: take_Suc_conv_app_nth)
      ultimately show ?thesis
        using d(4) [OF own] True mp n resume_after [OF ok n]
        by (auto simp: owned_ok_def dict_simps m)
    next
      case False
      then show ?thesis using d(4) [of q j] 4 mp by (auto simp: owned_ok_def dict_simps split: if_splits)
    qed
  next
    case (5 j q)
    then show ?case using d(5) [of q j] own mp by auto
  next
    case (6 j q)
    then show ?case using d(6) [of q j] own by (auto simp: dict_simps mp split: if_splits)
  qed (use d(1,2,3) in simp_all)
qed

lemma txn_inv_gave_up:
  assumes inv: "txn_inv logs g" and own: "\<forall>p \<in> set ps. powner g p = Some i" and none: "batches g i = []"
  shows "txn_inv logs (g\<lparr>members := (members g)(i := txn_revoke revoked ps (members g i)),
    powner := (\<lambda>p. if p \<in> set ps then None else powner g p)\<rparr>)"
proof -
  note d = txn_invD [OF inv]
  show ?thesis
  proof (rule txn_invI, goal_cases)
    case (4 j q)
    then show ?case using d(4) [of q j] by (auto simp: owned_ok_def dict_simps map_of_fold_delete split: if_splits)
  next
    case (5 j q)
    then show ?case using d(5) [of q j] own none by (cases "j = i") (auto split: if_splits)
  next
    case (6 j q)
    then show ?case using d(6) [of q j] own by (auto simp: map_of_fold_delete split: if_splits)
  qed (use d(1,2,3) in \<open>simp_all\<close>)
qed

lemma txn_inv_restart: "txn_inv logs g \<Longrightarrow> txn_inv logs (txn_restart s0 i g)"
proof -
  assume inv: "txn_inv logs g"
  note d = txn_invD [OF inv]
  show ?thesis
  proof (rule txn_invI, goal_cases)
    case (4 j q)
    then show ?case using d(4) [of q j] by (auto simp: txn_restart_def release_def owned_ok_def split: if_splits)
  next
    case (5 j q)
    then show ?case using d(5) [of q j] by (auto simp: txn_restart_def release_def split: if_splits)
  next
    case (6 j q)
    then show ?case using d(6) [of q j] by (auto simp: txn_restart_def release_def new_processor_def split: if_splits)
  qed (use d(1,2,3) in \<open>simp_all add: txn_restart_def new_processor_def\<close>)
qed


lemma process_batch_cases:
  assumes "process_batch h fate batch tp k = (res, k')"
  shows "(k' = k \<and> committed_effects h fate (pstate tp) batch = [] \<and>
      (\<forall>tp'. res = Some tp' \<longrightarrow> fate \<noteq> Commits \<and> positions tp' = positions tp \<and> \<not> in_transaction tp')) \<or>
    (\<exists>s outs. handle_each h (pstate tp) batch = Inr (s, outs) \<and>
       committed_effects h fate (pstate tp) batch = zip batch outs \<and>
       k' = k\<lparr>committed_out := committed_out k @ concat outs,
         committed_offsets := fold (\<lambda>(p, n). AList.update p n) (positions tp) (committed_offsets k)\<rparr> \<and>
       (\<forall>tp'. res = Some tp' \<longrightarrow> positions tp' = positions tp \<and> \<not> in_transaction tp'))"
  using assms
  by (cases fate) (auto simp: process_batch_def committed_effects_def abort_txn_def Let_def split: sum.splits if_splits)

text \<open>A committed batch moves the commit point of each owned partition to where it has read.\<close>

lemma txn_inv_commit:
  assumes inv: "txn_inv logs g"
    and he: "handle_each h s (batches g i) = Inr (s', outs)"
    and k: "k = (broker_side g)\<lparr>committed_out := committed_out (broker_side g) @ concat outs,
      committed_offsets := fold (\<lambda>(p, n). AList.update p n) (positions (members g i))
        (committed_offsets (broker_side g))\<rparr>"
    and tp: "positions tp = positions (members g i)"
  shows "txn_inv logs (g\<lparr>members := (members g)(i := tp), batches := (batches g)(i := []), broker_side := k,
    effects := effects g @ zip (batches g i) outs\<rparr>)"
proof -
  note d = txn_invD [OF inv]
  have len: "length outs = length (batches g i)" by (rule handle_each_length [OF he])
  have off: "map_of (committed_offsets k) p =
      (case map_of (positions (members g i)) p of Some n \<Rightarrow> Some n | None \<Rightarrow> map_of (committed_offsets (broker_side g)) p)" for p
    using commit_positions [OF d(3)] by (simp add: k)
  have own: "resume_index (logs p) (map_of (committed_offsets k) p) = fetch_at g p" if "powner g p = Some i" for p
    using d(4) [OF that] by (cases "map_of (positions (members g i)) p") (simp_all add: off owned_ok_def)
  have other: "map_of (committed_offsets k) p = map_of (committed_offsets (broker_side g)) p" if "powner g p \<noteq> Some i" for p
    using d(6) [OF that] by (simp add: off)
  have z: "map fst (filter (\<lambda>(m, _). k_partition m = p) (zip (batches g i) outs)) = of_part p (batches g i)" for p
    by (rule filter_zip_fst [OF len])
  show ?thesis
  proof (rule txn_invI, goal_cases)
    case (1 p)
    show ?case
    proof (cases "powner g p = Some i")
      case True
      then have "take (idx logs g p) (logs p) @ of_part p (batches g i) = take (fetch_at g p) (logs p)"
        using d(4) [OF True] unfolding owned_ok_def
        by (metis append_take_drop_id min.absorb1 take_take)
      then show ?thesis using own [OF True] d(1) [of p] z [of p] by simp
    next
      case False
      then show ?thesis using other [OF False] d(1) [of p] d(5) [OF False] z [of p] by simp
    qed
  next
    case 2
    show ?case using d(2) len by (simp add: k)
  next
    case (4 j p)
    show ?case
    proof (cases "j = i")
      case True
      with 4 have o: "powner g p = Some i" by simp
      then show ?thesis
        using d(4) [OF o] own [OF o] True by (simp add: owned_ok_def tp)
    next
      case False
      with 4 have o: "powner g p = Some j" "powner g p \<noteq> Some i" by simp_all
      then show ?thesis using d(4) [OF o(1)] other [OF o(2)] False by (simp add: owned_ok_def)
    qed
  qed (use d(3,5,6) in \<open>auto simp: tp\<close>)
qed

lemma txn_step_inv:
  assumes "txn_step aborts mid_batch h assigned revoked s0 logs g g'" and "\<not> aborts" and "\<not> mid_batch"
    and ok: "log_ok logs" and inv: "txn_inv logs g"
  shows "txn_inv logs g'"
  using assms(1)
proof cases
  case (joined p i)
  then show ?thesis using txn_inv_joined [OF inv] by simp
next
  case (polled p i m)
  then show ?thesis using txn_inv_polled [OF inv ok] by simp
next
  case (processed fate i tp k)
  then have f: "fate = Commits" using assms(2) by simp
  from process_batch_cases [OF processed(2)] f obtain s outs where
    he: "handle_each h (pstate (members g i)) (batches g i) = Inr (s, outs)"
    and k: "k = (broker_side g)\<lparr>committed_out := committed_out (broker_side g) @ concat outs,
      committed_offsets := fold (\<lambda>(p, n). AList.update p n) (positions (members g i))
        (committed_offsets (broker_side g))\<rparr>"
    and eff: "committed_effects h fate (pstate (members g i)) (batches g i) = zip (batches g i) outs"
    and tp: "positions tp = positions (members g i)" by blast
  show ?thesis unfolding processed(1) eff by (rule txn_inv_commit [OF inv he k tp])
next
  case (died fate i k)
  from process_batch_cases [OF died(2)] show ?thesis
  proof (elim disjE exE conjE)
    assume "k = broker_side g" "committed_effects h fate (pstate (members g i)) (batches g i) = []"
    then show ?thesis unfolding died(1) using txn_inv_restart [OF inv] by simp
  next
    fix s outs
    assume he: "handle_each h (pstate (members g i)) (batches g i) = Inr (s, outs)"
      and k: "k = (broker_side g)\<lparr>committed_out := committed_out (broker_side g) @ concat outs,
        committed_offsets := fold (\<lambda>(p, n). AList.update p n) (positions (members g i))
          (committed_offsets (broker_side g))\<rparr>"
      and eff: "committed_effects h fate (pstate (members g i)) (batches g i) = zip (batches g i) outs"
    from txn_inv_restart [OF txn_inv_commit [OF inv he k refl], of s0 i]
    show ?thesis unfolding died(1) eff by (simp add: txn_restart_def)
  qed
next
  case (crashed i)
  then show ?thesis using txn_inv_restart [OF inv] by simp
next
  case (gave_up ps i)
  then show ?thesis using txn_inv_gave_up [OF inv] assms(3) by simp
qed

lemma txn_reaches_inv:
  "txn_reaches aborts mid_batch h assigned revoked s0 logs g \<Longrightarrow> \<not> aborts \<Longrightarrow> \<not> mid_batch \<Longrightarrow> log_ok logs \<Longrightarrow>
   txn_inv logs g"
  by (induction rule: txn_reaches.induct) (blast intro: txn_inv_start txn_step_inv)+


subsection \<open>Properties\<close>

lemma take_resume_filter:
  assumes "log_ok logs"
  shows "take (resume_index (logs p) c) (logs p) = filter (\<lambda>m. \<exists>n. c = Some n \<and> k_offset m < n) (logs p)"
proof (cases c)
  case (Some n)
  have "takeWhile (\<lambda>m. k_offset m < n) (logs p) = filter (\<lambda>m. k_offset m < n) (logs p)"
  proof (rule takeWhile_eq_filter)
    fix m assume m: "m \<in> set (dropWhile (\<lambda>m. k_offset m < n) (logs p))"
    let ?w = "length (takeWhile (\<lambda>m. k_offset m < n) (logs p))"
    from m obtain x where x: "x < length (logs p) - ?w" "m = logs p ! (?w + x)"
      by (auto simp: dropWhile_eq_drop in_set_conv_nth)
    then have "\<not> k_offset (logs p ! ?w) < n" by (intro nth_length_takeWhile) simp
    moreover have "?w + x < length (logs p)" using x(1) by linarith
    ultimately show "\<not> k_offset m < n"
      using log_okD(1) [OF assms, of ?w "?w + x" p] x(2) by (cases "x = 0") auto
  qed
  moreover have "take (length (takeWhile (\<lambda>m. k_offset m < n) (logs p))) (logs p) = takeWhile (\<lambda>m. k_offset m < n) (logs p)"
    by (rule takeWhile_eq_take [symmetric])
  ultimately show ?thesis by (simp add: Some resume_index_def)
qed (simp add: resume_index_def)

text \<open>
  C2. Each input record takes effect exactly once. In every state the group can reach by polling,
  committing batches, losing the answer of a commit, failing, crashing and handing partitions over
  between batches, the records of a partition whose output is in a committed transaction are
  exactly those below the committed offset, each once and in log order, and the committed output
  is what the handler produced for them. No record is lost, none is doubled. It holds for any
  handler, so for the cleaner, the edit war processor and the page state alike, as long as no
  process goes on after an aborted transaction and no rebalance falls into the middle of a batch.
\<close>

theorem transactional_exactly_once:
  assumes "txn_reaches False False h assigned revoked s0 logs g" and "log_ok logs"
  shows "(\<forall>p. map fst (filter (\<lambda>(m, _). k_partition m = p) (effects g)) =
      filter (\<lambda>m. \<exists>n. map_of (committed_offsets (broker_side g)) p = Some n \<and> k_offset m < n) (logs p)) \<and>
    committed_out (broker_side g) = concat (map snd (effects g))"
  using txn_invD(1,2) [OF txn_reaches_inv [OF assms(1) _ _ assms(2)]] take_resume_filter [OF assms(2)] by simp

definition echo :: "unit handler" where
  "echo s m = Inr (s, [\<lparr>out_topic = k_topic m, out_key = None, out_value = k_value m, out_time = k_time m\<rparr>])"

definition plain_msg :: "int \<Rightarrow> kmsg" where
  "plain_msg n = \<lparr>k_topic = [], k_partition = 0, k_offset = n, k_time = n, k_key = None, k_value = None\<rparr>"

definition two_msgs :: "int \<Rightarrow> kmsg list" where
  "two_msgs p = (if p = 0 then [plain_msg 7, plain_msg 8] else [])"

abbreviation echo_step :: "bool \<Rightarrow> bool \<Rightarrow> unit txn_group \<Rightarrow> unit txn_group \<Rightarrow> bool" where
  "echo_step aborts mid \<equiv> txn_step aborts mid echo (\<lambda>_ _ s. s) (\<lambda>_ s. s) () two_msgs"

abbreviation echo_reaches :: "bool \<Rightarrow> bool \<Rightarrow> unit txn_group \<Rightarrow> bool" where
  "echo_reaches aborts mid \<equiv> txn_reaches aborts mid echo (\<lambda>_ _ s. s) (\<lambda>_ s. s) () two_msgs"

text \<open>One instance that joins and polls \<open>n\<close> times.\<close>

definition holding :: "nat \<Rightarrow> nat \<Rightarrow> kmsg list \<Rightarrow> (int, int) pydict \<Rightarrow> kafka \<Rightarrow> (kmsg \<times> outgoing list) list \<Rightarrow> unit txn_group" where
  "holding i f batch pos k eff =
     \<lparr>members = (\<lambda>_. new_processor ())(i := \<lparr>pstate = (), in_transaction = False, positions = pos\<rparr>),
      batches = (\<lambda>_. [])(i := batch), powner = Map.empty(0 := Some i), fetch_at = (\<lambda>_. 0)(0 := f),
      broker_side = k, effects = eff\<rparr>"

abbreviation no_kafka :: kafka where
  "no_kafka \<equiv> \<lparr>committed_out = [], committed_offsets = []\<rparr>"

lemma echo_joins: "echo_step a b (start_txn_group ()) (holding i 0 [] [] no_kafka [])"
proof -
  have "holding i 0 [] [] no_kafka [] = (start_txn_group ())\<lparr>powner := (powner (start_txn_group ()))(0 := Some i),
    fetch_at := (fetch_at (start_txn_group ()))(0 := resume_index (two_msgs 0) (map_of (committed_offsets (broker_side (start_txn_group ()))) 0)),
    members := (members (start_txn_group ()))(i := txn_assign (\<lambda>_ _ s. s) (broker_side (start_txn_group ())) [0] (members (start_txn_group ()) i))\<rparr>"
    by (simp add: holding_def start_txn_group_def new_processor_def txn_assign_def resume_index_def fun_eq_iff)
  then show ?thesis by (simp only:) (rule txn_step.joined, simp add: start_txn_group_def)
qed

lemma echo_polls:
  assumes "f < 2"
  shows "echo_step a b (holding i f batch pos k eff)
    (holding i (Suc f) (batch @ [two_msgs 0 ! f]) (AList.update 0 (k_offset (two_msgs 0 ! f) + 1) pos) k eff)"
proof -
  let ?g = "holding i f batch pos k eff" and ?m = "two_msgs 0 ! f"
  have p: "k_partition ?m = 0" using assms by (auto simp: two_msgs_def plain_msg_def less_2_cases_iff)
  have "holding i (Suc f) (batch @ [?m]) (AList.update 0 (k_offset ?m + 1) pos) k eff =
    ?g\<lparr>members := (members ?g)(i := note_polled ?m (members ?g i)),
       batches := (batches ?g)(i := batches ?g i @ [?m]), fetch_at := (fetch_at ?g)(0 := Suc (fetch_at ?g 0))\<rparr>"
    by (simp add: holding_def note_polled_def p)
  then show ?thesis
    by (simp only:) (rule txn_step.polled, use assms in \<open>simp_all add: holding_def two_msgs_def\<close>)
qed


lemma echo_each: "\<exists>outs. handle_each echo s batch = Inr ((), outs) \<and> length outs = length batch"
  by (induction batch arbitrary: s) (auto simp: echo_def)

lemma echo_commits:
  assumes "batch \<noteq> []" and "wf_dict pos"
  shows "\<exists>k' eff'. echo_step a b (holding i f batch pos k eff) (holding i f [] pos k' (eff @ eff')) \<and>
    map fst eff' = batch \<and>
    map_of (committed_offsets k') 0 = (case map_of pos 0 of Some n \<Rightarrow> Some n | None \<Rightarrow> map_of (committed_offsets k) 0)"
proof -
  let ?g = "holding i f batch pos k eff"
  obtain outs where o: "handle_each echo () batch = Inr ((), outs)" "length outs = length batch"
    using echo_each by blast
  define k' where "k' = k\<lparr>committed_out := committed_out k @ concat outs,
    committed_offsets := fold (\<lambda>(p, n). AList.update p n) pos (committed_offsets k)\<rparr>"
  have "echo_step a b ?g (?g\<lparr>members := (members ?g)(i := \<lparr>pstate = (), in_transaction = False, positions = pos\<rparr>),
    batches := (batches ?g)(i := []), broker_side := k',
    effects := effects ?g @ committed_effects echo Commits (pstate (members ?g i)) (batches ?g i)\<rparr>)"
    by (rule txn_step.processed) (use assms in \<open>simp_all add: holding_def process_batch_def o k'_def\<close>)
  then have "echo_step a b ?g (holding i f [] pos k' (eff @ zip batch outs))"
    by (simp add: holding_def committed_effects_def o)
  moreover have "map fst (zip batch outs) = batch" using o(2) by simp
  moreover have "map_of (committed_offsets k') 0 =
      (case map_of pos 0 of Some n \<Rightarrow> Some n | None \<Rightarrow> map_of (committed_offsets k) 0)"
    using commit_positions [OF assms(2)] by (simp add: k'_def)
  ultimately show ?thesis by blast
qed

lemma two_msgs_ok: "log_ok two_msgs"
  by (simp add: log_ok_def two_msgs_def plain_msg_def)

theorem transactional_exactly_once_witness:
  "\<exists>g. echo_reaches False False g \<and> map fst (effects g) = [plain_msg 7] \<and>
     map_of (committed_offsets (broker_side g)) 0 = Some 8 \<and>
     map fst (filter (\<lambda>(m, _). k_partition m = 0) (effects g)) =
       filter (\<lambda>m. \<exists>n. map_of (committed_offsets (broker_side g)) 0 = Some n \<and> k_offset m < n) (two_msgs 0)"
proof -
  have m: "two_msgs 0 ! 0 = plain_msg 7" "k_offset (plain_msg 7) = 7" by (simp_all add: two_msgs_def plain_msg_def)
  obtain k eff where c: "echo_step False False (holding 0 1 [plain_msg 7] [(0, 8)] no_kafka [])
      (holding 0 1 [] [(0, 8)] k ([] @ eff))" "map fst eff = [plain_msg 7]" "map_of (committed_offsets k) 0 = Some 8"
    using echo_commits [of "[plain_msg 7]" "[(0, 8)]" False False 0 1 no_kafka "[]"] by auto
  have "echo_step False False (holding 0 0 [] [] no_kafka []) (holding 0 1 [plain_msg 7] [(0, 8)] no_kafka [])"
    using echo_polls [of 0 False False 0 "[]" "[]" no_kafka "[]"] by (simp add: m)
  then have r: "echo_reaches False False (holding 0 1 [] [(0, 8)] k ([] @ eff))"
    using c(1) echo_joins by (meson txn_reaches.intros)
  from transactional_exactly_once [OF r two_msgs_ok] r c(2,3) show ?thesis
    by (intro exI [of _ "holding 0 1 [] [(0, 8)] k ([] @ eff)"]) (simp add: holding_def)
qed

text \<open>
  Going on after an aborted transaction loses its batch. \<open>process_batch\<close> aborts in place
  when Kafka asks for it and the loop polls on: the consumer's position is not moved back, so the
  next batch commits offsets past the aborted one. Here a record is never handled in a committed
  transaction although the committed offset is past it.
\<close>

theorem abort_in_place_loses_the_batch:
  "\<exists>g. echo_reaches True False g \<and> plain_msg 7 \<in> set (two_msgs 0) \<and>
     map fst (effects g) = [plain_msg 8] \<and> map_of (committed_offsets (broker_side g)) 0 = Some 9"
proof -
  have m: "two_msgs 0 ! 0 = plain_msg 7" "two_msgs 0 ! Suc 0 = plain_msg 8"
    "k_offset (plain_msg 7) = 7" "k_offset (plain_msg 8) = 8" by (simp_all add: two_msgs_def plain_msg_def)
  let ?g1 = "holding 0 1 [plain_msg 7] [(0, 8)] no_kafka []"
  have 1: "echo_step True False (holding 0 0 [] [] no_kafka []) ?g1"
    using echo_polls [of 0 True False 0 "[]" "[]" no_kafka "[]"] by (simp add: m)
  have "echo_step True False ?g1 (?g1\<lparr>members := (members ?g1)(0 := members ?g1 0),
      batches := (batches ?g1)(0 := []), broker_side := no_kafka,
      effects := effects ?g1 @ committed_effects echo (AbortsAfter 1) (pstate (members ?g1 0)) (batches ?g1 0)\<rparr>)"
    by (rule txn_step.processed) (simp_all add: holding_def process_batch_def abort_txn_def echo_def)
  then have 2: "echo_step True False ?g1 (holding 0 1 [] [(0, 8)] no_kafka [])"
    by (simp add: holding_def committed_effects_def)
  have 3: "echo_step True False (holding 0 1 [] [(0, 8)] no_kafka []) (holding 0 2 [plain_msg 8] [(0, 9)] no_kafka [])"
    using echo_polls [of 1 True False 0 "[]" "[(0, 8)]" no_kafka "[]"] by (simp add: m numeral_2_eq_2)
  obtain k eff where c: "echo_step True False (holding 0 2 [plain_msg 8] [(0, 9)] no_kafka [])
      (holding 0 2 [] [(0, 9)] k ([] @ eff))" "map fst eff = [plain_msg 8]" "map_of (committed_offsets k) 0 = Some 9"
    using echo_commits [of "[plain_msg 8]" "[(0, 9)]" True False 0 2 no_kafka "[]"] by auto
  have "echo_reaches True False (holding 0 2 [] [(0, 9)] k ([] @ eff))"
    using echo_joins 1 2 3 c(1) by (meson txn_reaches.intros)
  with c(2,3) show ?thesis
    by (intro exI [of _ "holding 0 2 [] [(0, 9)] k ([] @ eff)"]) (simp add: holding_def two_msgs_def)
qed


text \<open>
  The guard of \<open>on_revoke\<close> never acts. Rebalance callbacks run inside \<open>poll\<close>, which the
  loop calls only between transactions, so in every reachable state, whichever flags are allowed, no
  processor is in a transaction when its partitions are revoked: nothing is aborted, and a batch
  that was being collected keeps the records of the revoked partitions.
\<close>

theorem revoke_never_aborts:
  assumes "txn_reaches aborts mid_batch h assigned revoked s0 logs g"
  shows "\<not> in_transaction (members g i) \<and>
    txn_revoke revoked ps (members g i) = (members g i)\<lparr>pstate := revoked ps (pstate (members g i)),
      positions := fold AList.delete ps (positions (members g i))\<rparr>"
proof -
  from assms have "\<forall>i. \<not> in_transaction (members g i)"
  proof (induction rule: txn_reaches.induct)
    case started
    show ?case by (simp add: start_txn_group_def new_processor_def)
  next
    case (stepped g g')
    from stepped(2) stepped(3) show ?case
    proof cases
      case (processed fate i tp k)
      with process_batch_cases [OF processed(2)] stepped(3) show ?thesis by auto
    qed (auto simp: txn_assign_def note_polled_def txn_restart_def new_processor_def txn_revoke_def Let_def)
  qed
  then show ?thesis by (simp add: txn_revoke_def Let_def)
qed

theorem revoke_never_aborts_witness:
  "\<exists>g. echo_reaches True True g \<and> batches g 0 = [plain_msg 7] \<and> \<not> in_transaction (members g 0)"
proof -
  have "echo_step True True (holding 0 0 [] [] no_kafka []) (holding 0 1 [plain_msg 7] [(0, 8)] no_kafka [])"
    using echo_polls [of 0 True True 0 "[]" "[]" no_kafka "[]"] by (simp add: two_msgs_def plain_msg_def)
  then have r: "echo_reaches True True (holding 0 1 [plain_msg 7] [(0, 8)] no_kafka [])"
    using echo_joins by (meson txn_reaches.intros)
  with revoke_never_aborts [OF r] show ?thesis
    by (intro exI [of _ "holding 0 1 [plain_msg 7] [(0, 8)] no_kafka []"]) (simp add: holding_def)
qed

text \<open>
  A rebalance while a batch is being collected doubles records. The batch keeps the records of
  a partition that has just moved, and their offsets are not sent with its transaction because the
  partition is no longer assigned; the new owner reads them again. Both copies are committed.
\<close>

theorem rebalance_mid_batch_doubles_records:
  "\<exists>g. echo_reaches False True g \<and> map fst (effects g) = [plain_msg 7, plain_msg 7]"
proof -
  let ?s = "echo_step False True"
  have m: "two_msgs 0 ! 0 = plain_msg 7" "k_offset (plain_msg 7) = 7" by (simp_all add: two_msgs_def plain_msg_def)
  let ?g1 = "holding 0 1 [plain_msg 7] [(0, 8)] no_kafka []"
  have 1: "?s (holding 0 0 [] [] no_kafka []) ?g1"
    using echo_polls [of 0 False True 0 "[]" "[]" no_kafka "[]"] by (simp add: m)
  let ?g2 = "?g1\<lparr>members := (members ?g1)(0 := txn_revoke (\<lambda>_ s. s) [0] (members ?g1 0)),
    powner := (\<lambda>p. if p \<in> set [0] then None else powner ?g1 p)\<rparr>"
  have 2: "?s ?g1 ?g2" by (rule txn_step.gave_up) (simp_all add: holding_def)
  obtain o1 where o1: "echo () (plain_msg 7) = Inr ((), o1)" by (simp add: echo_def)
  define k1 :: kafka where "k1 = \<lparr>committed_out = o1, committed_offsets = []\<rparr>"
  let ?g3 = "?g2\<lparr>members := (members ?g2)(0 := new_processor ()), batches := (batches ?g2)(0 := []),
    broker_side := k1, effects := effects ?g2 @ committed_effects echo Commits (pstate (members ?g2 0)) (batches ?g2 0)\<rparr>"
  have 3: "?s ?g2 ?g3"
    by (rule txn_step.processed)
      (simp_all add: holding_def process_batch_def o1 k1_def new_processor_def txn_revoke_def)
  let ?g4 = "?g3\<lparr>powner := (powner ?g3)(0 := Some 0),
    fetch_at := (fetch_at ?g3)(0 := resume_index (two_msgs 0) (map_of (committed_offsets (broker_side ?g3)) 0)),
    members := (members ?g3)(0 := txn_assign (\<lambda>_ _ s. s) (broker_side ?g3) [0] (members ?g3 0))\<rparr>"
  have 4: "?s ?g3 ?g4" by (rule txn_step.joined) simp
  have g4: "?g4 = holding 0 0 [] [] k1 [(plain_msg 7, o1)]"
    by (simp add: holding_def committed_effects_def o1 k1_def resume_index_def txn_assign_def
        new_processor_def txn_revoke_def fun_eq_iff)
  have 5: "?s (holding 0 0 [] [] k1 [(plain_msg 7, o1)]) (holding 0 1 [plain_msg 7] [(0, 8)] k1 [(plain_msg 7, o1)])"
    using echo_polls [of 0 False True 0 "[]" "[]" k1 "[(plain_msg 7, o1)]"] by (simp add: m)
  obtain k eff where c: "?s (holding 0 1 [plain_msg 7] [(0, 8)] k1 [(plain_msg 7, o1)])
      (holding 0 1 [] [(0, 8)] k ([(plain_msg 7, o1)] @ eff))" "map fst eff = [plain_msg 7]"
    using echo_commits [of "[plain_msg 7]" "[(0, 8)]" False True 0 1 k1 "[(plain_msg 7, o1)]"] by auto
  have "echo_reaches False True (holding 0 1 [] [(0, 8)] k ([(plain_msg 7, o1)] @ eff))"
    using echo_joins 1 2 3 4 [unfolded g4] 5 c(1) by (meson txn_reaches.intros)
  with c(2) show ?thesis
    by (intro exI [of _ "holding 0 1 [] [(0, 8)] k ([(plain_msg 7, o1)] @ eff)"]) (simp add: holding_def)
qed

end
