(* ===== verification/Sink.thy ===== *)
theory Sink
  imports SinksDb Transactional
begin

text \<open>
  \<^verbatim>\<open>sinks/postgres_sink.py\<close> and \<^verbatim>\<open>sinks/alerts_sink.py\<close>: a topic is written to a
  table, rows first and offsets second. The decoder and the write are arguments, as in the class.
  A group of sinks shares the table; a rebalance or a crash may come at any point.
\<close>

record sink =
  sk_inserted :: int
  sk_skipped :: int
  sk_marked :: int
  sk_errors :: int

definition new_sink :: sink where
  "new_sink = \<lparr>sk_inserted = 0, sk_skipped = 0, sk_marked = 0, sk_errors = 0\<rparr>"

datatype sink_error = Raised pyexc | Database pgerror

text \<open>
  The decoding loop of \<open>write_batch\<close>: the events read and the number of unreadable records.
\<close>

fun decode_batch :: "(bytes option \<Rightarrow> pyexc + 'e option) \<Rightarrow> kmsg list \<Rightarrow> pyexc + 'e list \<times> int" where
  "decode_batch decode [] = Inr ([], 0)"
| "decode_batch decode (m # ms) =
     (case decode (k_value m) of
        Inr (Some e) \<Rightarrow> map_sum id (apfst ((#) e)) (decode_batch decode ms)
      | Inr None \<Rightarrow> map_sum id (apsnd ((+) 1)) (decode_batch decode ms)
      | Inl x \<Rightarrow>
          if is_value_error x \<or> x = TypeError \<or> x = KeyError
          then map_sum id (apsnd ((+) 1)) (decode_batch decode ms) else Inl x)"

text \<open>\<open>write_batch\<close> up to the commit of the offsets.\<close>

definition write_batch ::
  "(bytes option \<Rightarrow> pyexc + 'e option) \<Rightarrow> ('e list \<Rightarrow> 't \<Rightarrow> pgerror + 't \<times> int) \<Rightarrow> bool list \<Rightarrow>
   kmsg list \<Rightarrow> sink \<Rightarrow> 't \<Rightarrow> sink_error + sink \<times> 't" where
  "write_batch decode wr lost batch s tbl =
     (case decode_batch decode batch of
        Inl x \<Rightarrow> Inl (Raised x)
      | Inr (events, bad) \<Rightarrow>
          (case db_write (wr events) lost tbl of
             Inl e \<Rightarrow> Inl (Database e)
           | Inr (tbl', written) \<Rightarrow>
               Inr (s\<lparr>sk_inserted := sk_inserted s + written,
                      sk_skipped := sk_skipped s + (int (length events) - written),
                      sk_marked := sk_marked s + int (length events),
                      sk_errors := sk_errors s + bad\<rparr>, tbl')))"

text \<open>The two sinks of the program.\<close>

definition edits_batch ::
  "runtime \<Rightarrow> (ustr \<times> edit_columns \<Rightarrow> bool) \<Rightarrow> bool list \<Rightarrow> kmsg list \<Rightarrow> sink \<Rightarrow> (ustr, edit_columns) pydict \<Rightarrow>
   sink_error + sink \<times> (ustr, edit_columns) pydict" where
  "edits_batch rt storable = write_batch (from_json rt) (insert_edits rt storable)"

definition alerts_batch ::
  "runtime \<Rightarrow> (ustr \<times> alert_columns \<Rightarrow> bool) \<Rightarrow> bool list \<Rightarrow> kmsg list \<Rightarrow> sink \<Rightarrow> (ustr, alert_columns) pydict \<Rightarrow>
   sink_error + sink \<times> (ustr, alert_columns) pydict" where
  "alerts_batch rt storable = write_batch (alert_from_json rt) (insert_alerts storable)"

subsection \<open>A group of sinks\<close>

text \<open>
  \<open>stored\<close> records, for the statements only, the messages of the batches whose rows the
  database committed. The positions of a member are what \<open>commit\<close> commits.
\<close>

record 't sink_group =
  sg_sinks :: "nat \<Rightarrow> sink"
  sg_batch :: "nat \<Rightarrow> kmsg list"
  sg_positions :: "nat \<Rightarrow> (int, int) pydict"
  sg_owner :: "int \<Rightarrow> nat option"
  sg_next :: "int \<Rightarrow> nat"
  sg_offsets :: "(int, int) pydict"
  sg_table :: 't
  stored :: "kmsg list"

definition start_sink_group :: "'t \<Rightarrow> 't sink_group" where
  "start_sink_group tbl =
     \<lparr>sg_sinks = (\<lambda>_. new_sink), sg_batch = (\<lambda>_. []), sg_positions = (\<lambda>_. []), sg_owner = (\<lambda>_. None),
      sg_next = (\<lambda>_. 0), sg_offsets = [], sg_table = tbl, stored = []\<rparr>"

definition sink_restart :: "nat \<Rightarrow> 't sink_group \<Rightarrow> 't sink_group" where
  "sink_restart i g =
     g\<lparr>sg_sinks := (sg_sinks g)(i := new_sink), sg_batch := (sg_batch g)(i := []),
       sg_positions := (sg_positions g)(i := []), sg_owner := release i (sg_owner g)\<rparr>"

inductive sink_step ::
  "(bool list \<Rightarrow> kmsg list \<Rightarrow> sink \<Rightarrow> 't \<Rightarrow> sink_error + sink \<times> 't) \<Rightarrow> (int \<Rightarrow> kmsg list) \<Rightarrow>
   't sink_group \<Rightarrow> 't sink_group \<Rightarrow> bool"
  for wr logs where
  sink_joined: "sg_owner g p = None \<Longrightarrow> sink_step wr logs g
      (g\<lparr>sg_owner := (sg_owner g)(p := Some i),
         sg_next := (sg_next g)(p := resume_index (logs p) (map_of (sg_offsets g) p))\<rparr>)"
| sink_polled: "sg_owner g p = Some i \<Longrightarrow> sg_next g p < length (logs p) \<Longrightarrow> m = logs p ! sg_next g p \<Longrightarrow>
    sink_step wr logs g
      (g\<lparr>sg_batch := (sg_batch g)(i := sg_batch g i @ [m]),
         sg_positions := (sg_positions g)(i := AList.update p (k_offset m + 1) (sg_positions g i)),
         sg_next := (sg_next g)(p := Suc (sg_next g p))\<rparr>)"
| sink_written: "wr lost (sg_batch g i) (sg_sinks g i) (sg_table g) = Inr (s, tbl) \<Longrightarrow> sg_batch g i \<noteq> [] \<Longrightarrow>
    sink_step wr logs g
      (g\<lparr>sg_sinks := (sg_sinks g)(i := s), sg_batch := (sg_batch g)(i := []), sg_table := tbl,
         sg_offsets := fold (\<lambda>(p, n). AList.update p n) (sg_positions g i) (sg_offsets g),
         stored := stored g @ sg_batch g i\<rparr>)"
| sink_uncommitted: "wr lost (sg_batch g i) (sg_sinks g i) (sg_table g) = Inr (s, tbl) \<Longrightarrow> sg_batch g i \<noteq> [] \<Longrightarrow>
    sink_step wr logs g
      (sink_restart i (g\<lparr>sg_table := tbl, stored := stored g @ sg_batch g i\<rparr>))"
| sink_crashed: "sink_step wr logs g (sink_restart i g)"
| sink_gave_up: "\<forall>p \<in> set ps. sg_owner g p = Some i \<Longrightarrow> sink_step wr logs g
      (g\<lparr>sg_positions := (sg_positions g)(i := fold AList.delete ps (sg_positions g i)),
         sg_owner := (\<lambda>p. if p \<in> set ps then None else sg_owner g p)\<rparr>)"

inductive sink_reaches ::
  "(bool list \<Rightarrow> kmsg list \<Rightarrow> sink \<Rightarrow> 't \<Rightarrow> sink_error + sink \<times> 't) \<Rightarrow> (int \<Rightarrow> kmsg list) \<Rightarrow> 't \<Rightarrow>
   't sink_group \<Rightarrow> bool"
  for wr logs tbl where
  sink_started: "sink_reaches wr logs tbl (start_sink_group tbl)"
| sink_stepped: "sink_reaches wr logs tbl g \<Longrightarrow> sink_step wr logs g g' \<Longrightarrow> sink_reaches wr logs tbl g'"

subsection \<open>What a write stores\<close>

definition event_in :: "(bytes option \<Rightarrow> pyexc + 'e option) \<Rightarrow> kmsg \<Rightarrow> 'e option" where
  "event_in decode m = (case decode (k_value m) of Inr x \<Rightarrow> x | Inl _ \<Rightarrow> None)"

definition readable :: "(bytes option \<Rightarrow> pyexc + 'e option) \<Rightarrow> kmsg list \<Rightarrow> 'e list" where
  "readable decode ms = List.map_filter (event_in decode) ms"

lemma readable_simps [simp]:
  "readable decode [] = []"
  "readable decode (m # ms) = (case event_in decode m of Some e \<Rightarrow> e # readable decode ms | None \<Rightarrow> readable decode ms)"
  "readable decode (ms @ ms') = readable decode ms @ readable decode ms'"
  by (simp_all add: readable_def List.map_filter_def split: option.split)

lemma readable_member: "e \<in> set (readable decode ms) \<longleftrightarrow> (\<exists>m \<in> set ms. event_in decode m = Some e)"
  by (induction ms) (auto split: option.splits)

lemma decode_batch_readable:
  "decode_batch decode ms = Inr (es, bad) \<Longrightarrow>
   es = readable decode ms \<and> bad = int (length ms) - int (length es)"
proof (induction ms arbitrary: es bad)
  case (Cons m ms)
  show ?case
  proof (cases "decode_batch decode ms")
    case (Inr r)
    obtain es' bad' where r: "r = (es', bad')" by (cases r)
    with Cons.IH Inr have "es' = readable decode ms" "bad' = int (length ms) - int (length es')" by blast+
    with Cons.prems Inr r show ?thesis
      by (auto simp: event_in_def split: sum.splits option.splits if_splits)
  qed (use Cons.prems in \<open>auto split: sum.splits option.splits if_splits\<close>)
qed simp

text \<open>
  What a sink asks of its write: its rows end up in the table one after the other, in a store that
  absorbs a row it has seen.
\<close>

locale sink_writer = row_store put for put :: "'r \<Rightarrow> 't \<Rightarrow> 't" +
  fixes wr :: "'e list \<Rightarrow> 't \<Rightarrow> pgerror + 't \<times> int" and row :: "'e \<Rightarrow> 'r"
  assumes write_puts: "wr es t = Inr (t', n) \<Longrightarrow> t' = fold put (map row es) t"
begin

lemma db_write_puts: "db_write (wr es) lost t = Inr (t', n) \<Longrightarrow> t' = fold put (map row es) t"
proof (induction lost arbitrary: t)
  case (Cons b lost)
  show ?case
  proof (cases b)
    case True
    with Cons.prems obtain t1 n1 where w: "wr es t = Inr (t1, n1)" and "db_write (wr es) lost t1 = Inr (t', n)"
      by (auto simp: bind_res_Inr_iff)
    then have "t' = fold put (map row es) t1" using Cons.IH by blast
    with write_puts [OF w] show ?thesis by (simp add: replay_absorbed)
  qed (use Cons in simp)
qed (use write_puts in simp)

lemma batch_puts:
  "write_batch decode wr lost batch s t = Inr (s', t') \<Longrightarrow>
   t' = fold put (map row (readable decode batch)) t"
  by (auto simp: write_batch_def dest!: decode_batch_readable db_write_puts split: sum.splits)

definition sink_inv :: "(bytes option \<Rightarrow> pyexc + 'e option) \<Rightarrow> (int \<Rightarrow> kmsg list) \<Rightarrow> 't \<Rightarrow> 't sink_group \<Rightarrow> bool" where
  "sink_inv decode logs t0 g \<longleftrightarrow>
     sg_table g = fold put (map row (readable decode (stored g))) t0 \<and>
     (\<forall>m \<in> set (stored g). \<exists>p. m \<in> set (logs p)) \<and>
     (\<forall>i. \<forall>m \<in> set (sg_batch g i). \<exists>p. m \<in> set (logs p)) \<and>
     (\<forall>p. \<forall>x < resume_index (logs p) (map_of (sg_offsets g) p). logs p ! x \<in> set (stored g)) \<and>
     (\<forall>p i. sg_owner g p = Some i \<longrightarrow> sg_next g p \<le> length (logs p) \<and>
        (\<forall>x < sg_next g p. logs p ! x \<in> set (stored g) \<union> set (sg_batch g i))) \<and>
     (\<forall>i. wf_dict (sg_positions g i)) \<and>
     (\<forall>i p n. map_of (sg_positions g i) p = Some n \<longrightarrow>
        sg_owner g p = Some i \<and> (\<exists>x. sg_next g p = Suc x \<and> n = k_offset (logs p ! x) + 1))"

lemma sink_invD:
  assumes "sink_inv decode logs t0 g"
  shows "sg_table g = fold put (map row (readable decode (stored g))) t0"
    and "m \<in> set (stored g) \<Longrightarrow> \<exists>p. m \<in> set (logs p)"
    and "m \<in> set (sg_batch g i) \<Longrightarrow> \<exists>p. m \<in> set (logs p)"
    and "x < resume_index (logs p) (map_of (sg_offsets g) p) \<Longrightarrow> logs p ! x \<in> set (stored g)"
    and "sg_owner g p = Some i \<Longrightarrow> sg_next g p \<le> length (logs p)"
    and "sg_owner g p = Some i \<Longrightarrow> x < sg_next g p \<Longrightarrow> logs p ! x \<in> set (stored g) \<union> set (sg_batch g i)"
    and "wf_dict (sg_positions g i)"
    and "map_of (sg_positions g i) p = Some n \<Longrightarrow>
      sg_owner g p = Some i \<and> (\<exists>x. sg_next g p = Suc x \<and> n = k_offset (logs p ! x) + 1)"
  using assms unfolding sink_inv_def by blast+

lemma sink_invI:
  assumes "sg_table g = fold put (map row (readable decode (stored g))) t0"
    and "\<And>m. m \<in> set (stored g) \<Longrightarrow> \<exists>p. m \<in> set (logs p)"
    and "\<And>m i. m \<in> set (sg_batch g i) \<Longrightarrow> \<exists>p. m \<in> set (logs p)"
    and "\<And>x p. x < resume_index (logs p) (map_of (sg_offsets g) p) \<Longrightarrow> logs p ! x \<in> set (stored g)"
    and "\<And>p i. sg_owner g p = Some i \<Longrightarrow> sg_next g p \<le> length (logs p)"
    and "\<And>p i x. sg_owner g p = Some i \<Longrightarrow> x < sg_next g p \<Longrightarrow> logs p ! x \<in> set (stored g) \<union> set (sg_batch g i)"
    and "\<And>i. wf_dict (sg_positions g i)"
    and "\<And>i p n. map_of (sg_positions g i) p = Some n \<Longrightarrow>
      sg_owner g p = Some i \<and> (\<exists>x. sg_next g p = Suc x \<and> n = k_offset (logs p ! x) + 1)"
  shows "sink_inv decode logs t0 g"
  using assms unfolding sink_inv_def by blast

lemma inv_restart:
  assumes "sink_inv decode logs t0 g"
  shows "sink_inv decode logs t0 (sink_restart i g)"
proof (rule sink_invI, goal_cases)
  case (6 p j x)
  then have "sg_owner g p = Some j" "j \<noteq> i" by (auto simp: sink_restart_def release_def split: if_splits)
  with 6 sink_invD(6) [OF assms] show ?case by (fastforce simp: sink_restart_def)
next
  case (8 j p n)
  then have "j \<noteq> i" "map_of (sg_positions g j) p = Some n" by (auto simp: sink_restart_def split: if_splits)
  with sink_invD(8) [OF assms this(2)] show ?case by (auto simp: sink_restart_def release_def)
qed (use sink_invD [OF assms] in \<open>auto simp: sink_restart_def release_def split: if_splits\<close>)

lemma inv_store:
  assumes "sink_inv decode logs t0 g"
    and "write_batch decode wr lost (sg_batch g i) (sg_sinks g i) (sg_table g) = Inr (s, tbl)"
  shows "sink_inv decode logs t0 (g\<lparr>sg_table := tbl, stored := stored g @ sg_batch g i\<rparr>)"
proof (rule sink_invI, goal_cases)
  case 1
  show ?case using sink_invD(1) [OF assms(1)] batch_puts [OF assms(2)] by (simp add: fold_append)
next
  case (6 p j x)
  with sink_invD(6) [OF assms(1), of p j x] show ?case by auto
qed (use sink_invD [OF assms(1)] in \<open>auto split: if_splits\<close>)

lemma inv_commit:
  assumes inv: "sink_inv decode logs t0 g" and logs: "log_ok logs" and all: "set (sg_batch g i) \<subseteq> set (stored g)"
  shows "sink_inv decode logs t0 (g\<lparr>sg_sinks := f, sg_batch := (sg_batch g)(i := []),
     sg_offsets := fold (\<lambda>(p, n). AList.update p n) (sg_positions g i) (sg_offsets g)\<rparr>)"
proof (rule sink_invI, goal_cases)
  case (4 x p)
  then have x: "x < resume_index (logs p) (case map_of (sg_positions g i) p of Some n \<Rightarrow> Some n | None \<Rightarrow> map_of (sg_offsets g) p)"
    by (simp add: commit_positions [OF sink_invD(7) [OF inv]])
  show ?case
  proof (cases "map_of (sg_positions g i) p")
    case None
    with x sink_invD(4) [OF inv] show ?thesis by simp
  next
    case (Some n)
    from sink_invD(8) [OF inv this] obtain y where y: "sg_owner g p = Some i" "sg_next g p = Suc y"
      "n = k_offset (logs p ! y) + 1" by blast
    then have "y < length (logs p)" using sink_invD(5) [OF inv y(1)] by simp
    with resume_after [OF logs this] x Some y have "x < sg_next g p" by simp
    with sink_invD(6) [OF inv y(1)] all show ?thesis by auto
  qed
next
  case (6 p j x)
  with sink_invD(6) [OF inv, of p j x] all show ?case by (auto split: if_splits)
qed (use sink_invD [OF inv] in \<open>auto split: if_splits\<close>)

lemma inv_step:
  assumes "sink_step (write_batch decode wr) logs g g'" and "sink_inv decode logs t0 g" and "log_ok logs"
  shows "sink_inv decode logs t0 g'"
  using assms(1)
proof cases
  case (sink_joined p i)
  note D = sink_invD [OF assms(2)]
  show ?thesis unfolding sink_joined(1)
  proof (rule sink_invI, goal_cases)
    case (5 q j)
    then show ?case using D(5) resume_index_le by (auto split: if_splits)
  next
    case (6 q j x)
    then show ?case using D(6) [of q j x] D(4) [of x q] by (auto split: if_splits)
  next
    case (8 j q n)
    then show ?case using D(8) [of j q n] sink_joined(2) by auto
  qed (use D in auto)
next
  case (sink_polled p i m)
  note D = sink_invD [OF assms(2)]
  show ?thesis unfolding sink_polled(1)
  proof (rule sink_invI, goal_cases)
    case (3 m' j)
    then have "m' \<in> set (sg_batch g j) \<or> m' = logs p ! sg_next g p" using sink_polled(4) by (auto split: if_splits)
    then show ?case using D(3) [of m' j] sink_polled(3) nth_mem by blast
  next
    case (5 q j)
    then show ?case using D(5) sink_polled(3) by (auto split: if_splits)
  next
    case (6 q j x)
    then show ?case using D(6) [of q j x] sink_polled(2,4) by (auto simp: less_Suc_eq split: if_splits)
  next
    case (8 j q n)
    then show ?case using D(8) [of j q n] sink_polled(2,4) by (auto simp: dict_simps split: if_splits)
  qed (use D in \<open>auto split: if_splits\<close>)
next
  case (sink_written lost i s tbl)
  from inv_commit [OF inv_store [OF assms(2) sink_written(2)] assms(3), of i "(sg_sinks g)(i := s)"]
  show ?thesis unfolding sink_written(1)
    by (rule back_subst [of "sink_inv decode logs t0"]) (simp, rule sink_group.equality, simp_all)
next
  case (sink_uncommitted lost i s tbl)
  from inv_restart [OF inv_store [OF assms(2) sink_uncommitted(2)]] show ?thesis
    unfolding sink_uncommitted(1) .
next
  case (sink_crashed i)
  then show ?thesis using inv_restart [OF assms(2)] by simp
next
  case (sink_gave_up ps i)
  note D = sink_invD [OF assms(2)]
  show ?thesis unfolding sink_gave_up(1)
  proof (rule sink_invI, goal_cases)
    case (5 q j)
    then show ?case using D(5) by (auto split: if_splits)
  next
    case (6 q j x)
    then show ?case using D(6) [of q j x] by (auto split: if_splits)
  next
    case (8 j q n)
    have "map_of (sg_positions g j) q = Some n \<and> q \<notin> set ps"
    proof (cases "j = i")
      case False
      with 8 have m: "map_of (sg_positions g j) q = Some n" by simp
      then have "sg_owner g q = Some j" using D(8) by blast
      with False m sink_gave_up(2) show ?thesis by auto
    qed (use 8 in \<open>auto simp: map_of_fold_delete split: if_splits\<close>)
    then show ?case using D(8) [of j q n] by auto
  qed (use D in auto)
qed

lemma inv_reaches:
  "sink_reaches (write_batch decode wr) logs t0 g \<Longrightarrow> log_ok logs \<Longrightarrow> sink_inv decode logs t0 g"
proof (induction rule: sink_reaches.induct)
  case sink_started
  show ?case by (rule sink_invI) (auto simp: start_sink_group_def resume_index_def)
qed (blast intro: inv_step)

end

subsection \<open>Exactly one row per key\<close>

lemma put_missing_rows:
  "distinct (map fst (fold put_missing rows t)) = distinct (map fst t) \<and>
   fst ` set (fold put_missing rows t) = fst ` set t \<union> fst ` set rows \<and>
   set (fold put_missing rows t) \<subseteq> set t \<union> set rows"
proof (induction rows arbitrary: t)
  case (Cons r rows)
  have "distinct (map fst (put_missing r t)) = distinct (map fst t)"
    "fst ` set (put_missing r t) = fst ` set t \<union> {fst r}" "set (put_missing r t) \<subseteq> set t \<union> {r}"
    by (auto simp: put_missing_def map_of_eq_None_iff dom_map_of_conv_image_fst)
  with Cons.IH [of "put_missing r t"] show ?case by auto
qed simp

locale key_sink = sink_writer put_missing wr row
  for wr :: "'e list \<Rightarrow> ('k, 'v) pydict \<Rightarrow> pgerror + ('k, 'v) pydict \<times> int" and row :: "'e \<Rightarrow> 'k \<times> 'v"
begin

lemma one_row_per_key:
  assumes "sink_reaches (write_batch decode wr) logs [] g" and "log_ok logs"
  shows "distinct (map fst (sg_table g)) \<and>
    (\<forall>p e. \<forall>x < resume_index (logs p) (map_of (sg_offsets g) p).
       event_in decode (logs p ! x) = Some e \<longrightarrow> fst (row e) \<in> fst ` set (sg_table g)) \<and>
    (\<forall>r \<in> set (sg_table g). \<exists>p e. \<exists>m \<in> set (logs p). event_in decode m = Some e \<and> r = row e)"
proof -
  note D = sink_invD [OF inv_reaches [OF assms]]
  note rows = put_missing_rows [of "map row (readable decode (stored g))" "[]", folded D(1)]
  show ?thesis
  proof (intro conjI allI impI ballI)
    show "distinct (map fst (sg_table g))" using rows by simp
  next
    fix p e x assume "x < resume_index (logs p) (map_of (sg_offsets g) p)" "event_in decode (logs p ! x) = Some e"
    then have "e \<in> set (readable decode (stored g))" using D(4) by (auto simp: readable_member)
    then show "fst (row e) \<in> fst ` set (sg_table g)" using rows by auto
  next
    fix r assume "r \<in> set (sg_table g)"
    then obtain e where e: "e \<in> set (readable decode (stored g))" "r = row e" using rows by auto
    then obtain m where "m \<in> set (stored g)" "event_in decode m = Some e" by (auto simp: readable_member)
    then show "\<exists>p e. \<exists>m \<in> set (logs p). event_in decode m = Some e \<and> r = row e"
      using D(2) e(2) by blast
  qed
qed

end

interpretation edits_sink: key_sink "insert_edits rt storable" "as_row rt" for rt storable
  by unfold_locales (auto simp: insert_edits_def dest: insert_rows_result)

interpretation alerts_sink: key_sink "insert_alerts storable" alert_row for storable
  by unfold_locales (auto simp: insert_alerts_def dest: insert_rows_result)

lemma event_in_iff: "event_in decode m = Some e \<longleftrightarrow> decode (k_value m) = Inr (Some e)"
  by (auto simp: event_in_def split: sum.splits)

text \<open>The same for the alerts sink, keyed by alert id.\<close>

lemma alerts_sink_stores_each_alert_once:
  assumes "sink_reaches (alerts_batch rt storable) logs [] g" and "log_ok logs"
  shows "distinct (map fst (sg_table g)) \<and>
    (\<forall>p a. \<forall>x < resume_index (logs p) (map_of (sg_offsets g) p).
       alert_from_json rt (k_value (logs p ! x)) = Inr (Some a) \<longrightarrow> alert_id a \<in> fst ` set (sg_table g)) \<and>
    (\<forall>r \<in> set (sg_table g). \<exists>p a. \<exists>m \<in> set (logs p).
       alert_from_json rt (k_value m) = Inr (Some a) \<and> r = alert_row a)"
  using alerts_sink.one_row_per_key [OF assms(1) [unfolded alerts_batch_def] assms(2)]
  unfolding event_in_iff by (simp add: alert_row_def)

text \<open>
  C6. Rows first, offsets second, gives exactly one row per event. Whatever rebalances, crashes and
  lost database connections a group of sinks goes through, every readable record of
  \<^verbatim>\<open>wiki.clean\<close> below a committed offset has the row of its event id in the table, no id
  has two rows, and every row is that of a record of the topic.
\<close>

theorem sink_stores_each_event_once:
  assumes "sink_reaches (edits_batch rt storable) logs [] g" and "log_ok logs"
  shows "distinct (map fst (sg_table g)) \<and>
    (\<forall>p e. \<forall>x < resume_index (logs p) (map_of (sg_offsets g) p).
       from_json rt (k_value (logs p ! x)) = Inr (Some e) \<longrightarrow> event_id e \<in> fst ` set (sg_table g)) \<and>
    (\<forall>r \<in> set (sg_table g). \<exists>p e. \<exists>m \<in> set (logs p).
       from_json rt (k_value m) = Inr (Some e) \<and> r = as_row rt e)"
  using edits_sink.one_row_per_key [OF assms(1) [unfolded edits_batch_def] assms(2)]
  unfolding event_in_iff by (simp add: as_row_def)

text \<open>The records stored are those the database accepts.\<close>

lemma edits_batch_storable:
  assumes "edits_batch rt storable lost batch s t = Inr (s', t')" and "m \<in> set batch"
    and "from_json rt (k_value m) = Inr (Some e)"
  shows "storable (as_row rt e)"
proof -
  obtain es bad n where d: "decode_batch (from_json rt) batch = Inr (es, bad)"
    and w: "db_write (insert_edits rt storable es) lost t = Inr (t', n)"
    using assms(1) by (auto simp: edits_batch_def write_batch_def split: sum.splits)
  have "list_all storable (map (as_row rt) es)"
    using w
  proof (induction lost arbitrary: t)
    case (Cons b lost)
    then show ?case by (cases b) (auto simp: bind_res_Inr_iff)
  qed (simp add: insert_edits_def insert_rows_def split: if_splits)
  moreover have "e \<in> set es"
    using decode_batch_readable [OF d] assms(2,3) by (auto simp: readable_member event_in_def intro!: bexI [of _ m])
  ultimately show ?thesis by (simp add: list_all_iff)
qed

lemma stored_storable:
  "sink_reaches (edits_batch rt storable) logs t0 g \<Longrightarrow>
   m \<in> set (stored g) \<Longrightarrow> from_json rt (k_value m) = Inr (Some e) \<Longrightarrow> storable (as_row rt e)"
proof (induction rule: sink_reaches.induct)
  case sink_started
  then show ?case by (simp add: start_sink_group_def)
next
  case (sink_stepped g g')
  from sink_stepped.hyps(2) show ?case
  proof cases
    case (sink_written lost i s tbl)
    then show ?thesis using sink_stepped.IH sink_stepped.prems edits_batch_storable [OF sink_written(2)] by auto
  next
    case (sink_uncommitted lost i s tbl)
    then show ?thesis
      using sink_stepped.IH sink_stepped.prems edits_batch_storable [OF sink_uncommitted(2)]
      by (auto simp: sink_restart_def)
  qed (use sink_stepped.IH sink_stepped.prems in \<open>auto simp: sink_restart_def\<close>)
qed

text \<open>
  C28. One record the database refuses stops its partition for good. If a record can be read but
  its row cannot be stored (PostgreSQL has no NUL character in a text, and the cleaner lets one
  through), then every batch that holds it ends the sink with an error, and the committed
  offset never passes it, however often the sink is restarted: there is no way around it as
  there is for an unreadable record.
\<close>

theorem unstorable_record_blocks_partition:
  assumes "sink_reaches (edits_batch rt storable) logs [] g" and "log_ok logs"
    and "from_json rt (k_value (logs p ! x)) = Inr (Some e)" and "\<not> storable (as_row rt e)"
  shows "resume_index (logs p) (map_of (sg_offsets g) p) \<le> x \<and>
    (\<forall>i lost. logs p ! x \<in> set (sg_batch g i) \<longrightarrow>
       (\<exists>err. edits_batch rt storable lost (sg_batch g i) (sg_sinks g i) (sg_table g) = Inl err))"
proof (intro conjI allI impI)
  have inv: "edits_sink.sink_inv rt (from_json rt) logs [] g"
    using edits_sink.inv_reaches [OF assms(1) [unfolded edits_batch_def] assms(2)] .
  have "logs p ! x \<notin> set (stored g)" using stored_storable [OF assms(1) _ assms(3)] assms(4) by blast
  then show "resume_index (logs p) (map_of (sg_offsets g) p) \<le> x"
    using edits_sink.sink_invD(4) [OF inv] by (meson not_le)
next
  fix i lost assume "logs p ! x \<in> set (sg_batch g i)"
  then have "edits_batch rt storable lost (sg_batch g i) (sg_sinks g i) (sg_table g) \<noteq> Inr (s, t)" for s t
    using edits_batch_storable assms(3,4) by blast
  then show "\<exists>err. edits_batch rt storable lost (sg_batch g i) (sg_sinks g i) (sg_table g) = Inl err"
    by (metis sum.exhaust surj_pair)
qed

subsection \<open>Runs\<close>

text \<open>An event the cleaner accepts although its comment holds a NUL.\<close>

definition nul_raw :: raw where
  "nul_raw =
     [(ascii ''meta'', JObj [(ascii ''id'', JStr (ascii ''a1'')), (ascii ''dt'', JStr (ascii ''2024-09-22T10:13:20Z''))]),
      (ascii ''type'', JStr (ascii ''edit'')), (ascii ''wiki'', JStr (ascii ''enwiki'')),
      (ascii ''title'', JStr (ascii '' Main  Page'')), (ascii ''namespace'', JInt 0),
      (ascii ''bot'', JBool True), (ascii ''comment'', JStr [97, 0, 98]),
      (ascii ''revision'', JObj [(ascii ''old'', JInt 7), (ascii ''new'', JInt 8)])]"

definition nul_event :: CleanEvent where
  "nul_event = sample_event\<lparr>comment := [97, 0, 98]\<rparr>"

lemma nul_clean: "clean_event plain_runtime nul_raw = Inr nul_event"
proof -
  have "normalise_space (ascii '' Main  Page'') = ascii ''Main Page''"
    "strip [97, 0, 98] = [97, 0, 98]" "strip (ascii '' Main  Page'') \<noteq> []" "strip [] = []"
    by (simp_all add: normalise_space_def split_ws.simps is_space_def ascii_def strip_def)
  moreover have f: "field_of nul_raw ''timestamp'' = field_of sample_raw ''timestamp''"
    "get_default nul_raw (ascii ''meta'') (JObj []) = get_default sample_raw (ascii ''meta'') (JObj [])"
    by (simp_all add: nul_raw_def sample_raw_def field_of_def)
  have "event_time_of plain_runtime nul_raw = event_time_of plain_runtime sample_raw"
    unfolding event_time_of_def f ..
  ultimately show ?thesis
    unfolding clean_event_def sample_event_time
    by (simp add: sample_event_time nul_raw_def field_of_def nul_event_def sample_event_def event_id_of_def check_type_def
        EVENT_TYPES_def optional_ints_def dict_or_empty_def str_or_empty_def)
qed

definition no_nul :: "ustr \<times> edit_columns \<Rightarrow> bool" where
  "no_nul = (\<lambda>(_, _, _, _, _, _, _, _, cm, _). 0 \<notin> set cm)"

lemma event_bytes: "encodable_event e \<Longrightarrow> small_ints e \<Longrightarrow> \<exists>v. from_json plain_runtime (Some v) = Inr (Some e)"
  using to_json_ok [of e plain_runtime] from_json_to_json [of plain_runtime e] by blast

definition row_msg :: "bytes \<Rightarrow> int \<Rightarrow> kmsg" where
  "row_msg v n = \<lparr>k_topic = [], k_partition = 0, k_offset = n, k_time = 0, k_key = None, k_value = Some v\<rparr>"

definition row_log :: "bytes \<Rightarrow> int \<Rightarrow> kmsg list" where
  "row_log v p = (if p = 0 then [row_msg v 4] else [])"

lemma row_log_ok: "log_ok (row_log v)"
  by (simp add: log_ok_def row_log_def row_msg_def)

lemma row_log_simps [simp]: "row_log v 0 = [row_msg v 4]" "k_value (row_msg v n) = Some v" "k_offset (row_msg v n) = n"
  by (simp_all add: row_log_def row_msg_def)

lemma holding_row:
  fixes wr :: "bool list \<Rightarrow> kmsg list \<Rightarrow> sink \<Rightarrow> 'x list \<Rightarrow> sink_error + sink \<times> 'x list"
  shows "\<exists>g. sink_reaches wr (row_log v) [] g \<and> sg_batch g 0 = [row_msg v 4] \<and> sg_positions g 0 = [(0, 5)] \<and>
     sg_table g = [] \<and> sg_offsets g = [] \<and> sg_sinks g 0 = new_sink"
proof -
  let ?g0 = "start_sink_group ([] :: 'x list)"
  let ?g1 = "?g0\<lparr>sg_owner := (sg_owner ?g0)(0 := Some 0),
         sg_next := (sg_next ?g0)(0 := resume_index (row_log v 0) (map_of (sg_offsets ?g0) 0))\<rparr>"
  have r1: "sink_reaches wr (row_log v) [] ?g1"
    by (rule sink_stepped [OF sink_started], rule sink_joined) (simp add: start_sink_group_def)
  have n: "sg_next ?g1 0 = 0" by (simp add: start_sink_group_def resume_index_def)
  have "sink_step wr (row_log v) ?g1
      (?g1\<lparr>sg_batch := (sg_batch ?g1)(0 := sg_batch ?g1 0 @ [row_msg v 4]),
         sg_positions := (sg_positions ?g1)(0 := AList.update 0 (k_offset (row_msg v 4) + 1) (sg_positions ?g1 0)),
         sg_next := (sg_next ?g1)(0 := Suc (sg_next ?g1 0))\<rparr>)"
    by (rule sink_polled) (use n in simp_all)
  from sink_stepped [OF r1 this] show ?thesis
    by (intro exI conjI) (assumption, simp_all add: start_sink_group_def)
qed

theorem sink_stores_each_event_once_witness:
  "\<exists>v g. sink_reaches (edits_batch plain_runtime (\<lambda>_. True)) (row_log v) [] g \<and> sg_offsets g = [(0, 5)] \<and>
     event_id sample_event \<in> fst ` set (sg_table g)"
proof -
  have "encodable_event sample_event" "small_ints sample_event"
    by (simp_all add: encodable_event_def small_ints_def int_ok_def sample_event_def digits_of.simps MAX_STR_DIGITS_def)
  then obtain v where v: "from_json plain_runtime (Some v) = Inr (Some sample_event)" using event_bytes by blast
  let ?wr = "edits_batch plain_runtime (\<lambda>_. True)"
  obtain g where g: "sink_reaches ?wr (row_log v) [] g" "sg_batch g 0 = [row_msg v 4]" "sg_positions g 0 = [(0, 5)]"
     "sg_table g = []" "sg_offsets g = []" "sg_sinks g 0 = new_sink"
    using holding_row by blast
  obtain s tbl where w: "?wr [True] (sg_batch g 0) (sg_sinks g 0) (sg_table g) = Inr (s, tbl)"
    by (simp add: g edits_batch_def write_batch_def v insert_edits_def insert_rows_def paged_one PAGE_SIZE_def as_row_def)
  let ?g' = "g\<lparr>sg_sinks := (sg_sinks g)(0 := s), sg_batch := (sg_batch g)(0 := []), sg_table := tbl,
         sg_offsets := fold (\<lambda>(p, n). AList.update p n) (sg_positions g 0) (sg_offsets g),
         stored := stored g @ sg_batch g 0\<rparr>"
  have "sink_step ?wr (row_log v) g ?g'" by (rule sink_written [where lost = "[True]"]) (use w g in simp_all)
  from sink_stepped [OF g(1) this] have r: "sink_reaches ?wr (row_log v) [] ?g'" .
  have off: "sg_offsets ?g' = [(0, 5)]" by (simp add: g)
  have "0 < resume_index (row_log v 0) (map_of (sg_offsets ?g') 0)" unfolding off by (simp add: resume_index_def)
  moreover have "from_json plain_runtime (k_value (row_log v 0 ! 0)) = Inr (Some sample_event)" by (simp add: v)
  ultimately have "event_id sample_event \<in> fst ` set (sg_table ?g')"
    using sink_stores_each_event_once [OF r row_log_ok] by blast
  with r off show ?thesis by blast
qed

theorem unstorable_record_blocks_partition_witness:
  "\<exists>v g err. clean_event plain_runtime nul_raw = Inr nul_event \<and>
     from_json plain_runtime (Some v) = Inr (Some nul_event) \<and>
     sink_reaches (edits_batch plain_runtime no_nul) (row_log v) [] g \<and>
     edits_batch plain_runtime no_nul [] (sg_batch g 0) (sg_sinks g 0) (sg_table g) = Inl err"
proof -
  have "encodable_event nul_event" "small_ints nul_event"
    by (simp_all add: encodable_event_def small_ints_def int_ok_def nul_event_def sample_event_def digits_of.simps
        MAX_STR_DIGITS_def surrogate_def)
  then obtain v where v: "from_json plain_runtime (Some v) = Inr (Some nul_event)" using event_bytes by blast
  obtain g where g: "sink_reaches (edits_batch plain_runtime no_nul) (row_log v) [] g" "sg_batch g 0 = [row_msg v 4]"
    using holding_row by blast
  have "\<not> no_nul (as_row plain_runtime nul_event)" by (simp add: no_nul_def as_row_def nul_event_def)
  moreover have "from_json plain_runtime (k_value (row_log v 0 ! 0)) = Inr (Some nul_event)"
    "row_log v 0 ! 0 \<in> set (sg_batch g 0)" using v g(2) by simp_all
  ultimately have "\<exists>err. edits_batch plain_runtime no_nul [] (sg_batch g 0) (sg_sinks g 0) (sg_table g) = Inl err"
    using unstorable_record_blocks_partition [OF g(1) row_log_ok, of 0 0] by blast
  with v g(1) nul_clean show ?thesis by blast
qed

end
