(* ===== verification/EndToEnd.thy ===== *)
theory EndToEnd
  imports Cleaner Sink IntLimits
begin

text \<open>
  The cleaners and the sinks put together: \<^verbatim>\<open>wiki.raw\<close> through the transactional loop
  with the cleaner's handler and hooks, \<^verbatim>\<open>wiki.clean\<close> through the sinks, into the table
  \<^verbatim>\<open>edits\<close>. Both are groups of processes that crash, restart and hand partitions over.
\<close>

subsection \<open>The group of cleaners\<close>

text \<open>
  The hook of an assignment. If the warm-up raises, the process ends; a cleaner that went on with
  the caches it had could do no more than one that does, so the hook leaves them and a crash may
  follow.
\<close>

definition cleaner_assigned ::
  "PartitionReplayer \<Rightarrow> (int \<Rightarrow> broker) \<Rightarrow> (int \<Rightarrow> int \<Rightarrow> poll list) \<Rightarrow> int \<Rightarrow> int option \<Rightarrow> Cleaner \<Rightarrow> Cleaner" where
  "cleaner_assigned r b polls p committed cl =
     (case partitions_assigned r b polls (\<lambda>_. committed) [p] cl of None \<Rightarrow> cl | Some cl' \<Rightarrow> cl')"

abbreviation cleaners_reach ::
  "runtime \<Rightarrow> ustr \<Rightarrow> ustr \<Rightarrow> ustr \<Rightarrow> PartitionReplayer \<Rightarrow> (int \<Rightarrow> broker) \<Rightarrow> (int \<Rightarrow> int \<Rightarrow> poll list) \<Rightarrow>
   (int \<Rightarrow> kmsg list) \<Rightarrow> Cleaner txn_group \<Rightarrow> bool" where
  "cleaners_reach rt tc td now r b polls logs g \<equiv>
     txn_reaches False False (handle rt tc td now) (cleaner_assigned r b polls) partitions_revoked new_cleaner logs g"

text \<open>The event of a raw message, and the event in a record of the clean topic.\<close>

definition raw_event :: "runtime \<Rightarrow> kmsg \<Rightarrow> CleanEvent option" where
  "raw_event rt m = (case validated rt (payload_of (k_value m)) of Inr x \<Rightarrow> x | Inl _ \<Rightarrow> None)"

definition clean_output :: "runtime \<Rightarrow> ustr \<Rightarrow> outgoing \<Rightarrow> CleanEvent option" where
  "clean_output rt tc o' =
     (if out_topic o' = tc then (case from_json rt (out_value o') of Inr x \<Rightarrow> x | Inl _ \<Rightarrow> None) else None)"

definition cleaned :: "runtime \<Rightarrow> ustr \<Rightarrow> outgoing list \<Rightarrow> CleanEvent set" where
  "cleaned rt tc outs = {e. \<exists>o' \<in> set outs. clean_output rt tc o' = Some e}"

abbreviation cleaned_ids :: "runtime \<Rightarrow> ustr \<Rightarrow> outgoing list \<Rightarrow> ustr set" where
  "cleaned_ids rt tc outs \<equiv> event_id ` cleaned rt tc outs"

lemma cleaned_simps [simp]:
  "cleaned rt tc [] = {}"
  "cleaned rt tc (outs @ outs') = cleaned rt tc outs \<union> cleaned rt tc outs'"
  by (auto simp: cleaned_def)

lemma raw_event_small: "raw_event rt m = Some e \<Longrightarrow> small_ints e"
  unfolding raw_event_def
  using validated_event [of rt "payload_of (k_value m)" e] clean_event_small by (auto split: sum.splits)

lemma raw_event_id: "raw_event rt m = Some e \<Longrightarrow> id_of_msg m = Inr (event_id e)"
  unfolding raw_event_def
  using validated_event [of rt "payload_of (k_value m)" e]
  by (auto simp: id_of_msg_def split: sum.splits elim!: clean_eventE)

lemma clean_output_record:
  assumes "clean_record rt tc m e = Inr o'" and "small_ints e"
  shows "clean_output rt tc o' = Some e"
  using assms(1) from_json_to_json [OF _ assms(2)] by (auto simp: clean_record_def clean_output_def bind_res_Inr_iff)

text \<open>What one message does to the caches and sends.\<close>

abbreviation held_of :: "Cleaner \<Rightarrow> int \<Rightarrow> ustr set" where
  "held_of cl p \<equiv> held_ids (cache_for cl p)"

definition wf_caches :: "Cleaner \<Rightarrow> bool" where
  "wf_caches cl \<longleftrightarrow> (\<forall>p. wf_cache (cache_for cl p))"

lemma cache_for_update:
  "caches cl' = AList.update p c (caches cl) \<Longrightarrow> cache_for cl' q = (if q = p then c else cache_for cl q)"
  by (simp add: cache_for_def dict_simps)

lemma transform_raw_event:
  assumes "transform rt (payload_of (k_value m)) c t = Inr (result, c')"
  shows "case raw_event rt m of
      None \<Rightarrow> c' = c \<and> (\<forall>e. result \<noteq> Clean e)
    | Some e \<Rightarrow> (\<exists>t'. c' = fst (is_new c (event_id e) t') \<and>
        (if snd (is_new c (event_id e) t') then result = Clean e else result = Duplicate (event_id e)))"
proof -
  have v: "validated rt (payload_of (k_value m)) = bind_res (parse_raw (payload_of (k_value m))) (\<lambda>raw.
       if is_canary raw then Inr None else map_sum id Some (clean_event rt raw))"
    by (simp add: validated_def)
  show ?thesis
  proof (cases "raw_event rt m")
    case None
    with assms show ?thesis
      unfolding transform_def raw_event_def v [symmetric] Let_def
      by (cases "validated rt (payload_of (k_value m))") (auto split: exc.splits option.splits)
  next
    case (Some e)
    then have val: "validated rt (payload_of (k_value m)) = Inr (Some e)"
      unfolding raw_event_def by (simp split: sum.splits)
    with assms obtain ms where ms: "event_time_ms rt e t = Inr ms"
      unfolding transform_def v [symmetric] Let_def by (auto simp: bind_res_Inr_iff)
    obtain c1 b where n: "is_new c (event_id e) ms = (c1, b)" by (cases "is_new c (event_id e) ms")
    have "c' = c1 \<and> result = (if b then Clean e else Duplicate (event_id e))"
      using assms val ms n unfolding transform_def v [symmetric] Let_def by (auto split: if_splits)
    with n have "c' = fst (is_new c (event_id e) ms) \<and> (if snd (is_new c (event_id e) ms) then result = Clean e
        else result = Duplicate (event_id e))" by simp
    then show ?thesis unfolding Some option.case by (rule exI)
  qed
qed

lemma handle_effect:
  assumes "handle rt tc td now cl m = Inr (cl', outs)" and "wf_caches cl" and "tc \<noteq> td"
  shows "wf_caches cl'"
    and "held_of cl' q \<subseteq> held_of cl q \<union> (if q = k_partition m then cleaned_ids rt tc outs else {})"
    and "cleaned rt tc outs \<subseteq> {e. raw_event rt m = Some e}"
    and "raw_event rt m = Some e \<Longrightarrow> event_id e \<in> held_of cl (k_partition m) \<union> cleaned_ids rt tc outs"
proof -
  let ?p = "k_partition m"
  obtain result c where t: "transform rt (payload_of (k_value m)) (cache_for cl ?p) (Some (k_time m)) = Inr (result, c)"
    using assms(1) by (auto simp: handle_def bind_res_Inr_iff)
  note te = transform_raw_event [OF t]
  have cl': "caches cl' = AList.update ?p c (caches cl)"
    using assms(1) t by (auto simp: handle_def bind_res_Inr_iff Let_def split: outcome.splits)
  note cf = cache_for_update [OF cl']
  have wf: "wf_cache (cache_for cl ?p)" using assms(2) by (simp add: wf_caches_def)
  have outs: "cleaned rt tc outs = (case result of Clean e \<Rightarrow> {e} | _ \<Rightarrow> {})"
  proof (cases result)
    case (Clean e)
    then have e: "raw_event rt m = Some e" using te by (auto split: option.splits if_splits)
    obtain o' where "clean_record rt tc m e = Inr o'" "outs = [o']"
      using assms(1) t Clean by (auto simp: handle_def bind_res_Inr_iff Let_def)
    with clean_output_record [OF _ raw_event_small [OF e]] show ?thesis by (simp add: Clean cleaned_def)
  next
    case (Rejected r pl)
    obtain o' where "dlq_message rt td now m r pl = Inr o'" "outs = [o']"
      using assms(1) t Rejected by (auto simp: handle_def bind_res_Inr_iff Let_def)
    then show ?thesis using assms(3) by (auto simp: Rejected dlq_message_def cleaned_def clean_output_def bind_res_Inr_iff)
  qed (use assms(1) t in \<open>auto simp: handle_def bind_res_Inr_iff Let_def\<close>)
  show "wf_caches cl'"
    using assms(2) te wf_is_new [OF wf] by (auto simp: wf_caches_def cf split: option.splits)
  show "held_of cl' q \<subseteq> held_of cl q \<union> (if q = ?p then cleaned_ids rt tc outs else {})"
  proof (cases "raw_event rt m")
    case (Some e)
    then obtain t' where c: "c = fst (is_new (cache_for cl ?p) (event_id e) t')"
      and r: "if snd (is_new (cache_for cl ?p) (event_id e) t') then result = Clean e else result = Duplicate (event_id e)"
      using te by auto
    show ?thesis
      using held_is_new [OF wf, of "event_id e" t'] is_new_refused_held [of "cache_for cl ?p" "event_id e" t'] r
      by (auto simp: cf c outs split: if_splits)
  qed (use te in \<open>auto simp: cf\<close>)
  show "cleaned rt tc outs \<subseteq> {e. raw_event rt m = Some e}"
    using te by (auto simp: outs split: outcome.splits option.splits if_splits)
  show "event_id e \<in> held_of cl ?p \<union> cleaned_ids rt tc outs" if "raw_event rt m = Some e"
    using te that is_new_refused_held by (auto simp: outs split: if_splits)
qed


text \<open>A batch, and a partition's warm-up.\<close>

lemma cleaned_concat: "cleaned rt tc (concat outs) = (\<Union>out \<in> set outs. cleaned rt tc out)"
  by (induction outs) simp_all

lemma batch_effect:
  assumes "handle_each (handle rt tc td now) cl ms = Inr (cl', outs)" and "wf_caches cl" and "tc \<noteq> td"
  shows "wf_caches cl' \<and>
    (\<forall>p. held_of cl' p \<subseteq> held_of cl p \<union>
       {event_id e | e m. m \<in> set ms \<and> k_partition m = p \<and> raw_event rt m = Some e}) \<and>
    (\<forall>m out. (m, out) \<in> set (zip ms outs) \<longrightarrow> cleaned rt tc out \<subseteq> {e. raw_event rt m = Some e}) \<and>
    (\<forall>m e. m \<in> set ms \<longrightarrow> raw_event rt m = Some e \<longrightarrow>
       event_id e \<in> held_of cl (k_partition m) \<union>
         (\<Union>(n, out) \<in> {x \<in> set (zip ms outs). k_partition (fst x) = k_partition m}. cleaned_ids rt tc out))"
  using assms(1,2)
proof (induction ms arbitrary: cl outs)
  case (Cons m ms)
  obtain cl1 out outs' where h: "handle rt tc td now cl m = Inr (cl1, out)"
    and r: "handle_each (handle rt tc td now) cl1 ms = Inr (cl', outs')" and o': "outs = out # outs'"
    using Cons.prems(1) by (auto simp: bind_res_Inr_iff)
  note e = handle_effect [OF h Cons.prems(2) assms(3)]
  note I = Cons.IH [OF r e(1)]
  have held: "held_of cl' p \<subseteq> held_of cl p \<union>
      {event_id e | e n. n \<in> set (m # ms) \<and> k_partition n = p \<and> raw_event rt n = Some e}" for p
  proof -
    have "held_of cl1 p \<subseteq> held_of cl p \<union> {event_id e | e. k_partition m = p \<and> raw_event rt m = Some e}"
    proof -
      have "cleaned_ids rt tc out \<subseteq> {event_id e | e. raw_event rt m = Some e}" using e(3) by blast
      then show ?thesis using e(2) [of p] by (cases "p = k_partition m") (simp, blast, simp)
    qed
    with I show ?thesis by fastforce
  qed
  have out: "cleaned rt tc out1 \<subseteq> {e. raw_event rt n = Some e}"
    if "(n, out1) \<in> set (zip (m # ms) outs)" for n out1
  proof -
    have "n = m \<and> out1 = out \<or> (n, out1) \<in> set (zip ms outs')" using that by (auto simp: o')
    then show ?thesis using e(3) I by blast
  qed
  have found: "event_id ev \<in> held_of cl (k_partition n) \<union>
       (\<Union>(n', out) \<in> {x \<in> set (zip (m # ms) outs). k_partition (fst x) = k_partition n}. cleaned_ids rt tc out)"
    if n: "n \<in> set (m # ms)" "raw_event rt n = Some ev" for n ev
  proof (cases "n = m")
    case True
    with e(4) [of ev] n(2) show ?thesis by (auto simp: o')
  next
    case False
    with n have "event_id ev \<in> held_of cl1 (k_partition n) \<union>
       (\<Union>(n', out) \<in> {x \<in> set (zip ms outs'). k_partition (fst x) = k_partition n}. cleaned_ids rt tc out)"
      using I by auto
    with e(2) [of "k_partition n"] show ?thesis by (auto simp: o' split: if_splits)
  qed
  show ?case using I held out found by blast
qed simp

lemma warmed_held:
  assumes "cleaner_assigned r b polls p committed cl = cl'" and "wf_caches cl"
  shows "wf_caches cl' \<and> held_of cl' q \<subseteq> held_of cl q \<union>
    (if q = p then {i. \<exists>m start n. Message m \<in> set (polls p start) \<and> committed = Some n \<and> k_offset m < n \<and> id_of_msg m = Inr i}
     else {})"
proof (cases "partitions_assigned r b polls (\<lambda>_. committed) [p] cl = None")
  case True
  with assms show ?thesis by (auto simp: cleaner_assigned_def)
next
  case False
  then have some: "partitions_assigned r b polls (\<lambda>_. committed) [p] cl = Some cl'"
    using assms(1) by (auto simp: cleaner_assigned_def)
  then obtain cs where cs: "warm r b polls (\<lambda>_. committed) [p] (caches cl) = Some cs" "cl' = cl\<lparr>caches := cs\<rparr>"
    by (auto simp: partitions_assigned_def)
  have wf: "wf_cache (cache_for cl p)" using assms(2) by (simp add: wf_caches_def)
  show ?thesis
  proof (cases "\<exists>n \<ge> 0. committed = Some n")
    case False
    then have "committed = None \<or> (\<exists>n < 0. committed = Some n)" by (cases committed) (auto simp: not_le)
    then have "caches cl' = AList.update p (cache_for cl p) (caches cl)"
      using cs by (auto simp: cache_for_def Let_def split: option.splits if_splits)
    then have "cache_for cl' q = cache_for cl q" for q by (simp add: cache_for_update)
    with assms(2) show ?thesis by (simp add: wf_caches_def)
  next
    case True
    then obtain n where n: "committed = Some n" "n \<ge> 0" by blast
    from cs n obtain c res where w: "warm_cache r (b p) (polls p) p (cache_for cl p) n = Some (Some c, res)"
      and u: "caches cl' = AList.update p c (AList.update p (cache_for cl p) (caches cl))"
      by (auto simp: cache_for_def Let_def split: option.splits prod.splits)
    have cf: "cache_for cl' q = (if q = p then c else cache_for cl q)" for q
      using u by (simp add: cache_for_def dict_simps)
    from warmup_never_past_commit [OF w [unfolded warm_cache_def]]
    obtain ms start where polled: "\<forall>m \<in> set ms. k_offset m < n" "Message ` set ms \<subseteq> set (polls p start)"
      and f: "Some c = fold (\<lambda>m c. fst (load_id (pr_now_ms r) c m)) ms (Some (cache_for cl p))" by blast
    from polled have ms: "\<forall>m \<in> set ms. k_offset m < n \<and> Message m \<in> set (polls p start)" by blast
    from load_fold_held [OF f [symmetric] wf] ms n show ?thesis
      using assms(2) by (auto simp: wf_caches_def cf) blast+
  qed
qed


subsection \<open>Every valid edit is cleaned, and nothing else\<close>

text \<open>
  A rejected message or a heartbeat never carries the id of a valid edit of its partition.
\<close>

definition ids_apart :: "runtime \<Rightarrow> (int \<Rightarrow> kmsg list) \<Rightarrow> bool" where
  "ids_apart rt logs \<longleftrightarrow>
     (\<forall>p. \<forall>m \<in> set (logs p). \<forall>n \<in> set (logs p). \<forall>e.
        raw_event rt m = Some e \<and> id_of_msg n = Inr (event_id e) \<longrightarrow> raw_event rt n \<noteq> None)"

definition polls_from :: "(int \<Rightarrow> int \<Rightarrow> poll list) \<Rightarrow> (int \<Rightarrow> kmsg list) \<Rightarrow> bool" where
  "polls_from polls logs \<longleftrightarrow> (\<forall>p start m. Message m \<in> set (polls p start) \<longrightarrow> m \<in> set (logs p))"

abbreviation seen_ids :: "Cleaner txn_group \<Rightarrow> int \<Rightarrow> ustr set" where
  "seen_ids g p \<equiv> {i. \<exists>m out. (m, out) \<in> set (effects g) \<and> k_partition m = p \<and> id_of_msg m = Inr i}"

abbreviation ids_cleaned :: "runtime \<Rightarrow> ustr \<Rightarrow> Cleaner txn_group \<Rightarrow> int \<Rightarrow> ustr set" where
  "ids_cleaned rt tc g p \<equiv> {i. \<exists>m out. (m, out) \<in> set (effects g) \<and> k_partition m = p \<and> i \<in> cleaned_ids rt tc out}"

definition cleaner_inv :: "runtime \<Rightarrow> ustr \<Rightarrow> Cleaner txn_group \<Rightarrow> bool" where
  "cleaner_inv rt tc g \<longleftrightarrow>
     (\<forall>i. wf_caches (pstate (members g i))) \<and>
     (\<forall>i p. held_of (pstate (members g i)) p \<subseteq> seen_ids g p) \<and>
     (\<forall>m out. (m, out) \<in> set (effects g) \<longrightarrow> cleaned rt tc out \<subseteq> {e. raw_event rt m = Some e}) \<and>
     (\<forall>m out e. (m, out) \<in> set (effects g) \<longrightarrow> raw_event rt m = Some e \<longrightarrow>
        event_id e \<in> ids_cleaned rt tc g (k_partition m))"

lemma cleaner_invD:
  assumes "cleaner_inv rt tc g"
  shows "wf_caches (pstate (members g i))"
    and "held_of (pstate (members g i)) p \<subseteq> seen_ids g p"
    and "(m, out) \<in> set (effects g) \<Longrightarrow> cleaned rt tc out \<subseteq> {e. raw_event rt m = Some e}"
    and "(m, out) \<in> set (effects g) \<Longrightarrow> raw_event rt m = Some e \<Longrightarrow> event_id e \<in> ids_cleaned rt tc g (k_partition m)"
  using assms unfolding cleaner_inv_def by blast+

text \<open>A step that adds no effect keeps the invariant if its caches hold nothing new.\<close>

lemma cleaner_inv_same:
  assumes "cleaner_inv rt tc g" and "effects g' = effects g"
    and "\<And>i. wf_caches (pstate (members g' i))"
    and "\<And>i p. held_of (pstate (members g' i)) p \<subseteq> seen_ids g p"
  shows "cleaner_inv rt tc g'"
  using assms(1) unfolding cleaner_inv_def assms(2) using assms(3,4) by blast

lemma held_new_cache [simp]: "held_ids new_cache = {}"
  by (simp add: held_ids_def new_cache_def)

lemma new_cleaner_holds [simp]: "held_of new_cleaner p = {}" "wf_caches new_cleaner"
  by (simp_all add: new_cleaner_def wf_caches_def cache_for_def get_default_def)

lemma revoked_holds:
  "held_of (partitions_revoked ps cl) p \<subseteq> held_of cl p" "wf_caches cl \<Longrightarrow> wf_caches (partitions_revoked ps cl)"
  by (auto simp: partitions_revoked_def wf_caches_def cache_for_def get_default_def map_of_fold_delete split: option.splits)

lemma batch_in_logs:
  assumes "txn_inv logs g" and "m \<in> set (batches g i)"
  shows "m \<in> set (logs (k_partition m))"
proof (cases "powner g (k_partition m) = Some i")
  case True
  from txn_invD(4) [OF assms(1) this]
  have "set (of_part (k_partition m) (batches g i)) \<subseteq> set (logs (k_partition m))"
    unfolding owned_ok_def by (metis set_drop_subset set_take_subset subset_trans)
  with assms(2) show ?thesis by auto
next
  case False
  from txn_invD(5) [OF assms(1) this] assms(2) show ?thesis by (auto simp: filter_empty_conv)
qed

lemma effect_in_logs:
  assumes "txn_inv logs g" and "(m, out) \<in> set (effects g)"
  shows "m \<in> set (logs (k_partition m))"
proof -
  have "m \<in> set (map fst (filter (\<lambda>(n, _). k_partition n = k_partition m) (effects g)))"
    using assms(2) by force
  then show ?thesis unfolding txn_invD(1) [OF assms(1)] by (rule in_set_takeD)
qed

lemma committed_in_effects:
  assumes "txn_inv logs g" and "log_ok logs" and "m \<in> set (logs p)"
    and "map_of (committed_offsets (broker_side g)) p = Some n" and "k_offset m < n"
  shows "k_partition m = p \<and> (\<exists>out. (m, out) \<in> set (effects g))"
proof -
  have p: "k_partition m = p" using assms(2,3) by (auto simp: log_ok_def)
  have "m \<in> set (take (idx logs g p) (logs p))"
    unfolding take_resume_filter [OF assms(2)] using assms(3-5) by simp
  then have "m \<in> fst ` set (filter (\<lambda>(m, _). k_partition m = p) (effects g))"
    unfolding txn_invD(1) [OF assms(1), symmetric] set_map .
  then obtain x where "x \<in> set (effects g)" "fst x = m" by (elim imageE) auto
  with p show ?thesis by (cases x) auto
qed

lemma cleaner_inv_commit:
  assumes inv: "cleaner_inv rt tc g" and txn: "txn_inv logs g" and apart: "ids_apart rt logs" and "tc \<noteq> td"
    and he: "handle_each (handle rt tc td now) (pstate (members g i)) (batches g i) = Inr (s, outs)"
    and g': "effects g' = effects g @ zip (batches g i) outs"
    and mem: "\<And>j. pstate (members g' j) = pstate (members g j) \<or> pstate (members g' j) = s \<or> pstate (members g' j) = new_cleaner"
  shows "cleaner_inv rt tc g'"
proof -
  note d = cleaner_invD [OF inv]
  have b: "wf_caches s"
    "held_of s p \<subseteq> held_of (pstate (members g i)) p \<union>
       {event_id e | e m. m \<in> set (batches g i) \<and> k_partition m = p \<and> raw_event rt m = Some e}"
    "(m, out) \<in> set (zip (batches g i) outs) \<Longrightarrow> cleaned rt tc out \<subseteq> {e. raw_event rt m = Some e}"
    "m \<in> set (batches g i) \<Longrightarrow> raw_event rt m = Some e \<Longrightarrow>
       event_id e \<in> held_of (pstate (members g i)) (k_partition m) \<union>
         (\<Union>(n, out) \<in> {x \<in> set (zip (batches g i) outs). k_partition (fst x) = k_partition m}. cleaned_ids rt tc out)"
    for p m out e
    using batch_effect [OF he d(1) assms(4)] by blast+
  have len: "length outs = length (batches g i)" using handle_each_length [OF he] .
  have zip: "m \<in> set (batches g i) \<Longrightarrow> \<exists>out. (m, out) \<in> set (zip (batches g i) outs)" for m
    using len by (metis in_set_impl_in_set_zip1)
  have sub: "seen_ids g p \<subseteq> seen_ids g' p" "ids_cleaned rt tc g p \<subseteq> ids_cleaned rt tc g' p" for p
    unfolding g' by auto
  have "held_of s p \<subseteq> seen_ids g' p" for p
  proof -
    have "{event_id e | e m. m \<in> set (batches g i) \<and> k_partition m = p \<and> raw_event rt m = Some e} \<subseteq> seen_ids g' p"
      unfolding g' using zip raw_event_id by fastforce
    with b(2) d(2) sub(1) show ?thesis by blast
  qed
  with mem d(1,2) b(1) sub(1) have 1: "wf_caches (pstate (members g' j))"
    and 2: "held_of (pstate (members g' j)) p \<subseteq> seen_ids g' p" for j p
    by (metis new_cleaner_holds(2), metis (no_types, lifting) empty_subsetI new_cleaner_holds(1) subset_trans)
  have 3: "cleaned rt tc out \<subseteq> {e. raw_event rt m = Some e}" if "(m, out) \<in> set (effects g')" for m out
    using that b(3) d(3) unfolding g' set_append by blast
  have 4: "event_id e \<in> ids_cleaned rt tc g' (k_partition m)"
    if m: "(m, out) \<in> set (effects g')" "raw_event rt m = Some e" for m out e
  proof (cases "(m, out) \<in> set (effects g)")
    case True
    with d(4) m(2) sub(2) show ?thesis by blast
  next
    case False
    with m(1) have mb: "m \<in> set (batches g i)" unfolding g' by (auto dest: set_zip_leftD)
    from b(4) [OF this m(2)] show ?thesis
    proof
      assume "event_id e \<in> held_of (pstate (members g i)) (k_partition m)"
      with d(2) obtain n out' where n: "(n, out') \<in> set (effects g)" "k_partition n = k_partition m"
        "id_of_msg n = Inr (event_id e)" by blast
      with effect_in_logs [OF txn n(1)] batch_in_logs [OF txn mb] apart m(2)
      obtain e' where e': "raw_event rt n = Some e'" unfolding ids_apart_def by fastforce
      with raw_event_id [OF e'] n(3) have "event_id e' = event_id e" by simp
      from d(4) [OF n(1) e', unfolded this n(2)] show ?thesis by (rule subsetD [OF sub(2)])
    next
      assume "event_id e \<in> (\<Union>(n, out) \<in> {x \<in> set (zip (batches g i) outs). k_partition (fst x) = k_partition m}. cleaned_ids rt tc out)"
      then show ?thesis unfolding g' by auto
    qed
  qed
  from 1 2 3 4 show ?thesis unfolding cleaner_inv_def by blast
qed


lemma cleaner_inv_step:
  assumes step: "txn_step False False (handle rt tc td now) (cleaner_assigned r b polls) partitions_revoked new_cleaner
      logs g g'"
    and inv: "cleaner_inv rt tc g" and txn: "txn_inv logs g"
    and ok: "log_ok logs" "ids_apart rt logs" "polls_from polls logs" "tc \<noteq> td"
  shows "cleaner_inv rt tc g'"
  using step
proof cases
  case (joined p i)
  let ?c = "cleaner_assigned r b polls p (map_of (committed_offsets (broker_side g)) p) (pstate (members g i))"
  note w = warmed_held [OF refl cleaner_invD(1) [OF inv], of r b polls p "map_of (committed_offsets (broker_side g)) p" i]
  have "held_of ?c q \<subseteq> seen_ids g q" for q
  proof
    fix x assume x: "x \<in> held_of ?c q"
    show "x \<in> seen_ids g q"
    proof (cases "x \<in> held_of (pstate (members g i)) q")
      case True
      with cleaner_invD(2) [OF inv] show ?thesis by blast
    next
      case False
      with x w [of q] obtain m start n where m: "q = p" "Message m \<in> set (polls p start)"
        "map_of (committed_offsets (broker_side g)) p = Some n" "k_offset m < n" "id_of_msg m = Inr x"
        by (auto split: if_splits)
      have "m \<in> set (logs p)" using ok(3) m(2) by (auto simp: polls_from_def)
      from committed_in_effects [OF txn ok(1) this m(3,4)] m(1,5) show ?thesis by blast
    qed
  qed
  then show ?thesis
    unfolding joined(1) using w cleaner_invD(1,2) [OF inv]
    by (intro cleaner_inv_same [OF inv]) (simp_all add: txn_assign_def)
next
  case (polled p i m)
  then show ?thesis
    using cleaner_invD(1,2) [OF inv] by (intro cleaner_inv_same [OF inv]) (simp_all add: note_polled_def)
next
  case (processed fate i tp k)
  obtain s outs where he: "handle_each (handle rt tc td now) (pstate (members g i)) (batches g i) = Inr (s, outs)"
    and tp: "pstate tp = s"
    using processed(2,4) by (auto simp: process_batch_def Let_def split: sum.splits)
  have "committed_effects (handle rt tc td now) fate (pstate (members g i)) (batches g i) = zip (batches g i) outs"
    using processed(4) he by (simp add: committed_effects_def)
  then show ?thesis
    unfolding processed(1) using tp by (intro cleaner_inv_commit [OF inv txn ok(2,4) he]) simp_all
next
  case (died fate i k)
  show ?thesis
  proof (cases "committed_effects (handle rt tc td now) fate (pstate (members g i)) (batches g i) = []")
    case True
    then show ?thesis
      unfolding died(1) using cleaner_invD(1,2) [OF inv]
      by (intro cleaner_inv_same [OF inv]) (simp_all add: txn_restart_def new_processor_def)
  next
    case False
    then obtain s outs where he: "handle_each (handle rt tc td now) (pstate (members g i)) (batches g i) = Inr (s, outs)"
      and e: "committed_effects (handle rt tc td now) fate (pstate (members g i)) (batches g i) = zip (batches g i) outs"
      by (auto simp: committed_effects_def split: sum.splits if_splits)
    show ?thesis
      unfolding died(1) using e
      by (intro cleaner_inv_commit [OF inv txn ok(2,4) he]) (simp_all add: txn_restart_def new_processor_def)
  qed
next
  case (crashed i)
  then show ?thesis
    using cleaner_invD(1,2) [OF inv]
    by (intro cleaner_inv_same [OF inv]) (simp_all add: txn_restart_def new_processor_def)
next
  case (gave_up ps i)
  have "held_of (partitions_revoked ps (pstate (members g i))) q \<subseteq> seen_ids g q" for q
    using revoked_holds(1) cleaner_invD(2) [OF inv] by blast
  then show ?thesis
    unfolding gave_up(1) using cleaner_invD(1,2) [OF inv] revoked_holds(2)
    by (intro cleaner_inv_same [OF inv]) (simp_all add: txn_revoke_def Let_def abort_txn_def)
qed

lemma cleaners_reach_inv:
  assumes "cleaners_reach rt tc td now r b polls logs g"
    and "log_ok logs" "ids_apart rt logs" "polls_from polls logs" "tc \<noteq> td"
  shows "cleaner_inv rt tc g"
  using assms(1)
proof (induction rule: txn_reaches.induct)
  case started
  show ?case by (simp add: cleaner_inv_def start_txn_group_def new_processor_def)
next
  case (stepped g g')
  from cleaner_inv_step [OF stepped(2,3) txn_reaches_inv [OF stepped(1) _ _ assms(2)] assms(2-5)]
  show ?case by simp
qed


text \<open>The valid edits of \<^verbatim>\<open>wiki.raw\<close> below the committed offsets of the cleaners.\<close>

definition valid_committed :: "runtime \<Rightarrow> (int \<Rightarrow> kmsg list) \<Rightarrow> kafka \<Rightarrow> CleanEvent set" where
  "valid_committed rt logs k =
     {e. \<exists>p n. \<exists>m \<in> set (logs p). map_of (committed_offsets k) p = Some n \<and> k_offset m < n \<and> raw_event rt m = Some e}"

lemma valid_committed_effects:
  assumes "txn_inv logs g" and "log_ok logs"
  shows "valid_committed rt logs (broker_side g) = {e. \<exists>m out. (m, out) \<in> set (effects g) \<and> raw_event rt m = Some e}"
proof (intro equalityI subsetI)
  fix e assume "e \<in> valid_committed rt logs (broker_side g)"
  then obtain p n m where m: "m \<in> set (logs p)" "map_of (committed_offsets (broker_side g)) p = Some n"
    "k_offset m < n" "raw_event rt m = Some e"
    unfolding valid_committed_def by blast
  with committed_in_effects [OF assms m(1-3)]
  show "e \<in> {e. \<exists>m out. (m, out) \<in> set (effects g) \<and> raw_event rt m = Some e}" by blast
next
  fix e assume "e \<in> {e. \<exists>m out. (m, out) \<in> set (effects g) \<and> raw_event rt m = Some e}"
  then obtain m out where m: "(m, out) \<in> set (effects g)" "raw_event rt m = Some e" by blast
  let ?p = "k_partition m"
  have "m \<in> fst ` set (filter (\<lambda>(n, _). k_partition n = ?p) (effects g))"
    using m(1) by (force intro: image_eqI [of _ _ "(m, out)"])
  then have "m \<in> set (take (idx logs g ?p) (logs ?p))"
    unfolding txn_invD(1) [OF assms(1), symmetric] set_map .
  then have "m \<in> set (logs ?p) \<and> (\<exists>n. map_of (committed_offsets (broker_side g)) ?p = Some n \<and> k_offset m < n)"
    unfolding take_resume_filter [OF assms(2)] by simp
  with m(2) show "e \<in> valid_committed rt logs (broker_side g)"
    unfolding valid_committed_def by blast
qed

lemma cleaners_exact:
  assumes "cleaners_reach rt tc td now r b polls logs g"
    and "log_ok logs" "ids_apart rt logs" "polls_from polls logs" "tc \<noteq> td"
  shows "cleaned rt tc (committed_out (broker_side g)) \<subseteq> valid_committed rt logs (broker_side g)"
    and "cleaned_ids rt tc (committed_out (broker_side g)) = event_id ` valid_committed rt logs (broker_side g)"
proof -
  have txn: "txn_inv logs g" using txn_reaches_inv [OF assms(1) _ _ assms(2)] by simp
  note d = cleaner_invD [OF cleaners_reach_inv [OF assms]]
  have out: "cleaned rt tc (committed_out (broker_side g)) = (\<Union>x \<in> set (effects g). cleaned rt tc (snd x))"
    unfolding txn_invD(2) [OF txn] cleaned_concat by simp
  show 1: "cleaned rt tc (committed_out (broker_side g)) \<subseteq> valid_committed rt logs (broker_side g)"
    unfolding out valid_committed_effects [OF txn assms(2)] using d(3) by fastforce
  have "event_id e \<in> cleaned_ids rt tc (committed_out (broker_side g))"
    if "e \<in> valid_committed rt logs (broker_side g)" for e
  proof -
    from that obtain m out' where "(m, out') \<in> set (effects g)" "raw_event rt m = Some e"
      unfolding valid_committed_effects [OF txn assms(2)] by blast
    from d(4) [OF this] show ?thesis unfolding out by force
  qed
  with 1 show "cleaned_ids rt tc (committed_out (broker_side g)) = event_id ` valid_committed rt logs (broker_side g)"
    by blast
qed

text \<open>The clean topic holds the records of the committed transactions, in whatever partitions.\<close>

definition clean_topic_holds :: "ustr \<Rightarrow> kafka \<Rightarrow> (int \<Rightarrow> kmsg list) \<Rightarrow> bool" where
  "clean_topic_holds tc k clogs \<longleftrightarrow>
     {k_value m | m q. m \<in> set (clogs q)} = {out_value o' | o'. o' \<in> set (committed_out k) \<and> out_topic o' = tc}"

lemma clean_topic_events:
  assumes "clean_topic_holds tc k clogs"
  shows "(\<exists>q. \<exists>m \<in> set (clogs q). from_json rt (k_value m) = Inr (Some e)) \<longleftrightarrow> e \<in> cleaned rt tc (committed_out k)"
proof -
  have co: "clean_output rt tc o' = Some e \<longleftrightarrow> out_topic o' = tc \<and> from_json rt (out_value o') = Inr (Some e)" for o'
    by (simp add: clean_output_def split: sum.split)
  have "(\<exists>q. \<exists>m \<in> set (clogs q). from_json rt (k_value m) = Inr (Some e)) \<longleftrightarrow>
      (\<exists>v \<in> {k_value m | m q. m \<in> set (clogs q)}. from_json rt v = Inr (Some e))" by blast
  also have "\<dots> \<longleftrightarrow> e \<in> cleaned rt tc (committed_out k)"
    unfolding assms [unfolded clean_topic_holds_def] cleaned_def mem_Collect_eq co by blast
  finally show ?thesis .
qed

text \<open>
  C1. From raw topic to table, every valid edit is stored once, as long as no cleaner goes on in the
  same process after an aborted transaction and no rebalance takes a partition from a cleaner in the
  middle of a batch; \<open>abort_in_place_loses_the_batch\<close> and
  \<open>rebalance_mid_batch_doubles_records\<close> show what those two do. Whatever crashes, restarts,
  rebalances between batches, lost answers and lost connections the cleaners go through, and whatever
  crashes, rebalances and lost connections the sinks go through: the cleaners'
  committed output carries exactly the ids of the valid raw messages below their committed offsets;
  the table never has two rows of one id, each of its rows is the row of an edit the raw topic
  holds, and once the sinks have read their topic to the end it has a row for the id of every one
  of them. The logs are ordered, the warm-up polls what the raw topic holds, and no rejected
  message or heartbeat shares its id with a valid edit of its partition.
\<close>

theorem pipeline_stores_every_valid_edit:
  assumes "cleaners_reach rt tc td now r b polls logs g"
    and "log_ok logs" and "ids_apart rt logs" and "polls_from polls logs" and "tc \<noteq> td"
    and "clean_topic_holds tc (broker_side g) clogs"
    and "sink_reaches (edits_batch rt storable) clogs [] sg" and "log_ok clogs"
  shows "cleaned_ids rt tc (committed_out (broker_side g)) = event_id ` valid_committed rt logs (broker_side g) \<and>
    distinct (map fst (sg_table sg)) \<and>
    set (sg_table sg) \<subseteq> as_row rt ` valid_committed rt logs (broker_side g) \<and>
    ((\<forall>q. resume_index (clogs q) (map_of (sg_offsets sg) q) = length (clogs q)) \<longrightarrow>
       fst ` set (sg_table sg) = event_id ` valid_committed rt logs (broker_side g))"
proof -
  note exact = cleaners_exact [OF assms(1-5)]
  note store = edits_sink.one_row_per_key [OF assms(7) [unfolded edits_batch_def] assms(8)]
  note ev = clean_topic_events [OF assms(6), of rt]
  have rows: "set (sg_table sg) \<subseteq> as_row rt ` valid_committed rt logs (broker_side g)"
  proof
    fix x assume "x \<in> set (sg_table sg)"
    with store obtain q e m where "m \<in> set (clogs q)" "from_json rt (k_value m) = Inr (Some e)" "x = as_row rt e"
      unfolding event_in_iff by blast
    with ev exact(1) show "x \<in> as_row rt ` valid_committed rt logs (broker_side g)" by blast
  qed
  have ids: "event_id e \<in> fst ` set (sg_table sg)"
    if "\<forall>q. resume_index (clogs q) (map_of (sg_offsets sg) q) = length (clogs q)"
      and "e \<in> cleaned rt tc (committed_out (broker_side g))" for e
  proof -
    from that(2) ev obtain q m where m: "m \<in> set (clogs q)" "from_json rt (k_value m) = Inr (Some e)" by blast
    then obtain x where "x < length (clogs q)" "m = clogs q ! x" by (auto simp: in_set_conv_nth)
    with that(1) m(2) store show ?thesis unfolding event_in_iff by (auto simp: as_row_def)
  qed
  have "fst ` set (sg_table sg) \<subseteq> event_id ` valid_committed rt logs (broker_side g)"
    using image_mono [OF rows, of fst] by (simp add: image_image as_row_def)
  then have "fst ` set (sg_table sg) = event_id ` valid_committed rt logs (broker_side g)"
    if "\<forall>q. resume_index (clogs q) (map_of (sg_offsets sg) q) = length (clogs q)"
    using ids [OF that] unfolding exact(2) [symmetric] by blast
  with store rows exact(2) show ?thesis by blast
qed


text \<open>One raw message through one cleaner, and one clean record through one sink.\<close>

lemma one_message_run:
  assumes "h (assigned 0 None s0) m = Inr (s, out)" and "k_partition m = 0" and "logs 0 = [m]"
  shows "\<exists>g. txn_reaches False False h assigned revoked s0 logs g \<and>
    committed_out (broker_side g) = out \<and> committed_offsets (broker_side g) = [(0, k_offset m + 1)]"
proof -
  let ?s = "txn_step False False h assigned revoked s0 logs"
  let ?g0 = "start_txn_group s0"
  let ?g1 = "?g0\<lparr>powner := (powner ?g0)(0 := Some 0),
       fetch_at := (fetch_at ?g0)(0 := resume_index (logs 0) (map_of (committed_offsets (broker_side ?g0)) 0)),
       members := (members ?g0)(0 := txn_assign assigned (broker_side ?g0) [0] (members ?g0 0))\<rparr>"
  have 1: "?s ?g0 ?g1" by (rule txn_step.joined) (simp add: start_txn_group_def)
  let ?g2 = "?g1\<lparr>members := (members ?g1)(0 := note_polled m (members ?g1 0)),
       batches := (batches ?g1)(0 := batches ?g1 0 @ [m]), fetch_at := (fetch_at ?g1)(0 := Suc (fetch_at ?g1 0))\<rparr>"
  have 2: "?s ?g1 ?g2"
    by (rule txn_step.polled) (simp_all add: start_txn_group_def resume_index_def assms(3))
  define tp where "tp = \<lparr>pstate = s, in_transaction = False, positions = [(0, k_offset m + 1)]\<rparr>"
  define k :: kafka where "k = \<lparr>committed_out = out, committed_offsets = [(0, k_offset m + 1)]\<rparr>"
  have pb: "process_batch h Commits (batches ?g2 0) (members ?g2 0) (broker_side ?g2) = (Some tp, k)"
    using assms(1,2)
    by (simp add: process_batch_def start_txn_group_def new_processor_def txn_assign_def note_polled_def Let_def
        tp_def k_def)
  let ?g3 = "?g2\<lparr>members := (members ?g2)(0 := tp), batches := (batches ?g2)(0 := []), broker_side := k,
       effects := effects ?g2 @ committed_effects h Commits (pstate (members ?g2 0)) (batches ?g2 0)\<rparr>"
  have 3: "?s ?g2 ?g3" by (rule txn_step.processed [where fate = Commits]) (use pb in simp_all)
  have "txn_reaches False False h assigned revoked s0 logs ?g3"
    using txn_reaches.stepped [OF txn_reaches.stepped [OF txn_reaches.stepped [OF txn_reaches.started 1] 2] 3] .
  then show ?thesis by (intro exI [of _ ?g3]) (simp add: k_def)
qed

lemma one_row_run:
  assumes "from_json plain_runtime (Some v) = Inr (Some e)"
  shows "\<exists>g. sink_reaches (edits_batch plain_runtime (\<lambda>_. True)) (row_log v) [] g \<and> sg_offsets g = [(0, 5)]"
proof -
  let ?wr = "edits_batch plain_runtime (\<lambda>_. True)"
  obtain g where g: "sink_reaches ?wr (row_log v) [] g" "sg_batch g 0 = [row_msg v 4]" "sg_positions g 0 = [(0, 5)]"
     "sg_table g = []" "sg_offsets g = []" "sg_sinks g 0 = new_sink"
    using holding_row by blast
  obtain s tbl where w: "?wr [True] (sg_batch g 0) (sg_sinks g 0) (sg_table g) = Inr (s, tbl)"
    by (simp add: g edits_batch_def write_batch_def assms insert_edits_def insert_rows_def paged_one PAGE_SIZE_def as_row_def)
  let ?g' = "g\<lparr>sg_sinks := (sg_sinks g)(0 := s), sg_batch := (sg_batch g)(0 := []), sg_table := tbl,
         sg_offsets := fold (\<lambda>(p, n). AList.update p n) (sg_positions g 0) (sg_offsets g),
         stored := stored g @ sg_batch g 0\<rparr>"
  have "sink_step ?wr (row_log v) g ?g'" by (rule sink_written [where lost = "[True]"]) (use w g in simp_all)
  from sink_stepped [OF g(1) this] show ?thesis by (intro exI [of _ ?g']) (simp add: g)
qed

definition raw_log :: "bytes \<Rightarrow> int \<Rightarrow> kmsg list" where
  "raw_log b p = (if p = 0 then [raw_message b] else [])"

lemma raw_log_facts:
  "log_ok (raw_log b)" "raw_event rt (raw_message b) \<noteq> None \<Longrightarrow> ids_apart rt (raw_log b)"
  "polls_from (\<lambda>_ _. []) (raw_log b)"
  by (auto simp: log_ok_def raw_log_def raw_message_def ids_apart_def polls_from_def split: if_splits)

theorem pipeline_stores_every_valid_edit_witness:
  "\<exists>b g v sg. cleaners_reach plain_runtime (ascii ''wiki.clean'') (ascii ''wiki.dlq'') [] sample_replayer (\<lambda>_. sample_broker) (\<lambda>_ _. []) (raw_log b) g \<and>
     sink_reaches (edits_batch plain_runtime (\<lambda>_. True)) (row_log v) [] sg \<and>
     fst ` set (sg_table sg) = {event_id sample_event}"
proof -
  let ?tc = "ascii ''wiki.clean''" and ?td = "ascii ''wiki.dlq''"
  obtain b where b: "parse_raw (Bytes b) = Inr sample_raw" using sample_bytes by blast
  have "\<not> is_canary sample_raw" by (simp add: is_canary_def sample_raw_def field_of_def)
  then have v: "validated plain_runtime (Bytes b) = Inr (Some sample_event)"
    by (simp add: validated_def b sample_clean del: parse_raw.simps)
  then have re: "raw_event plain_runtime (raw_message b) = Some sample_event"
    by (simp add: raw_event_def raw_message_def payload_of_def)
  obtain ms where ms: "event_time_ms plain_runtime sample_event t = Inr ms" for t using sample_stamp by blast
  have "snd (is_new new_cache i t)" for i t
    by (simp add: new_cache_def HOUR_MS_def is_new_eq live_def buckets_expire)
  then obtain c where c: "is_new new_cache (event_id sample_event) ms = (c, True)" by (metis prod.collapse)
  have t: "transform plain_runtime (Bytes b) new_cache (Some 5) = Inr (Clean sample_event, c)"
    using v ms c by (simp add: transform_def validated_def [symmetric] del: parse_raw.simps)
  obtain key where key: "utf8_encode (page_key sample_event) = Inr key"
    using utf8_encode_ok [of "page_key sample_event"] by (auto simp: page_key_def sample_event_def surrogate_def)
  have "encodable_event sample_event" by (simp add: encodable_event_def sample_event_def)
  then obtain v where val: "to_json plain_runtime sample_event = Inr v" using to_json_ok by blast
  have "cache_for (cleaner_assigned sample_replayer (\<lambda>_. sample_broker) (\<lambda>_ _. []) 0 None new_cleaner) 0 = new_cache"
    by (simp add: cleaner_assigned_def partitions_assigned_def new_cleaner_def cache_for_def get_default_def Let_def)
  then obtain cl out where h: "handle plain_runtime ?tc ?td [] (cleaner_assigned sample_replayer (\<lambda>_. sample_broker) (\<lambda>_ _. []) 0 None new_cleaner)
      (raw_message b) = Inr (cl, [out])" "out_topic out = ?tc" "out_value out = Some v"
    using t key val by (simp add: handle_def raw_message_def payload_of_def clean_record_def Let_def)
  obtain g where g: "cleaners_reach plain_runtime ?tc ?td [] sample_replayer (\<lambda>_. sample_broker) (\<lambda>_ _. []) (raw_log b) g"
    "committed_out (broker_side g) = [out]" "committed_offsets (broker_side g) = [(0, 8)]"
    using one_message_run [where logs = "raw_log b" and h = "handle plain_runtime ?tc ?td []" and
      assigned = "cleaner_assigned sample_replayer (\<lambda>_. sample_broker) (\<lambda>_ _. [])", OF h(1)] by (auto simp: raw_log_def raw_message_def)
  have "small_ints sample_event" by (rule raw_event_small [OF re])
  then have fj: "from_json plain_runtime (Some v) = Inr (Some sample_event)" by (rule from_json_to_json [OF val])
  obtain sg where sg: "sink_reaches (edits_batch plain_runtime (\<lambda>_. True)) (row_log v) [] sg" "sg_offsets sg = [(0, 5)]"
    using one_row_run [OF fj] by blast
  have holds: "clean_topic_holds ?tc (broker_side g) (row_log v)"
    using g(2) h(2,3) by (auto simp: clean_topic_holds_def row_log_def row_msg_def)
  have caught: "\<forall>q. resume_index (row_log v q) (map_of (sg_offsets sg) q) = length (row_log v q)"
    unfolding sg(2) by (simp add: resume_index_def row_log_def row_msg_def)
  have "valid_committed plain_runtime (raw_log b) (broker_side g) = {sample_event}"
    using re by (auto simp: valid_committed_def g(3) raw_log_def raw_message_def split: if_splits)
  with pipeline_stores_every_valid_edit [OF g(1) raw_log_facts(1) raw_log_facts(2) raw_log_facts(3) _ holds sg(1) row_log_ok]
    re caught
  have "fst ` set (sg_table sg) = {event_id sample_event}" by (simp add: ascii_def)
  with g(1) sg(1) show ?thesis by blast
qed

end
