(* ===== verification/Membership.thy ===== *)
theory Membership
  imports Kafka
begin

text \<open>
  \<^verbatim>\<open>common/topics.py\<close>, \<^verbatim>\<open>common/offsets.py\<close> and \<^verbatim>\<open>common/metrics.py\<close>:
  waiting for topics, taking and releasing partitions, the watchdog over the group's assignment,
  the report of records that expired unread, the rate meter and the lag. What the cluster answers
  and what the clock shows are arguments. Times are in the unit of the clock.
\<close>

subsection \<open>Topics\<close>

record topic_meta =
  tm_error :: bool
  tm_partitions :: nat

type_synonym metadata = "(ustr, topic_meta) pydict"

definition missing_topics :: "metadata \<Rightarrow> ustr list \<Rightarrow> ustr list" where
  "missing_topics meta topics =
     filter (\<lambda>name. case map_of meta name of
                None \<Rightarrow> True
              | Some t \<Rightarrow> tm_error t \<or> tm_partitions t = 0) topics"

text \<open>\<open>Waiting\<close> is a wait that is not over after the rounds given.\<close>

datatype wait_result = Ready | TimedOut "ustr list" | Waiting

fun wait_loop :: "ustr list \<Rightarrow> int \<Rightarrow> ustr list \<Rightarrow> (int \<times> metadata) list \<Rightarrow> wait_result" where
  "wait_loop topics deadline [] rounds = Ready"
| "wait_loop topics deadline (m # ms) [] = Waiting"
| "wait_loop topics deadline (m # ms) ((now, meta) # rounds) =
     (if now \<ge> deadline then TimedOut (m # ms)
      else wait_loop topics deadline (missing_topics meta topics) rounds)"

text \<open>The first answer and the time it came, then the time and the answer of each round.\<close>

definition wait_for_topics ::
  "ustr list \<Rightarrow> int \<Rightarrow> int \<Rightarrow> metadata \<Rightarrow> (int \<times> metadata) list \<Rightarrow> wait_result" where
  "wait_for_topics topics wait_sec start meta rounds =
     wait_loop topics (start + wait_sec) (missing_topics meta topics) rounds"

definition take_partitions :: "bool \<Rightarrow> int set \<Rightarrow> int set \<Rightarrow> int set" where
  "take_partitions cooperative ps held = (if cooperative then held \<union> ps else ps)"

definition release_partitions :: "bool \<Rightarrow> int set \<Rightarrow> int set \<Rightarrow> int set" where
  "release_partitions cooperative ps held = (if cooperative then held - ps else {})"

subsection \<open>The watchdog\<close>

text \<open>
  \<open>unowned_partitions\<close> from the group's description (whether it is stable, what each member
  holds) and the metadata.
\<close>

definition unowned_partitions ::
  "ustr list \<Rightarrow> bool \<Rightarrow> (ustr \<times> int) list list \<Rightarrow> metadata \<Rightarrow> nat" where
  "unowned_partitions topics is_stable members meta =
     (if \<not> is_stable then 0
      else
        (let owned = remdups (filter (\<lambda>(t, _). t \<in> set topics) (concat members));
             total = sum_list (map (\<lambda>name. case map_of meta name of
                         None \<Rightarrow> 0
                       | Some t \<Rightarrow> if tm_error t then 0 else tm_partitions t) (remdups topics))
         in total - length owned))"

record watchdog =
  wd_interval :: int
  wd_strikes :: nat
  wd_rejoins :: nat
  wd_last :: int

definition STRIKES_BEFORE_REJOIN :: nat where
  "STRIKES_BEFORE_REJOIN = 2"

text \<open>
  \<open>check\<close> with the answer of \<open>unowned_partitions\<close>, \<open>None\<close> if it raised; the flag says
  that the group is rejoined.
\<close>

definition wd_check :: "int \<Rightarrow> nat option \<Rightarrow> watchdog \<Rightarrow> watchdog \<times> bool" where
  "wd_check now answer wd =
     (if now - wd_last wd < wd_interval wd then (wd, False)
      else
        (let wd1 = wd\<lparr>wd_last := now\<rparr>
         in case answer of
              None \<Rightarrow> (wd1, False)
            | Some unowned \<Rightarrow>
                (if unowned = 0 then (wd1\<lparr>wd_strikes := 0\<rparr>, False)
                 else if wd_strikes wd + 1 < STRIKES_BEFORE_REJOIN
                   then (wd1\<lparr>wd_strikes := wd_strikes wd + 1\<rparr>, False)
                 else (wd1\<lparr>wd_strikes := 0, wd_rejoins := wd_rejoins wd + 1\<rparr>, True))))"

fun wd_run :: "(int \<times> nat option) list \<Rightarrow> watchdog \<Rightarrow> watchdog \<times> bool list" where
  "wd_run [] wd = (wd, [])"
| "wd_run ((now, answer) # obs) wd =
     (case wd_check now answer wd of
        (wd1, flag) \<Rightarrow> (case wd_run obs wd1 of (wd2, flags) \<Rightarrow> (wd2, flag # flags)))"

subsection \<open>Records that expired unread\<close>

record RetentionGap =
  rg_topic :: ustr
  rg_partition :: int
  rg_committed :: int
  rg_log_start :: int

definition lost :: "RetentionGap \<Rightarrow> int" where
  "lost g = rg_log_start g - rg_committed g"

definition find_retention_gaps ::
  "(ustr \<times> int \<times> int option) list \<Rightarrow> (ustr \<Rightarrow> int \<Rightarrow> int) \<Rightarrow> RetentionGap list" where
  "find_retention_gaps committed log_start =
     List.map_filter (\<lambda>(t, p, offset). case offset of
         None \<Rightarrow> None
       | Some n \<Rightarrow>
           (if n < 0 then None
            else if n < log_start t p
              then Some \<lparr>rg_topic = t, rg_partition = p, rg_committed = n, rg_log_start = log_start t p\<rparr>
            else None)) committed"

definition report_retention_gaps ::
  "(ustr \<times> int \<times> int option) list \<Rightarrow> (ustr \<Rightarrow> int \<Rightarrow> int) \<Rightarrow> int" where
  "report_retention_gaps committed log_start =
     sum_list (map lost (find_retention_gaps committed log_start))"

subsection \<open>Rate and lag\<close>

record RateMeter =
  rm_interval :: int
  rm_total :: int
  rm_errors :: int
  rm_window :: int
  rm_started :: int
  rm_last :: int

definition new_meter :: "int \<Rightarrow> int \<Rightarrow> RateMeter" where
  "new_meter interval now =
     \<lparr>rm_interval = interval, rm_total = 0, rm_errors = 0, rm_window = 0, rm_started = now, rm_last = now\<rparr>"

text \<open>A line of the log: events and time of its window, all events and errors so far.\<close>

type_synonym rate_line = "int \<times> int \<times> int \<times> int"

definition rm_report :: "bool \<Rightarrow> int \<Rightarrow> RateMeter \<Rightarrow> RateMeter \<times> rate_line option" where
  "rm_report force now m =
     (let elapsed = now - rm_last m
      in if \<not> force \<and> elapsed < rm_interval m then (m, None)
         else if elapsed \<le> 0 then (m, None)
         else (m\<lparr>rm_window := 0, rm_last := now\<rparr>, Some (rm_window m, elapsed, rm_total m, rm_errors m)))"

definition rm_mark :: "int \<Rightarrow> int \<Rightarrow> RateMeter \<Rightarrow> RateMeter \<times> rate_line option" where
  "rm_mark count now m =
     rm_report False now (m\<lparr>rm_total := rm_total m + count, rm_window := rm_window m + count\<rparr>)"

definition rm_mark_error :: "int \<Rightarrow> RateMeter \<Rightarrow> RateMeter" where
  "rm_mark_error count m = m\<lparr>rm_errors := rm_errors m + count\<rparr>"

record lag_answer =
  la_position :: "int option"
  la_high :: int
  la_committed :: "int option"

definition lag_of :: "lag_answer \<Rightarrow> int" where
  "lag_of a =
     (let position =
        (case la_position a of
           Some p \<Rightarrow> if p < 0 then None else Some p
         | None \<Rightarrow> None);
          read = (case position of
             Some p \<Rightarrow> p
           | None \<Rightarrow>
               (case la_committed a of
                  Some c \<Rightarrow> if c \<noteq> 0 \<and> c \<ge> 0 then c else la_high a
                | None \<Rightarrow> la_high a))
      in max (la_high a - read) 0)"

text \<open>A partition whose request failed has no answer and is left out.\<close>

definition partition_lag :: "((ustr \<times> int) \<times> lag_answer option) list \<Rightarrow> (ustr \<times> int, int) pydict" where
  "partition_lag answers =
     fold (\<lambda>(tp, a) lag. case a of None \<Rightarrow> lag | Some a \<Rightarrow> AList.update tp (lag_of a) lag) answers []"

text \<open>\<open>log_lag\<close>: the total, and the partitions reported as unavailable.\<close>

definition log_lag :: "((ustr \<times> int) \<times> lag_answer option) list \<Rightarrow> int \<times> int list" where
  "log_lag answers =
     (if answers = [] then (0, [])
      else
        (let lag = partition_lag answers
         in (sum_list (map snd lag),
             sorted_list_of_set (set (map (snd \<circ> fst) answers) - set (map (snd \<circ> fst) lag)))))"

subsection \<open>Waiting ends\<close>

lemma wait_loop_result:
  "case wait_loop topics deadline missing rounds of
     Ready \<Rightarrow> missing = [] \<or> (\<exists>r \<in> set rounds. missing_topics (snd r) topics = [])
   | TimedOut ms \<Rightarrow> ms \<noteq> [] \<and> (ms = missing \<or> (\<exists>r \<in> set rounds. ms = missing_topics (snd r) topics)) \<and>
       (\<exists>r \<in> set rounds. deadline \<le> fst r)
   | Waiting \<Rightarrow> \<forall>r \<in> set rounds. fst r < deadline"
proof (induction topics deadline missing rounds rule: wait_loop.induct)
  case (3 topics deadline m ms now meta rounds)
  then show ?case
    by (cases "wait_loop topics deadline (missing_topics meta topics) rounds") auto
qed simp_all

text \<open>
  Waiting for topics always ends, and ends truthfully. If each round takes at least one unit
  of time and there are more rounds than the wait is long, the wait is over: it returns only after
  an answer in which no topic was missing, and it fails only when the deadline is over, naming
  topics that were missing in an answer.
\<close>

theorem wait_for_topics_ends:
  assumes "\<forall>i < length rounds. start + int i \<le> fst (rounds ! i)" and "max 0 wait_sec < int (length rounds)"
  shows "(wait_for_topics topics wait_sec start meta rounds = Ready \<and>
      (\<exists>answer \<in> set (meta # map snd rounds). missing_topics answer topics = [])) \<or>
    (\<exists>ms. wait_for_topics topics wait_sec start meta rounds = TimedOut ms \<and> ms \<noteq> [] \<and>
      (\<exists>answer \<in> set (meta # map snd rounds). ms = missing_topics answer topics) \<and>
      (\<exists>r \<in> set rounds. start + wait_sec \<le> fst r))"
proof -
  note r = wait_loop_result [where topics = topics and deadline = "start + wait_sec" and
      missing = "missing_topics meta topics" and rounds = rounds]
  show ?thesis
  proof (cases "wait_for_topics topics wait_sec start meta rounds")
    case Waiting
    show ?thesis
    proof (cases "rounds = []")
      case True
      with Waiting assms(2) r show ?thesis
        by (cases "missing_topics meta topics") (auto simp: wait_for_topics_def)
    next
      case False
      then have "start + int (length rounds - 1) \<le> fst (rounds ! (length rounds - 1))" using assms(1) by simp
      moreover have "fst (rounds ! (length rounds - 1)) < start + wait_sec"
        using r Waiting False by (simp add: wait_for_topics_def)
      ultimately show ?thesis using assms(2) False by (simp add: of_nat_diff)
    qed
  qed (use r in \<open>auto simp: wait_for_topics_def\<close>)
qed

subsection \<open>The watchdog acts on every second strike\<close>

text \<open>What the checks that were due found, and the gaps at the end of that list.\<close>

fun judged :: "int \<Rightarrow> int \<Rightarrow> (int \<times> nat option) list \<Rightarrow> nat list" where
  "judged interval checked [] = []"
| "judged interval checked ((now, answer) # obs) =
     (if now - checked < interval then judged interval checked obs
      else (case answer of None \<Rightarrow> [] | Some n \<Rightarrow> [n]) @ judged interval now obs)"

definition streak :: "nat list \<Rightarrow> nat" where
  "streak ns = length (takeWhile ((<) 0) (rev ns))"

lemma streak_simps [simp]:
  "streak [] = 0" "streak (ns @ [n]) = (if n = 0 then 0 else Suc (streak ns))"
  by (simp_all add: streak_def)

lemma wd_run_strikes:
  assumes "wd_run obs wd = (wd1, flags)" and "wd_strikes wd = streak before mod 2"
  shows "wd_strikes wd1 = streak (before @ judged (wd_interval wd) (wd_last wd) obs) mod 2 \<and>
    wd_interval wd1 = wd_interval wd \<and> wd_rejoins wd1 = wd_rejoins wd + length (filter id flags)"
  using assms
proof (induction obs arbitrary: wd flags before)
  case (Cons ob obs)
  obtain now answer where ob: "ob = (now, answer)" by (cases ob)
  obtain wd2 flag where c: "wd_check now answer wd = (wd2, flag)" by (cases "wd_check now answer wd")
  obtain flags' where r: "wd_run obs wd2 = (wd1, flags')" and fl: "flags = flag # flags'"
    using Cons.prems(1) c by (auto simp: ob split: prod.splits)
  let ?seen = "if now - wd_last wd < wd_interval wd then [] else case answer of None \<Rightarrow> [] | Some n \<Rightarrow> [n]"
  have "wd_strikes wd2 = streak (before @ ?seen) mod 2 \<and> wd_interval wd2 = wd_interval wd \<and>
      wd_last wd2 = (if now - wd_last wd < wd_interval wd then wd_last wd else now) \<and>
      wd_rejoins wd2 = wd_rejoins wd + (if flag then 1 else 0)"
    using c Cons.prems(2)
    by (auto simp: wd_check_def STRIKES_BEFORE_REJOIN_def Let_def mod_Suc split: if_splits option.splits)
  with Cons.IH [OF r, of "before @ ?seen"] show ?case by (auto simp: ob fl)
qed simp

text \<open>
  The watchdog rejoins exactly at every second gap in a row. After any run of checks, the next
  one makes the group rejoin if and only if its interval is over, it finds partitions without an
  owner, and the checks before it that could judge the group end in an odd number of gaps in a row;
  checks that raised or came too early count neither way.
\<close>

theorem watchdog_rejoins_at_second_strike:
  assumes "wd_run obs wd = (wd1, flags)" and "wd_strikes wd = 0"
  shows "(snd (wd_check now answer wd1) \<longleftrightarrow>
      wd_interval wd \<le> now - wd_last wd1 \<and> (\<exists>n > 0. answer = Some n) \<and>
      odd (streak (judged (wd_interval wd) (wd_last wd) obs))) \<and>
    wd_rejoins wd1 = wd_rejoins wd + length (filter id flags)"
proof -
  have "wd_strikes wd1 = streak (judged (wd_interval wd) (wd_last wd) obs) mod 2"
    "wd_interval wd1 = wd_interval wd" "wd_rejoins wd1 = wd_rejoins wd + length (filter id flags)"
    using wd_run_strikes [OF assms(1), of "[]"] assms(2) by simp_all
  then show ?thesis
    by (auto simp: wd_check_def STRIKES_BEFORE_REJOIN_def Let_def odd_iff_mod_2_eq_one split: option.split)
qed

subsection \<open>What the reports count\<close>

text \<open>The report of expired records is exactly what lies between the commits and the log starts.\<close>

lemma retention_report_exact:
  "report_retention_gaps committed log_start =
     sum_list (map (\<lambda>(t, p, offset). case offset of Some n \<Rightarrow> if n < 0 then 0 else max 0 (log_start t p - n) | None \<Rightarrow> 0)
       committed)"
  by (induction committed)
    (auto simp: report_retention_gaps_def find_retention_gaps_def List.map_filter_simps lost_def split: option.splits if_splits)

fun rm_run :: "(int \<times> int) list \<Rightarrow> RateMeter \<Rightarrow> RateMeter \<times> rate_line list" where
  "rm_run [] m = (m, [])"
| "rm_run ((count, now) # marks) m =
     (case rm_mark count now m of
        (m1, line) \<Rightarrow> (case rm_run marks m1 of
           (m2, lines) \<Rightarrow> (m2, (case line of None \<Rightarrow> [] | Some l \<Rightarrow> [l]) @ lines)))"

text \<open>The windows of the log lines and the open window hold each event once.\<close>

lemma meter_counts_each_event_once:
  "rm_run marks m = (m', lines) \<Longrightarrow>
   rm_total m' = rm_total m + sum_list (map fst marks) \<and>
   sum_list (map fst lines) + rm_window m' = rm_window m + sum_list (map fst marks)"
proof (induction marks arbitrary: m lines)
  case (Cons mk marks)
  obtain count now where mk: "mk = (count, now)" by (cases mk)
  obtain m1 line where c: "rm_mark count now m = (m1, line)" by (cases "rm_mark count now m")
  obtain lines' where r: "rm_run marks m1 = (m', lines')"
      and l: "lines = (case line of None \<Rightarrow> [] | Some l \<Rightarrow> [l]) @ lines'"
    using Cons.prems c by (auto simp: mk split: prod.splits)
  have "rm_total m1 = rm_total m + count \<and>
      (case line of None \<Rightarrow> 0 | Some l \<Rightarrow> fst l) + rm_window m1 = rm_window m + count"
    using c by (auto simp: rm_mark_def rm_report_def Let_def split: if_splits)
  with Cons.IH [OF r] show ?case by (auto simp: l mk split: option.splits)
qed simp

lemma lag_nonneg: "0 \<le> lag_of a"
  by (simp add: lag_of_def Let_def)

text \<open>A commit at offset 0 is taken for no commit: the whole partition counts as read.\<close>

lemma lag_hides_commit_at_zero:
  "la_position a = None \<Longrightarrow> la_committed a = Some 0 \<Longrightarrow> lag_of a = 0"
  by (simp add: lag_of_def)

lemma lag_from_commit:
  "la_position a = None \<Longrightarrow> la_committed a = Some c \<Longrightarrow> 0 < c \<Longrightarrow> lag_of a = max (la_high a - c) 0"
  by (simp add: lag_of_def)

subsection \<open>Runs\<close>

theorem wait_for_topics_ends_witness:
  "\<exists>ms. wait_for_topics [ascii ''wiki.raw''] 2 0 [] [(0, []), (1, []), (2, [])] = TimedOut ms \<and> ms \<noteq> []"
proof -
  have "\<forall>i < length [(0 :: int, [] :: metadata), (1, []), (2, [])].
      0 + int i \<le> fst ([(0, []), (1, []), (2, [])] ! i)"
    by (auto simp: less_Suc_eq)
  from wait_for_topics_ends [OF this, of 2 "[ascii ''wiki.raw'']" "[]"] show ?thesis
    by (auto simp: missing_topics_def)
qed

theorem watchdog_rejoins_at_second_strike_witness:
  "snd (wd_check 30 (Some 3) \<lparr>wd_interval = 15, wd_strikes = 1, wd_rejoins = 0, wd_last = 15\<rparr>)"
proof -
  have "wd_run [(15, Some 3)] \<lparr>wd_interval = 15, wd_strikes = 0, wd_rejoins = 0, wd_last = 0\<rparr> =
      (\<lparr>wd_interval = 15, wd_strikes = 1, wd_rejoins = 0, wd_last = 15\<rparr>, [False])"
    by (simp add: wd_check_def STRIKES_BEFORE_REJOIN_def Let_def)
  from watchdog_rejoins_at_second_strike [OF this, of 30 "Some 3"] show ?thesis by (simp add: streak_def)
qed

end
