(* ===== verification/Loop.thy ===== *)
theory Loop
  imports Membership
begin

text \<open>
  What the main loops of the processes share. A run of a process is a list of the iterations of
  its loop; each says what the clock shows, what the watchdog is told about the group, and which
  of the things that may happen in a poll does happen. Times are in the unit of the clock, of
  which \<open>sec\<close> make a second.
\<close>

text \<open>
  A poll brings a record of some partition, nothing, an error, or runs a rebalance callback.
\<close>

datatype choice = FromPartition int | Idle | Failing kerror | Takes int | GivesUp "int list"

definition due :: "int \<Rightarrow> int \<Rightarrow> int \<Rightarrow> bool" where
  "due interval now last_time \<longleftrightarrow> now - last_time \<ge> interval"

definition LAG_INTERVAL_SEC :: int where
  "LAG_INTERVAL_SEC = 30"

text \<open>\<open>_report_lag\<close>: when the lag was last reported.\<close>

definition report_lag :: "int \<Rightarrow> int \<Rightarrow> int \<Rightarrow> int" where
  "report_lag sec now last_report = (if due (LAG_INTERVAL_SEC * sec) now last_report then now else last_report)"

definition new_watchdog :: "int \<Rightarrow> int \<Rightarrow> watchdog" where
  "new_watchdog interval now = \<lparr>wd_interval = interval, wd_strikes = 0, wd_rejoins = 0, wd_last = now\<rparr>"

text \<open>\<open>lag_reports\<close> are the times at which \<open>_report_lag\<close> reports, of the times it is called.\<close>

fun lag_reports :: "int \<Rightarrow> int \<Rightarrow> int list \<Rightarrow> int list" where
  "lag_reports sec last_report [] = []"
| "lag_reports sec last_report (now # nows) =
     (if due (LAG_INTERVAL_SEC * sec) now last_report then now # lag_reports sec now nows
      else lag_reports sec last_report nows)"

lemma lag_reports_spaced:
  assumes "0 < sec"
  shows "sorted_wrt (\<lambda>a b. a + LAG_INTERVAL_SEC * sec \<le> b) (last_report # lag_reports sec last_report nows)"
proof (induction nows arbitrary: last_report)
  case (Cons now nows)
  show ?case
  proof (cases "due (LAG_INTERVAL_SEC * sec) now last_report")
    case True
    have I: "sorted_wrt (\<lambda>a b. a + LAG_INTERVAL_SEC * sec \<le> b) (now # lag_reports sec now nows)" by (rule Cons.IH)
    have now: "last_report + LAG_INTERVAL_SEC * sec \<le> now" using True by (simp add: due_def)
    moreover have "0 \<le> LAG_INTERVAL_SEC * sec" using assms by (simp add: LAG_INTERVAL_SEC_def)
    ultimately have "\<forall>b \<in> set (lag_reports sec now nows). last_report + LAG_INTERVAL_SEC * sec \<le> b"
      using I by auto
    with I now True show ?thesis by auto
  qed (use Cons.IH in simp)
qed simp

end
