(* ===== verification/Trending.thy ===== *)
theory Trending
  imports SinksDb Kafka Transform
begin

text \<open>
  \<^verbatim>\<open>processors/trending.py\<close>: the handler, the flush and the hooks of a rebalance, and the
  consumer group as a step relation over several instances that share the database and the
  committed offsets. Rows are written first, offsets are committed second, and a crash can come
  between the two.
\<close>

record Trending =
  tr_windows :: MinuteWindows
  written_rows :: int
  marked :: int
  unreadable :: int

text \<open>What \<open>handle\<close> takes from a message: wiki, title and event time.\<close>

type_synonym content = "ustr \<times> ustr \<times> int"

definition decoded :: "runtime \<Rightarrow> kmsg \<Rightarrow> pyexc + content option" where
  "decoded rt m =
     (case from_json rt (k_value m) of
        Inl e \<Rightarrow> if is_value_error e \<or> e = TypeError then Inr None else Inl e
      | Inr None \<Rightarrow> Inr None  \<comment> \<open>fields of other types than declared: no such record is written\<close>
      | Inr (Some e) \<Rightarrow>
          bind_res (event_time_ms rt e (Some (k_time m))) (\<lambda>t. Inr (Some (wiki e, title e, t))))"

definition count_content :: "MinuteWindows \<Rightarrow> int \<Rightarrow> int \<Rightarrow> content option \<Rightarrow> MinuteWindows \<times> bool" where
  "count_content w p offset c =
     (case c of None \<Rightarrow> (w, False) | Some (wk, t, ms) \<Rightarrow> add w p offset wk t ms)"

definition handle :: "runtime \<Rightarrow> Trending \<Rightarrow> kmsg \<Rightarrow> pyexc + Trending" where
  "handle rt tr m =
     bind_res (decoded rt m) (\<lambda>c.
       case count_content (tr_windows tr) (k_partition m) (k_offset m) c of
         (w, new) \<Rightarrow>
           Inr (tr\<lparr>tr_windows := w,
                   marked := marked tr + (if new then 1 else 0),
                   unreadable := unreadable tr + (if c = None then 1 else 0)\<rparr>))"

text \<open>
  \<open>flush\<close>: pop, write if there is something to write, then the offsets to commit.
\<close>

definition flush ::
  "(WindowKey \<times> int \<Rightarrow> bool) \<Rightarrow> bool \<Rightarrow> Trending \<Rightarrow> (WindowKey, int) pydict \<Rightarrow>
   pgerror + Trending \<times> (WindowKey, int) pydict \<times> (int, int) pydict" where
  "flush storable final tr tbl =
     (let (w, closed) = pop_closed final (tr_windows tr);
          rows = map trending_row closed
      in bind_res (if closed = [] then Inr (tbl, 0) else upsert_trending storable rows tbl) (\<lambda>(tbl', _).
           Inr (tr\<lparr>tr_windows := w, written_rows := written_rows tr + int (length rows)\<rparr>, tbl',
                commit_offsets w)))"

text \<open>\<open>on_revoke\<close>: a final flush of everything, then the revoked partitions are forgotten.\<close>

definition on_revoke ::
  "(WindowKey \<times> int \<Rightarrow> bool) \<Rightarrow> int list \<Rightarrow> Trending \<Rightarrow> (WindowKey, int) pydict \<Rightarrow>
   pgerror + Trending \<times> (WindowKey, int) pydict \<times> (int, int) pydict" where
  "on_revoke storable ps tr tbl =
     bind_res (flush storable True tr tbl) (\<lambda>(tr', tbl', offsets).
       Inr (tr'\<lparr>tr_windows := revoke ps (tr_windows tr')\<rparr>, tbl', offsets))"

subsection \<open>The log of a partition\<close>

text \<open>Offsets with what the handler takes from each record, in log order.\<close>

type_synonym plog = "(int \<times> content option) list"

definition key_of :: "content \<Rightarrow> WindowKey" where
  "key_of c = (case c of (wk, t, ms) \<Rightarrow> (wk, t, minute_start ms))"

definition key_at :: "plog \<Rightarrow> nat \<Rightarrow> WindowKey option" where
  "key_at L x = map_option key_of (snd (L ! x))"

abbreviation off :: "plog \<Rightarrow> nat \<Rightarrow> int" where
  "off L x \<equiv> fst (L ! x)"

definition wf_log :: "plog \<Rightarrow> bool" where
  "wf_log L \<longleftrightarrow> sorted_wrt (<) (map fst L) \<and> (\<forall>e \<in> set L. 0 \<le> fst e)"

text \<open>Where the events of a page minute are, from one index to another.\<close>

definition at :: "plog \<Rightarrow> WindowKey \<Rightarrow> nat \<Rightarrow> nat \<Rightarrow> nat set" where
  "at L k i j = {x. i \<le> x \<and> x < j \<and> x < length L \<and> key_at L x = Some k}"

definition total_count :: "plog \<Rightarrow> WindowKey \<Rightarrow> int" where
  "total_count L k = int (card (at L k 0 (length L)))"

definition times :: "plog \<Rightarrow> int list" where
  "times L = List.map_filter (\<lambda>e. map_option (\<lambda>(_, _, ms). ms) (snd e)) L"

definition high_water :: "plog \<Rightarrow> nat \<Rightarrow> int" where
  "high_water L n = max_from 0 (times (take n L))"

text \<open>
  No event of the log is late: each arrives before the stream has moved past its minute by the
  lateness allowance.
\<close>

definition no_late :: "int \<Rightarrow> plog \<Rightarrow> bool" where
  "no_late l L \<longleftrightarrow>
     (\<forall>x < length L. \<forall>k. key_at L x = Some k \<longrightarrow> minute_start (high_water L (Suc x) - l) \<le> minute_of k)"

definition keys :: "plog \<Rightarrow> WindowKey set" where
  "keys L = {k. \<exists>x < length L. key_at L x = Some k}"

definition restart_index :: "plog \<Rightarrow> int option \<Rightarrow> nat" where
  "restart_index L c = (case c of None \<Rightarrow> 0 | Some n \<Rightarrow> length (takeWhile (\<lambda>e. fst e < n) L))"

lemma minute_start_mono: "a \<le> b \<Longrightarrow> minute_start a \<le> minute_start b"
  by (simp add: minute_start_def MINUTE_MS_def zdiv_mono1)

lemma off_less: "wf_log L \<Longrightarrow> x < y \<Longrightarrow> y < length L \<Longrightarrow> off L x < off L y"
  by (simp add: wf_log_def sorted_wrt_map sorted_wrt_iff_nth_less)

lemma off_mono: "wf_log L \<Longrightarrow> x \<le> y \<Longrightarrow> y < length L \<Longrightarrow> off L x \<le> off L y"
  using off_less [of L x y] by (cases "x = y") auto

lemma off_nonneg: "wf_log L \<Longrightarrow> x < length L \<Longrightarrow> 0 \<le> off L x"
  by (simp add: wf_log_def)

lemma finite_at [simp]: "finite (at L k i j)"
  by (rule finite_subset [of _ "{..<j}"]) (auto simp: at_def)

lemma finite_keys [simp]: "finite (keys L)"
proof (rule finite_subset)
  show "keys L \<subseteq> (\<lambda>x. the (key_at L x)) ` {..<length L}" by (force simp: keys_def)
qed simp

lemma at_Suc:
  "i \<le> n \<Longrightarrow> n < length L \<Longrightarrow>
   at L k i (Suc n) = (if key_at L n = Some k then insert n (at L k i n) else at L k i n)"
  by (auto simp: at_def less_Suc_eq)

lemma at_empty [simp]: "at L k i i = {}"
  by (auto simp: at_def)

lemma card_at_le: "int (card (at L k i j)) \<le> total_count L k"
  unfolding total_count_def by (intro of_nat_mono card_mono) (auto simp: at_def)

lemma high_water_mono: "n \<le> m \<Longrightarrow> high_water L n \<le> high_water L m"
proof -
  assume "n \<le> m"
  then have "take m L = take n L @ take (m - n) (drop n L)" by (metis le_add_diff_inverse take_add)
  then show ?thesis
    by (simp add: high_water_def times_def List.map_filter_def max_from_ge)
qed

lemma high_water_Suc:
  "n < length L \<Longrightarrow> high_water L (Suc n) =
     (case snd (L ! n) of None \<Rightarrow> high_water L n | Some (_, _, ms) \<Rightarrow> max ms (high_water L n))"
  by (simp add: high_water_def times_def take_Suc_conv_app_nth List.map_filter_def split: option.split)

lemma high_water_nonneg: "0 \<le> high_water L n"
  by (simp add: high_water_def max_from_ge)

lemma restart_index_le: "restart_index L c \<le> length L"
  by (auto simp: restart_index_def length_takeWhile_le split: option.split)

lemma restart_index_below:
  assumes "wf_log L" and "x < restart_index L c"
  shows "\<exists>n. c = Some n \<and> off L x < n"
proof (cases c)
  case (Some n)
  with assms(2) have "x < length (takeWhile (\<lambda>e. fst e < n) L)" by (simp add: restart_index_def)
  then have "takeWhile (\<lambda>e. fst e < n) L ! x \<in> set (takeWhile (\<lambda>e. fst e < n) L)" by (rule nth_mem)
  then have "fst (takeWhile (\<lambda>e. fst e < n) L ! x) < n" by (auto dest: set_takeWhileD)
  with Some \<open>x < length (takeWhile _ L)\<close> show ?thesis by (simp add: takeWhile_nth)
qed (use assms in \<open>simp add: restart_index_def\<close>)

subsection \<open>The invariant of one partition\<close>

text \<open>The database holds at least the full count of a page minute.\<close>

definition complete :: "plog \<Rightarrow> (WindowKey, int) pydict \<Rightarrow> WindowKey \<Rightarrow> bool" where
  "complete L tbl k \<longleftrightarrow> (\<exists>x. map_of tbl k = Some x \<and> total_count L k \<le> x)"

definition first_at :: "plog \<Rightarrow> WindowKey \<Rightarrow> nat \<Rightarrow> nat \<Rightarrow> int" where
  "first_at L k i j = off L (Min (at L k i j))"

text \<open>
  An instance has read the records of indices \<open>s\<close> to \<open>pos\<close> of the log since it got the
  partition. A page minute seen since then is open with its exact count, or it is complete in the
  database, or the commit point is held at or below its first offset.
\<close>

definition settled :: "plog \<Rightarrow> PartitionState \<Rightarrow> (WindowKey, int) pydict \<Rightarrow> nat \<Rightarrow> nat \<Rightarrow> WindowKey \<Rightarrow> bool" where
  "settled L st tbl s pos k \<longleftrightarrow>
     complete L tbl k \<or> 0 \<le> partial_floor st \<and> partial_floor st \<le> first_at L k s pos"

definition open_ok :: "plog \<Rightarrow> PartitionState \<Rightarrow> nat \<Rightarrow> nat \<Rightarrow> bool" where
  "open_ok L st s pos \<longleftrightarrow> wf_dict (windows st) \<and>
     (\<forall>k w. map_of (windows st) k = Some w \<longrightarrow>
        at L k s pos \<noteq> {} \<and> wcount w = int (card (at L k s pos)) \<and> first_offset w = first_at L k s pos)"

definition closed_ok :: "int \<Rightarrow> plog \<Rightarrow> PartitionState \<Rightarrow> (WindowKey, int) pydict \<Rightarrow> nat \<Rightarrow> nat \<Rightarrow> bool" where
  "closed_ok l L st tbl s pos \<longleftrightarrow>
     (\<forall>k. at L k s pos \<noteq> {} \<longrightarrow> map_of (windows st) k = None \<longrightarrow>
        settled L st tbl s pos k \<and>
        (minute_of k < closed_before l st \<or> minute_of k \<in> flushed_minutes st))"

definition offsets_ok :: "plog \<Rightarrow> PartitionState \<Rightarrow> nat \<Rightarrow> nat \<Rightarrow> bool" where
  "offsets_ok L st s pos \<longleftrightarrow>
     -1 \<le> last_offset st \<and> (\<forall>x. pos \<le> x \<longrightarrow> x < length L \<longrightarrow> last_offset st < off L x) \<and>
     (\<forall>x k. s \<le> x \<longrightarrow> x < pos \<longrightarrow> x < length L \<longrightarrow> key_at L x = Some k \<longrightarrow> off L x \<le> last_offset st) \<and>
     (flushed_minutes st \<noteq> {} \<longrightarrow> 0 \<le> partial_floor st) \<and> partial_floor st \<le> last_offset st"

definition part_inv :: "int \<Rightarrow> plog \<Rightarrow> PartitionState \<Rightarrow> (WindowKey, int) pydict \<Rightarrow> nat \<Rightarrow> nat \<Rightarrow> bool" where
  "part_inv l L st tbl s pos \<longleftrightarrow>
     s \<le> pos \<and> pos \<le> length L \<and> watermark_ms st \<le> high_water L pos \<and>
     open_ok L st s pos \<and> closed_ok l L st tbl s pos \<and> offsets_ok L st s pos \<and>
     (\<forall>k. at L k 0 s \<noteq> {} \<longrightarrow> complete L tbl k)"

definition no_overcount :: "plog \<Rightarrow> (WindowKey, int) pydict \<Rightarrow> bool" where
  "no_overcount L tbl \<longleftrightarrow> (\<forall>k x. k \<in> keys L \<longrightarrow> map_of tbl k = Some x \<longrightarrow> x \<le> total_count L k)"

definition commit_safe :: "plog \<Rightarrow> (WindowKey, int) pydict \<Rightarrow> int \<Rightarrow> bool" where
  "commit_safe L tbl c \<longleftrightarrow>
     (\<forall>x k. x < length L \<longrightarrow> off L x < c \<longrightarrow> key_at L x = Some k \<longrightarrow> complete L tbl k)"

lemma part_inv_start:
  assumes "wf_log L" and "\<forall>c. committed = Some c \<longrightarrow> commit_safe L tbl c"
  shows "part_inv l L new_state tbl (restart_index L committed) (restart_index L committed)"
proof -
  let ?s = "restart_index L committed"
  have "complete L tbl k" if "at L k 0 ?s \<noteq> {}" for k
  proof -
    from that obtain x where x: "x < ?s" "x < length L" "key_at L x = Some k" by (auto simp: at_def)
    then obtain c where "committed = Some c" "off L x < c" using restart_index_below [OF assms(1)] by blast
    with assms(2) x show ?thesis unfolding commit_safe_def by blast
  qed
  moreover have "\<forall>x < length L. -1 < off L x" using off_nonneg [OF assms(1)] by fastforce
  ultimately show ?thesis
    using restart_index_le [of L committed] high_water_nonneg [of L ?s]
    by (auto simp: part_inv_def open_ok_def closed_ok_def offsets_ok_def new_state_def)
qed

lemma first_at_same: "at L k i j = at L k i j' \<Longrightarrow> first_at L k i j = first_at L k i j'"
  by (simp add: first_at_def)

lemma first_at_extends:
  assumes "at L k s pos \<noteq> {}" "s \<le> pos" "pos < length L"
  shows "first_at L k s (Suc pos) = first_at L k s pos"
proof (cases "key_at L pos = Some k")
  case True
  then have a: "at L k s (Suc pos) = insert pos (at L k s pos)" using at_Suc [OF assms(2,3)] by simp
  have "Min (at L k s pos) < pos" using Min_in [OF finite_at assms(1)] by (auto simp: at_def)
  then have "Min (insert pos (at L k s pos)) = Min (at L k s pos)"
    using assms(1) by (simp add: Min_insert)
  then show ?thesis by (simp add: first_at_def a)
next
  case False
  then show ?thesis using at_Suc [OF assms(2,3)] by (simp add: first_at_def)
qed

lemma part_inv_skip:
  assumes "part_inv l L st tbl s pos" "pos < length L" "key_at L pos = None"
  shows "part_inv l L st tbl s (Suc pos)"
proof -
  have s: "s \<le> pos" using assms(1) by (simp add: part_inv_def)
  have a: "at L k s (Suc pos) = at L k s pos" for k using at_Suc [OF s assms(2)] assms(3) by simp
  have "high_water L pos \<le> high_water L (Suc pos)" by (rule high_water_mono) simp
  moreover have "offsets_ok L st s (Suc pos)"
    using assms by (auto simp: part_inv_def offsets_ok_def less_Suc_eq)
  ultimately show ?thesis
    using assms(1,2) by (auto simp: part_inv_def open_ok_def closed_ok_def settled_def first_at_def a)
qed

text \<open>Reading one event: counted, or late after a final flush.\<close>

lemma offsets_ok_next:
  assumes "offsets_ok L st s pos" and "wf_log L" and "pos < length L"
    and "last_offset st' = off L pos" "flushed_minutes st' = flushed_minutes st" "partial_floor st' = partial_floor st"
  shows "offsets_ok L st' s (Suc pos)"
  unfolding offsets_ok_def assms(4-)
proof (intro conjI)
  have o: "last_offset st < off L pos" "0 \<le> off L pos"
    using assms(1,3) off_nonneg [OF assms(2,3)] by (auto simp: offsets_ok_def)
  show "- 1 \<le> off L pos" using o by simp
  show "\<forall>x. Suc pos \<le> x \<longrightarrow> x < length L \<longrightarrow> off L pos < off L x"
    using off_less [OF assms(2), of pos] by auto
  show "\<forall>x k. s \<le> x \<longrightarrow> x < Suc pos \<longrightarrow> x < length L \<longrightarrow> key_at L x = Some k \<longrightarrow> off L x \<le> off L pos"
    using off_mono [OF assms(2) _ assms(3)] by auto
  show "flushed_minutes st \<noteq> {} \<longrightarrow> 0 \<le> partial_floor st" "partial_floor st \<le> off L pos"
    using assms(1) o by (auto simp: offsets_ok_def)
qed

lemma settled_next:
  assumes "closed_ok l L st tbl s pos" and "s \<le> pos" and "pos < length L"
    and "at L k s pos \<noteq> {}" "map_of (windows st) k = None"
    and "partial_floor st' = partial_floor st" "flushed_minutes st' = flushed_minutes st"
    and "closed_before l st \<le> closed_before l st'"
  shows "settled L st' tbl s (Suc pos) k \<and> (minute_of k < closed_before l st' \<or> minute_of k \<in> flushed_minutes st')"
proof -
  have "settled L st tbl s pos k \<and> (minute_of k < closed_before l st \<or> minute_of k \<in> flushed_minutes st)"
    using assms(1,4,5) unfolding closed_ok_def by blast
  then show ?thesis
    using assms(6-) first_at_extends [OF assms(4,2,3)] by (auto simp: settled_def)
qed

lemma window_add_next:
  assumes "open_ok L st s pos" and "wf_log L" and "pos < length L" and "0 \<le> off L pos"
    and a: "at L k s (Suc pos) = insert pos (at L k s pos)"
    and fresh: "map_of (windows st) k = None \<Longrightarrow> at L k s pos = {}" and s: "s \<le> pos"
    and w: "w = window_add (get_default (windows st) k new_window) (off L pos)"
  shows "wcount w = int (card (at L k s (Suc pos))) \<and> first_offset w = first_at L k s (Suc pos)"
proof (cases "map_of (windows st) k")
  case None
  with fresh a assms(4) show ?thesis
    by (simp add: w get_default_def new_window_def window_add_def first_at_def)
next
  case (Some w0)
  then have w0: "at L k s pos \<noteq> {}" "wcount w0 = int (card (at L k s pos))" "first_offset w0 = first_at L k s pos"
    using assms(1) unfolding open_ok_def by blast+
  have "pos \<notin> at L k s pos" by (simp add: at_def)
  moreover have "0 \<le> first_offset w0" "first_offset w0 < off L pos"
  proof -
    have m: "Min (at L k s pos) < pos" using Min_in [OF finite_at w0(1)] by (auto simp: at_def)
    then show "first_offset w0 < off L pos" "0 \<le> first_offset w0"
      using off_less [OF assms(2) m assms(3)] off_nonneg [OF assms(2)] assms(3) by (auto simp: w0(3) first_at_def)
  qed
  ultimately show ?thesis
    using Some w0 a first_at_extends [OF w0(1) s assms(3)]
    by (simp add: w get_default_def window_add_def)
qed

lemma open_ok_late:
  assumes "open_ok L st s pos" and "map_of (windows st) k0 = None"
    and a: "\<And>k. k \<noteq> k0 \<Longrightarrow> at L k s (Suc pos) = at L k s pos" and "windows st' = windows st"
  shows "open_ok L st' s (Suc pos)"
  unfolding open_ok_def assms(4)
proof (intro conjI allI impI)
  fix k w assume w: "map_of (windows st) k = Some w"
  with assms(2) have same: "at L k s (Suc pos) = at L k s pos" by (intro a) auto
  have "at L k s pos \<noteq> {} \<and> wcount w = int (card (at L k s pos)) \<and> first_offset w = first_at L k s pos"
    using assms(1) w unfolding open_ok_def by blast
  then show "at L k s (Suc pos) \<noteq> {}" "wcount w = int (card (at L k s (Suc pos)))"
    "first_offset w = first_at L k s (Suc pos)"
    unfolding first_at_same [OF same] same by blast+
qed (use assms(1) in \<open>unfold open_ok_def, blast\<close>)

lemma open_ok_update:
  assumes "open_ok L st s pos" and a: "\<And>k. k \<noteq> k0 \<Longrightarrow> at L k s (Suc pos) = at L k s pos"
    and "at L k0 s (Suc pos) \<noteq> {}" and "wcount w = int (card (at L k0 s (Suc pos))) \<and> first_offset w = first_at L k0 s (Suc pos)"
    and "windows st' = AList.update k0 w (windows st)"
  shows "open_ok L st' s (Suc pos)"
  unfolding open_ok_def assms(5)
proof (intro conjI allI impI)
  show "wf_dict (AList.update k0 w (windows st))" using assms(1) by (simp add: open_ok_def)
  fix k w' assume w': "map_of (AList.update k0 w (windows st)) k = Some w'"
  have "at L k s (Suc pos) \<noteq> {} \<and> wcount w' = int (card (at L k s (Suc pos))) \<and> first_offset w' = first_at L k s (Suc pos)"
  proof (cases "k = k0")
    case True
    with w' have "w' = w" by (simp add: dict_simps)
    with assms(3,4) True show ?thesis by blast
  next
    case False
    with w' have w: "map_of (windows st) k = Some w'" by (simp add: dict_simps)
    have "at L k s pos \<noteq> {} \<and> wcount w' = int (card (at L k s pos)) \<and> first_offset w' = first_at L k s pos"
      using assms(1) w unfolding open_ok_def by blast
    then show ?thesis unfolding first_at_same [OF a [OF False]] a [OF False] .
  qed
  then show "at L k s (Suc pos) \<noteq> {}" "wcount w' = int (card (at L k s (Suc pos)))"
    "first_offset w' = first_at L k s (Suc pos)" by blast+
qed

lemma part_inv_add:
  assumes inv: "part_inv l L st tbl s pos" and pos: "pos < length L"
    and content: "snd (L ! pos) = Some (wk, t, ms)"
    and wf: "wf_log L" and nl: "no_late l L" and l: "0 \<le> l" and cap: "int (length (windows st)) < cap"
  shows "part_inv l L (fst (add_state l cap st (off L pos) wk t ms)) tbl s (Suc pos)"
proof -
  let ?k = "(wk, t, minute_start ms)" and ?o = "off L pos"
  define st1 where "st1 = note_event st ?o ms"
  have key: "key_at L pos = Some ?k" by (simp add: key_at_def content key_of_def)
  have s: "s \<le> pos" using inv by (simp add: part_inv_def)
  have a: "at L k s (Suc pos) = (if k = ?k then insert pos (at L k s pos) else at L k s pos)" for k
    using at_Suc [OF s pos] key by auto
  have kept: "at L k s (Suc pos) = at L k s pos" if "k \<noteq> ?k" for k using a [of k] that by (simp only: if_False)
  have hw: "high_water L (Suc pos) = max ms (high_water L pos)"
    using high_water_Suc [OF pos] by (simp add: content)
  have wm: "watermark_ms st1 \<le> high_water L (Suc pos)" "watermark_ms st \<le> watermark_ms st1"
    using inv by (auto simp: part_inv_def st1_def note_event_def hw)
  have cut: "closed_before l st1 \<le> minute_of ?k" "closed_before l st \<le> closed_before l st1"
  proof -
    have "closed_before l st1 \<le> minute_start (high_water L (Suc pos) - l)"
      unfolding closed_before_def using wm(1) by (intro minute_start_mono) simp
    also have "\<dots> \<le> minute_of ?k" using nl pos key unfolding no_late_def by blast
    finally show "closed_before l st1 \<le> minute_of ?k" .
    show "closed_before l st \<le> closed_before l st1"
      unfolding closed_before_def using wm(2) by (intro minute_start_mono) simp
  qed
  have opn: "open_ok L st s pos" and cls: "closed_ok l L st tbl s pos" and ofs: "offsets_ok L st s pos"
    using inv by (simp_all add: part_inv_def)
  have o: "last_offset st < ?o" "0 \<le> ?o"
    using ofs pos off_nonneg [OF wf pos] by (auto simp: offsets_ok_def)
  have st1: "windows st1 = windows st" "flushed_minutes st1 = flushed_minutes st"
    "partial_floor st1 = partial_floor st" "last_offset st1 = ?o"
    using o by (simp_all add: st1_def note_event_def)
  note ofs1 = offsets_ok_next [OF ofs wf pos]
  have before: "\<forall>k. at L k 0 s \<noteq> {} \<longrightarrow> complete L tbl k" using inv by (simp add: part_inv_def)
  have late: "is_late l st1 ?k \<longleftrightarrow> minute_of ?k \<in> flushed_minutes st \<and> map_of (windows st) ?k = None"
    using cut(1) by (auto simp: is_late_def Let_def st1)
  note others = settled_next [OF cls s pos]
  show ?thesis
  proof (cases "is_late l st1 ?k")
    case True
    then have res: "fst (add_state l cap st ?o wk t ms) = st1"
      by (simp add: add_state_def st1_def [symmetric] Let_def)
    from True late have fl: "minute_of ?k \<in> flushed_minutes st" and no: "map_of (windows st) ?k = None" by blast+
    have "open_ok L st1 s (Suc pos)"
      by (rule open_ok_late [where st' = st1, OF opn no kept st1(1)])
    moreover have "closed_ok l L st1 tbl s (Suc pos)"
      unfolding closed_ok_def st1(1)
    proof (intro allI impI)
      fix k assume k: "at L k s (Suc pos) \<noteq> {}" "map_of (windows st) k = None"
      show "settled L st1 tbl s (Suc pos) k \<and> (minute_of k < closed_before l st1 \<or> minute_of k \<in> flushed_minutes st1)"
      proof (cases "at L k s pos = {}")
        case False
        with k(2) cut(2) st1 show ?thesis by (intro others) simp_all
      next
        case new: True
        with k(1) a [of k] have kk: "k = ?k" by (auto split: if_splits)
        have "first_at L ?k s (Suc pos) = ?o" using a [of ?k] new kk by (simp add: first_at_def)
        moreover have "0 \<le> partial_floor st" "partial_floor st \<le> last_offset st"
          using ofs fl by (auto simp: offsets_ok_def)
        ultimately have "settled L st1 tbl s (Suc pos) k" using o by (simp add: settled_def st1 kk)
        with fl kk show ?thesis by (simp add: st1)
      qed
    qed
    ultimately show ?thesis
      unfolding res part_inv_def using s pos wm(1) ofs1 [of st1] st1 before by simp
  next
    case False
    define w where "w = window_add (get_default (windows st) ?k new_window) ?o"
    define st2 where "st2 = st1\<lparr>windows := AList.update ?k w (windows st)\<rparr>"
    have wfd: "wf_dict (windows st2)" using opn by (simp add: st2_def open_ok_def)
    have "int (length (windows st2)) \<le> cap"
      using cap by (simp add: st2_def length_update)
    then have res: "fst (add_state l cap st ?o wk t ms) = st2"
      using False enforce_cap_below
      by (simp add: add_state_def st1_def [symmetric] Let_def st2_def w_def st1)
    have cut2: "closed_before l st2 = closed_before l st1" by (simp add: closed_before_def st2_def)
    have fresh: "at L ?k s pos = {}" if "map_of (windows st) ?k = None"
    proof (rule ccontr)
      assume "at L ?k s pos \<noteq> {}"
      with that cls have "minute_of ?k < closed_before l st \<or> minute_of ?k \<in> flushed_minutes st"
        unfolding closed_ok_def by blast
      with cut have "minute_of ?k \<in> flushed_minutes st" by linarith
      with False late that show False by blast
    qed
    have neww: "wcount w = int (card (at L ?k s (Suc pos))) \<and> first_offset w = first_at L ?k s (Suc pos)"
      using window_add_next [OF opn wf pos o(2) _ fresh s w_def] a [of ?k] by simp
    have "open_ok L st2 s (Suc pos)"
      by (rule open_ok_update [OF opn kept _ neww]) (use a [of ?k] in \<open>simp_all add: st2_def\<close>)
    moreover have "closed_ok l L st2 tbl s (Suc pos)"
      unfolding closed_ok_def
    proof (intro allI impI)
      fix k assume k: "at L k s (Suc pos) \<noteq> {}" "map_of (windows st2) k = None"
      then have "k \<noteq> ?k" "map_of (windows st) k = None" by (auto simp: st2_def dict_simps split: if_splits)
      moreover from this k a have "at L k s pos \<noteq> {}" by simp
      ultimately show "settled L st2 tbl s (Suc pos) k \<and>
          (minute_of k < closed_before l st2 \<or> minute_of k \<in> flushed_minutes st2)"
        using cut(2) cut2 by (intro others) (simp_all add: st2_def st1)
    qed
    moreover have "offsets_ok L st2 s (Suc pos)" by (rule ofs1) (simp_all add: st2_def st1)
    ultimately show ?thesis
      unfolding res part_inv_def using s pos wm(1) before by (simp add: st2_def)
  qed
qed

subsection \<open>Popping windows\<close>

lemma pop_state_fields:
  "closed_before l (fst (pop_state final l st)) = closed_before l st"
  "watermark_ms (fst (pop_state final l st)) = watermark_ms st"
  "last_offset (fst (pop_state final l st)) = last_offset st"
  "wf_dict (windows st) \<Longrightarrow> wf_dict (windows (fst (pop_state final l st)))"
  "map_of (windows (fst (pop_state final l st))) k =
     (if final \<or> minute_of k < closed_before l st then None else map_of (windows st) k)"
  using map_of_filter_key [of "\<lambda>k. \<not> (final \<or> minute_of k < closed_before l st)" "windows st" k]
  by (simp_all add: pop_state_def Let_def closed_before_def del: de_Morgan_disj)

lemma popped_rows:
  "set (snd (pop_state final l st)) =
     close_window ` {(k, w) \<in> set (windows st). final \<or> minute_of k < closed_before l st}"
  by (auto simp: pop_state_def Let_def)

lemma pop_flushed:
  "m \<in> flushed_minutes (fst (pop_state final l st)) \<longleftrightarrow>
     closed_before l st \<le> m \<and>
     (m \<in> flushed_minutes st \<or> final \<and> (\<exists>k w. (k, w) \<in> set (windows st) \<and> minute_of k = m))"
  by (force simp: pop_state_def Let_def)

text \<open>The floor a final flush leaves: below every window it wrote early.\<close>

abbreviation held :: "bool \<Rightarrow> int \<Rightarrow> PartitionState \<Rightarrow> (WindowKey \<times> Window) set" where
  "held final l st \<equiv> {(k, w) \<in> set (windows st). final \<and> closed_before l st \<le> minute_of k}"

lemma floor_fold:
  fixes f :: int
  assumes "\<forall>x \<in> set xs. P x \<longrightarrow> 0 \<le> g x"
  defines "r \<equiv> fold (\<lambda>x f. if P x then lower_floor (g x) f else f) xs f"
  shows "0 \<le> f \<longrightarrow> 0 \<le> r \<and> r \<le> f" and "x \<in> set xs \<Longrightarrow> P x \<Longrightarrow> 0 \<le> r \<and> r \<le> g x"
    and "(\<forall>x \<in> set xs. P x \<longrightarrow> g x \<le> b) \<Longrightarrow> f \<le> b \<Longrightarrow> r \<le> b"
proof -
  have "(0 \<le> f \<longrightarrow> 0 \<le> r \<and> r \<le> f) \<and> (\<forall>x \<in> set xs. P x \<longrightarrow> 0 \<le> r \<and> r \<le> g x) \<and>
      ((\<forall>x \<in> set xs. P x \<longrightarrow> g x \<le> b) \<longrightarrow> f \<le> b \<longrightarrow> r \<le> b)"
    using assms(1) unfolding r_def
  proof (induction xs arbitrary: f)
    case (Cons y ys)
    define f1 where "f1 = (if P y then lower_floor (g y) f else f)"
    have ih: "(0 \<le> f1 \<longrightarrow> 0 \<le> fold (\<lambda>x f. if P x then lower_floor (g x) f else f) ys f1 \<and>
          fold (\<lambda>x f. if P x then lower_floor (g x) f else f) ys f1 \<le> f1) \<and>
        (\<forall>x \<in> set ys. P x \<longrightarrow> 0 \<le> fold (\<lambda>x f. if P x then lower_floor (g x) f else f) ys f1 \<and>
          fold (\<lambda>x f. if P x then lower_floor (g x) f else f) ys f1 \<le> g x) \<and>
        ((\<forall>x \<in> set ys. P x \<longrightarrow> g x \<le> b) \<longrightarrow> f1 \<le> b \<longrightarrow>
          fold (\<lambda>x f. if P x then lower_floor (g x) f else f) ys f1 \<le> b)"
      using Cons.prems by (intro Cons.IH) simp
    have f1: "0 \<le> f \<longrightarrow> 0 \<le> f1 \<and> f1 \<le> f" "P y \<longrightarrow> 0 \<le> f1 \<and> f1 \<le> g y"
      "f \<le> b \<longrightarrow> (P y \<longrightarrow> g y \<le> b) \<longrightarrow> f1 \<le> b"
      using Cons.prems by (auto simp: f1_def lower_floor_def)
    show ?case
      unfolding fold_simps comp_def f1_def [symmetric] using ih f1 by force
  qed simp
  then show "0 \<le> f \<longrightarrow> 0 \<le> r \<and> r \<le> f" and "x \<in> set xs \<Longrightarrow> P x \<Longrightarrow> 0 \<le> r \<and> r \<le> g x"
    and "(\<forall>x \<in> set xs. P x \<longrightarrow> g x \<le> b) \<Longrightarrow> f \<le> b \<Longrightarrow> r \<le> b" by blast+
qed

lemma pop_floor:
  assumes "\<forall>(k, w) \<in> held final l st. 0 \<le> first_offset w"
  defines "r \<equiv> partial_floor (fst (pop_state final l st))"
  shows "0 \<le> partial_floor st \<longrightarrow> 0 \<le> r \<and> r \<le> partial_floor st"
    and "(k, w) \<in> held final l st \<Longrightarrow> 0 \<le> r \<and> r \<le> first_offset w"
    and "(\<forall>(k, w) \<in> held final l st. first_offset w \<le> b) \<Longrightarrow> partial_floor st \<le> b \<Longrightarrow> r \<le> b"
proof -
  let ?xs = "filter (\<lambda>(key, _). final \<or> minute_of key < closed_before l st) (windows st)"
  let ?P = "\<lambda>x :: WindowKey \<times> Window. final \<and> closed_before l st \<le> minute_of (fst x)"
  have r: "r = fold (\<lambda>x f. if ?P x then lower_floor (first_offset (snd x)) f else f) ?xs (partial_floor st)"
  proof -
    have "(\<lambda>(key, w) f. if final \<and> closed_before l st \<le> minute_of key then lower_floor (first_offset w) f else f)
        = (\<lambda>x f. if ?P x then lower_floor (first_offset (snd x)) f else f)"
      by (simp add: fun_eq_iff split_def)
    note eq = this
    show ?thesis unfolding r_def pop_state_def Let_def fst_conv eq by simp
  qed
  have held: "x \<in> set ?xs \<and> ?P x \<longleftrightarrow> x \<in> held final l st" for x by auto
  have pos: "\<forall>x \<in> set ?xs. ?P x \<longrightarrow> 0 \<le> first_offset (snd x)" using assms(1) held by fastforce
  note ff = floor_fold [where xs = ?xs and P = ?P and g = "\<lambda>x. first_offset (snd x)" and f = "partial_floor st", OF pos, folded r]
  show "0 \<le> partial_floor st \<longrightarrow> 0 \<le> r \<and> r \<le> partial_floor st" by (rule ff(1))
  show "0 \<le> r \<and> r \<le> first_offset w" if "(k, w) \<in> held final l st"
    using ff(2) [where x = "(k, w)"] that held [of "(k, w)"] by simp
  show "r \<le> b" if "\<forall>(k, w) \<in> held final l st. first_offset w \<le> b" "partial_floor st \<le> b"
    using ff(3) [where b = b] that held by fastforce
qed


lemma complete_mono:
  assumes "complete L tbl k" and "\<And>x. map_of tbl k = Some x \<Longrightarrow> \<exists>y. map_of tbl' k = Some y \<and> x \<le> y"
  shows "complete L tbl' k"
  using assms unfolding complete_def by fastforce

text \<open>
  A window below the cutoff holds the whole count of its minute, unless an earlier owner has
  already completed it: no later event of that minute is to come.
\<close>

lemma closed_is_total:
  assumes inv: "part_inv l L st tbl s pos" and nl: "no_late l L"
    and k: "minute_of k < closed_before l st" and none: "at L k 0 s = {}"
  shows "int (card (at L k s pos)) = total_count L k"
proof -
  have "x \<in> at L k s pos" if "x \<in> at L k 0 (length L)" for x
  proof -
    from that have x: "x < length L" "key_at L x = Some k" by (auto simp: at_def)
    have "s \<le> x" using none x by (auto simp: at_def)
    moreover have "x < pos"
    proof (rule ccontr)
      assume "\<not> x < pos"
      then have "high_water L pos \<le> high_water L (Suc x)" by (intro high_water_mono) simp
      moreover have "watermark_ms st \<le> high_water L pos" using inv by (simp add: part_inv_def)
      ultimately have "closed_before l st \<le> minute_start (high_water L (Suc x) - l)"
        unfolding closed_before_def by (intro minute_start_mono) simp
      also have "\<dots> \<le> minute_of k" using nl x unfolding no_late_def by blast
      finally show False using k by simp
    qed
    ultimately show ?thesis using x by (simp add: at_def)
  qed
  moreover have "at L k s pos \<subseteq> at L k 0 (length L)" by (auto simp: at_def)
  ultimately have "at L k s pos = at L k 0 (length L)" by blast
  then show ?thesis by (simp add: total_count_def)
qed

lemma first_at_range:
  assumes wf: "wf_log L" and ofs: "offsets_ok L st s pos" and ne: "at L k s pos \<noteq> {}"
  shows "0 \<le> first_at L k s pos \<and> first_at L k s pos \<le> last_offset st"
proof -
  have "Min (at L k s pos) \<in> at L k s pos" using ne by (intro Min_in) simp_all
  then have m: "s \<le> Min (at L k s pos)" "Min (at L k s pos) < pos" "Min (at L k s pos) < length L"
    "key_at L (Min (at L k s pos)) = Some k" unfolding at_def by blast+
  have "0 \<le> off L (Min (at L k s pos))" using off_nonneg [OF wf m(3)] .
  moreover have "off L (Min (at L k s pos)) \<le> last_offset st"
    using ofs m unfolding offsets_ok_def by blast
  ultimately show ?thesis unfolding first_at_def by blast
qed

lemma part_inv_pop:
  assumes inv: "part_inv l L st tbl s pos" and wf: "wf_log L" and nl: "no_late l L"
    and grows: "\<And>k x. map_of tbl k = Some x \<Longrightarrow> \<exists>y. map_of tbl' k = Some y \<and> x \<le> y"
    and written: "\<And>k w. (k, w) \<in> set (windows st) \<Longrightarrow> final \<or> minute_of k < closed_before l st \<Longrightarrow>
      \<exists>y. map_of tbl' k = Some y \<and> wcount w \<le> y"
  shows "part_inv l L (fst (pop_state final l st)) tbl' s pos"
proof -
  let ?st = "fst (pop_state final l st)"
  have opn: "open_ok L st s pos" and cls: "closed_ok l L st tbl s pos" and ofs: "offsets_ok L st s pos"
    and bef: "\<forall>k. at L k 0 s \<noteq> {} \<longrightarrow> complete L tbl k" and pos: "pos \<le> length L"
    using inv by (simp_all add: part_inv_def)
  have wfd: "wf_dict (windows st)" using opn unfolding open_ok_def by blast
  have w_ok: "at L k s pos \<noteq> {}" "wcount w = int (card (at L k s pos))" "first_offset w = first_at L k s pos"
    if "(k, w) \<in> set (windows st)" for k w
    using opn that unfolding open_ok_def in_dict_iff [OF wfd] by blast+
  note first = first_at_range [OF wf ofs]
  have nonneg: "\<forall>(k, w) \<in> held final l st. 0 \<le> first_offset w" using w_ok first by fastforce
  note fl = pop_floor [OF nonneg]
  have bef': "\<forall>k. at L k 0 s \<noteq> {} \<longrightarrow> complete L tbl' k" using bef complete_mono grows by blast
  have "open_ok L ?st s pos"
    using opn wfd unfolding open_ok_def pop_state_fields(5) by (auto simp: pop_state_fields(4) split: if_splits)
  moreover have "closed_ok l L ?st tbl' s pos"
    unfolding closed_ok_def pop_state_fields(1,5)
  proof (intro allI impI)
    fix k assume ne: "at L k s pos \<noteq> {}"
      and out: "(if final \<or> minute_of k < closed_before l st then None else map_of (windows st) k) = None"
    show "settled L ?st tbl' s pos k \<and>
      (minute_of k < closed_before l st \<or> minute_of k \<in> flushed_minutes ?st)"
    proof (cases "map_of (windows st) k")
      case None
      with cls ne have "settled L st tbl s pos k"
        and "minute_of k < closed_before l st \<or> minute_of k \<in> flushed_minutes st"
        unfolding closed_ok_def by blast+
      then show ?thesis
        using complete_mono [of L tbl k tbl'] grows fl(1) unfolding settled_def pop_flushed by fastforce
    next
      case (Some w)
      then have kw: "(k, w) \<in> set (windows st)" by (simp add: in_dict_iff [OF wfd])
      have gone: "final \<or> minute_of k < closed_before l st" using out Some by (simp split: if_splits)
      show ?thesis
      proof (cases "minute_of k < closed_before l st")
        case True
        have "complete L tbl' k"
        proof (cases "at L k 0 s = {}")
          case e: True
          show ?thesis
            using written [OF kw gone] closed_is_total [OF inv nl True e] w_ok(2) [OF kw]
            unfolding complete_def by fastforce
        qed (use bef' in blast)
        with True show ?thesis by (simp add: settled_def)
      next
        case False
        then have h: "(k, w) \<in> held final l st" using kw gone by auto
        from fl(2) [OF this] w_ok(3) [OF kw] have "settled L ?st tbl' s pos k" by (simp add: settled_def)
        moreover have "minute_of k \<in> flushed_minutes ?st"
          unfolding pop_flushed using h kw False by blast
        ultimately show ?thesis by blast
      qed
    qed
  qed
  moreover have "offsets_ok L ?st s pos"
  proof -
    have "0 \<le> partial_floor ?st" if "m \<in> flushed_minutes ?st" for m
      using that ofs fl(1,2) unfolding pop_flushed offsets_ok_def by fastforce
    moreover have "partial_floor ?st \<le> last_offset st"
      using w_ok first ofs unfolding offsets_ok_def by (intro fl(3)) fastforce+
    ultimately show ?thesis using ofs unfolding offsets_ok_def pop_state_fields(3) by blast
  qed
  ultimately show ?thesis
    using inv bef' unfolding part_inv_def by (simp add: pop_state_fields)
qed

text \<open>The offset to commit passes no event whose minute the database does not hold in full.\<close>

lemma commit_offset_bounds:
  assumes "commit_offset st = Some c"
  shows "c \<le> last_offset st + 1 \<or> windows st \<noteq> []"
    and "(k, w) \<in> set (windows st) \<Longrightarrow> c \<le> first_offset w"
    and "0 \<le> partial_floor st \<Longrightarrow> c \<le> partial_floor st"
proof -
  show "c \<le> last_offset st + 1 \<or> windows st \<noteq> []" and "0 \<le> partial_floor st \<Longrightarrow> c \<le> partial_floor st"
    using assms by (auto simp: commit_offset_def Let_def split: if_splits)
  assume kw: "(k, w) \<in> set (windows st)"
  then have "Min (set (map (\<lambda>(_, w). first_offset w) (windows st))) \<le> first_offset w"
    by (intro Min_le) force+
  then show "c \<le> first_offset w" using assms kw by (auto simp: commit_offset_def Let_def split: if_splits)
qed

lemma part_inv_commit:
  assumes inv: "part_inv l L st tbl s pos" and wf: "wf_log L" and c: "commit_offset st = Some c"
  shows "commit_safe L tbl c"
  unfolding commit_safe_def
proof (intro allI impI)
  fix x k assume x: "x < length L" "off L x < c" "key_at L x = Some k"
  have opn: "open_ok L st s pos" and cls: "closed_ok l L st tbl s pos" and ofs: "offsets_ok L st s pos"
    and bef: "\<forall>k. at L k 0 s \<noteq> {} \<longrightarrow> complete L tbl k"
    using inv by (simp_all add: part_inv_def)
  have wfd: "wf_dict (windows st)" using opn unfolding open_ok_def by blast
  note cb = commit_offset_bounds [OF c]
  consider "x < s" | "s \<le> x" "x < pos" | "pos \<le> x" by linarith
  then show "complete L tbl k"
  proof cases
    case 1
    with x have "x \<in> at L k 0 s" by (simp add: at_def)
    with bef show ?thesis by blast
  next
    case 2
    with x have in_at: "x \<in> at L k s pos" by (simp add: at_def)
    have le: "first_at L k s pos \<le> off L x"
      using Min_le [OF finite_at in_at] x(1) unfolding first_at_def by (intro off_mono [OF wf]) simp_all
    show ?thesis
    proof (cases "map_of (windows st) k")
      case None
      with cls in_at have "settled L st tbl s pos k" unfolding closed_ok_def by blast
      then show ?thesis using cb(3) le x(2) unfolding settled_def by linarith
    next
      case (Some w)
      then have "c \<le> first_offset w" by (intro cb(2)) (simp add: in_dict_iff [OF wfd])
      moreover have "first_offset w = first_at L k s pos" using opn Some unfolding open_ok_def by blast
      ultimately show ?thesis using le x(2) by linarith
    qed
  next
    case 3
    with ofs x(1) have last: "last_offset st < off L x" unfolding offsets_ok_def by blast
    show ?thesis
    proof (cases "windows st")
      case Nil
      with cb(1) last x(2) show ?thesis by simp
    next
      case (Cons kw ws)
      obtain k' w where kw: "(k', w) \<in> set (windows st)" using Cons by (cases kw) auto
      then have "at L k' s pos \<noteq> {}" "first_offset w = first_at L k' s pos"
        using opn unfolding open_ok_def in_dict_iff [OF wfd] by blast+
      with first_at_range [OF wf ofs] cb(2) [OF kw] last x(2) show ?thesis by fastforce
    qed
  qed
qed

text \<open>A window never holds more than there is.\<close>

lemma part_inv_count_le:
  "part_inv l L st tbl s pos \<Longrightarrow> (k, w) \<in> set (windows st) \<Longrightarrow> k \<in> keys L \<and> wcount w \<le> total_count L k"
proof -
  assume inv: "part_inv l L st tbl s pos" and kw: "(k, w) \<in> set (windows st)"
  have opn: "open_ok L st s pos" using inv by (simp add: part_inv_def)
  then have wfd: "wf_dict (windows st)" unfolding open_ok_def by blast
  from opn kw have "at L k s pos \<noteq> {}" "wcount w = int (card (at L k s pos))"
    unfolding open_ok_def in_dict_iff [OF wfd] by blast+
  then show ?thesis using card_at_le [of L k s pos] by (auto simp: at_def keys_def)
qed

subsection \<open>A partition kept across a final flush\<close>

datatype part_op = AddEvent int ustr ustr int | PopWindows bool

fun part_run :: "int \<Rightarrow> int \<Rightarrow> part_op list \<Rightarrow> PartitionState \<Rightarrow> PartitionState" where
  "part_run l cap [] st = st"
| "part_run l cap (AddEvent n w t ms # ops) st = part_run l cap ops (fst (add_state l cap st n w t ms))"
| "part_run l cap (PopWindows final # ops) st = part_run l cap ops (fst (pop_state final l st))"

definition op_offsets :: "part_op list \<Rightarrow> int set" where
  "op_offsets ops = {n. \<exists>w t ms. AddEvent n w t ms \<in> set ops}"

definition held_below :: "int \<Rightarrow> PartitionState \<Rightarrow> bool" where
  "held_below b st \<longleftrightarrow> (\<forall>(k, w) \<in> set (windows st). 0 \<le> first_offset w) \<and> 0 \<le> partial_floor st \<and> partial_floor st \<le> b"

lemma window_add_nonneg: "0 \<le> n \<Longrightarrow> 0 \<le> first_offset (window_add w n)"
  by (simp add: window_add_def)

lemma held_below_add: "held_below b st \<Longrightarrow> 0 \<le> n \<Longrightarrow> held_below b (fst (add_state l cap st n w t ms))"
  using set_update_subset [of "(w, t, minute_start ms)" _ "windows st"] window_add_nonneg [of n]
    enforce_cap_fields [of cap]
  unfolding held_below_def add_state_def Let_def note_event_def
  by simp fastforce

lemma pop_windows_subset: "set (windows (fst (pop_state final l st))) \<subseteq> set (windows st)"
  by (auto simp: pop_state_def Let_def)

lemma held_below_pop: "held_below b st \<Longrightarrow> held_below b (fst (pop_state final l st))"
  using pop_floor(1) [where final = final and l = l and st = st] pop_windows_subset [of final l st] unfolding held_below_def by fastforce

lemma held_below_run: "held_below b st \<Longrightarrow> \<forall>n \<in> op_offsets ops. 0 \<le> n \<Longrightarrow> held_below b (part_run l cap ops st)"
proof (induction l cap ops st rule: part_run.induct)
  case (2 l cap n w t ms ops st)
  then have "0 \<le> n" "\<forall>n \<in> op_offsets ops. 0 \<le> n" by (auto simp: op_offsets_def)
  with 2 show ?case by (simp add: held_below_add)
next
  case (3 l cap final ops st)
  then have "\<forall>n \<in> op_offsets ops. 0 \<le> n" by (auto simp: op_offsets_def)
  with 3 show ?case by (simp add: held_below_pop)
qed simp

text \<open>
  A partition that an instance keeps across a final flush (a cooperative rebalance that takes
  other partitions away) never commits past the windows that flush cut short: whatever is counted
  and flushed afterwards, the offset to commit stays at or below the first offset of every window
  that was still open. Nothing counted in part is skipped, and the commit point of that partition
  stands still until the partition changes hands.
\<close>

theorem final_flush_holds_commit:
  assumes "(k, w) \<in> set (windows st)" and "closed_before l st \<le> minute_of k"
    and "\<forall>(k, w) \<in> set (windows st). 0 \<le> first_offset w" and "\<forall>n \<in> op_offsets ops. 0 \<le> n"
    and "commit_offset (part_run l cap ops (fst (pop_state True l st))) = Some c"
  shows "c \<le> first_offset w"
proof -
  let ?st = "fst (pop_state True l st)"
  have "0 \<le> partial_floor ?st \<and> partial_floor ?st \<le> first_offset w"
    using assms(1-3) by (intro pop_floor(2)) auto
  then have "held_below (first_offset w) ?st"
    using assms(3) pop_windows_subset [of True l st] unfolding held_below_def by fastforce
  then have "held_below (first_offset w) (part_run l cap ops ?st)" using assms(4) by (rule held_below_run)
  with commit_offset_bounds(3) [OF assms(5)] show ?thesis unfolding held_below_def by linarith
qed

abbreviation one_window :: PartitionState where
  "one_window \<equiv> fst (add_state DEFAULT_LATENESS_MS 5 new_state 7 (ascii ''w'') (ascii ''A'') 90000)"

lemmas window_evals = add_state_def note_event_def is_late_def closed_before_def minute_start_def MINUTE_MS_def
  DEFAULT_LATENESS_MS_def new_state_def new_window_def window_add_def enforce_cap_below
  pop_state_def lower_floor_def close_window_def commit_offset_def

theorem final_flush_holds_commit_witness:
  "\<exists>c. commit_offset (part_run DEFAULT_LATENESS_MS 5 [AddEvent 8 (ascii ''w'') (ascii ''B'') 900000, PopWindows False]
      (fst (pop_state True DEFAULT_LATENESS_MS one_window))) = Some c \<and> c \<le> 7"
proof -
  let ?w = "\<lparr>wcount = 1, first_offset = 7\<rparr>" and ?k = "(ascii ''w'', ascii ''A'', 60000)"
  have w: "windows one_window = [(?k, ?w)]" "closed_before DEFAULT_LATENESS_MS one_window = - 60000"
    by (simp_all add: window_evals)
  have "commit_offset (part_run DEFAULT_LATENESS_MS 5 [AddEvent 8 (ascii ''w'') (ascii ''B'') 900000, PopWindows False]
      (fst (pop_state True DEFAULT_LATENESS_MS one_window))) = Some 7"
    by (simp add: window_evals)
  with final_flush_holds_commit [of ?k ?w one_window DEFAULT_LATENESS_MS
      "[AddEvent 8 (ascii ''w'') (ascii ''B'') 900000, PopWindows False]" 5 7]
  show ?thesis by (simp add: w op_offsets_def)
qed

text \<open>
  The price of that: a partition kept across a final flush loses edits until it changes
  hands. After a final flush of a page minute that is still open, the next edit of the same page
  and minute is refused as late, though the stream has not moved past the minute, so the total in
  the database stays partial as long as the instance keeps the partition.
\<close>

theorem retained_partition_refuses_current_edits:
  "let st = fst (pop_state True DEFAULT_LATENESS_MS one_window)
   in snd (pop_state True DEFAULT_LATENESS_MS one_window) =
        [\<lparr>cw_wiki = ascii ''w'', cw_title = ascii ''A'', cw_minute_ms = 60000, cw_count = 1\<rparr>] \<and>
      snd (add_state DEFAULT_LATENESS_MS 5 st 8 (ascii ''w'') (ascii ''A'') 90001) = False \<and>
      closed_before DEFAULT_LATENESS_MS st < 60000"
  by (simp add: window_evals)

text \<open>
  The cap on open windows gives up counts. With more windows than the cap, the oldest minute
  is dropped without being written: a flush that follows, even a final one, does not return it,
  and the offset to commit has already passed its edits, so no restart recounts them.
\<close>

theorem window_cap_loses_counts:
  "let l = DEFAULT_LATENESS_MS;
       st1 = fst (add_state l 1 new_state 7 (ascii ''w'') (ascii ''A'') 90000);
       (st2, counts_it) = add_state l 1 st1 8 (ascii ''w'') (ascii ''B'') 150000
   in counts_it \<and> commit_offset st1 = Some 7 \<and> commit_offset st2 = Some 8 \<and>
      map close_window (windows st1) =
        [\<lparr>cw_wiki = ascii ''w'', cw_title = ascii ''A'', cw_minute_ms = 60000, cw_count = 1\<rparr>] \<and>
      snd (pop_state True l st2) =
        [\<lparr>cw_wiki = ascii ''w'', cw_title = ascii ''B'', cw_minute_ms = 120000, cw_count = 1\<rparr>]"
  by (simp add: window_evals enforce_cap.simps [of 1] oldest_minute_def drop_minute_def)

end
