(* ===== verification/TrendingGroup.thy ===== *)
theory TrendingGroup
  imports Trending
begin

text \<open>
  The consumer group of \<^verbatim>\<open>processors/trending.py\<close> as a step relation: any number
  of instances that share the table and the committed offsets. An instance may crash at any time,
  also between writing the rows and committing the offsets. Each instance runs the
  \<open>handle\<close>, \<open>flush\<close> and \<open>on_revoke\<close> of the component.
\<close>

definition new_trending :: "int \<Rightarrow> int \<Rightarrow> Trending" where
  "new_trending l cap =
     \<lparr>tr_windows = new_minute_windows l cap, written_rows = 0, marked = 0, unreadable = 0\<rparr>"

text \<open>What the handler takes from a partition's messages.\<close>

definition plog_of :: "runtime \<Rightarrow> kmsg list \<Rightarrow> plog" where
  "plog_of rt ms =
     map (\<lambda>m. (k_offset m, case decoded rt m of Inr c \<Rightarrow> c | Inl _ \<Rightarrow> None)) ms"

record group =
  member :: "nat \<Rightarrow> Trending"
  owner :: "int \<Rightarrow> nat option"
  start_at :: "int \<Rightarrow> nat"
  next_at :: "int \<Rightarrow> nat"
  committed :: "int \<Rightarrow> int option"
  table :: "(WindowKey, int) pydict"

definition start_group :: "int \<Rightarrow> int \<Rightarrow> group" where
  "start_group l cap =
     \<lparr>member = (\<lambda>_. new_trending l cap), owner = (\<lambda>_. None), start_at = (\<lambda>_. 0),
      next_at = (\<lambda>_. 0), committed = (\<lambda>_. None), table = []\<rparr>"

definition take_over :: "runtime \<Rightarrow> (int \<Rightarrow> kmsg list) \<Rightarrow> nat \<Rightarrow> int \<Rightarrow> group \<Rightarrow> group" where
  "take_over rt logs i p g =
     (let s = restart_index (plog_of rt (logs p)) (committed g p)
      in g\<lparr>owner := (owner g)(p := Some i), start_at := (start_at g)(p := s),
           next_at := (next_at g)(p := s)\<rparr>)"

definition commit_all :: "(int, int) pydict \<Rightarrow> group \<Rightarrow> group" where
  "commit_all offsets g =
     g\<lparr>committed := committed g ++ map_of offsets\<rparr>"

definition restart :: "int \<Rightarrow> int \<Rightarrow> nat \<Rightarrow> group \<Rightarrow> group" where
  "restart l cap i g =
     g\<lparr>member := (member g)(i := new_trending l cap),
       owner := (\<lambda>p. if owner g p = Some i then None else owner g p)\<rparr>"

definition has_room :: "int \<Rightarrow> Trending \<Rightarrow> int \<Rightarrow> bool" where
  "has_room cap tr p \<longleftrightarrow> int (length (windows (state_of (tr_windows tr) p))) < cap"

text \<open>
  With \<open>below\<close> set, no record is read for a partition whose open windows have reached the cap, so
  that no window is ever forced out.
\<close>

inductive group_step ::
  "bool \<Rightarrow> runtime \<Rightarrow> (WindowKey \<times> int \<Rightarrow> bool) \<Rightarrow> int \<Rightarrow> int \<Rightarrow> (int \<Rightarrow> kmsg list) \<Rightarrow> group \<Rightarrow> group \<Rightarrow> bool"
  for below rt storable l cap logs where
  assign: "owner g p = None \<Longrightarrow> group_step below rt storable l cap logs g (take_over rt logs i p g)"
| read: "owner g p = Some i \<Longrightarrow> next_at g p < length (logs p) \<Longrightarrow>
    handle rt (member g i) (logs p ! next_at g p) = Inr tr \<Longrightarrow>
    below \<longrightarrow> has_room cap (member g i) p \<Longrightarrow>
    group_step below rt storable l cap logs g
      (g\<lparr>member := (member g)(i := tr), next_at := (next_at g)(p := Suc (next_at g p))\<rparr>)"
| flushed: "flush storable final (member g i) (table g) = Inr (tr, tbl, offsets) \<Longrightarrow>
    group_step below rt storable l cap logs g
      (commit_all offsets (g\<lparr>member := (member g)(i := tr), table := tbl\<rparr>))"
| revoked: "on_revoke storable ps (member g i) (table g) = Inr (tr, tbl, offsets) \<Longrightarrow>
    \<forall>p \<in> set ps. owner g p = Some i \<Longrightarrow>
    group_step below rt storable l cap logs g
      (commit_all offsets
        (g\<lparr>member := (member g)(i := tr), table := tbl,
           owner := (\<lambda>p. if p \<in> set ps then None else owner g p)\<rparr>))"
| crashed: "group_step below rt storable l cap logs g (restart l cap i g)"
| crashed_before_commit: "flush storable final (member g i) (table g) = Inr (tr, tbl, offsets) \<Longrightarrow>
    group_step below rt storable l cap logs g (restart l cap i (g\<lparr>table := tbl\<rparr>))"

inductive group_reaches ::
  "bool \<Rightarrow> runtime \<Rightarrow> (WindowKey \<times> int \<Rightarrow> bool) \<Rightarrow> int \<Rightarrow> int \<Rightarrow> (int \<Rightarrow> kmsg list) \<Rightarrow> group \<Rightarrow> bool"
  for below rt storable l cap logs where
  started: "group_reaches below rt storable l cap logs (start_group l cap)"
| stepped: "group_reaches below rt storable l cap logs g \<Longrightarrow> group_step below rt storable l cap logs g g' \<Longrightarrow>
    group_reaches below rt storable l cap logs g'"

subsection \<open>What the group relies on\<close>

text \<open>
  Offsets grow along a partition, a page is in one partition only (the producer's key), and no event
  is later than the allowance.
\<close>

definition good_logs :: "runtime \<Rightarrow> int \<Rightarrow> (int \<Rightarrow> kmsg list) \<Rightarrow> bool" where
  "good_logs rt l logs \<longleftrightarrow> 0 \<le> l \<and>
     (\<forall>p. wf_log (plog_of rt (logs p)) \<and> no_late l (plog_of rt (logs p)) \<and>
        (\<forall>m \<in> set (logs p). k_partition m = p)) \<and>
     (\<forall>p q k. k \<in> keys (plog_of rt (logs p)) \<longrightarrow> k \<in> keys (plog_of rt (logs q)) \<longrightarrow> p = q)"

definition group_inv :: "runtime \<Rightarrow> int \<Rightarrow> int \<Rightarrow> (int \<Rightarrow> kmsg list) \<Rightarrow> group \<Rightarrow> bool" where
  "group_inv rt l cap logs g \<longleftrightarrow>
     (\<forall>i. wf_windows (tr_windows (member g i)) \<and> lateness_ms (tr_windows (member g i)) = l \<and>
        max_windows (tr_windows (member g i)) = cap) \<and>
     (\<forall>i p. if owner g p = Some i
        then part_inv l (plog_of rt (logs p)) (state_of (tr_windows (member g i)) p) (table g)
               (start_at g p) (next_at g p)
        else state_of (tr_windows (member g i)) p = new_state) \<and>
     (\<forall>p c. committed g p = Some c \<longrightarrow> commit_safe (plog_of rt (logs p)) (table g) c) \<and>
     (\<forall>p. no_overcount (plog_of rt (logs p)) (table g))"

lemma group_invD:
  assumes "group_inv rt l cap logs g"
  shows "wf_windows (tr_windows (member g i))" "lateness_ms (tr_windows (member g i)) = l"
    "max_windows (tr_windows (member g i)) = cap"
    "owner g p = Some i \<Longrightarrow> part_inv l (plog_of rt (logs p)) (state_of (tr_windows (member g i)) p)
       (table g) (start_at g p) (next_at g p)"
    "owner g p \<noteq> Some i \<Longrightarrow> state_of (tr_windows (member g i)) p = new_state"
    "committed g p = Some c \<Longrightarrow> commit_safe (plog_of rt (logs p)) (table g) c"
    "no_overcount (plog_of rt (logs p)) (table g)"
  using assms unfolding group_inv_def by (blast, blast, blast, presburger, presburger, blast, blast)

lemma group_invI:
  assumes "\<And>i. wf_windows (tr_windows (member g i)) \<and> lateness_ms (tr_windows (member g i)) = l \<and>
      max_windows (tr_windows (member g i)) = cap"
    and "\<And>i p. if owner g p = Some i
      then part_inv l (plog_of rt (logs p)) (state_of (tr_windows (member g i)) p) (table g)
             (start_at g p) (next_at g p)
      else state_of (tr_windows (member g i)) p = new_state"
    and "\<And>p c. committed g p = Some c \<Longrightarrow> commit_safe (plog_of rt (logs p)) (table g) c"
    and "\<And>p. no_overcount (plog_of rt (logs p)) (table g)"
  shows "group_inv rt l cap logs g"
  using assms unfolding group_inv_def by blast

lemma good_logsD:
  assumes "good_logs rt l logs"
  shows "0 \<le> l" "wf_log (plog_of rt (logs p))" "no_late l (plog_of rt (logs p))"
    "m \<in> set (logs p) \<Longrightarrow> k_partition m = p"
    "k \<in> keys (plog_of rt (logs p)) \<Longrightarrow> k \<in> keys (plog_of rt (logs q)) \<Longrightarrow> p = q"
  using assms unfolding good_logs_def by blast+

lemma state_of_new [simp]: "state_of (new_minute_windows l cap) p = new_state"
  by (simp add: state_of_def new_minute_windows_def)

lemma new_trending_fields [simp]:
  "tr_windows (new_trending l cap) = new_minute_windows l cap"
  "lateness_ms (new_minute_windows l cap) = l" "max_windows (new_minute_windows l cap) = cap"
  by (simp_all add: new_trending_def new_minute_windows_def)

lemma group_inv_start: "group_inv rt l cap logs (start_group l cap)"
  by (simp add: group_inv_def start_group_def no_overcount_def)


subsection \<open>Taking over, reading, crashing\<close>

lemma plog_of_nth:
  "n < length ms \<Longrightarrow> plog_of rt ms ! n = (k_offset (ms ! n), case decoded rt (ms ! n) of Inr c \<Rightarrow> c | Inl _ \<Rightarrow> None)"
  "length (plog_of rt ms) = length ms"
  by (simp_all add: plog_of_def)

lemma group_inv_assign:
  assumes inv: "group_inv rt l cap logs g" and gl: "good_logs rt l logs" and free: "owner g p = None"
  shows "group_inv rt l cap logs (take_over rt logs i p g)"
proof -
  let ?L = "plog_of rt (logs p)"
  have "part_inv l ?L new_state (table g) (restart_index ?L (committed g p)) (restart_index ?L (committed g p))"
    using group_invD(6) [OF inv] by (intro part_inv_start good_logsD(2) [OF gl]) blast
  moreover have "state_of (tr_windows (member g i)) p = new_state" using group_invD(5) [OF inv] free by simp
  ultimately show ?thesis
    using inv free unfolding group_inv_def take_over_def Let_def by simp
qed

lemma group_inv_read:
  assumes inv: "group_inv rt l cap logs g" and gl: "good_logs rt l logs"
    and own: "owner g p = Some i" and n: "next_at g p < length (logs p)"
    and h: "handle rt (member g i) (logs p ! next_at g p) = Inr tr" and room: "has_room cap (member g i) p"
  shows "group_inv rt l cap logs
    (g\<lparr>member := (member g)(i := tr), next_at := (next_at g)(p := Suc (next_at g p))\<rparr>)"
proof -
  let ?m = "logs p ! next_at g p" and ?L = "plog_of rt (logs p)" and ?w = "tr_windows (member g i)"
  obtain c where c: "decoded rt ?m = Inr c"
    and tr: "tr_windows tr = fst (count_content ?w (k_partition ?m) (k_offset ?m) c)"
    using h by (auto simp: handle_def bind_res_Inr_iff split_beta)
  have mp: "k_partition ?m = p" using good_logsD(4) [OF gl] n by simp
  have n': "next_at g p < length ?L" using n by (simp add: plog_of_nth)
  have at: "?L ! next_at g p = (k_offset ?m, c)" using plog_of_nth(1) [OF n] c by simp
  note d = group_invD [OF inv]
  have part: "part_inv l ?L (state_of ?w p) (table g) (start_at g p) (next_at g p)" by (rule d(4) [OF own])
  have step: "part_inv l ?L (state_of (tr_windows tr) p) (table g) (start_at g p) (Suc (next_at g p))"
  proof (cases c)
    case None
    then have "key_at ?L (next_at g p) = None" by (simp add: key_at_def at)
    from part_inv_skip [OF part n' this] show ?thesis by (simp add: tr count_content_def None)
  next
    case (Some x)
    obtain wk t ms where x: "x = (wk, t, ms)" by (cases x)
    have "snd (?L ! next_at g p) = Some (wk, t, ms)" by (simp add: at Some x)
    from part_inv_add [OF part n' this good_logsD(2,3,1) [OF gl] room [unfolded has_room_def]]
    show ?thesis using d(2,3) by (simp add: tr count_content_def Some x part_simps mp at)
  qed
  have other: "state_of (tr_windows tr) q = state_of ?w q" if "q \<noteq> p" for q
    using that by (auto simp: tr count_content_def part_simps mp split: option.split)
  have cfg: "wf_windows (tr_windows tr)" "lateness_ms (tr_windows tr) = l" "max_windows (tr_windows tr) = cap"
    using d(1,2,3) by (auto simp: tr count_content_def split: option.split)
  show ?thesis
    unfolding group_inv_def
  proof (intro conjI allI)
    fix j q
    let ?g = "g\<lparr>member := (member g)(i := tr), next_at := (next_at g)(p := Suc (next_at g p))\<rparr>"
    show "wf_windows (tr_windows (member ?g j))" "lateness_ms (tr_windows (member ?g j)) = l"
      "max_windows (tr_windows (member ?g j)) = cap"
      using d(1,2,3) cfg by simp_all
    show "if owner ?g q = Some j
      then part_inv l (plog_of rt (logs q)) (state_of (tr_windows (member ?g j)) q) (table ?g) (start_at ?g q) (next_at ?g q)
      else state_of (tr_windows (member ?g j)) q = new_state"
      using step other d(4,5) own by auto
  qed (use d(6,7) in simp_all)
qed

lemma group_inv_restart:
  assumes "group_inv rt l cap logs g"
  shows "group_inv rt l cap logs (restart l cap i g)"
  using group_invD [OF assms] by (auto simp: group_inv_def restart_def)

subsection \<open>Flushing\<close>

lemma fold_put_greatest_has:
  "(k, c) \<in> set rows \<Longrightarrow> \<exists>y. map_of (fold put_greatest rows tbl) k = Some y \<and> c \<le> y"
proof (induction rows arbitrary: tbl)
  case (Cons r rows)
  show ?case
  proof (cases "r = (k, c)")
    case True
    obtain x where "map_of (put_greatest (k, c) tbl) k = Some x" "c \<le> x"
      by (auto simp: put_greatest_lookup split: option.split)
    with fold_put_greatest_ge [OF this(1), of rows] True show ?thesis by fastforce
  qed (use Cons in simp)
qed simp

lemma fold_put_greatest_from:
  "map_of (fold put_greatest rows tbl) k = Some y \<Longrightarrow> map_of tbl k = Some y \<or> (k, y) \<in> set rows"
proof (induction rows arbitrary: tbl)
  case (Cons r rows)
  obtain k' c where r: "r = (k', c)" by (cases r)
  from Cons.IH [of "put_greatest r tbl"] Cons.prems
  consider "map_of (put_greatest r tbl) k = Some y" | "(k, y) \<in> set rows" by auto
  then show ?case
    by cases (auto simp: r put_greatest_lookup max_def split: if_splits option.splits)
qed simp

lemma flush_result:
  assumes "flush storable final tr tbl = Inr (tr', tbl', offsets)"
  defines "popped \<equiv> pop_closed final (tr_windows tr)"
  shows "tr_windows tr' = fst popped" "offsets = commit_offsets (fst popped)"
    "tbl' = fold put_greatest (map trending_row (snd popped)) tbl"
  using assms(1) upsert_result [of storable "map trending_row (snd popped)" tbl tbl']
  by (auto simp: flush_def popped_def bind_res_Inr_iff split: prod.splits if_splits)

lemma trending_row_close [simp]: "trending_row (close_window (k, w)) = (k, wcount w)"
  by (cases k) (simp add: trending_row_def close_window_def)

lemma part_inv_grows:
  assumes "part_inv l L st tbl s pos"
    and "\<And>k x. map_of tbl k = Some x \<Longrightarrow> \<exists>y. map_of tbl' k = Some y \<and> x \<le> y"
  shows "part_inv l L st tbl' s pos"
  using assms complete_mono [of L tbl _ tbl']
  unfolding part_inv_def closed_ok_def settled_def by blast

lemma commit_safe_grows:
  assumes "commit_safe L tbl c"
    and "\<And>k x. map_of tbl k = Some x \<Longrightarrow> \<exists>y. map_of tbl' k = Some y \<and> x \<le> y"
  shows "commit_safe L tbl' c"
  using assms complete_mono [of L tbl _ tbl'] unfolding commit_safe_def by blast

text \<open>What a flush does to the table and to the partitions of its instance.\<close>

lemma flush_facts:
  assumes inv: "group_inv rt l cap logs g" and gl: "good_logs rt l logs"
    and f: "flush storable final (member g i) (table g) = Inr (tr, tbl, offsets)"
  shows "\<And>k x. map_of (table g) k = Some x \<Longrightarrow> \<exists>y. map_of tbl k = Some y \<and> x \<le> y"
    and "no_overcount (plog_of rt (logs p)) tbl"
    and "wf_windows (tr_windows tr)" "lateness_ms (tr_windows tr) = l" "max_windows (tr_windows tr) = cap"
    and "owner g p = Some i \<Longrightarrow>
      part_inv l (plog_of rt (logs p)) (state_of (tr_windows tr) p) tbl (start_at g p) (next_at g p)"
    and "owner g p \<noteq> Some i \<Longrightarrow> state_of (tr_windows tr) p = new_state"
    and "map_of offsets p = Some c \<Longrightarrow> commit_safe (plog_of rt (logs p)) tbl c"
proof -
  let ?w = "tr_windows (member g i)"
  note d = group_invD [OF inv] and r = flush_result [OF f]
  show grows: "\<exists>y. map_of tbl k = Some y \<and> x \<le> y" if "map_of (table g) k = Some x" for k x
    unfolding r(3) by (rule fold_put_greatest_ge [OF that])
  have rows: "(k, y) \<in> set (map trending_row (snd (pop_closed final ?w))) \<longleftrightarrow>
      (\<exists>q w. (k, w) \<in> set (windows (state_of ?w q)) \<and> y = wcount w \<and>
         (final \<or> minute_of k < closed_before l (state_of ?w q)))" for k y
    unfolding set_map popped_windows [OF d(1)] popped_rows d(2) by force
  show "no_overcount (plog_of rt (logs p)) tbl"
    unfolding no_overcount_def
  proof (intro allI impI)
    fix k x assume k: "k \<in> keys (plog_of rt (logs p))" and x: "map_of tbl k = Some x"
    from x consider "map_of (table g) k = Some x" | "(k, x) \<in> set (map trending_row (snd (pop_closed final ?w)))"
      using fold_put_greatest_from [OF x [unfolded r(3)]] by blast
    then show "x \<le> total_count (plog_of rt (logs p)) k"
    proof cases
      case 1
      with d(7) k show ?thesis unfolding no_overcount_def by blast
    next
      case 2
      then obtain q w where w: "(k, w) \<in> set (windows (state_of ?w q))" "x = wcount w" unfolding rows by blast
      then have "owner g q = Some i" using d(5) [of q i] by (cases "owner g q = Some i") (auto simp: new_state_def)
      from part_inv_count_le [OF d(4) [OF this] w(1)]
      have "k \<in> keys (plog_of rt (logs q))" "wcount w \<le> total_count (plog_of rt (logs q)) k" by blast+
      with good_logsD(5) [OF gl k] w(2) show ?thesis by blast
    qed
  qed
  show "wf_windows (tr_windows tr)" "lateness_ms (tr_windows tr) = l" "max_windows (tr_windows tr) = cap"
    using d(1,2,3) by (simp_all add: r(1))
  have st: "state_of (tr_windows tr) p = fst (pop_state final l (state_of ?w p))"
    by (simp add: r(1) part_simps d(2))
  show part: "part_inv l (plog_of rt (logs p)) (state_of (tr_windows tr) p) tbl (start_at g p) (next_at g p)"
    if own: "owner g p = Some i"
    unfolding st
  proof (rule part_inv_pop [OF d(4) [OF own] good_logsD(2,3) [OF gl] grows])
    fix k w assume "(k, w) \<in> set (windows (state_of ?w p))" "final \<or> minute_of k < closed_before l (state_of ?w p)"
    then have "(k, wcount w) \<in> set (map trending_row (snd (pop_closed final ?w)))" unfolding rows by blast
    then show "\<exists>y. map_of tbl k = Some y \<and> wcount w \<le> y" unfolding r(3) by (rule fold_put_greatest_has)
  qed
  show new: "state_of (tr_windows tr) p = new_state" if "owner g p \<noteq> Some i"
    using d(5) [OF that] by (simp add: st pop_new_state)
  show "commit_safe (plog_of rt (logs p)) tbl c" if c: "map_of offsets p = Some c"
  proof -
    have co: "commit_offset (state_of (tr_windows tr) p) = Some c"
      using c d(1) by (simp add: r(1,2) commit_offsets_of)
    then have "owner g p = Some i" using new by (cases "owner g p = Some i") (auto simp: commit_new_state)
    from part_inv_commit [OF part [OF this] good_logsD(2) [OF gl] co] show ?thesis .
  qed
qed


lemma group_inv_update:
  assumes inv: "group_inv rt l cap logs g"
    and cfg: "wf_windows (tr_windows tr)" "lateness_ms (tr_windows tr) = l" "max_windows (tr_windows tr) = cap"
    and mine: "\<And>p. owner' p = Some i \<Longrightarrow>
      part_inv l (plog_of rt (logs p)) (state_of (tr_windows tr) p) tbl (start_at g p) (next_at g p)"
    and rest: "\<And>p. owner' p \<noteq> Some i \<Longrightarrow> state_of (tr_windows tr) p = new_state"
    and others: "\<And>j p. j \<noteq> i \<Longrightarrow> owner' p = Some j \<longleftrightarrow> owner g p = Some j"
    and grows: "\<And>k x. map_of (table g) k = Some x \<Longrightarrow> \<exists>y. map_of tbl k = Some y \<and> x \<le> y"
    and over: "\<And>p. no_overcount (plog_of rt (logs p)) tbl"
    and offs: "\<And>p c. map_of offsets p = Some c \<Longrightarrow> commit_safe (plog_of rt (logs p)) tbl c"
  shows "group_inv rt l cap logs
    (commit_all offsets (g\<lparr>member := (member g)(i := tr), table := tbl, owner := owner'\<rparr>))"
proof -
  define g' where "g' = commit_all offsets (g\<lparr>member := (member g)(i := tr), table := tbl, owner := owner'\<rparr>)"
  have f: "member g' = (member g)(i := tr)" "table g' = tbl" "owner g' = owner'" "start_at g' = start_at g"
    "next_at g' = next_at g" "committed g' = committed g ++ map_of offsets"
    by (simp_all add: g'_def commit_all_def)
  note d = group_invD [OF inv]
  have "group_inv rt l cap logs g'"
  proof (rule group_invI)
    fix j show "wf_windows (tr_windows (member g' j)) \<and> lateness_ms (tr_windows (member g' j)) = l \<and>
      max_windows (tr_windows (member g' j)) = cap" using cfg d(1,2,3) by (cases "j = i") (simp_all add: f)
  next
    fix j p
    show "if owner g' p = Some j
      then part_inv l (plog_of rt (logs p)) (state_of (tr_windows (member g' j)) p) (table g') (start_at g' p) (next_at g' p)
      else state_of (tr_windows (member g' j)) p = new_state"
    proof (cases "j = i")
      case True
      then show ?thesis using mine rest by (simp add: f)
    next
      case False
      then show ?thesis using others d(5) part_inv_grows [OF d(4) grows] by (simp add: f)
    qed
  next
    fix p c assume "committed g' p = Some c"
    then show "commit_safe (plog_of rt (logs p)) (table g') c"
      using offs commit_safe_grows [OF d(6) grows] by (auto simp: f map_add_Some_iff)
  qed (use over in \<open>simp add: f\<close>)
  then show ?thesis unfolding g'_def .
qed

lemma group_inv_flushed:
  assumes inv: "group_inv rt l cap logs g" and gl: "good_logs rt l logs"
    and f: "flush storable final (member g i) (table g) = Inr (tr, tbl, offsets)"
  shows "group_inv rt l cap logs (commit_all offsets (g\<lparr>member := (member g)(i := tr), table := tbl\<rparr>))"
proof -
  note ff = flush_facts [OF inv gl f]
  have "group_inv rt l cap logs
    (commit_all offsets (g\<lparr>member := (member g)(i := tr), table := tbl, owner := owner g\<rparr>))"
    by (rule group_inv_update [OF inv ff(3,4,5)]) (use ff in blast)+
  then show ?thesis by simp
qed

lemma group_inv_revoked:
  assumes inv: "group_inv rt l cap logs g" and gl: "good_logs rt l logs"
    and f: "on_revoke storable ps (member g i) (table g) = Inr (tr, tbl, offsets)"
    and own: "\<forall>p \<in> set ps. owner g p = Some i"
  shows "group_inv rt l cap logs (commit_all offsets
    (g\<lparr>member := (member g)(i := tr), table := tbl,
       owner := (\<lambda>p. if p \<in> set ps then None else owner g p)\<rparr>))"
proof -
  obtain tr0 where f0: "flush storable True (member g i) (table g) = Inr (tr0, tbl, offsets)"
    and tr: "tr = tr0\<lparr>tr_windows := revoke ps (tr_windows tr0)\<rparr>"
    using f by (auto simp: on_revoke_def bind_res_Inr_iff)
  note ff = flush_facts [OF inv gl f0]
  have cfg: "wf_windows (tr_windows tr)" "lateness_ms (tr_windows tr) = l" "max_windows (tr_windows tr) = cap"
    using ff(3,4,5) by (simp_all add: tr)
  show ?thesis
  proof (rule group_inv_update [OF inv cfg])
    show "(if p \<in> set ps then None else owner g p) = Some i \<Longrightarrow>
        part_inv l (plog_of rt (logs p)) (state_of (tr_windows tr) p) tbl (start_at g p) (next_at g p)" for p
      using ff(6) by (simp add: tr part_simps split: if_splits)
    show "(if p \<in> set ps then None else owner g p) \<noteq> Some i \<Longrightarrow> state_of (tr_windows tr) p = new_state" for p
      using ff(7) by (simp add: tr part_simps split: if_splits)
    show "j \<noteq> i \<Longrightarrow> (if p \<in> set ps then None else owner g p) = Some j \<longleftrightarrow> owner g p = Some j" for j p
      using own by auto
  qed (use ff in blast)+
qed

lemma group_step_inv:
  "group_step True rt storable l cap logs g g' \<Longrightarrow> good_logs rt l logs \<Longrightarrow> group_inv rt l cap logs g \<Longrightarrow>
   group_inv rt l cap logs g'"
proof (induction rule: group_step.induct)
  case (crashed_before_commit final g i tr tbl offsets)
  have "group_inv rt l cap logs (g\<lparr>table := tbl\<rparr>)"
    using flush_facts [OF crashed_before_commit(3,2,1)] group_invD [OF crashed_before_commit(3)] 
      part_inv_grows [OF group_invD(4) [OF crashed_before_commit(3)]]
      commit_safe_grows [OF group_invD(6) [OF crashed_before_commit(3)]]
    unfolding group_inv_def by simp
  then show ?case by (rule group_inv_restart)
qed (blast intro: group_inv_assign group_inv_read group_inv_flushed group_inv_revoked group_inv_restart)+

lemma group_reaches_inv:
  "group_reaches True rt storable l cap logs g \<Longrightarrow> good_logs rt l logs \<Longrightarrow> group_inv rt l cap logs g"
  by (induction rule: group_reaches.induct) (blast intro: group_inv_start group_step_inv)+


subsection \<open>Properties\<close>

lemma complete_exact:
  "complete L tbl k \<Longrightarrow> no_overcount L tbl \<Longrightarrow> k \<in> keys L \<Longrightarrow> map_of tbl k = Some (total_count L k)"
  unfolding complete_def no_overcount_def by fastforce

lemma key_at_in_keys: "x < length L \<Longrightarrow> key_at L x = Some k \<Longrightarrow> k \<in> keys L"
  unfolding keys_def by blast

lemma reached_counts:
  assumes "group_reaches True rt storable l cap logs g" and "good_logs rt l logs"
  shows "k \<in> keys (plog_of rt (logs p)) \<Longrightarrow> map_of (table g) k = Some x \<Longrightarrow> x \<le> total_count (plog_of rt (logs p)) k"
    and "committed g p = Some c \<Longrightarrow> x' < length (logs p) \<Longrightarrow> k_offset (logs p ! x') < c \<Longrightarrow>
      key_at (plog_of rt (logs p)) x' = Some k \<Longrightarrow> map_of (table g) k = Some (total_count (plog_of rt (logs p)) k)"
proof -
  note d = group_invD [OF group_reaches_inv [OF assms]]
  show "k \<in> keys (plog_of rt (logs p)) \<Longrightarrow> map_of (table g) k = Some x \<Longrightarrow> x \<le> total_count (plog_of rt (logs p)) k"
    using d(7) unfolding no_overcount_def by blast
  assume that: "committed g p = Some c" "x' < length (logs p)" "k_offset (logs p ! x') < c"
    "key_at (plog_of rt (logs p)) x' = Some k"
  show "map_of (table g) k = Some (total_count (plog_of rt (logs p)) k)"
  proof (rule complete_exact [OF _ d(7)])
    have "x' < length (plog_of rt (logs p))" "fst (plog_of rt (logs p) ! x') < c"
      using that(2,3) by (simp_all add: plog_of_nth)
    with d(6) [OF that(1)] that(4) show "complete (plog_of rt (logs p)) (table g) k" unfolding commit_safe_def by blast
    show "k \<in> keys (plog_of rt (logs p))"
      using that(2,4) by (intro key_at_in_keys) (simp_all add: plog_of_nth)
  qed
qed

text \<open>
  C4. Trending counts survive crashes and rebalances. In every state the group can reach
  (instances joining, reading, flushing, giving partitions up and crashing at any time, also
  between writing rows and committing), the database never holds more than the true number of
  edits of a page minute, and the commit point never passes an edit whose page minute is not in
  the database with exactly its true count. This relies on the producer keying by page, on offsets
  growing along a partition, on no event being later than the allowance, and on the run staying
  below the cap: no record is read for a partition while as many windows are open for it as the cap
  allows. How many page minutes the log holds does not matter.
\<close>

theorem trending_commit_is_exact:
  assumes "group_reaches True rt storable l cap logs g" and "good_logs rt l logs"
  shows "(\<forall>p k x. k \<in> keys (plog_of rt (logs p)) \<longrightarrow> map_of (table g) k = Some x \<longrightarrow>
      x \<le> total_count (plog_of rt (logs p)) k) \<and>
    (\<forall>p c x k. committed g p = Some c \<longrightarrow> x < length (logs p) \<longrightarrow> k_offset (logs p ! x) < c \<longrightarrow>
      key_at (plog_of rt (logs p)) x = Some k \<longrightarrow>
      map_of (table g) k = Some (total_count (plog_of rt (logs p)) k))"
  using reached_counts [OF assms] by blast

text \<open>
  C15. A restart recovers everything. Take any state the group can reach without filling the
  windows of a partition up to the cap, on logs whose offsets grow, where every page is in one
  partition and no event is later than the allowance; and an instance that has read a partition to
  its end and has not cut a window short by a final flush since it took the partition over. When it
  stops and its final flush is stored, the database is left with exactly the true count of every page
  minute of that partition, whatever was counted, written, half written or lost before it took over.
\<close>

theorem trending_restart_recovers_counts:
  assumes "group_reaches True rt storable l cap logs g" and "good_logs rt l logs"
    and "owner g p = Some i" and "next_at g p = length (logs p)"
    and "partial_floor (state_of (tr_windows (member g i)) p) < 0"
    and "flush storable True (member g i) (table g) = Inr (tr, tbl, offsets)"
    and "k \<in> keys (plog_of rt (logs p))"
  shows "map_of tbl k = Some (total_count (plog_of rt (logs p)) k)"
proof -
  let ?L = "plog_of rt (logs p)" and ?st = "state_of (tr_windows (member g i)) p"
  have inv: "group_inv rt l cap logs g" by (rule group_reaches_inv [OF assms(1,2)])
  note d = group_invD [OF inv] and ff = flush_facts [OF inv assms(2,6)] and r = flush_result [OF assms(6)]
  have part: "part_inv l ?L ?st (table g) (start_at g p) (length ?L)"
    using d(4) [OF assms(3)] assms(4) by (simp add: plog_of_nth)
  then have opn: "open_ok ?L ?st (start_at g p) (length ?L)"
    and cls: "closed_ok l ?L ?st (table g) (start_at g p) (length ?L)"
    and bef: "at ?L k 0 (start_at g p) \<noteq> {} \<longrightarrow> complete ?L (table g) k"
    unfolding part_inv_def by blast+
  have grow: "complete ?L (table g) k \<Longrightarrow> complete ?L tbl k"
    using complete_mono [of ?L "table g" k tbl] ff(1) by blast
  have "complete ?L tbl k"
  proof (cases "at ?L k 0 (start_at g p) = {}")
    case True
    have all: "at ?L k (start_at g p) (length ?L) = at ?L k 0 (length ?L)"
      using True unfolding at_def by (auto simp: not_le)
    moreover have "at ?L k 0 (length ?L) \<noteq> {}" using assms(7) unfolding keys_def at_def by blast
    ultimately have ne: "at ?L k (start_at g p) (length ?L) \<noteq> {}" by simp
    show ?thesis
    proof (cases "map_of (windows ?st) k")
      case None
      with cls ne have "settled ?L ?st (table g) (start_at g p) (length ?L) k" unfolding closed_ok_def by blast
      with assms(5) grow show ?thesis unfolding settled_def by linarith
    next
      case (Some w)
      then have "wcount w = total_count ?L k" using opn all unfolding open_ok_def total_count_def by metis
      moreover have "(k, wcount w) \<in> set (map trending_row (snd (pop_closed True (tr_windows (member g i)))))"
        using map_of_SomeD [OF Some] unfolding set_map popped_windows [OF d(1)] popped_rows by force
      ultimately show ?thesis
        using fold_put_greatest_has unfolding r(3) complete_def by metis
    qed
  qed (use bef grow in blast)
  then show ?thesis by (rule complete_exact [OF _ ff(2) assms(7)])
qed


subsection \<open>A run\<close>

definition untimed_event :: CleanEvent where
  "untimed_event = sample_event\<lparr>event_time := []\<rparr>"

definition count_msg :: "bytes \<Rightarrow> int \<Rightarrow> int \<Rightarrow> kmsg" where
  "count_msg v offset ms =
     \<lparr>k_topic = [], k_partition = 0, k_offset = offset, k_time = ms, k_key = None, k_value = Some v\<rparr>"

definition sample_logs :: "bytes \<Rightarrow> int \<Rightarrow> kmsg list" where
  "sample_logs v p = (if p = 0 then [count_msg v 7 90000, count_msg v 8 300000] else [])"

abbreviation sample_content :: "int \<Rightarrow> content" where
  "sample_content ms \<equiv> (ascii ''enwiki'', ascii ''Main Page'', ms)"

lemma untimed_bytes:
  "\<exists>v. from_json plain_runtime (Some v) = Inr (Some untimed_event)"
proof -
  have "encodable_event untimed_event" by (simp add: encodable_event_def untimed_event_def sample_event_def)
  then obtain v where v: "to_json plain_runtime untimed_event = Inr v" using to_json_ok by blast
  have "small_ints untimed_event"
    by (simp add: small_ints_def int_ok_def untimed_event_def sample_event_def digits_of.simps MAX_STR_DIGITS_def)
  with from_json_to_json [OF v] show ?thesis by blast
qed

lemma sample_decoded:
  "from_json plain_runtime (Some v) = Inr (Some untimed_event) \<Longrightarrow>
   decoded plain_runtime (count_msg v n ms) = Inr (Some (sample_content ms))"
  by (simp add: count_msg_def decoded_def event_time_ms_def untimed_event_def sample_event_def
      fromisoformat_def is_value_error_def)

lemma sample_plog:
  "from_json plain_runtime (Some v) = Inr (Some untimed_event) \<Longrightarrow>
   plog_of plain_runtime (sample_logs v p) =
     (if p = 0 then [(7, Some (sample_content 90000)), (8, Some (sample_content 300000))] else [])"
  by (simp add: plog_of_def sample_logs_def sample_decoded) (simp add: count_msg_def)

lemma sample_keys:
  "keys [(7, Some (sample_content 90000)), (8, Some (sample_content 300000))] =
     {sample_content 60000, sample_content 300000}" "keys [] = {}"
  by (auto simp: keys_def key_at_def key_of_def minute_start_def MINUTE_MS_def less_Suc_eq nth_Cons')

lemma sample_good:
  assumes "from_json plain_runtime (Some v) = Inr (Some untimed_event)"
  shows "good_logs plain_runtime DEFAULT_LATENESS_MS (sample_logs v)"
proof -
  have "no_late DEFAULT_LATENESS_MS [(7, Some (sample_content 90000)), (8, Some (sample_content 300000))]"
    by (auto simp: no_late_def key_at_def key_of_def high_water_def times_def less_Suc_eq
        List.map_filter_simps minute_start_def MINUTE_MS_def DEFAULT_LATENESS_MS_def)
  moreover have "m \<in> set (sample_logs v p) \<Longrightarrow> k_partition m = p" for p m
    by (auto simp: sample_logs_def count_msg_def split: if_splits)
  ultimately show ?thesis
    unfolding good_logs_def sample_plog [OF assms]
    by (auto simp: sample_keys wf_log_def no_late_def DEFAULT_LATENESS_MS_def MINUTE_MS_def)
qed

text \<open>The instance after reading both messages.\<close>

definition counted_both :: Trending where
  "counted_both =
     \<lparr>tr_windows = \<lparr>lateness_ms = DEFAULT_LATENESS_MS, max_windows = 5,
        partitions = [(0, \<lparr>windows = [(sample_content 60000, \<lparr>wcount = 1, first_offset = 7\<rparr>),
          (sample_content 300000, \<lparr>wcount = 1, first_offset = 8\<rparr>)], last_offset = 8,
          flushed_minutes = {}, watermark_ms = 300000, partial_floor = -1\<rparr>)],
        late_events = 0, counted = 2\<rparr>,
      written_rows = 0, marked = 2, unreadable = 0\<rparr>"

lemma sample_handled:
  assumes "from_json plain_runtime (Some v) = Inr (Some untimed_event)"
  shows "\<exists>tr. handle plain_runtime (new_trending DEFAULT_LATENESS_MS 5) (count_msg v 7 90000) = Inr tr \<and>
    handle plain_runtime tr (count_msg v 8 300000) = Inr counted_both"
  by (simp add: handle_def sample_decoded [OF assms])
    (simp add: count_content_def count_msg_def new_trending_def new_minute_windows_def
        add_def add_state_def note_event_def is_late_def closed_before_def minute_start_def MINUTE_MS_def
        DEFAULT_LATENESS_MS_def state_of_def new_state_def new_window_def window_add_def
        enforce_cap_below counted_both_def)

lemma sample_room:
  assumes "from_json plain_runtime (Some v) = Inr (Some untimed_event)"
    and "handle plain_runtime (new_trending DEFAULT_LATENESS_MS 5) (count_msg v 7 90000) = Inr tr"
  shows "has_room 5 tr 0"
  using assms(2) by (simp add: handle_def sample_decoded [OF assms(1)])
    (auto simp: count_content_def count_msg_def new_trending_def new_minute_windows_def
      add_def add_state_def note_event_def is_late_def closed_before_def minute_start_def MINUTE_MS_def
      DEFAULT_LATENESS_MS_def state_of_def new_state_def new_window_def window_add_def enforce_cap_below has_room_def)

lemma sample_reached:
  assumes "from_json plain_runtime (Some v) = Inr (Some untimed_event)"
  shows "\<exists>g. group_reaches True plain_runtime (\<lambda>_. True) DEFAULT_LATENESS_MS 5 (sample_logs v) g \<and>
    owner g 0 = Some 0 \<and> next_at g 0 = 2 \<and> member g 0 = counted_both \<and> table g = []"
proof -
  let ?step = "group_step True plain_runtime (\<lambda>_. True) DEFAULT_LATENESS_MS 5 (sample_logs v)"
  let ?reach = "group_reaches True plain_runtime (\<lambda>_. True) DEFAULT_LATENESS_MS 5 (sample_logs v)"
  let ?g0 = "start_group DEFAULT_LATENESS_MS 5"
  obtain tr where h: "handle plain_runtime (new_trending DEFAULT_LATENESS_MS 5) (count_msg v 7 90000) = Inr tr"
    "handle plain_runtime tr (count_msg v 8 300000) = Inr counted_both" using sample_handled [OF assms] by blast
  have room: "has_room 5 tr 0" by (rule sample_room [OF assms h(1)])
  define g1 where "g1 = take_over plain_runtime (sample_logs v) 0 0 ?g0"
  define g2 where "g2 = g1\<lparr>member := (member g1)(0 := tr), next_at := (next_at g1)(0 := Suc (next_at g1 0))\<rparr>"
  define g3 where "g3 = g2\<lparr>member := (member g2)(0 := counted_both), next_at := (next_at g2)(0 := Suc (next_at g2 0))\<rparr>"
  have g1: "owner g1 0 = Some 0" "next_at g1 0 = 0" "member g1 0 = new_trending DEFAULT_LATENESS_MS 5" "table g1 = []"
    by (simp_all add: g1_def take_over_def Let_def start_group_def restart_index_def)
  have "?step ?g0 g1" unfolding g1_def by (rule group_step.assign) (simp add: start_group_def)
  moreover have "?step g1 g2"
    unfolding g2_def by (rule group_step.read [OF g1(1)]) (simp_all add: g1 h sample_logs_def has_room_def new_state_def)
  moreover have "?step g2 g3"
    unfolding g3_def by (rule group_step.read [where p = 0]) (simp_all add: g1 g2_def h sample_logs_def room)
  ultimately have "?reach g3" by (meson group_reaches.intros)
  moreover have "owner g3 0 = Some 0 \<and> next_at g3 0 = 2 \<and> member g3 0 = counted_both \<and> table g3 = []"
    by (simp add: g3_def g2_def g1)
  ultimately show ?thesis by blast
qed

lemma sample_flushed:
  "\<exists>tr. flush (\<lambda>_. True) False counted_both [] = Inr (tr, [(sample_content 60000, 1)], [(0, 8)])"
  "\<exists>tr. flush (\<lambda>_. True) True counted_both [] =
     Inr (tr, [(sample_content 60000, 1), (sample_content 300000, 1)], [(0, 8)])"
  by (simp_all add: flush_def counted_both_def pop_closed_def pop_state_def closed_before_def
      minute_start_def MINUTE_MS_def DEFAULT_LATENESS_MS_def lower_floor_def close_window_def
      upsert_trending_def trending_row_def paged_one PAGE_SIZE_def put_greatest_def
      commit_offsets_def commit_offset_def List.map_filter_simps)

theorem trending_commit_is_exact_witness:
  "\<exists>v g. group_reaches True plain_runtime (\<lambda>_. True) DEFAULT_LATENESS_MS 5 (sample_logs v) g \<and>
     committed g 0 = Some 8 \<and> map_of (table g) (sample_content 60000) = Some 1 \<and>
     total_count (plog_of plain_runtime (sample_logs v 0)) (sample_content 60000) = 1"
proof -
  obtain v where v: "from_json plain_runtime (Some v) = Inr (Some untimed_event)" using untimed_bytes by blast
  obtain g where g: "group_reaches True plain_runtime (\<lambda>_. True) DEFAULT_LATENESS_MS 5 (sample_logs v) g"
    "member g 0 = counted_both" "table g = []" using sample_reached [OF v] by blast
  obtain tr where f: "flush (\<lambda>_. True) False (member g 0) (table g) = Inr (tr, [(sample_content 60000, 1)], [(0, 8)])"
    using sample_flushed(1) g by auto
  let ?g = "commit_all [(0, 8)] (g\<lparr>member := (member g)(0 := tr), table := [(sample_content 60000, 1)]\<rparr>)"
  have r: "group_reaches True plain_runtime (\<lambda>_. True) DEFAULT_LATENESS_MS 5 (sample_logs v) ?g"
    using g(1) group_step.flushed [OF f] by (rule group_reaches.stepped)
  have c: "committed ?g 0 = Some 8" "map_of (table ?g) (sample_content 60000) = Some 1"
    by (simp_all add: commit_all_def)
  have "map_of (table ?g) (sample_content 60000) =
      Some (total_count (plog_of plain_runtime (sample_logs v 0)) (sample_content 60000))"
    using trending_commit_is_exact [OF r sample_good [OF v], THEN conjunct2, rule_format, OF c(1), of 0]
    by (simp add: sample_plog [OF v] key_at_def key_of_def minute_start_def MINUTE_MS_def)
      (simp add: sample_logs_def count_msg_def)
  with r c show ?thesis by auto
qed

theorem trending_restart_recovers_counts_witness:
  "\<exists>v tr. flush (\<lambda>_. True) True counted_both [] =
     Inr (tr, [(sample_content 60000, 1), (sample_content 300000, 1)], [(0, 8)]) \<and>
     total_count (plog_of plain_runtime (sample_logs v 0)) (sample_content 300000) = 1"
proof -
  obtain v where v: "from_json plain_runtime (Some v) = Inr (Some untimed_event)" using untimed_bytes by blast
  obtain g where g: "group_reaches True plain_runtime (\<lambda>_. True) DEFAULT_LATENESS_MS 5 (sample_logs v) g"
    "owner g 0 = Some 0" "next_at g 0 = 2" "member g 0 = counted_both" "table g = []"
    using sample_reached [OF v] by blast
  obtain tr where f: "flush (\<lambda>_. True) True counted_both [] =
     Inr (tr, [(sample_content 60000, 1), (sample_content 300000, 1)], [(0, 8)])" using sample_flushed(2) by blast
  have "map_of [(sample_content 60000, 1), (sample_content 300000, 1)] (sample_content 300000) =
      Some (total_count (plog_of plain_runtime (sample_logs v 0)) (sample_content 300000))"
  proof (rule trending_restart_recovers_counts [OF g(1) sample_good [OF v] g(2)])
    show "sample_content 300000 \<in> keys (plog_of plain_runtime (sample_logs v 0))"
      by (simp add: sample_plog [OF v] sample_keys)
    show "next_at g 0 = length (sample_logs v 0)" by (simp add: g sample_logs_def)
    show "partial_floor (state_of (tr_windows (member g 0)) 0) < 0"
      by (simp add: g counted_both_def state_of_def)
  qed (use f g in simp)
  with f show ?thesis by auto
qed

end
