(* ===== verification/TrendingLoop.thy ===== *)
theory TrendingLoop
  imports Loop TrendingGroup
begin

text \<open>
  The main loop of \<^verbatim>\<open>processors/trending.py\<close>: \<open>run\<close>, \<open>_periodic\<close> and
  \<open>shutdown\<close>, of any number of processes at once, with what Kafka and PostgreSQL hold as
  the world they act on. Every run is a run of the group in \<^theory_text>\<open>TrendingGroup\<close>.
\<close>

definition FLUSH_INTERVAL_SEC :: int where
  "FLUSH_INTERVAL_SEC = 5"

record trending_timers =
  tt_flush :: int
  tt_lag :: int
  tt_watch :: watchdog

definition new_timers :: "int \<Rightarrow> int \<Rightarrow> trending_timers" where
  "new_timers interval now = \<lparr>tt_flush = now, tt_lag = now, tt_watch = new_watchdog interval now\<rparr>"

text \<open>
  One iteration: what the poll does, what the watchdog sees and when, the time \<open>_periodic\<close>
  reads and the time at the end of a flush.
\<close>

record tick =
  tk_choice :: choice
  tk_watch :: "int \<times> nat option"
  tk_now :: int
  tk_flushed :: int

datatype stopped = PollFailed | HandlerFailed pyexc | WriteFailed pgerror

definition trending_flush ::
  "(WindowKey \<times> int \<Rightarrow> bool) \<Rightarrow> bool \<Rightarrow> nat \<Rightarrow> int \<Rightarrow> group \<times> trending_timers \<Rightarrow> stopped + group \<times> trending_timers" where
  "trending_flush storable final i now = (\<lambda>(g, tm).
     case flush storable final (member g i) (table g) of
       Inl e \<Rightarrow> Inl (WriteFailed e)
     | Inr (tr, tbl, offsets) \<Rightarrow>
         Inr (commit_all offsets (g\<lparr>member := (member g)(i := tr), table := tbl\<rparr>), tm\<lparr>tt_flush := now\<rparr>))"

text \<open>
  The poll, with the rebalance callbacks it runs. What Kafka cannot do (a record of a partition the
  instance does not own, handing out a partition that is owned) is an empty poll.
\<close>

definition trending_poll ::
  "runtime \<Rightarrow> (WindowKey \<times> int \<Rightarrow> bool) \<Rightarrow> (int \<Rightarrow> kmsg list) \<Rightarrow> nat \<Rightarrow> tick \<Rightarrow> group \<times> trending_timers \<Rightarrow>
   stopped + (group \<times> trending_timers) \<times> poll" where
  "trending_poll rt storable logs i t = (\<lambda>(g, tm).
     case tk_choice t of
       FromPartition p \<Rightarrow>
         Inr ((g, tm), if owner g p = Some i \<and> next_at g p < length (logs p) then Message (logs p ! next_at g p)
                       else NoMessage)
     | Idle \<Rightarrow> Inr ((g, tm), NoMessage)
     | Failing e \<Rightarrow> Inr ((g, tm), PollError e)
     | Takes p \<Rightarrow> Inr ((if owner g p = None then take_over rt logs i p g else g, tm), NoMessage)
     | GivesUp ps \<Rightarrow>
         (if \<forall>p \<in> set ps. owner g p = Some i
          then (case on_revoke storable ps (member g i) (table g) of
                  Inl e \<Rightarrow> Inl (WriteFailed e)
                | Inr (tr, tbl, offsets) \<Rightarrow>
                    Inr ((commit_all offsets
                            (g\<lparr>member := (member g)(i := tr), table := tbl,
                               owner := (\<lambda>p. if p \<in> set ps then None else owner g p)\<rparr>),
                          tm\<lparr>tt_flush := tk_flushed t\<rparr>), NoMessage))
          else Inr ((g, tm), NoMessage)))"

definition trending_periodic ::
  "(WindowKey \<times> int \<Rightarrow> bool) \<Rightarrow> int \<Rightarrow> nat \<Rightarrow> tick \<Rightarrow> group \<times> trending_timers \<Rightarrow> stopped + group \<times> trending_timers" where
  "trending_periodic storable sec i t = (\<lambda>(g, tm).
     bind_res (if due (FLUSH_INTERVAL_SEC * sec) (tk_now t) (tt_flush tm)
               then trending_flush storable False i (tk_flushed t) (g, tm) else Inr (g, tm)) (\<lambda>(g1, tm1).
       Inr (g1, tm1\<lparr>tt_lag := report_lag sec (tk_now t) (tt_lag tm1)\<rparr>)))"

text \<open>
  The body of the loop. A rejoin of the watchdog only leaves and joins the group: what it changes
  comes with the callbacks of later polls.
\<close>

definition trending_iteration ::
  "runtime \<Rightarrow> (WindowKey \<times> int \<Rightarrow> bool) \<Rightarrow> int \<Rightarrow> (int \<Rightarrow> kmsg list) \<Rightarrow> nat \<Rightarrow> tick \<Rightarrow>
   group \<times> trending_timers \<Rightarrow> stopped + group \<times> trending_timers" where
  "trending_iteration rt storable sec logs i t x =
     bind_res (trending_poll rt storable logs i t x) (\<lambda>((g, tm), msg).
       let tm1 = tm\<lparr>tt_watch := fst (wd_check (fst (tk_watch t)) (snd (tk_watch t)) (tt_watch tm))\<rparr>
       in case msg of
            NoMessage \<Rightarrow> trending_periodic storable sec i t (g, tm1)
          | PollError e \<Rightarrow> (if check_consumer_error e then Inl PollFailed else Inr (g, tm1))
          | Message m \<Rightarrow>
              (case handle rt (member g i) m of
                 Inl e \<Rightarrow> Inl (HandlerFailed e)
               | Inr tr \<Rightarrow>
                   trending_periodic storable sec i t
                     (g\<lparr>member := (member g)(i := tr),
                        next_at := (next_at g)(k_partition m := Suc (next_at g (k_partition m)))\<rparr>, tm1)))"

text \<open>\<open>shutdown\<close>: a final flush, then the instance leaves the group.\<close>

definition trending_shutdown ::
  "(WindowKey \<times> int \<Rightarrow> bool) \<Rightarrow> int \<Rightarrow> int \<Rightarrow> nat \<Rightarrow> int \<Rightarrow> group \<times> trending_timers \<Rightarrow> stopped + group" where
  "trending_shutdown storable l cap i now x =
     map_sum id (\<lambda>(g, _). restart l cap i g) (trending_flush storable True i now x)"

text \<open>\<open>run\<close>: the iterations until the process is told to stop, then the shutdown.\<close>

fun trending_run ::
  "runtime \<Rightarrow> (WindowKey \<times> int \<Rightarrow> bool) \<Rightarrow> int \<Rightarrow> int \<Rightarrow> int \<Rightarrow> (int \<Rightarrow> kmsg list) \<Rightarrow> nat \<Rightarrow> tick list \<Rightarrow> int \<Rightarrow>
   group \<times> trending_timers \<Rightarrow> stopped + group" where
  "trending_run rt storable sec l cap logs i [] now x = trending_shutdown storable l cap i now x"
| "trending_run rt storable sec l cap logs i (t # ts) now x =
     bind_res (trending_iteration rt storable sec logs i t x) (trending_run rt storable sec l cap logs i ts now)"

subsection \<open>Several processes\<close>

text \<open>
  An iteration of a process (an exception ends it), an orderly stop, and a crash, which may come
  between the write and the commit of a flush. Whatever ends, a new process takes its place.
\<close>

datatype happening = Iterates nat tick | Stops nat int | Crashes nat int | DiesBeforeCommit nat bool int

type_synonym trending_world = "group \<times> (nat \<Rightarrow> trending_timers)"

definition started_again :: "int \<Rightarrow> int \<Rightarrow> int \<Rightarrow> nat \<Rightarrow> int \<Rightarrow> group \<Rightarrow> (nat \<Rightarrow> trending_timers) \<Rightarrow> trending_world" where
  "started_again l cap interval i now g tms = (restart l cap i g, tms(i := new_timers interval now))"

definition happen ::
  "runtime \<Rightarrow> (WindowKey \<times> int \<Rightarrow> bool) \<Rightarrow> int \<Rightarrow> int \<Rightarrow> int \<Rightarrow> int \<Rightarrow> (int \<Rightarrow> kmsg list) \<Rightarrow> happening \<Rightarrow>
   trending_world \<Rightarrow> trending_world" where
  "happen rt storable sec l cap interval logs ev = (\<lambda>(g, tms).
     case ev of
       Iterates i t \<Rightarrow>
         (case trending_iteration rt storable sec logs i t (g, tms i) of
            Inl _ \<Rightarrow> started_again l cap interval i (tk_now t) g tms
          | Inr (g', tm) \<Rightarrow> (g', tms(i := tm)))
     | Stops i now \<Rightarrow>
         (case trending_shutdown storable l cap i now (g, tms i) of
            Inl _ \<Rightarrow> started_again l cap interval i now g tms
          | Inr g' \<Rightarrow> (g', tms(i := new_timers interval now)))
     | Crashes i now \<Rightarrow> started_again l cap interval i now g tms
     | DiesBeforeCommit i final now \<Rightarrow>
         (case flush storable final (member g i) (table g) of
            Inl _ \<Rightarrow> started_again l cap interval i now g tms
          | Inr (tr, tbl, offsets) \<Rightarrow> started_again l cap interval i now (g\<lparr>table := tbl\<rparr>) tms))"

subsection \<open>Every run is a run of the group\<close>

abbreviation steps where
  "steps below rt storable l cap logs \<equiv> (group_step below rt storable l cap logs)\<^sup>*\<^sup>*"

text \<open>
  A run that stays below the cap: whenever something happens, no partition has as many windows open
  as the cap allows.
\<close>

definition all_room :: "int \<Rightarrow> group \<Rightarrow> bool" where
  "all_room cap g \<longleftrightarrow> (\<forall>i p. owner g p = Some i \<longrightarrow> has_room cap (member g i) p)"

fun stays_below ::
  "runtime \<Rightarrow> (WindowKey \<times> int \<Rightarrow> bool) \<Rightarrow> int \<Rightarrow> int \<Rightarrow> int \<Rightarrow> int \<Rightarrow> (int \<Rightarrow> kmsg list) \<Rightarrow> happening list \<Rightarrow>
   trending_world \<Rightarrow> bool" where
  "stays_below rt storable sec l cap interval logs [] x = True"
| "stays_below rt storable sec l cap interval logs (ev # hs) x =
     (all_room cap (fst x) \<and> stays_below rt storable sec l cap interval logs hs (happen rt storable sec l cap interval logs ev x))"

lemma flush_steps:
  "trending_flush storable final i now (g, tm) = Inr (g', tm') \<Longrightarrow> group_step below rt storable l cap logs g g'"
  by (auto simp: trending_flush_def split: sum.splits intro: group_step.flushed)

lemma periodic_steps:
  "trending_periodic storable sec i t (g, tm) = Inr (g', tm') \<Longrightarrow> steps below rt storable l cap logs g g'"
  by (auto simp: trending_periodic_def bind_res_Inr_iff split: if_splits dest!: flush_steps)

lemma poll_steps:
  assumes "trending_poll rt storable logs i t (g, tm) = Inr ((g', tm'), msg)"
  shows "steps below rt storable l cap logs g g' \<and>
    (\<forall>m. msg = Message m \<longrightarrow> (\<exists>p. g' = g \<and> owner g p = Some i \<and> next_at g p < length (logs p) \<and> m = logs p ! next_at g p))"
proof (cases "tk_choice t")
  case (FromPartition p)
  with assms show ?thesis by (auto simp: trending_poll_def split: if_splits)
next
  case (Takes p)
  with assms show ?thesis
    by (auto simp: trending_poll_def split: if_splits intro: group_step.assign)
next
  case (GivesUp ps)
  with assms show ?thesis
    by (auto simp: trending_poll_def split: if_splits sum.splits intro: group_step.revoked)
qed (use assms in \<open>auto simp: trending_poll_def\<close>)

text \<open>An iteration that returns: the poll, what came of it, and the periodic work.\<close>

lemma iteration_parts:
  assumes "trending_iteration rt storable sec logs i t (g, tm) = Inr (g', tm')"
  obtains (polled) g1 tm1 msg where "trending_poll rt storable logs i t (g, tm) = Inr ((g1, tm1), msg)"
    "\<forall>e. msg = PollError e \<longrightarrow> g' = g1"
    "msg = NoMessage \<Longrightarrow> \<exists>tm2. tt_flush tm2 = tt_flush tm1 \<and> trending_periodic storable sec i t (g1, tm2) = Inr (g', tm')"
    "\<And>m. msg = Message m \<Longrightarrow> \<exists>tm2 tr. tt_flush tm2 = tt_flush tm1 \<and> handle rt (member g1 i) m = Inr tr \<and>
       trending_periodic storable sec i t
         (g1\<lparr>member := (member g1)(i := tr),
             next_at := (next_at g1)(k_partition m := Suc (next_at g1 (k_partition m)))\<rparr>, tm2) = Inr (g', tm')"
proof -
  obtain g1 tm1 msg where p: "trending_poll rt storable logs i t (g, tm) = Inr ((g1, tm1), msg)"
    using assms by (auto simp: trending_iteration_def bind_res_Inr_iff)
  let ?tm = "tm1\<lparr>tt_watch := fst (wd_check (fst (tk_watch t)) (snd (tk_watch t)) (tt_watch tm1))\<rparr>"
  show ?thesis
  proof (rule polled [OF p])
    show "\<forall>e. msg = PollError e \<longrightarrow> g' = g1"
      using assms p by (auto simp: trending_iteration_def Let_def split: if_splits)
    show "\<exists>tm2. tt_flush tm2 = tt_flush tm1 \<and> trending_periodic storable sec i t (g1, tm2) = Inr (g', tm')"
      if "msg = NoMessage"
      using assms p that by (intro exI [of _ ?tm]) (simp add: trending_iteration_def Let_def)
    fix m assume m: "msg = Message m"
    then obtain tr where h: "handle rt (member g1 i) m = Inr tr"
      using assms p by (auto simp: trending_iteration_def Let_def split: sum.splits)
    show "\<exists>tm2 tr. tt_flush tm2 = tt_flush tm1 \<and> handle rt (member g1 i) m = Inr tr \<and>
       trending_periodic storable sec i t
         (g1\<lparr>member := (member g1)(i := tr),
             next_at := (next_at g1)(k_partition m := Suc (next_at g1 (k_partition m)))\<rparr>, tm2) = Inr (g', tm')"
      using assms p m h by (intro exI [of _ ?tm] exI [of _ tr]) (simp add: trending_iteration_def Let_def)
  qed
qed

lemma iteration_steps:
  assumes "trending_iteration rt storable sec logs i t (g, tm) = Inr (g', tm')"
    and "\<forall>p. \<forall>m \<in> set (logs p). k_partition m = p" and "below \<longrightarrow> all_room cap g"
  shows "steps below rt storable l cap logs g g'"
  using assms(1)
proof (cases rule: iteration_parts)
  case (polled g1 tm1 msg)
  note s = poll_steps [OF polled(1), of below l cap]
  have "steps below rt storable l cap logs g1 g'"
  proof (cases msg)
    case NoMessage
    with polled(3) show ?thesis using periodic_steps by blast
  next
    case (PollError e)
    with polled(2) show ?thesis by simp
  next
    case (Message m)
    with s obtain q where q: "owner g q = Some i" "next_at g q < length (logs q)" "m = logs q ! next_at g q"
      and g1: "g1 = g" by blast
    then have km: "k_partition m = q" using assms(2) by simp
    from polled(4) [OF Message] obtain tm2 tr where h: "handle rt (member g i) m = Inr tr"
      and per: "trending_periodic storable sec i t
        (g\<lparr>member := (member g)(i := tr), next_at := (next_at g)(q := Suc (next_at g q))\<rparr>, tm2) = Inr (g', tm')"
      unfolding g1 km by blast
    have "group_step below rt storable l cap logs g
        (g\<lparr>member := (member g)(i := tr), next_at := (next_at g)(q := Suc (next_at g q))\<rparr>)"
      by (rule group_step.read) (use q h assms(3) in \<open>auto simp: all_room_def\<close>)
    from converse_rtranclp_into_rtranclp [OF this periodic_steps [OF per]] show ?thesis unfolding g1 .
  qed
  with s show ?thesis by (meson rtranclp_trans)
qed

lemma reaches_steps:
  "steps below rt storable l cap logs g g' \<Longrightarrow> group_reaches below rt storable l cap logs g \<Longrightarrow>
   group_reaches below rt storable l cap logs g'"
  by (induction rule: rtranclp_induct) (auto intro: group_reaches.stepped)

lemma shutdown_steps:
  assumes "trending_shutdown storable l cap i now (g, tm) = Inr g'"
  shows "steps below rt storable l cap logs g g'"
proof -
  obtain g1 tm1 where f: "trending_flush storable True i now (g, tm) = Inr (g1, tm1)" and g': "g' = restart l cap i g1"
    using assms by (auto simp: trending_shutdown_def map_sum_def split: sum.splits)
  from flush_steps [OF f] group_step.crashed show ?thesis unfolding g'
    by (meson rtranclp.rtrancl_into_rtrancl rtranclp.rtrancl_refl)
qed

lemma happen_reaches:
  assumes "group_reaches below rt storable l cap logs g" and "\<forall>p. \<forall>m \<in> set (logs p). k_partition m = p"
    and "below \<longrightarrow> all_room cap g"
    and "happen rt storable sec l cap interval logs ev (g, tms) = (g', tms')"
  shows "group_reaches below rt storable l cap logs g'"
proof -
  note c = group_reaches.stepped [OF assms(1) group_step.crashed]
  show ?thesis
  proof (cases ev)
    case (Iterates i t)
    then show ?thesis
      using assms(4) c reaches_steps [OF iteration_steps [OF _ assms(2,3)] assms(1)]
      by (auto simp: happen_def started_again_def split: sum.splits)
  next
    case (Stops i now)
    then show ?thesis
      using assms(4) c reaches_steps [OF shutdown_steps assms(1)]
      by (auto simp: happen_def started_again_def split: sum.splits)
  next
    case (DiesBeforeCommit i final now)
    then show ?thesis
      using assms(4) c group_reaches.stepped [OF assms(1) group_step.crashed_before_commit]
      by (auto simp: happen_def started_again_def split: sum.splits)
  qed (use assms(4) c in \<open>auto simp: happen_def started_again_def\<close>)
qed

lemma run_reaches:
  assumes "\<forall>p. \<forall>m \<in> set (logs p). k_partition m = p"
  shows "group_reaches below rt storable l cap logs g0 \<Longrightarrow>
      below \<longrightarrow> stays_below rt storable sec l cap interval logs hs (g0, tms0) \<Longrightarrow>
      fold (happen rt storable sec l cap interval logs) hs (g0, tms0) = (g, tms') \<Longrightarrow>
      group_reaches below rt storable l cap logs g"
proof (induction hs arbitrary: g0 tms0)
  case (Cons ev hs)
  obtain g1 tms1 where ev: "happen rt storable sec l cap interval logs ev (g0, tms0) = (g1, tms1)"
    by (cases "happen rt storable sec l cap interval logs ev (g0, tms0)")
  have "below \<longrightarrow> all_room cap g0" using Cons.prems(2) by simp
  with Cons.prems(2,3) ev show ?case
    using Cons.IH [OF happen_reaches [OF Cons.prems(1) assms _ ev]] by simp
qed simp

subsection \<open>What a flush leaves behind\<close>

text \<open>
  No window of the instance is older than the lateness allowance, and the offset each of its
  partitions can be committed to is committed.
\<close>

definition flushed_out :: "nat \<Rightarrow> group \<Rightarrow> bool" where
  "flushed_out i g \<longleftrightarrow>
     (let w = tr_windows (member g i)
      in (\<forall>p. \<forall>(k, v) \<in> set (windows (state_of w p)). closed_before (lateness_ms w) (state_of w p) \<le> minute_of k) \<and>
         (\<forall>p c. map_of (commit_offsets w) p = Some c \<longrightarrow> committed g p = Some c))"

lemma flush_flushed_out:
  assumes "flush storable final (member g i) (table g) = Inr (tr, tbl, offsets)"
  shows "flushed_out i (commit_all offsets (g\<lparr>member := (member g)(i := tr), table := tbl\<rparr>))"
proof -
  note r = flush_result [OF assms]
  have "closed_before (lateness_ms w) (state_of w p) \<le> minute_of k"
    if "w = fst (pop_closed final (tr_windows (member g i)))" "(k, v) \<in> set (windows (state_of w p))" for w p k v
    using that by (auto simp: part_simps pop_state_def closed_before_def Let_def)
  then show ?thesis
    by (auto simp: flushed_out_def Let_def commit_all_def r(1,2) map_add_Some_iff)
qed

lemma delete_fold_filter: "fold AList.delete ps d = filter (\<lambda>(k, _). k \<notin> set ps) d"
  by (induction ps arbitrary: d) (auto simp: AList.delete_eq filter_filter conj_commute intro!: filter_cong)

lemma map_filter_keys:
  "map_of (List.map_filter (\<lambda>(p, st). map_option (Pair p) (f st)) (filter (\<lambda>(k, _). k \<notin> S) d)) p =
     (if p \<in> S then None else map_of (List.map_filter (\<lambda>(p, st). map_option (Pair p) (f st)) d) p)"
proof (induction d)
  case (Cons x d)
  obtain q st where "x = (q, st)" by (cases x)
  with Cons show ?case by (cases "f st") (auto simp: List.map_filter_simps)
qed (simp add: List.map_filter_simps)

lemma revoke_flushed_out:
  assumes "on_revoke storable ps (member g i) (table g) = Inr (tr, tbl, offsets)"
  shows "flushed_out i (commit_all offsets (g\<lparr>member := (member g)(i := tr), table := tbl, owner := owner'\<rparr>))"
proof -
  obtain tr0 where f: "flush storable True (member g i) (table g) = Inr (tr0, tbl, offsets)"
    and tr: "tr = tr0\<lparr>tr_windows := revoke ps (tr_windows tr0)\<rparr>"
    using assms by (auto simp: on_revoke_def bind_res_Inr_iff)
  note r = flush_result [OF f]
  have "windows (state_of (tr_windows tr) p) = []" for p
    by (simp add: tr r(1) part_simps pop_state_def new_state_def Let_def)
  moreover have "map_of offsets p = Some c" if "map_of (commit_offsets (tr_windows tr)) p = Some c" for p c
    using that by (simp add: tr r(2) [symmetric] r(1) [symmetric] revoke_def commit_offsets_def [of "_\<lparr>partitions := _\<rparr>"]
        delete_fold_filter map_filter_keys) (simp add: commit_offsets_def [symmetric] r(1,2) split: if_splits)
  ultimately show ?thesis by (auto simp: flushed_out_def Let_def commit_all_def map_add_Some_iff)
qed

lemma periodic_flushes:
  assumes "trending_periodic storable sec i t (g, tm) = Inr (g', tm')"
  shows "(g' = g \<and> tt_flush tm' = tt_flush tm \<and> tk_now t < tt_flush tm + FLUSH_INTERVAL_SEC * sec) \<or>
    (tt_flush tm' = tk_flushed t \<and> flushed_out i g')"
  using assms flush_flushed_out
  by (auto simp: trending_periodic_def trending_flush_def bind_res_Inr_iff due_def split: if_splits sum.splits)

lemma iteration_flushes:
  assumes "trending_iteration rt storable sec logs i t (g, tm) = Inr (g', tm')" and "\<forall>e. tk_choice t \<noteq> Failing e"
  shows "(tt_flush tm' = tt_flush tm \<and> tk_now t < tt_flush tm + FLUSH_INTERVAL_SEC * sec) \<or>
    (tt_flush tm' = tk_flushed t \<and> flushed_out i g')"
  using assms(1)
proof (cases rule: iteration_parts)
  case (polled g1 tm1 msg)
  have "(\<forall>e. msg \<noteq> PollError e) \<and>
      (tm1 = tm \<or> msg = NoMessage \<and> tt_flush tm1 = tk_flushed t \<and> flushed_out i g1)"
    using polled(1) assms(2) revoke_flushed_out
    by (cases "tk_choice t") (auto simp: trending_poll_def split: if_splits sum.splits)
  then consider (same) tm2 g2 where "tt_flush tm2 = tt_flush tm" "trending_periodic storable sec i t (g2, tm2) = Inr (g', tm')"
    | (gave) tm2 where "tt_flush tm2 = tk_flushed t" "flushed_out i g1" "trending_periodic storable sec i t (g1, tm2) = Inr (g', tm')"
    using polled(3,4) by (cases msg) (metis, metis, metis)
  then show ?thesis by cases (use periodic_flushes in fastforce)+
qed

text \<open>
  C32. The processes do what the group is proved to do. Whatever iterations, stops and crashes any
  number of trending processes go through, the state Kafka and PostgreSQL are left in is one the
  group of \<^theory_text>\<open>TrendingGroup\<close> reaches. When offsets grow along a partition, every
  page is in one partition, no event is later than the allowance and no happening finds the open
  windows of a partition at the cap, the database never holds more than the true count of a page
  minute, and no commit point has passed an edit whose page minute it does not hold with exactly its
  true count. And whatever the logs, an iteration that returns, unless its poll brought an error,
  either finds the last flush less than five seconds old and lets it stand, or flushes: then the
  instance is left with no window older than the allowance, and the offset each of its partitions
  can be committed to is committed.
\<close>

theorem trending_processes_refine_group:
  assumes "\<forall>p. \<forall>m \<in> set (logs p). k_partition m = p"
    and "fold (happen rt storable sec l cap interval logs) hs (start_group l cap, tms) = (g, tms')"
  shows "group_reaches False rt storable l cap logs g \<and>
    (good_logs rt l logs \<longrightarrow> stays_below rt storable sec l cap interval logs hs (start_group l cap, tms) \<longrightarrow>
       (\<forall>p k x. k \<in> keys (plog_of rt (logs p)) \<longrightarrow> map_of (table g) k = Some x \<longrightarrow>
          x \<le> total_count (plog_of rt (logs p)) k) \<and>
       (\<forall>p c x k. committed g p = Some c \<longrightarrow> x < length (logs p) \<longrightarrow> k_offset (logs p ! x) < c \<longrightarrow>
          key_at (plog_of rt (logs p)) x = Some k \<longrightarrow>
          map_of (table g) k = Some (total_count (plog_of rt (logs p)) k))) \<and>
    (\<forall>i t g' tm. trending_iteration rt storable sec logs i t (g, tms' i) = Inr (g', tm) \<longrightarrow>
       (\<forall>e. tk_choice t \<noteq> Failing e) \<longrightarrow>
       (tt_flush tm = tt_flush (tms' i) \<and> tk_now t < tt_flush (tms' i) + FLUSH_INTERVAL_SEC * sec) \<or>
       (tt_flush tm = tk_flushed t \<and> flushed_out i g'))"
proof (intro conjI impI)
  note run = run_reaches [OF assms(1) group_reaches.started _ assms(2)]
  show "group_reaches False rt storable l cap logs g" by (rule run) simp
  assume gl: "good_logs rt l logs"
    and below: "stays_below rt storable sec l cap interval logs hs (start_group l cap, tms)"
  have "group_reaches True rt storable l cap logs g" by (rule run) (simp add: below)
  note e = reached_counts [OF this gl]
  show "\<forall>p k x. k \<in> keys (plog_of rt (logs p)) \<longrightarrow> map_of (table g) k = Some x \<longrightarrow>
      x \<le> total_count (plog_of rt (logs p)) k" using e(1) by blast
  show "\<forall>p c x k. committed g p = Some c \<longrightarrow> x < length (logs p) \<longrightarrow> k_offset (logs p ! x) < c \<longrightarrow>
      key_at (plog_of rt (logs p)) x = Some k \<longrightarrow>
      map_of (table g) k = Some (total_count (plog_of rt (logs p)) k)" using e(2) by blast
qed (use iteration_flushes in blast)

text \<open>One process takes the partition over, reads both messages of the log, and flushes with the second.\<close>

definition sample_tick :: "choice \<Rightarrow> int \<Rightarrow> tick" where
  "sample_tick c now = \<lparr>tk_choice = c, tk_watch = (0, None), tk_now = now, tk_flushed = now\<rparr>"

definition sample_ticks :: "happening list" where
  "sample_ticks = map (Iterates 0)
     [sample_tick (Takes 0) 1, sample_tick (FromPartition 0) 2, sample_tick (FromPartition 0) 6]"

abbreviation sample_happen where
  "sample_happen v \<equiv> happen plain_runtime (\<lambda>_. True) 1 DEFAULT_LATENESS_MS 5 60 (sample_logs v)"

abbreviation sample_iteration where
  "sample_iteration v \<equiv> trending_iteration plain_runtime (\<lambda>_. True) 1 (sample_logs v)"

abbreviation sample_world :: trending_world where
  "sample_world \<equiv> (start_group DEFAULT_LATENESS_MS 5, \<lambda>_. new_timers 60 0)"

lemma happen_returns:
  "trending_iteration rt storable sec logs i t (g, tms i) = Inr (g', tm) \<Longrightarrow>
   happen rt storable sec l cap interval logs (Iterates i t) (g, tms) = (g', tms(i := tm))"
  by (simp add: happen_def)

lemma sample_not_due:
  "tt_flush tm = 0 \<Longrightarrow> n < 5 \<Longrightarrow> trending_periodic storable 1 i (sample_tick c n) (g, tm) =
     Inr (g, tm\<lparr>tt_lag := report_lag 1 n (tt_lag tm)\<rparr>)"
  by (simp add: trending_periodic_def due_def sample_tick_def FLUSH_INTERVAL_SEC_def)

lemma sample_read:
  assumes "owner g 0 = Some 0" "next_at g 0 < length (sample_logs v 0)"
    and "handle plain_runtime (member g 0) (sample_logs v 0 ! next_at g 0) = Inr tr"
  shows "sample_iteration v 0 (sample_tick (FromPartition 0) n) (g, tm) =
    trending_periodic (\<lambda>_. True) 1 0 (sample_tick (FromPartition 0) n)
      (g\<lparr>member := (member g)(0 := tr), next_at := (next_at g)(0 := Suc (next_at g 0))\<rparr>,
       tm\<lparr>tt_watch := fst (wd_check 0 None (tt_watch tm))\<rparr>)"
proof -
  have "k_partition (sample_logs v 0 ! next_at g 0) = 0"
    using assms(2) by (auto simp: sample_logs_def count_msg_def less_Suc_eq)
  then show ?thesis
    using assms by (simp add: trending_iteration_def trending_poll_def sample_tick_def Let_def)
qed

lemma sample_two_reads:
  assumes "from_json plain_runtime (Some v) = Inr (Some untimed_event)"
  shows "\<exists>g2 tms2 g3 tm3. fold (sample_happen v) (take 2 sample_ticks) sample_world = (g2, tms2) \<and>
    tt_flush (tms2 0) = 0 \<and>
    sample_iteration v 0 (sample_tick (FromPartition 0) 6) (g2, tms2 0) = Inr (g3, tm3) \<and>
    fold (sample_happen v) sample_ticks sample_world = (g3, tms2(0 := tm3)) \<and>
    stays_below plain_runtime (\<lambda>_. True) 1 DEFAULT_LATENESS_MS 5 60 (sample_logs v) sample_ticks sample_world \<and>
    committed g3 0 = Some 8 \<and> map_of (table g3) (sample_content 60000) = Some 1"
proof -
  let ?g0 = "start_group DEFAULT_LATENESS_MS 5" and ?start = "new_timers 60 0"
  obtain tr where h: "handle plain_runtime (new_trending DEFAULT_LATENESS_MS 5) (count_msg v 7 90000) = Inr tr"
    "handle plain_runtime tr (count_msg v 8 300000) = Inr counted_both" using sample_handled [OF assms] by blast
  have room: "has_room 5 tr 0" by (rule sample_room [OF assms h(1)])
  obtain tr3 where f: "flush (\<lambda>_. True) False counted_both [] = Inr (tr3, [(sample_content 60000, 1)], [(0, 8)])"
    using sample_flushed(1) by blast
  define g1 where "g1 = take_over plain_runtime (sample_logs v) 0 0 ?g0"
  define g2 where "g2 = g1\<lparr>member := (member g1)(0 := tr), next_at := (next_at g1)(0 := Suc (next_at g1 0))\<rparr>"
  define gr where "gr = g2\<lparr>member := (member g2)(0 := counted_both), next_at := (next_at g2)(0 := Suc (next_at g2 0))\<rparr>"
  have g1: "owner g1 = (\<lambda>_. None)(0 := Some 0)" "next_at g1 0 = 0" "member g1 = (\<lambda>_. new_trending DEFAULT_LATENESS_MS 5)"
    "table g1 = []"
    by (simp_all add: g1_def take_over_def Let_def start_group_def restart_index_def)
  obtain tm1 where i1: "sample_iteration v 0 (sample_tick (Takes 0) 1) (?g0, ?start) = Inr (g1, tm1)" "tt_flush tm1 = 0"
  proof -
    let ?watched = "?start\<lparr>tt_watch := fst (wd_check 0 None (tt_watch ?start))\<rparr>"
    have t0: "tt_flush ?start = 0" by (simp add: new_timers_def)
    have "sample_iteration v 0 (sample_tick (Takes 0) 1) (?g0, ?start) =
        trending_periodic (\<lambda>_. True) 1 0 (sample_tick (Takes 0) 1) (g1, ?watched)"
      by (simp add: trending_iteration_def trending_poll_def sample_tick_def start_group_def g1_def Let_def)
    also have "\<dots> = Inr (g1, ?watched\<lparr>tt_lag := report_lag 1 1 (tt_lag ?watched)\<rparr>)" by (rule sample_not_due) (simp_all add: t0)
    finally show thesis by (rule that) (use t0 in simp)
  qed
  obtain tm2 where i2: "sample_iteration v 0 (sample_tick (FromPartition 0) 2) (g1, tm1) = Inr (g2, tm2)" "tt_flush tm2 = 0"
  proof -
    have "sample_iteration v 0 (sample_tick (FromPartition 0) 2) (g1, tm1) =
        trending_periodic (\<lambda>_. True) 1 0 (sample_tick (FromPartition 0) 2)
          (g2, tm1\<lparr>tt_watch := fst (wd_check 0 None (tt_watch tm1))\<rparr>)"
      unfolding g2_def by (rule sample_read) (simp_all add: g1 h sample_logs_def)
    also have "\<dots> = Inr (g2, tm1\<lparr>tt_watch := fst (wd_check 0 None (tt_watch tm1)), tt_lag := report_lag 1 2 (tt_lag tm1)\<rparr>)"
      by (subst sample_not_due) (simp_all add: i1(2))
    finally show thesis by (rule that) (simp add: i1(2))
  qed
  have g2: "owner g2 = owner g1" "next_at g2 0 = 1" "member g2 = (member g1)(0 := tr)" "table g2 = []"
    by (simp_all add: g2_def g1)
  define g3 where "g3 = commit_all [(0, 8)] (gr\<lparr>member := (member gr)(0 := tr3), table := [(sample_content 60000, 1)]\<rparr>)"
  obtain tm3 where i3: "sample_iteration v 0 (sample_tick (FromPartition 0) 6) (g2, tm2) = Inr (g3, tm3)"
  proof -
    have "sample_iteration v 0 (sample_tick (FromPartition 0) 6) (g2, tm2) =
        trending_periodic (\<lambda>_. True) 1 0 (sample_tick (FromPartition 0) 6)
          (gr, tm2\<lparr>tt_watch := fst (wd_check 0 None (tt_watch tm2))\<rparr>)"
      unfolding gr_def by (rule sample_read) (simp_all add: g1 g2 h sample_logs_def)
    moreover have "member gr 0 = counted_both" "table gr = []" by (simp_all add: gr_def g2)
    ultimately have "\<exists>tm3. sample_iteration v 0 (sample_tick (FromPartition 0) 6) (g2, tm2) = Inr (g3, tm3)" using i2(2) f
      by (simp add: trending_periodic_def trending_flush_def due_def sample_tick_def FLUSH_INTERVAL_SEC_def g3_def)
    then show thesis using that by blast
  qed
  have rooms: "all_room 5 ?g0" "all_room 5 g1" "all_room 5 g2"
    using room by (auto simp: all_room_def g1 g2 start_group_def has_room_def new_state_def)
  note hp = happen_returns [of plain_runtime "\<lambda>_. True" 1 "sample_logs v"]
  let ?tms1 = "(\<lambda>_. new_timers 60 0)(0 := tm1)"
  let ?tms2 = "?tms1(0 := tm2)"
  have e1: "sample_happen v (Iterates 0 (sample_tick (Takes 0) 1)) sample_world = (g1, ?tms1)"
    by (rule hp) (rule i1(1))
  have e2: "sample_happen v (Iterates 0 (sample_tick (FromPartition 0) 2)) (g1, ?tms1) = (g2, ?tms2)"
    by (rule hp) (simp add: i2(1))
  have e3: "sample_happen v (Iterates 0 (sample_tick (FromPartition 0) 6)) (g2, ?tms2) = (g3, ?tms2(0 := tm3))"
    by (rule hp) (simp add: i3)
  have "fold (sample_happen v) (take 2 sample_ticks) sample_world = (g2, ?tms2)"
    by (simp only: sample_ticks_def take_Suc_Cons list.map fold.simps take_0 numeral_2_eq_2 o_apply id_apply e1 e2)
  moreover have "fold (sample_happen v) sample_ticks sample_world = (g3, ?tms2(0 := tm3))"
    by (simp only: sample_ticks_def list.map fold.simps o_apply id_apply e1 e2 e3)
  moreover have "stays_below plain_runtime (\<lambda>_. True) 1 DEFAULT_LATENESS_MS 5 60 (sample_logs v) sample_ticks sample_world"
    by (simp only: sample_ticks_def list.map stays_below.simps e1 e2 e3 rooms fst_conv simp_thms)
  moreover have "committed g3 0 = Some 8" "map_of (table g3) (sample_content 60000) = Some 1"
    by (simp_all add: g3_def commit_all_def)
  moreover have "tt_flush (?tms2 0) = 0" "?tms2 0 = tm2" using i2(2) by simp_all
  ultimately show ?thesis using i3 by metis
qed

theorem trending_processes_refine_group_witness:
  "\<exists>v g tms. fold (sample_happen v) sample_ticks sample_world = (g, tms) \<and>
     group_reaches False plain_runtime (\<lambda>_. True) DEFAULT_LATENESS_MS 5 (sample_logs v) g \<and>
     committed g 0 = Some 8 \<and>
     Some 1 = Some (total_count (plog_of plain_runtime (sample_logs v 0)) (sample_content 60000)) \<and>
     flushed_out 0 g"
proof -
  obtain v where v: "from_json plain_runtime (Some v) = Inr (Some untimed_event)" using untimed_bytes by blast
  obtain g2 tms2 g3 tm3 where r2: "fold (sample_happen v) (take 2 sample_ticks) sample_world = (g2, tms2)"
    and t2: "tt_flush (tms2 0) = 0"
    and i3: "sample_iteration v 0 (sample_tick (FromPartition 0) 6) (g2, tms2 0) = Inr (g3, tm3)"
    and r3: "fold (sample_happen v) sample_ticks sample_world = (g3, tms2(0 := tm3))"
    and below: "stays_below plain_runtime (\<lambda>_. True) 1 DEFAULT_LATENESS_MS 5 60 (sample_logs v) sample_ticks sample_world"
    and c: "committed g3 0 = Some 8" "map_of (table g3) (sample_content 60000) = Some 1"
    using sample_two_reads [OF v] by blast
  note gl = sample_good [OF v]
  have km: "\<forall>p. \<forall>m \<in> set (sample_logs v p). k_partition m = p" using good_logsD(4) [OF gl] by blast
  note t = trending_processes_refine_group [OF km]
  have "map_of (table g3) (sample_content 60000) =
      Some (total_count (plog_of plain_runtime (sample_logs v 0)) (sample_content 60000))"
    using t [OF r3, THEN conjunct2, THEN conjunct1, rule_format, OF gl below, THEN conjunct2, rule_format, OF c(1), of 0]
    by (simp add: sample_plog [OF v] key_at_def key_of_def minute_start_def MINUTE_MS_def)
      (simp add: sample_logs_def count_msg_def)
  moreover have "flushed_out 0 g3"
    using t [OF r2, THEN conjunct2, THEN conjunct2, rule_format, OF i3] t2
    by (simp add: sample_tick_def FLUSH_INTERVAL_SEC_def)
  ultimately show ?thesis using t [OF r3, THEN conjunct1] r3 c by metis
qed

end
