(* ===== verification/SinkLoop.thy ===== *)
theory SinkLoop
  imports Loop Sink
begin

text \<open>
  The main loop of \<^verbatim>\<open>sinks/postgres_sink.py\<close>: \<open>collect_batch\<close> with the
  rebalance callbacks its polls run, \<open>run\<close> and \<open>shutdown\<close>, of any number of processes
  at once. Every run is a run of the group in \<^theory_text>\<open>Sink\<close>.
\<close>

definition BATCH_SIZE :: nat where
  "BATCH_SIZE = 500"

definition BATCH_INTERVAL_SEC :: int where
  "BATCH_INTERVAL_SEC = 1"

record sink_timers =
  st_lag :: int
  st_watch :: watchdog

datatype sink_stopped = CollectFailed | BatchFailed sink_error

text \<open>
  One poll. A record goes to the batch and moves the position; what Kafka cannot do is an empty
  poll. \<open>on_assign\<close> and \<open>on_revoke\<close> touch nothing but the assignment.
\<close>

definition sink_poll :: "(int \<Rightarrow> kmsg list) \<Rightarrow> nat \<Rightarrow> choice \<Rightarrow> 't sink_group \<Rightarrow> sink_stopped + 't sink_group" where
  "sink_poll logs i c g =
     (case c of
        FromPartition p \<Rightarrow>
          Inr (if sg_owner g p = Some i \<and> sg_next g p < length (logs p)
               then let m = logs p ! sg_next g p
                    in g\<lparr>sg_batch := (sg_batch g)(i := sg_batch g i @ [m]),
                         sg_positions := (sg_positions g)(i := AList.update p (k_offset m + 1) (sg_positions g i)),
                         sg_next := (sg_next g)(p := Suc (sg_next g p))\<rparr>
               else g)
      | Idle \<Rightarrow> Inr g
      | Failing e \<Rightarrow> if check_consumer_error e then Inl CollectFailed else Inr g
      | Takes p \<Rightarrow>
          Inr (if sg_owner g p = None
               then g\<lparr>sg_owner := (sg_owner g)(p := Some i),
                      sg_next := (sg_next g)(p := resume_index (logs p) (map_of (sg_offsets g) p))\<rparr>
               else g)
      | GivesUp ps \<Rightarrow>
          Inr (if \<forall>p \<in> set ps. sg_owner g p = Some i
               then g\<lparr>sg_positions := (sg_positions g)(i := fold AList.delete ps (sg_positions g i)),
                      sg_owner := (\<lambda>p. if p \<in> set ps then None else sg_owner g p)\<rparr>
               else g))"

text \<open>
  \<open>collect_batch\<close>, on the times the clock shows before the polls; the list ends when the
  process is told to stop.
\<close>

fun sink_collect ::
  "(int \<Rightarrow> kmsg list) \<Rightarrow> nat \<Rightarrow> int \<Rightarrow> (int \<times> choice) list \<Rightarrow> 't sink_group \<Rightarrow> sink_stopped + 't sink_group" where
  "sink_collect logs i deadline [] g = Inr g"
| "sink_collect logs i deadline ((now, c) # polls) g =
     (if length (sg_batch g i) < BATCH_SIZE \<and> deadline - now > 0
      then bind_res (sink_poll logs i c g) (sink_collect logs i deadline polls) else Inr g)"

text \<open>
  One iteration: when it starts, its polls, which connections are lost while the batch is written,
  when the lag is reported, and what the watchdog sees.
\<close>

record round =
  ro_start :: int
  ro_polls :: "(int \<times> choice) list"
  ro_lost :: "bool list"
  ro_now :: int
  ro_watch :: "int \<times> nat option"

type_synonym 't batch_writer = "bool list \<Rightarrow> kmsg list \<Rightarrow> sink \<Rightarrow> 't \<Rightarrow> sink_error + sink \<times> 't"

definition sink_commit :: "nat \<Rightarrow> sink \<Rightarrow> 't \<Rightarrow> 't sink_group \<Rightarrow> 't sink_group" where
  "sink_commit i s tbl g =
     g\<lparr>sg_sinks := (sg_sinks g)(i := s), sg_batch := (sg_batch g)(i := []), sg_table := tbl,
       sg_offsets := fold (\<lambda>(p, n). AList.update p n) (sg_positions g i) (sg_offsets g),
       stored := stored g @ sg_batch g i\<rparr>"

definition sink_iteration ::
  "'t batch_writer \<Rightarrow> int \<Rightarrow> (int \<Rightarrow> kmsg list) \<Rightarrow> nat \<Rightarrow> round \<Rightarrow> 't sink_group \<times> sink_timers \<Rightarrow>
   sink_stopped + 't sink_group \<times> sink_timers" where
  "sink_iteration wr sec logs i r = (\<lambda>(g, tm).
     bind_res (sink_collect logs i (ro_start r + BATCH_INTERVAL_SEC * sec) (ro_polls r) g) (\<lambda>g1.
     bind_res (if sg_batch g1 i = [] then Inr g1
               else (case wr (ro_lost r) (sg_batch g1 i) (sg_sinks g1 i) (sg_table g1) of
                       Inl e \<Rightarrow> Inl (BatchFailed e)
                     | Inr (s, tbl) \<Rightarrow> Inr (sink_commit i s tbl g1))) (\<lambda>g2.
       Inr (g2, tm\<lparr>st_lag := report_lag sec (ro_now r) (st_lag tm),
                   st_watch := fst (wd_check (fst (ro_watch r)) (snd (ro_watch r)) (st_watch tm))\<rparr>))))"

text \<open>\<open>shutdown\<close> closes the clients; the batch is empty by then.\<close>

definition sink_shutdown :: "nat \<Rightarrow> 't sink_group \<times> sink_timers \<Rightarrow> 't sink_group" where
  "sink_shutdown i x = sink_restart i (fst x)"

text \<open>\<open>run\<close>: its loop, on the iterations until the process is told to stop, and the shutdown.\<close>

fun sink_loop ::
  "'t batch_writer \<Rightarrow> int \<Rightarrow> (int \<Rightarrow> kmsg list) \<Rightarrow> nat \<Rightarrow> round list \<Rightarrow> 't sink_group \<times> sink_timers \<Rightarrow>
   sink_stopped + 't sink_group \<times> sink_timers" where
  "sink_loop wr sec logs i [] x = Inr x"
| "sink_loop wr sec logs i (r # rs) x = bind_res (sink_iteration wr sec logs i r x) (sink_loop wr sec logs i rs)"

definition sink_run ::
  "'t batch_writer \<Rightarrow> int \<Rightarrow> (int \<Rightarrow> kmsg list) \<Rightarrow> nat \<Rightarrow> round list \<Rightarrow> 't sink_group \<times> sink_timers \<Rightarrow>
   sink_stopped + 't sink_group" where
  "sink_run wr sec logs i rs x = map_sum id (sink_shutdown i) (sink_loop wr sec logs i rs x)"

subsection \<open>Every run is a run of the group\<close>

abbreviation sink_steps where
  "sink_steps wr logs \<equiv> (sink_step wr logs)\<^sup>*\<^sup>*"

lemma sink_poll_steps: "sink_poll logs i c g = Inr g' \<Longrightarrow> sink_steps wr logs g g'"
  by (cases c)
    (auto simp: sink_poll_def Let_def split: if_splits intro: sink_step.sink_joined sink_step.sink_polled sink_step.sink_gave_up)

lemma sink_collect_steps: "sink_collect logs i deadline polls g = Inr g' \<Longrightarrow> sink_steps wr logs g g'"
proof (induction polls arbitrary: g)
  case (Cons x polls)
  obtain now c where x: "x = (now, c)" by (cases x)
  show ?case
  proof (cases "length (sg_batch g i) < BATCH_SIZE \<and> deadline - now > 0")
    case True
    with Cons.prems x obtain g1 where "sink_poll logs i c g = Inr g1" "sink_collect logs i deadline polls g1 = Inr g'"
      by (auto simp: bind_res_Inr_iff)
    with Cons.IH sink_poll_steps show ?thesis by (meson rtranclp_trans)
  qed (use Cons.prems x in auto)
qed simp

text \<open>A batch is never larger than \<open>BATCH_SIZE\<close>.\<close>

lemma sink_collect_size:
  "sink_collect logs i deadline polls g = Inr g' \<Longrightarrow> length (sg_batch g i) \<le> BATCH_SIZE \<Longrightarrow>
   length (sg_batch g' i) \<le> BATCH_SIZE"
proof (induction polls arbitrary: g)
  case (Cons x polls)
  obtain now c where x: "x = (now, c)" by (cases x)
  show ?case
  proof (cases "length (sg_batch g i) < BATCH_SIZE \<and> deadline - now > 0")
    case True
    with Cons.prems x obtain g1 where p: "sink_poll logs i c g = Inr g1" "sink_collect logs i deadline polls g1 = Inr g'"
      by (auto simp: bind_res_Inr_iff)
    have "length (sg_batch g1 i) \<le> Suc (length (sg_batch g i))"
      using p(1) by (cases c) (auto simp: sink_poll_def Let_def split: if_splits)
    with True Cons.IH [OF p(2)] show ?thesis by simp
  qed (use Cons.prems x in auto)
qed simp

lemma sink_iteration_steps:
  assumes "sink_iteration wr sec logs i r (g, tm) = Inr (g', tm')"
  shows "sink_steps wr logs g g' \<and> (sg_batch g i = [] \<longrightarrow> sg_batch g' i = [])"
proof -
  obtain g1 where c: "sink_collect logs i (ro_start r + BATCH_INTERVAL_SEC * sec) (ro_polls r) g = Inr g1"
    using assms by (auto simp: sink_iteration_def bind_res_Inr_iff)
  show ?thesis
  proof (cases "sg_batch g1 i = []")
    case True
    with assms c have "g' = g1" by (auto simp: sink_iteration_def)
    with sink_collect_steps [OF c] True show ?thesis by simp
  next
    case False
    with assms c obtain s tbl where w: "wr (ro_lost r) (sg_batch g1 i) (sg_sinks g1 i) (sg_table g1) = Inr (s, tbl)"
      and g': "g' = sink_commit i s tbl g1"
      by (auto simp: sink_iteration_def bind_res_Inr_iff split: sum.splits)
    from sink_step.sink_written [where wr = wr, OF w False] have "sink_step wr logs g1 g'" unfolding g' sink_commit_def .
    with sink_collect_steps [OF c] have "sink_steps wr logs g g'" by (meson rtranclp.rtrancl_into_rtrancl)
    then show ?thesis by (simp add: g' sink_commit_def)
  qed
qed

lemma sink_loop_steps:
  "sink_loop wr sec logs i rs (g, tm) = Inr (g', tm') \<Longrightarrow>
   sink_steps wr logs g g' \<and> (sg_batch g i = [] \<longrightarrow> sg_batch g' i = [])"
proof (induction rs arbitrary: g tm)
  case (Cons r rs)
  from Cons.prems obtain g1 tm1 where x: "sink_iteration wr sec logs i r (g, tm) = Inr (g1, tm1)"
    and rest: "sink_loop wr sec logs i rs (g1, tm1) = Inr (g', tm')" by (auto simp: bind_res_Inr_iff)
  from sink_iteration_steps [OF x] Cons.IH [OF rest] show ?case by (meson rtranclp_trans)
qed simp

subsection \<open>Where a sink would go on\<close>

text \<open>
  A position is the offset after the last record read of a partition that is owned. A partition
  without a position is read from where its committed offset says, and so is every partition once
  the batch is written and committed.
\<close>

definition positions_ok :: "(int \<Rightarrow> kmsg list) \<Rightarrow> 't sink_group \<Rightarrow> bool" where
  "positions_ok logs g \<longleftrightarrow>
     (\<forall>i. wf_dict (sg_positions g i)) \<and>
     (\<forall>i p n. map_of (sg_positions g i) p = Some n \<longrightarrow>
        sg_owner g p = Some i \<and> (\<exists>x < length (logs p). sg_next g p = Suc x \<and> n = k_offset (logs p ! x) + 1)) \<and>
     (\<forall>i p. sg_owner g p = Some i \<longrightarrow> map_of (sg_positions g i) p = None \<or> sg_batch g i = [] \<longrightarrow>
        resume_index (logs p) (map_of (sg_offsets g) p) = sg_next g p)"

lemma positions_okD:
  assumes "positions_ok logs g"
  shows "wf_dict (sg_positions g i)"
    and "map_of (sg_positions g i) p = Some n \<Longrightarrow>
      sg_owner g p = Some i \<and> (\<exists>x < length (logs p). sg_next g p = Suc x \<and> n = k_offset (logs p ! x) + 1)"
    and "sg_owner g p = Some i \<Longrightarrow> map_of (sg_positions g i) p = None \<or> sg_batch g i = [] \<Longrightarrow>
      resume_index (logs p) (map_of (sg_offsets g) p) = sg_next g p"
  using assms unfolding positions_ok_def by blast+

lemma positions_okI:
  assumes "\<And>i. wf_dict (sg_positions g i)"
    and "\<And>i p n. map_of (sg_positions g i) p = Some n \<Longrightarrow>
      sg_owner g p = Some i \<and> (\<exists>x < length (logs p). sg_next g p = Suc x \<and> n = k_offset (logs p ! x) + 1)"
    and "\<And>i p. sg_owner g p = Some i \<Longrightarrow> map_of (sg_positions g i) p = None \<or> sg_batch g i = [] \<Longrightarrow>
      resume_index (logs p) (map_of (sg_offsets g) p) = sg_next g p"
  shows "positions_ok logs g"
  using assms unfolding positions_ok_def by blast

lemma positions_restart: "positions_ok logs g \<Longrightarrow> positions_ok logs (sink_restart i g)"
proof (rule positions_okI, goal_cases)
  case (2 j p n)
  then have "j \<noteq> i" "map_of (sg_positions g j) p = Some n" by (auto simp: sink_restart_def split: if_splits)
  with positions_okD(2) [OF 2(1) this(2)] show ?case by (auto simp: sink_restart_def release_def)
next
  case (3 j p)
  then have "j \<noteq> i" "sg_owner g p = Some j" by (auto simp: sink_restart_def release_def split: if_splits)
  with 3 positions_okD(3) [OF 3(1)] show ?case by (auto simp: sink_restart_def)
qed (use positions_okD in \<open>auto simp: sink_restart_def\<close>)

lemma positions_step:
  assumes "sink_step wr logs g g'" and "positions_ok logs g" and "log_ok logs"
  shows "positions_ok logs g'"
  using assms(1)
proof cases
  case (sink_joined p i)
  note D = positions_okD [OF assms(2)]
  show ?thesis unfolding sink_joined(1)
  proof (rule positions_okI, goal_cases)
    case (2 j q n)
    then show ?case using D(2) [of j q n] sink_joined(2) by auto
  next
    case (3 j q)
    then show ?case using D(3) [of q j] by (auto split: if_splits)
  qed (use D(1) in simp)
next
  case (sink_polled p i m)
  note D = positions_okD [OF assms(2)]
  show ?thesis unfolding sink_polled(1)
  proof (rule positions_okI, goal_cases)
    case (2 j q n)
    show ?case
    proof (cases "q = p")
      case True
      have "j = i"
      proof (rule ccontr)
        assume j: "j \<noteq> i"
        with 2 have "map_of (sg_positions g j) q = Some n" by simp
        from conjunct1 [OF D(2) [OF this]] True j sink_polled(2) show False by simp
      qed
      with 2 True sink_polled(2-4) show ?thesis by (auto simp: dict_simps)
    next
      case False
      with 2 have "map_of (sg_positions g j) q = Some n" by (auto simp: dict_simps split: if_splits)
      with D(2) False show ?thesis by auto
    qed
  next
    case (3 j q)
    show ?case
    proof (cases "j = i")
      case True
      with 3 have "q \<noteq> p" "map_of (sg_positions g i) q = None" by (auto simp: dict_simps split: if_splits)
      with 3 True D(3) show ?thesis by auto
    next
      case False
      with 3 sink_polled(2) have "q \<noteq> p" by auto
      with 3 False D(3) show ?thesis by auto
    qed
  qed (use D(1) in simp)
next
  case (sink_written lost i s tbl)
  note D = positions_okD [OF assms(2)]
  have off: "map_of (fold (\<lambda>(p, n). AList.update p n) (sg_positions g i) (sg_offsets g)) q =
      (case map_of (sg_positions g i) q of Some n \<Rightarrow> Some n | None \<Rightarrow> map_of (sg_offsets g) q)" for q
    by (rule commit_positions [OF D(1)])
  show ?thesis unfolding sink_written(1)
  proof (rule positions_okI, goal_cases)
    case (3 j q)
    then have own: "sg_owner g q = Some j" by simp
    show ?case
    proof (cases "map_of (sg_positions g i) q")
      case None
      with 3 own D(3) [OF own] show ?thesis by (auto simp: off split: if_splits)
    next
      case (Some n)
      from D(2) [OF this] obtain x where "x < length (logs q)" "sg_next g q = Suc x" "n = k_offset (logs q ! x) + 1" by blast
      with resume_after [where logs = logs and p = q, OF assms(3)] Some show ?thesis by (simp add: off)
    qed
  qed (use D(1,2) in simp_all)
next
  case (sink_uncommitted lost i s tbl)
  have "positions_ok logs (g\<lparr>sg_table := tbl, stored := stored g @ sg_batch g i\<rparr>)"
    using assms(2) by (simp add: positions_ok_def)
  then show ?thesis unfolding sink_uncommitted(1) by (rule positions_restart)
next
  case (sink_crashed i)
  with positions_restart [OF assms(2)] show ?thesis by simp
next
  case (sink_gave_up ps i)
  note D = positions_okD [OF assms(2)]
  have wfd: "wf_dict (fold AList.delete ps d)" if "wf_dict d" for d :: "(int, int) pydict"
    using that by (induction ps arbitrary: d) auto
  show ?thesis unfolding sink_gave_up(1)
  proof (rule positions_okI, goal_cases)
    case (1 j)
    show ?case using D(1) wfd by simp
  next
    case (2 j q n)
    then have m: "map_of (sg_positions g j) q = Some n" "\<not> (j = i \<and> q \<in> set ps)"
      by (auto simp: map_of_fold_delete split: if_splits)
    with D(2) [OF m(1)] sink_gave_up(2) show ?case by auto
  next
    case (3 j q)
    then have "q \<notin> set ps" "sg_owner g q = Some j" by (auto split: if_splits)
    with 3 D(3) show ?case by (simp add: map_of_fold_delete split: if_splits)
  qed
qed

lemma positions_reach: "sink_reaches wr logs tbl g \<Longrightarrow> log_ok logs \<Longrightarrow> positions_ok logs g"
proof (induction rule: sink_reaches.induct)
  case sink_started
  show ?case by (simp add: positions_ok_def start_sink_group_def)
qed (blast intro: positions_step)

subsection \<open>Several processes\<close>

text \<open>
  An iteration (an exception ends the process), a crash, and a crash between the rows and the
  offsets. A new process takes the place of one that ends.
\<close>

datatype sink_event = SinkIterates nat round | SinkCrashes nat | SinkDiesBeforeCommit nat round

definition sink_happen ::
  "'t batch_writer \<Rightarrow> int \<Rightarrow> int \<Rightarrow> (int \<Rightarrow> kmsg list) \<Rightarrow> sink_event \<Rightarrow>
   't sink_group \<times> (nat \<Rightarrow> sink_timers) \<Rightarrow> 't sink_group \<times> (nat \<Rightarrow> sink_timers)" where
  "sink_happen wr sec interval logs ev = (\<lambda>(g, tms).
     case ev of
       SinkIterates i r \<Rightarrow>
         (case sink_iteration wr sec logs i r (g, tms i) of
            Inl _ \<Rightarrow> (sink_restart i g, tms(i := \<lparr>st_lag = ro_now r, st_watch = new_watchdog interval (ro_now r)\<rparr>))
          | Inr (g', tm) \<Rightarrow> (g', tms(i := tm)))
     | SinkCrashes i \<Rightarrow> (sink_restart i g, tms)
     | SinkDiesBeforeCommit i r \<Rightarrow>
         (case sink_collect logs i (ro_start r + BATCH_INTERVAL_SEC * sec) (ro_polls r) g of
            Inl _ \<Rightarrow> (sink_restart i g, tms)
          | Inr g1 \<Rightarrow>
              (case wr (ro_lost r) (sg_batch g1 i) (sg_sinks g1 i) (sg_table g1) of
                 Inl _ \<Rightarrow> (sink_restart i g, tms)
               | Inr (s, tbl) \<Rightarrow>
                   (if sg_batch g1 i = [] then (sink_restart i g, tms)
                    else (sink_restart i (g1\<lparr>sg_table := tbl, stored := stored g1 @ sg_batch g1 i\<rparr>), tms)))))"

lemma sink_reaches_steps:
  "sink_steps wr logs g g' \<Longrightarrow> sink_reaches wr logs t g \<Longrightarrow> sink_reaches wr logs t g'"
  by (induction rule: rtranclp_induct) (auto intro: sink_reaches.sink_stepped)

lemma sink_happen_reaches:
  assumes "sink_reaches wr logs t g" and "sink_happen wr sec interval logs ev (g, tms) = (g', tms')"
  shows "sink_reaches wr logs t g'"
proof -
  note c = sink_reaches.sink_stepped [OF assms(1) sink_step.sink_crashed]
  show ?thesis
  proof (cases ev)
    case (SinkIterates i r)
    then show ?thesis
      using assms(2) c sink_reaches_steps [OF conjunct1 [OF sink_iteration_steps] assms(1)] by (auto simp: sink_happen_def split: sum.splits)
  next
    case (SinkDiesBeforeCommit i r)
    show ?thesis
    proof (cases "sink_collect logs i (ro_start r + BATCH_INTERVAL_SEC * sec) (ro_polls r) g")
      case (Inr g1)
      note r1 = sink_reaches_steps [OF sink_collect_steps [OF Inr] assms(1)]
      show ?thesis
        using assms(2) SinkDiesBeforeCommit Inr c
          sink_reaches.sink_stepped [OF r1 sink_step.sink_uncommitted [of wr "ro_lost r" g1 i]]
        by (auto simp: sink_happen_def split: sum.splits if_splits)
    qed (use assms(2) SinkDiesBeforeCommit c in \<open>auto simp: sink_happen_def\<close>)
  next
    case (SinkCrashes i)
    with assms(2) c show ?thesis by (auto simp: sink_happen_def)
  qed
qed

text \<open>Between its iterations a process holds no batch.\<close>

lemma sink_happen_batches:
  assumes "\<forall>j. sg_batch g j = []" and "sink_happen wr sec interval logs ev (g, tms) = (g', tms')"
  shows "sg_batch g' j = []"
proof -
  have other: "sg_batch g2 k = []" if "sink_collect logs i d ps g1 = Inr g2" "k \<noteq> i" "sg_batch g1 k = []" for i d ps g1 g2 k
    using that
  proof (induction ps arbitrary: g1)
    case (Cons x ps)
    obtain now c where x: "x = (now, c)" by (cases x)
    show ?case
    proof (cases "length (sg_batch g1 i) < BATCH_SIZE \<and> d - now > 0")
      case True
      with Cons.prems x obtain g3 where p: "sink_poll logs i c g1 = Inr g3" "sink_collect logs i d ps g3 = Inr g2"
        by (auto simp: bind_res_Inr_iff)
      have "sg_batch g3 k = []"
        using p(1) Cons.prems(2,3) by (cases c) (auto simp: sink_poll_def Let_def split: if_splits)
      with Cons.IH [OF p(2) Cons.prems(2)] show ?thesis by blast
    qed (use Cons.prems x in auto)
  qed simp
  show ?thesis
  proof (cases ev)
    case (SinkIterates i r)
    show ?thesis
    proof (cases "sink_iteration wr sec logs i r (g, tms i)")
      case (Inl e)
      with assms SinkIterates show ?thesis by (auto simp: sink_happen_def sink_restart_def)
    next
      case (Inr x)
      obtain g1 tm where x: "x = (g1, tm)" by (cases x)
      have i: "sg_batch g1 i = []" using sink_iteration_steps [OF Inr [unfolded x]] assms(1) by blast
      obtain g2 where c: "sink_collect logs i (ro_start r + BATCH_INTERVAL_SEC * sec) (ro_polls r) g = Inr g2"
        using Inr by (auto simp: sink_iteration_def bind_res_Inr_iff)
      have "sg_batch g1 j = sg_batch g2 j" if "j \<noteq> i"
        using Inr c that
        by (auto simp: x sink_iteration_def bind_res_Inr_iff sink_commit_def split: if_splits sum.splits)
      with i other [OF c] assms(1) have "sg_batch g1 j = []" by (cases "j = i") simp_all
      with assms(2) SinkIterates Inr x show ?thesis by (auto simp: sink_happen_def)
    qed
  next
    case (SinkDiesBeforeCommit i r)
    show ?thesis
    proof (cases "sink_collect logs i (ro_start r + BATCH_INTERVAL_SEC * sec) (ro_polls r) g")
      case (Inr g2)
      have "sg_batch g2 j = []" if "j \<noteq> i" using other [OF Inr that] assms(1) by blast
      with assms SinkDiesBeforeCommit Inr show ?thesis
        by (cases "j = i") (auto simp: sink_happen_def sink_restart_def split: sum.splits if_splits)
    qed (use assms SinkDiesBeforeCommit in \<open>auto simp: sink_happen_def sink_restart_def\<close>)
  qed (use assms in \<open>auto simp: sink_happen_def sink_restart_def\<close>)
qed

lemma sink_happenings:
  "fold (sink_happen wr sec interval logs) evs (g0, tms0) = (g, tms) \<Longrightarrow> sink_reaches wr logs tbl g0 \<Longrightarrow>
   \<forall>j. sg_batch g0 j = [] \<Longrightarrow> sink_reaches wr logs tbl g \<and> (\<forall>j. sg_batch g j = [])"
proof (induction evs arbitrary: g0 tms0)
  case (Cons ev evs)
  obtain g1 tms1 where ev: "sink_happen wr sec interval logs ev (g0, tms0) = (g1, tms1)"
    by (cases "sink_happen wr sec interval logs ev (g0, tms0)")
  with Cons.prems show ?case
    using Cons.IH [OF _ sink_happen_reaches [OF Cons.prems(2) ev]] sink_happen_batches [OF Cons.prems(3) ev] by simp
qed simp

text \<open>What a process leaves when it is stopped in order.\<close>

lemma sink_loop_leaves:
  assumes "sink_reaches wr logs tbl g" and "sg_batch g i = []" and "log_ok logs"
    and "sink_loop wr sec logs i rs (g, tm) = Inr (g1, tm1)"
  shows "sink_reaches wr logs tbl g1" "sg_batch g1 i = []"
    "sg_owner g1 p = Some i \<Longrightarrow> resume_index (logs p) (map_of (sg_offsets g1) p) = sg_next g1 p"
    "sink_run wr sec logs i rs (g, tm) = Inr (sink_restart i g1)"
proof -
  note s = sink_loop_steps [OF assms(4)]
  from s show r: "sink_reaches wr logs tbl g1" using sink_reaches_steps [OF _ assms(1)] by blast
  from s assms(2) show b: "sg_batch g1 i = []" by blast
  show "resume_index (logs p) (map_of (sg_offsets g1) p) = sg_next g1 p" if "sg_owner g1 p = Some i"
    using positions_okD(3) [OF positions_reach [OF r assms(3)] that] b by blast
  show "sink_run wr sec logs i rs (g, tm) = Inr (sink_restart i g1)"
    using assms(4) by (simp add: sink_run_def sink_shutdown_def)
qed

text \<open>The rows of the edits sink.\<close>

lemma edit_rows:
  assumes "sink_reaches (edits_batch rt storable) logs [] g" and "log_ok logs"
  shows "distinct (map fst (sg_table g))"
    and "x < resume_index (logs p) (map_of (sg_offsets g) p) \<Longrightarrow>
       from_json rt (k_value (logs p ! x)) = Inr (Some e) \<Longrightarrow> event_id e \<in> fst ` set (sg_table g)"
    and "row \<in> set (sg_table g) \<Longrightarrow> \<exists>p e. \<exists>m \<in> set (logs p). from_json rt (k_value m) = Inr (Some e) \<and> row = as_row rt e"
proof -
  note o = edits_sink.one_row_per_key [OF assms(1) [unfolded edits_batch_def] assms(2), unfolded event_in_iff]
  have id: "fst (as_row rt e) = event_id e" for e by (simp add: as_row_def)
  show "distinct (map fst (sg_table g))" using o by blast
  show "event_id e \<in> fst ` set (sg_table g)"
    if "x < resume_index (logs p) (map_of (sg_offsets g) p)" "from_json rt (k_value (logs p ! x)) = Inr (Some e)"
    using o that unfolding id by blast
  show "\<exists>p e. \<exists>m \<in> set (logs p). from_json rt (k_value m) = Inr (Some e) \<and> row = as_row rt e" if "row \<in> set (sg_table g)"
    using o that by blast
qed

text \<open>
  C33. The sinks do what the group is proved to do. Whatever iterations and crashes any number of
  processes of the edits sink go through, the table and the offsets they leave are a state the group
  of \<^theory_text>\<open>Sink\<close> reaches: no id has two rows, every readable record below a committed
  offset has its one row, and every row is that of a record. And a process that is stopped in order
  leaves nothing undone: when its loop is left its batch is empty, each partition it owns is
  committed exactly up to the last record read, every readable record read of it has its row, and
  the shutdown drops only what a new process starts with anew.
\<close>

theorem sink_processes_refine_group:
  assumes "log_ok logs"
    and "fold (sink_happen (edits_batch rt storable) sec interval logs) evs (start_sink_group [], tms) = (g, tms')"
  shows "sink_reaches (edits_batch rt storable) logs [] g \<and>
    distinct (map fst (sg_table g)) \<and>
    (\<forall>p e. \<forall>x < resume_index (logs p) (map_of (sg_offsets g) p).
       from_json rt (k_value (logs p ! x)) = Inr (Some e) \<longrightarrow> event_id e \<in> fst ` set (sg_table g)) \<and>
    (\<forall>row \<in> set (sg_table g). \<exists>p e. \<exists>m \<in> set (logs p). from_json rt (k_value m) = Inr (Some e) \<and> row = as_row rt e) \<and>
    (\<forall>i rs g1 tm1. sink_loop (edits_batch rt storable) sec logs i rs (g, tms' i) = Inr (g1, tm1) \<longrightarrow>
       sink_reaches (edits_batch rt storable) logs [] g1 \<and> sg_batch g1 i = [] \<and>
       (\<forall>p. sg_owner g1 p = Some i \<longrightarrow>
          resume_index (logs p) (map_of (sg_offsets g1) p) = sg_next g1 p \<and>
          (\<forall>e. \<forall>x < sg_next g1 p. from_json rt (k_value (logs p ! x)) = Inr (Some e) \<longrightarrow>
             event_id e \<in> fst ` set (sg_table g1))) \<and>
       sink_run (edits_batch rt storable) sec logs i rs (g, tms' i) = Inr (sink_restart i g1))"
proof -
  let ?wr = "edits_batch rt storable"
  have "sg_batch (start_sink_group ([] :: (ustr, edit_columns) pydict)) j = []" for j by (simp add: start_sink_group_def)
  then have r: "sink_reaches ?wr logs [] g" and b: "sg_batch g i = []" for i
    using sink_happenings [OF assms(2) sink_reaches.sink_started] by blast+
  note row = edit_rows [OF _ assms(1)]
  have left: "sink_reaches ?wr logs [] g1 \<and> sg_batch g1 i = [] \<and>
       (\<forall>p. sg_owner g1 p = Some i \<longrightarrow>
          resume_index (logs p) (map_of (sg_offsets g1) p) = sg_next g1 p \<and>
          (\<forall>e. \<forall>x < sg_next g1 p. from_json rt (k_value (logs p ! x)) = Inr (Some e) \<longrightarrow>
             event_id e \<in> fst ` set (sg_table g1))) \<and>
       sink_run ?wr sec logs i rs (g, tms' i) = Inr (sink_restart i g1)"
    if "sink_loop ?wr sec logs i rs (g, tms' i) = Inr (g1, tm1)" for i rs g1 tm1
  proof -
    note l = sink_loop_leaves [OF r b assms(1) that]
    from row(2) [OF l(1)] have "event_id e \<in> fst ` set (sg_table g1)"
      if "sg_owner g1 p = Some i" "x < sg_next g1 p" "from_json rt (k_value (logs p ! x)) = Inr (Some e)" for p x e
      using that l(3) [OF that(1)] by metis
    with l show ?thesis by blast
  qed
  have a: "\<forall>p e. \<forall>x < resume_index (logs p) (map_of (sg_offsets g) p).
       from_json rt (k_value (logs p ! x)) = Inr (Some e) \<longrightarrow> event_id e \<in> fst ` set (sg_table g)"
    using row(2) [OF r] by blast
  have b: "\<forall>row \<in> set (sg_table g). \<exists>p e. \<exists>m \<in> set (logs p). from_json rt (k_value m) = Inr (Some e) \<and> row = as_row rt e"
    using row(3) [OF r] by blast
  show ?thesis by (intro conjI r row(1) [OF r] a b) (use left in blast)
qed

definition sink_first :: round where
  "sink_first = \<lparr>ro_start = 0, ro_polls = [(0, Takes 0), (0, FromPartition 0)], ro_lost = [], ro_now = 1, ro_watch = (1, None)\<rparr>"

definition sink_last :: round where
  "sink_last = \<lparr>ro_start = 2, ro_polls = [(2, FromPartition 0)], ro_lost = [], ro_now = 3, ro_watch = (3, None)\<rparr>"

definition two_row_log :: "bytes \<Rightarrow> int \<Rightarrow> kmsg list" where
  "two_row_log v p = (if p = 0 then [row_msg v 4, row_msg v 9] else [])"

text \<open>A record in the first iteration, and the last one before the process is told to stop.\<close>

theorem sink_processes_refine_group_witness:
  "\<exists>v g tms g1 tm1. fold (sink_happen (edits_batch plain_runtime (\<lambda>_. True)) 1 60 (two_row_log v)) [SinkIterates 0 sink_first]
       (start_sink_group [], \<lambda>_. \<lparr>st_lag = 0, st_watch = new_watchdog 60 0\<rparr>) = (g, tms) \<and>
     sg_offsets g = [(0, 5)] \<and>
     sink_loop (edits_batch plain_runtime (\<lambda>_. True)) 1 (two_row_log v) 0 [sink_last] (g, tms 0) = Inr (g1, tm1) \<and>
     resume_index (two_row_log v 0) (map_of (sg_offsets g1) 0) = 2 \<and> event_id sample_event \<in> fst ` set (sg_table g1)"
proof -
  have "encodable_event sample_event" "small_ints sample_event"
    by (simp_all add: encodable_event_def small_ints_def int_ok_def sample_event_def digits_of.simps MAX_STR_DIGITS_def)
  then obtain v where v: "from_json plain_runtime (Some v) = Inr (Some sample_event)" using event_bytes by blast
  let ?wr = "edits_batch plain_runtime (\<lambda>_. True)" and ?logs = "two_row_log v"
  let ?tms = "\<lambda>_ :: nat. \<lparr>st_lag = 0, st_watch = new_watchdog 60 0\<rparr>"
  let ?row = "as_row plain_runtime sample_event"
  obtain g tms where w: "fold (sink_happen ?wr 1 60 ?logs) [SinkIterates 0 sink_first] (start_sink_group [], ?tms) = (g, tms)"
    by (cases "fold (sink_happen ?wr 1 60 ?logs) [SinkIterates 0 sink_first] (start_sink_group [], ?tms)")
  obtain s where b: "?wr [] [row_msg v 4] new_sink [] = Inr (s, [?row])"
    by (simp add: edits_batch_def write_batch_def v insert_edits_def insert_rows_def paged_one PAGE_SIZE_def as_row_def)
  have g: "sg_offsets g = [(0, 5)] \<and> sg_positions g 0 = [(0, 5)] \<and> sg_owner g 0 = Some 0 \<and> sg_next g 0 = 1 \<and>
      sg_batch g 0 = [] \<and> sg_table g = [?row]"
    using w b by (auto simp: sink_happen_def sink_iteration_def sink_first_def sink_poll_def BATCH_INTERVAL_SEC_def
        BATCH_SIZE_def start_sink_group_def resume_index_def two_row_log_def sink_commit_def Let_def)
  have "\<exists>s. ?wr [] [row_msg v 9] (sg_sinks g 0) [?row] = Inr (s, [?row])"
    by (simp add: edits_batch_def write_batch_def v insert_edits_def insert_rows_def paged_one PAGE_SIZE_def as_row_def put_missing_def)
  then obtain s' where b2: "?wr [] [row_msg v 9] (sg_sinks g 0) [?row] = Inr (s', [?row])" by blast
  have "\<exists>g1 tm1. sink_loop ?wr 1 ?logs 0 [sink_last] (g, tms 0) = Inr (g1, tm1) \<and> sg_owner g1 0 = Some 0 \<and> sg_next g1 0 = 2"
    using g b2 by (simp add: sink_iteration_def sink_last_def sink_poll_def BATCH_INTERVAL_SEC_def
        BATCH_SIZE_def two_row_log_def sink_commit_def Let_def)
  then obtain g1 tm1 where l: "sink_loop ?wr 1 ?logs 0 [sink_last] (g, tms 0) = Inr (g1, tm1)"
    and o: "sg_owner g1 0 = Some 0" "sg_next g1 0 = 2" by blast
  have "log_ok ?logs" by (simp add: log_ok_def two_row_log_def row_msg_def)
  note t = sink_processes_refine_group [OF this w, THEN conjunct2, THEN conjunct2, THEN conjunct2, THEN conjunct2,
      rule_format, OF l, THEN conjunct2, THEN conjunct2, THEN conjunct1, rule_format, OF o(1)]
  have "resume_index (?logs 0) (map_of (sg_offsets g1) 0) = 2" using conjunct1 [OF t] o(2) by simp
  moreover have "event_id sample_event \<in> fst ` set (sg_table g1)"
    using conjunct2 [OF t, rule_format, of 1] o(2) v by (simp add: two_row_log_def)
  ultimately show ?thesis using w g l by blast
qed

end
