(* ===== verification/TxnLoop.thy ===== *)
theory TxnLoop
  imports Loop Transactional
begin

text \<open>
  The main loop of \<^verbatim>\<open>processors/transactional.py\<close>: \<open>collect_batch\<close> with the
  rebalance callbacks its polls run, \<open>run\<close> and \<open>shutdown\<close>, of any number of processes
  at once, for a processor whose \<open>periodic\<close> hook does nothing (the cleaner and the page
  state). Every run is a run of the group in \<^theory_text>\<open>Transactional\<close>.
\<close>

definition MAX_BATCH :: nat where
  "MAX_BATCH = 2000"

text \<open>Half a second, so the clock must have an even number of units to a second.\<close>

definition commit_interval :: "int \<Rightarrow> int" where
  "commit_interval sec = sec div 2"

record txn_timers =
  tx_lag :: int
  tx_watch :: watchdog

datatype txn_stopped = TxnCollectFailed | TxnBatchFailed kafka

text \<open>
  One poll. What Kafka cannot do is an empty poll.
\<close>

definition txn_poll ::
  "(int \<Rightarrow> int option \<Rightarrow> 's \<Rightarrow> 's) \<Rightarrow> (int list \<Rightarrow> 's \<Rightarrow> 's) \<Rightarrow> (int \<Rightarrow> kmsg list) \<Rightarrow> nat \<Rightarrow> choice \<Rightarrow>
   's txn_group \<Rightarrow> txn_stopped + 's txn_group" where
  "txn_poll assigned revoked logs i c g =
     (case c of
        FromPartition p \<Rightarrow>
          Inr (if powner g p = Some i \<and> fetch_at g p < length (logs p)
               then let m = logs p ! fetch_at g p
                    in g\<lparr>members := (members g)(i := note_polled m (members g i)),
                         batches := (batches g)(i := batches g i @ [m]),
                         fetch_at := (fetch_at g)(p := Suc (fetch_at g p))\<rparr>
               else g)
      | Idle \<Rightarrow> Inr g
      | Failing e \<Rightarrow> if check_consumer_error e then Inl TxnCollectFailed else Inr g
      | Takes p \<Rightarrow>
          Inr (if powner g p = None
               then g\<lparr>powner := (powner g)(p := Some i),
                      fetch_at := (fetch_at g)(p := resume_index (logs p) (map_of (committed_offsets (broker_side g)) p)),
                      members := (members g)(i := txn_assign assigned (broker_side g) [p] (members g i))\<rparr>
               else g)
      | GivesUp ps \<Rightarrow>
          Inr (if \<forall>p \<in> set ps. powner g p = Some i
               then g\<lparr>members := (members g)(i := txn_revoke revoked ps (members g i)),
                      powner := (\<lambda>p. if p \<in> set ps then None else powner g p)\<rparr>
               else g))"

fun txn_collect ::
  "(int \<Rightarrow> int option \<Rightarrow> 's \<Rightarrow> 's) \<Rightarrow> (int list \<Rightarrow> 's \<Rightarrow> 's) \<Rightarrow> (int \<Rightarrow> kmsg list) \<Rightarrow> nat \<Rightarrow> int \<Rightarrow>
   (int \<times> choice) list \<Rightarrow> 's txn_group \<Rightarrow> txn_stopped + 's txn_group" where
  "txn_collect assigned revoked logs i deadline [] g = Inr g"
| "txn_collect assigned revoked logs i deadline ((now, c) # polls) g =
     (if length (batches g i) < MAX_BATCH \<and> deadline - now > 0
      then bind_res (txn_poll assigned revoked logs i c g) (txn_collect assigned revoked logs i deadline polls)
      else Inr g)"

text \<open>
  One iteration: when it starts, its polls, how its transaction ends, when the lag is reported, and
  what the watchdog sees.
\<close>

record txn_round =
  tr_start :: int
  tr_polls :: "(int \<times> choice) list"
  tr_fate :: fate
  tr_now :: int
  tr_watch :: "int \<times> nat option"

text \<open>
  A left result is an exception that ends the process; the broker's side is then what
  \<open>process_batch\<close> left.
\<close>

definition txn_iteration ::
  "'s handler \<Rightarrow> (int \<Rightarrow> int option \<Rightarrow> 's \<Rightarrow> 's) \<Rightarrow> (int list \<Rightarrow> 's \<Rightarrow> 's) \<Rightarrow> int \<Rightarrow> (int \<Rightarrow> kmsg list) \<Rightarrow> nat \<Rightarrow> txn_round \<Rightarrow>
   's txn_group \<times> txn_timers \<Rightarrow> txn_stopped + 's txn_group \<times> txn_timers" where
  "txn_iteration h assigned revoked sec logs i r = (\<lambda>(g, tm).
     bind_res (txn_collect assigned revoked logs i (tr_start r + commit_interval sec) (tr_polls r) g) (\<lambda>g1.
     bind_res (if batches g1 i = [] then Inr g1
               else (case process_batch h (tr_fate r) (batches g1 i) (members g1 i) (broker_side g1) of
                       (None, k) \<Rightarrow> Inl (TxnBatchFailed k)
                     | (Some tp, k) \<Rightarrow>
                         Inr (g1\<lparr>members := (members g1)(i := tp), batches := (batches g1)(i := []), broker_side := k,
                                effects := effects g1 @
                                  committed_effects h (tr_fate r) (pstate (members g1 i)) (batches g1 i)\<rparr>))) (\<lambda>g2.
       Inr (g2, tm\<lparr>tx_lag := report_lag sec (tr_now r) (tx_lag tm),
                   tx_watch := fst (wd_check (fst (tr_watch r)) (snd (tr_watch r)) (tx_watch tm))\<rparr>))))"

text \<open>The shutdown leaves the group.\<close>

definition leave_group :: "'s \<Rightarrow> nat \<Rightarrow> 's txn_group \<Rightarrow> 's txn_group" where
  "leave_group s0 i g = txn_restart s0 i (g\<lparr>members := (members g)(i := txn_shutdown (members g i))\<rparr>)"

fun txn_run ::
  "'s handler \<Rightarrow> (int \<Rightarrow> int option \<Rightarrow> 's \<Rightarrow> 's) \<Rightarrow> (int list \<Rightarrow> 's \<Rightarrow> 's) \<Rightarrow> 's \<Rightarrow> int \<Rightarrow> (int \<Rightarrow> kmsg list) \<Rightarrow> nat \<Rightarrow>
   txn_round list \<Rightarrow> 's txn_group \<times> txn_timers \<Rightarrow> txn_stopped + 's txn_group" where
  "txn_run h assigned revoked s0 sec logs i [] x = Inr (leave_group s0 i (fst x))"
| "txn_run h assigned revoked s0 sec logs i (r # rs) x =
     bind_res (txn_iteration h assigned revoked sec logs i r x) (txn_run h assigned revoked s0 sec logs i rs)"

subsection \<open>Every run is a run of the group\<close>

text \<open>The two things a round may do that break exactly-once.\<close>

fun aborting :: "fate \<Rightarrow> bool" where
  "aborting (AbortsAfter n) = True"
| "aborting _ = False"

text \<open>No partition is given up once a record of the round has been polled.\<close>

fun settled_first :: "(int \<times> choice) list \<Rightarrow> bool" where
  "settled_first [] = True"
| "settled_first ((_, FromPartition p) # polls) = (\<forall>(_, c) \<in> set polls. \<forall>ps. c \<noteq> GivesUp ps)"
| "settled_first (_ # polls) = settled_first polls"

abbreviation txn_steps where
  "txn_steps aborts mid h assigned revoked s0 logs \<equiv> (txn_step aborts mid h assigned revoked s0 logs)\<^sup>*\<^sup>*"

lemma txn_poll_step:
  assumes "txn_poll assigned revoked logs i c g = Inr g'" and "mid \<or> batches g i = [] \<or> (\<forall>ps. c \<noteq> GivesUp ps)"
  shows "txn_steps aborts mid h assigned revoked s0 logs g g'"
proof (cases c)
  case (FromPartition p)
  with assms show ?thesis
    by (auto simp: txn_poll_def Let_def split: if_splits intro!: r_into_rtranclp txn_step.polled)
next
  case (Takes p)
  with assms show ?thesis
    by (auto simp: txn_poll_def split: if_splits intro!: r_into_rtranclp txn_step.joined)
next
  case (GivesUp ps)
  then have "mid \<or> batches g i = []" using assms(2) by auto
  with assms(1) GivesUp show ?thesis
    by (auto simp: txn_poll_def split: if_splits intro!: r_into_rtranclp txn_step.gave_up)
qed (use assms in \<open>auto simp: txn_poll_def split: if_splits\<close>)

lemma txn_poll_batch:
  "txn_poll assigned revoked logs i c g = Inr g' \<Longrightarrow> \<forall>p. c \<noteq> FromPartition p \<Longrightarrow> batches g' i = batches g i"
  by (cases c) (auto simp: txn_poll_def split: if_splits)

lemma txn_collect_steps:
  assumes "txn_collect assigned revoked logs i deadline polls g = Inr g'"
    and "mid \<or> (\<forall>(_, c) \<in> set polls. \<forall>ps. c \<noteq> GivesUp ps) \<or> batches g i = [] \<and> settled_first polls"
  shows "txn_steps aborts mid h assigned revoked s0 logs g g'"
  using assms
proof (induction polls arbitrary: g)
  case (Cons x polls)
  obtain now c where x: "x = (now, c)" by (cases x)
  show ?case
  proof (cases "length (batches g i) < MAX_BATCH \<and> deadline - now > 0")
    case True
    with Cons.prems(1) x obtain g1 where p: "txn_poll assigned revoked logs i c g = Inr g1"
      "txn_collect assigned revoked logs i deadline polls g1 = Inr g'" by (auto simp: bind_res_Inr_iff)
    have "txn_steps aborts mid h assigned revoked s0 logs g g1"
      using Cons.prems(2) x by (intro txn_poll_step [OF p(1)]) auto
    moreover have "mid \<or> (\<forall>(_, c) \<in> set polls. \<forall>ps. c \<noteq> GivesUp ps) \<or> batches g1 i = [] \<and> settled_first polls"
      using Cons.prems(2) x txn_poll_batch [OF p(1)] by (cases c) auto
    ultimately show ?thesis using Cons.IH [OF p(2)] by (meson rtranclp_trans)
  qed (use Cons.prems x in auto)
qed simp

definition orderly :: "bool \<Rightarrow> bool \<Rightarrow> txn_round \<Rightarrow> bool" where
  "orderly aborts mid r \<longleftrightarrow> (aborts \<or> \<not> aborting (tr_fate r)) \<and> (mid \<or> settled_first (tr_polls r))"

lemma process_batch_survives:
  "process_batch h fate batch tp k = (Some tp', k') \<Longrightarrow> fate = Commits \<or> aborting fate"
  by (cases fate) (auto simp: process_batch_def Let_def split: sum.splits)

lemma txn_collect_others: "txn_collect assigned revoked logs i deadline polls g = Inr g' \<Longrightarrow> j \<noteq> i \<Longrightarrow> batches g' j = batches g j"
proof (induction polls arbitrary: g)
  case (Cons x polls)
  obtain now c where x: "x = (now, c)" by (cases x)
  have "batches g1 j = batches g j" if "txn_poll assigned revoked logs i c g = Inr g1" for g1
    using that Cons.prems(2) by (cases c) (auto simp: txn_poll_def Let_def split: if_splits)
  then show ?case using Cons.prems Cons.IH x by (auto simp: bind_res_Inr_iff split: if_splits)
qed simp

lemma txn_iteration_steps:
  assumes "txn_iteration h assigned revoked sec logs i r (g, tm) = Inr (g', tm')"
    and "orderly aborts mid r" and "\<forall>j. batches g j = []"
  shows "txn_steps aborts mid h assigned revoked s0 logs g g' \<and> (\<forall>j. batches g' j = [])"
proof -
  obtain g1 where c: "txn_collect assigned revoked logs i (tr_start r + commit_interval sec) (tr_polls r) g = Inr g1"
    using assms(1) by (auto simp: txn_iteration_def bind_res_Inr_iff)
  have s: "txn_steps aborts mid h assigned revoked s0 logs g g1"
    using assms(2,3) by (intro txn_collect_steps [OF c]) (auto simp: orderly_def)
  have other: "j \<noteq> i \<Longrightarrow> batches g1 j = []" for j using txn_collect_others [OF c] assms(3) by simp
  show ?thesis
  proof (cases "batches g1 i = []")
    case True
    with assms(1) c have "g' = g1" by (auto simp: txn_iteration_def)
    with s True other show ?thesis by metis
  next
    case False
    with assms(1) c obtain tp k where pb:
        "process_batch h (tr_fate r) (batches g1 i) (members g1 i) (broker_side g1) = (Some tp, k)"
      and g': "g' = g1\<lparr>members := (members g1)(i := tp), batches := (batches g1)(i := []), broker_side := k,
          effects := effects g1 @ committed_effects h (tr_fate r) (pstate (members g1 i)) (batches g1 i)\<rparr>"
      by (auto simp: txn_iteration_def bind_res_Inr_iff split: prod.splits option.splits)
    have "tr_fate r = Commits \<or> aborts"
      using process_batch_survives [OF pb] assms(2) by (auto simp: orderly_def)
    with txn_step.processed [OF pb False] have "txn_step aborts mid h assigned revoked s0 logs g1 g'"
      unfolding g' by blast
    with s have "txn_steps aborts mid h assigned revoked s0 logs g g'" by (rule rtranclp.rtrancl_into_rtrancl)
    then show ?thesis using g' other by simp
  qed
qed

subsection \<open>Several processes\<close>

text \<open>An iteration (an exception ends the process) or a crash; a new process takes the place.\<close>

datatype txn_event = TxnIterates nat txn_round | TxnCrashes nat

definition txn_happen ::
  "'s handler \<Rightarrow> (int \<Rightarrow> int option \<Rightarrow> 's \<Rightarrow> 's) \<Rightarrow> (int list \<Rightarrow> 's \<Rightarrow> 's) \<Rightarrow> 's \<Rightarrow> int \<Rightarrow> int \<Rightarrow> (int \<Rightarrow> kmsg list) \<Rightarrow>
   txn_event \<Rightarrow> 's txn_group \<times> (nat \<Rightarrow> txn_timers) \<Rightarrow> 's txn_group \<times> (nat \<Rightarrow> txn_timers)" where
  "txn_happen h assigned revoked s0 sec interval logs ev = (\<lambda>(g, tms).
     case ev of
       TxnIterates i r \<Rightarrow>
         (case txn_iteration h assigned revoked sec logs i r (g, tms i) of
            Inr (g', tm) \<Rightarrow> (g', tms(i := tm))
          | Inl e \<Rightarrow>
              (case txn_collect assigned revoked logs i (tr_start r + commit_interval sec) (tr_polls r) g of
                 Inl _ \<Rightarrow> (txn_restart s0 i g, tms)
               | Inr g1 \<Rightarrow>
                   (txn_restart s0 i
                      (g1\<lparr>broker_side := snd (process_batch h (tr_fate r) (batches g1 i) (members g1 i) (broker_side g1)),
                          effects := effects g1 @
                            committed_effects h (tr_fate r) (pstate (members g1 i)) (batches g1 i)\<rparr>), tms)))
     | TxnCrashes i \<Rightarrow> (txn_restart s0 i g, tms))"

lemma txn_happen_steps:
  assumes "txn_happen h assigned revoked s0 sec interval logs ev (g, tms) = (g', tms')"
    and "\<forall>i r. ev = TxnIterates i r \<longrightarrow> orderly aborts mid r" and "\<forall>i. batches g i = []"
  shows "txn_steps aborts mid h assigned revoked s0 logs g g' \<and> (\<forall>j. batches g' j = [])"
proof -
  have crash: "txn_steps aborts mid h assigned revoked s0 logs g (txn_restart s0 i g) \<and>
      (\<forall>j. batches (txn_restart s0 i g) j = [])" for i
    using r_into_rtranclp [where r = "txn_step aborts mid h assigned revoked s0 logs", OF txn_step.crashed] assms(3)
    by (simp add: txn_restart_def)
  show ?thesis
  proof (cases ev)
    case (TxnCrashes i)
    with assms(1) have "g' = txn_restart s0 i g" by (simp add: txn_happen_def)
    then show ?thesis using crash by simp
  next
    case (TxnIterates i r)
    with assms(2) have o': "orderly aborts mid r" by blast
    show ?thesis
    proof (cases "txn_iteration h assigned revoked sec logs i r (g, tms i)")
      case (Inr x)
      obtain g1 tm where x: "x = (g1, tm)" by (cases x)
      with assms(1) TxnIterates Inr have "g' = g1" by (simp add: txn_happen_def)
      with txn_iteration_steps [OF Inr [unfolded x] o' assms(3)] show ?thesis by blast
    next
      case (Inl e)
      show ?thesis
      proof (cases "txn_collect assigned revoked logs i (tr_start r + commit_interval sec) (tr_polls r) g")
        case Inl': (Inl e')
        with assms(1) TxnIterates Inl have "g' = txn_restart s0 i g" by (simp add: txn_happen_def)
        then show ?thesis using crash by simp
      next
        case Inr': (Inr g1)
        have s: "txn_steps aborts mid h assigned revoked s0 logs g g1"
          using o' assms(3) by (intro txn_collect_steps [OF Inr']) (auto simp: orderly_def)
        obtain k where ne: "batches g1 i \<noteq> []" and pb:
            "process_batch h (tr_fate r) (batches g1 i) (members g1 i) (broker_side g1) = (None, k)"
          using Inl Inr' by (auto simp: txn_iteration_def split: if_splits prod.splits option.splits)
        have g': "g' = txn_restart s0 i (g1\<lparr>broker_side := k,
            effects := effects g1 @ committed_effects h (tr_fate r) (pstate (members g1 i)) (batches g1 i)\<rparr>)"
          using assms(1) TxnIterates Inl Inr' pb by (simp add: txn_happen_def)
        with txn_step.died [OF pb ne] have "txn_step aborts mid h assigned revoked s0 logs g1 g'" by simp
        with s have "txn_steps aborts mid h assigned revoked s0 logs g g'" by (rule rtranclp.rtrancl_into_rtrancl)
        moreover have "\<forall>j. batches g' j = []"
          using txn_collect_others [OF Inr'] assms(3) by (simp add: g' txn_restart_def)
        ultimately show ?thesis ..
      qed
    qed
  qed
qed

lemma txn_reaches_steps:
  "txn_steps aborts mid h assigned revoked s0 logs g g' \<Longrightarrow> txn_reaches aborts mid h assigned revoked s0 logs g \<Longrightarrow>
   txn_reaches aborts mid h assigned revoked s0 logs g'"
  by (induction rule: rtranclp_induct) (auto intro: txn_reaches.stepped)

lemma txn_processes_reach:
  assumes "fold (txn_happen h assigned revoked s0 sec interval logs) evs (g0, tms0) = (g, tms)"
    and "\<forall>i r. TxnIterates i r \<in> set evs \<longrightarrow> orderly aborts mid r"
    and "txn_reaches aborts mid h assigned revoked s0 logs g0" and "\<forall>i. batches g0 i = []"
  shows "txn_reaches aborts mid h assigned revoked s0 logs g"
  using assms
proof (induction evs arbitrary: g0 tms0)
  case (Cons ev evs)
  obtain g1 tms1 where ev: "txn_happen h assigned revoked s0 sec interval logs ev (g0, tms0) = (g1, tms1)"
    by (cases "txn_happen h assigned revoked s0 sec interval logs ev (g0, tms0)")
  have s: "txn_steps aborts mid h assigned revoked s0 logs g0 g1 \<and> (\<forall>j. batches g1 j = [])"
    using Cons.prems(2,4) by (intro txn_happen_steps [OF ev]) simp_all
  from Cons.prems(1) ev have "fold (txn_happen h assigned revoked s0 sec interval logs) evs (g1, tms1) = (g, tms)" by simp
  then show ?case
    using Cons.IH Cons.prems(2) s txn_reaches_steps [OF conjunct1 [OF s] Cons.prems(3)] by simp
qed simp

text \<open>
  C3. The loop is exactly-once. Run any number of processes of a processor through any iterations of
  the real loop (batches cut by size, time or a stop, empty and failing polls, rebalance callbacks,
  transactions that commit, fail or lose their answer) and any crashes: if no iteration goes on
  after an aborted transaction and none gives a partition up while its batch holds records, then the
  records below the committed offsets are exactly those whose output is committed, each once and
  in order, and the committed output is that of these records.
\<close>

theorem txn_processes_exactly_once:
  assumes "log_ok logs"
    and "fold (txn_happen h assigned revoked s0 sec interval logs) evs (start_txn_group s0, tms) = (g, tms')"
    and "\<forall>i r. TxnIterates i r \<in> set evs \<longrightarrow> orderly False False r"
  shows "(\<forall>p. map fst (filter (\<lambda>(m, _). k_partition m = p) (effects g)) =
      filter (\<lambda>m. \<exists>n. map_of (committed_offsets (broker_side g)) p = Some n \<and> k_offset m < n) (logs p)) \<and>
    committed_out (broker_side g) = concat (map snd (effects g))"
proof -
  have "txn_reaches False False h assigned revoked s0 logs g"
    by (rule txn_processes_reach [OF assms(2,3) txn_reaches.started]) (simp add: start_txn_group_def)
  from txn_reaches_inv [OF this _ _ assms(1)] have "txn_inv logs g" by simp
  from txn_invD(1,2) [OF this] take_resume_filter [OF assms(1)] show ?thesis by simp
qed

definition echo_round :: txn_round where
  "echo_round = \<lparr>tr_start = 0, tr_polls = [(0, Takes 0), (0, FromPartition 0), (0, Idle), (0, FromPartition 0)],
     tr_fate = Commits, tr_now = 2, tr_watch = (2, None)\<rparr>"

theorem txn_processes_exactly_once_witness:
  "\<exists>g :: unit txn_group. map fst (filter (\<lambda>(m, _). k_partition m = 0) (effects g)) =
       filter (\<lambda>m. \<exists>n. map_of (committed_offsets (broker_side g)) 0 = Some n \<and> k_offset m < n) (two_msgs 0) \<and>
     map fst (effects g) = two_msgs 0 \<and> committed_offsets (broker_side g) = [(0, 9)]"
proof -
  let ?tm = "\<lambda>_ :: nat. \<lparr>tx_lag = 0, tx_watch = new_watchdog 60 0\<rparr>"
  let ?h = "txn_happen echo (\<lambda>_ _ s. s) (\<lambda>_ s. s) () 2 60 two_msgs"
  obtain g tms where w: "fold ?h [TxnIterates 0 echo_round] (start_txn_group (), ?tm) = (g, tms)"
    by (cases "fold ?h [TxnIterates 0 echo_round] (start_txn_group (), ?tm)")
  have o': "\<forall>i r. TxnIterates i r \<in> set [TxnIterates 0 echo_round] \<longrightarrow> orderly False False r"
    by (simp add: orderly_def echo_round_def)
  have "map fst (effects g) = two_msgs 0 \<and> committed_offsets (broker_side g) = [(0, 9)]"
    using w by (auto simp: txn_happen_def txn_iteration_def echo_round_def txn_poll_def commit_interval_def MAX_BATCH_def
        start_txn_group_def resume_index_def two_msgs_def plain_msg_def process_batch_def committed_effects_def
        note_polled_def new_processor_def txn_assign_def echo_def Let_def)
  with txn_processes_exactly_once [OF two_msgs_ok w o'] show ?thesis by (intro exI [of _ g]) simp
qed

end
