(* ===== verification/PageLatest.thy ===== *)
theory PageLatest
  imports Transform Transactional
begin

text \<open>
  \<^verbatim>\<open>processors/page_latest.py\<close> and \<^verbatim>\<open>processors/page_state.py\<close>: what the
  compacted topic \<^verbatim>\<open>wiki.page-latest\<close> holds for a page, the guard against updates that
  arrive out of order, and how a new owner rebuilds the guard from the topic. An exception is the
  left value of a sum; the fields of a record that has other types than declared are \<open>None\<close>,
  as for clean events.
\<close>

subsection \<open>The record of a page\<close>

definition CONTENT_TYPES :: "ustr list" where
  "CONTENT_TYPES = map ascii [''edit'', ''new'']"

record PageLatest =
  pl_wiki :: ustr
  pl_title :: ustr
  pl_event_id :: ustr
  pl_type :: ustr
  pl_user :: ustr
  pl_bot :: bool
  pl_minor :: bool
  pl_is_revert :: bool
  pl_comment :: ustr
  pl_event_time :: ustr
  pl_rev_id :: "int option"
  pl_length :: "int option"

definition pl_page_key :: "PageLatest \<Rightarrow> ustr" where
  "pl_page_key r = pl_wiki r @ [58] @ pl_title r"

definition from_event :: "runtime \<Rightarrow> CleanEvent \<Rightarrow> PageLatest" where
  "from_event rt e =
     \<lparr>pl_wiki = wiki e, pl_title = title e, pl_event_id = event_id e, pl_type = etype e,
      pl_user = user e, pl_bot = bot e, pl_minor = minor e, pl_is_revert = is_revert rt e,
      pl_comment = comment e, pl_event_time = event_time e, pl_rev_id = rev_new e,
      pl_length = length_new e\<rparr>"

definition pl_asdict :: "PageLatest \<Rightarrow> (ustr, json) pydict" where
  "pl_asdict r =
     [(ascii ''wiki'', JStr (pl_wiki r)), (ascii ''title'', JStr (pl_title r)),
      (ascii ''event_id'', JStr (pl_event_id r)), (ascii ''type'', JStr (pl_type r)),
      (ascii ''user'', JStr (pl_user r)), (ascii ''bot'', JBool (pl_bot r)),
      (ascii ''minor'', JBool (pl_minor r)), (ascii ''is_revert'', JBool (pl_is_revert r)),
      (ascii ''comment'', JStr (pl_comment r)), (ascii ''event_time'', JStr (pl_event_time r)),
      (ascii ''rev_id'', opt_int_json (pl_rev_id r)), (ascii ''length'', opt_int_json (pl_length r))]"

definition pl_to_json :: "runtime \<Rightarrow> PageLatest \<Rightarrow> pyexc + bytes" where
  "pl_to_json rt r = utf8_encode (dumps (rt_float_repr rt) (JObj (pl_asdict r)))"

definition pl_fields :: "ustr list" where
  "pl_fields =
     map ascii [''wiki'', ''title'', ''event_id'', ''type'', ''user'', ''bot'', ''minor'',
                ''is_revert'', ''comment'', ''event_time'', ''rev_id'', ''length'']"

definition typed_page :: "(ustr, json) pydict \<Rightarrow> PageLatest option" where
  "typed_page d =
     (let f = field_of d
      in case (as_str (f ''wiki''), as_str (f ''title''), as_str (f ''event_id''), as_str (f ''type''),
               as_str (f ''user''), as_bool (f ''bot''), as_bool (f ''minor''), as_bool (f ''is_revert''),
               as_str (f ''comment''), as_str (f ''event_time''), as_opt_int (f ''rev_id''),
               as_opt_int (f ''length''))
         of (Some v1, Some v2, Some v3, Some v4, Some v5, Some v6, Some v7, Some v8, Some v9,
             Some v10, Some v11, Some v12) \<Rightarrow>
              Some \<lparr>pl_wiki = v1, pl_title = v2, pl_event_id = v3, pl_type = v4, pl_user = v5,
                    pl_bot = v6, pl_minor = v7, pl_is_revert = v8, pl_comment = v9,
                    pl_event_time = v10, pl_rev_id = v11, pl_length = v12\<rparr>
          | _ \<Rightarrow> None)"

definition pl_from_json :: "runtime \<Rightarrow> bytes \<Rightarrow> pyexc + PageLatest option" where
  "pl_from_json rt b =
     bind_res (json_loads_bytes (rt_wide rt) b) (\<lambda>v.
       case v of
         JObj d \<Rightarrow>
           if list_all (\<lambda>k. k \<in> set pl_fields) (map fst d)
              \<and> list_all (\<lambda>k. map_of d k \<noteq> None) pl_fields
           then Inr (typed_page d)
           else Inl TypeError
       | _ \<Rightarrow> Inl TypeError)"

definition event_ms :: "runtime \<Rightarrow> ustr \<Rightarrow> pyexc + int" where
  "event_ms rt t = bind_res (fromisoformat t) (datetime_ms (rt_naive_ms rt))"

definition is_deletion :: "CleanEvent \<Rightarrow> bool" where
  "is_deletion e \<longleftrightarrow>
     etype e = ascii ''log'' \<and> log_type e = Some (ascii ''delete'') \<and> log_action e = Some (ascii ''delete'')"

definition page_update :: "runtime \<Rightarrow> CleanEvent \<Rightarrow> (ustr \<times> PageLatest option) option" where
  "page_update rt e =
     (if etype e \<in> set CONTENT_TYPES then Some (page_key e, Some (from_event rt e))
      else if is_deletion e then Some (page_key e, None)
      else None)"

subsection \<open>The guard\<close>

definition remember :: "(ustr, int) pydict \<Rightarrow> ustr \<Rightarrow> int \<Rightarrow> (ustr, int) pydict" where
  "remember applied key t = (if t > get_default applied key (-1) then AList.update key t applied else applied)"

definition is_stale :: "(ustr, int) pydict \<Rightarrow> ustr \<Rightarrow> int \<Rightarrow> bool" where
  "is_stale applied key t \<longleftrightarrow> t < get_default applied key (-1)"

text \<open>
  \<open>time_of_record\<close>: a value that cannot be read falls back to the record's timestamp, as does
  one whose time cannot (\<open>OverflowError\<close> escapes).
\<close>

definition time_of_record :: "runtime \<Rightarrow> bytes option \<Rightarrow> int \<Rightarrow> pyexc + int" where
  "time_of_record rt v timestamp =
     (case v of
        None \<Rightarrow> Inr timestamp
      | Some b \<Rightarrow>
          (case bind_res (pl_from_json rt b) (\<lambda>r.
             case r of None \<Rightarrow> Inl TypeError | Some r \<Rightarrow> event_ms rt (pl_event_time r)) of
             Inr t \<Rightarrow> Inr t
           | Inl e \<Rightarrow> if is_value_error e \<or> e = TypeError \<or> e = KeyError then Inr timestamp else Inl e))"

record PageGuard =
  applied :: "(int, (ustr, int) pydict) pydict"
  page_updates :: int
  tombstones :: int
  stale :: int
  ignored :: int

definition new_guard :: PageGuard where
  "new_guard = \<lparr>applied = [], page_updates = 0, tombstones = 0, stale = 0, ignored = 0\<rparr>"

definition page_value :: "runtime \<Rightarrow> PageLatest option \<Rightarrow> pyexc + bytes option" where
  "page_value rt r = (case r of None \<Rightarrow> Inr None | Some r \<Rightarrow> map_sum id Some (pl_to_json rt r))"

definition page_handle :: "runtime \<Rightarrow> ustr \<Rightarrow> PageGuard handler" where
  "page_handle rt topic s m =
     (case from_json rt (k_value m) of
        Inl e \<Rightarrow> if is_value_error e \<or> e = TypeError then Inr (s, []) else Inl e
      | Inr None \<Rightarrow> Inr (s, [])
      | Inr (Some e) \<Rightarrow>
          (case page_update rt e of
             None \<Rightarrow> Inr (s\<lparr>ignored := ignored s + 1\<rparr>, [])
           | Some (key, r) \<Rightarrow>
               bind_res (event_ms rt (event_time e)) (\<lambda>t.
               let guard = get_default (applied s) (k_partition m) [];
                   s0 = s\<lparr>applied := AList.update (k_partition m) guard (applied s)\<rparr>
               in if is_stale guard key t then Inr (s0\<lparr>stale := stale s0 + 1\<rparr>, [])
                  else
                    bind_res (utf8_encode key) (\<lambda>k.
                    bind_res (page_value rt r) (\<lambda>v.
                      let s1 = s0\<lparr>applied := AList.update (k_partition m) (remember guard key t) (applied s0)\<rparr>
                      in Inr (if r = None then s1\<lparr>tombstones := tombstones s1 + 1\<rparr>
                              else s1\<lparr>page_updates := page_updates s1 + 1\<rparr>,
                              [\<lparr>out_topic = topic, out_key = Some k, out_value = v, out_time = t\<rparr>]))))))"

text \<open>\<open>load_applied\<close>; the left value is an exception, \<open>KafkaError\<close> that of the client.\<close>

datatype load_error = LoadRaised pyexc | LoadKafkaError

fun load_polls :: "runtime \<Rightarrow> poll list \<Rightarrow> (ustr, int) pydict \<Rightarrow> load_error + (ustr, int) pydict" where
  "load_polls rt [] guard = Inr guard"
| "load_polls rt (p # ps) guard =
     (case p of
        NoMessage \<Rightarrow> Inr guard
      | PollError e \<Rightarrow> if e = PartitionEof then Inr guard else Inl LoadKafkaError
      | Message m \<Rightarrow>
          (case k_key m of
             None \<Rightarrow> load_polls rt ps guard
           | Some kb \<Rightarrow>
               (case bind_res (utf8_decode False kb) (\<lambda>key.
                  bind_res (time_of_record rt (k_value m) (k_time m)) (\<lambda>t. Inr (remember guard key t))) of
                  Inl e \<Rightarrow> Inl (LoadRaised e)
                | Inr guard' \<Rightarrow> load_polls rt ps guard')))"

definition load_applied :: "runtime \<Rightarrow> poll list \<Rightarrow> load_error + (ustr, int) pydict" where
  "load_applied rt polls = load_polls rt polls []"

fun guard_assigned ::
  "runtime \<Rightarrow> (int \<Rightarrow> poll list) \<Rightarrow> int list \<Rightarrow> PageGuard \<Rightarrow> load_error + PageGuard" where
  "guard_assigned rt polls [] s = Inr s"
| "guard_assigned rt polls (p # ps) s =
     bind_res (load_applied rt (polls p)) (\<lambda>g.
       guard_assigned rt polls ps (s\<lparr>applied := AList.update p g (applied s)\<rparr>))"

definition guard_revoked :: "int list \<Rightarrow> PageGuard \<Rightarrow> PageGuard" where
  "guard_revoked ps s = s\<lparr>applied := fold AList.delete ps (applied s)\<rparr>"


subsection \<open>Reading a record back\<close>

lemma pl_keys: "map fst (pl_asdict r) = pl_fields"
  by (simp add: pl_asdict_def pl_fields_def)

lemma typed_page_asdict: "typed_page (pl_asdict r) = Some r"
  by (simp add: typed_page_def field_of_def pl_asdict_def)

lemma pl_from_json_to_json:
  assumes "pl_to_json rt r = Inr b" and "int_ok (pl_rev_id r)" and "int_ok (pl_length r)"
  shows "pl_from_json rt b = Inr (Some r)"
proof -
  let ?s = "dumps (rt_float_repr rt) (JObj (pl_asdict r))"
  have enc: "utf8_encode ?s = Inr b" using assms(1) by (simp add: pl_to_json_def)
  have "\<exists>t. ?s = 123 # 34 # 119 # 105 # t"
    by (simp add: pl_asdict_def quote_str_def ascii_def escape_char_def)
  then obtain t where s: "?s = 123 # 34 # 119 # 105 # t" by blast
  from enc have "utf8_encode (123 # 34 # 119 # 105 # t) = Inr b" by (simp only: s)
  then have "detect_encoding b = Utf8" by (rule detect_object) simp_all
  moreover have ok: "json_ok (JObj (pl_asdict r))"
    using assms(2,3) by (simp add: pl_asdict_def json_ok_opt)
  ultimately have "json_loads_bytes (rt_wide rt) b = Inr (JObj (pl_asdict r))"
    using utf8_roundtrip [OF enc, of True] json_loads_dumps [OF ok] by (simp add: json_loads_bytes_def)
  moreover have "list_all (\<lambda>k. k \<in> set pl_fields) (map fst (pl_asdict r))"
    unfolding pl_keys list_all_iff by simp
  moreover have "list_all (\<lambda>k. map_of (pl_asdict r) k \<noteq> None) pl_fields"
    unfolding list_all_iff map_of_eq_None_iff
    using arg_cong [OF pl_keys [of r], of set] by (auto simp del: set_map simp: set_map [symmetric])
  ultimately show ?thesis by (simp add: pl_from_json_def typed_page_asdict)
qed

subsection \<open>The specification: keep what is not older\<close>

type_synonym update = "ustr \<times> int \<times> bytes option"

fun keep_newer :: "(ustr \<Rightarrow> int) \<Rightarrow> update list \<Rightarrow> update list" where
  "keep_newer g [] = []"
| "keep_newer g ((k, t, v) # us) =
     (if t < g k then keep_newer g us else (k, t, v) # keep_newer (g(k := max (g k) t)) us)"

definition raised :: "(ustr \<Rightarrow> int) \<Rightarrow> (ustr \<times> int) list \<Rightarrow> ustr \<Rightarrow> int" where
  "raised g kts = fold (\<lambda>(k, t) g. g(k := max (g k) t)) kts g"

abbreviation key_time :: "update \<Rightarrow> ustr \<times> int" where
  "key_time u \<equiv> (fst u, fst (snd u))"

lemma raised_simps [simp]:
  "raised g [] = g" "raised g ((k, t) # kts) = raised (g(k := max (g k) t)) kts"
  "raised g (kts @ kts') = raised (raised g kts) kts'"
  by (simp_all add: raised_def)

lemma keep_newer_snoc:
  "keep_newer g (us @ [(k, t, v)]) =
     keep_newer g us @ (if t < raised g (map key_time us) k then [] else [(k, t, v)])"
proof (induction g us rule: keep_newer.induct)
  case (2 g k' t' v' us)
  have same: "t' < g k' \<Longrightarrow> g(k' := max (g k') t') = g" by (auto simp: fun_eq_iff)
  show ?case
  proof (cases "t' < g k'")
    case True
    with 2(1) same show ?thesis by simp
  next
    case False
    show ?thesis
      using 2(2) [OF False] by (simp only: append_Cons keep_newer.simps False if_False list.map fst_conv snd_conv raised_simps)
  qed
qed simp

lemma raised_kept: "raised g (map key_time (keep_newer g us)) = raised g (map key_time us)"
proof (induction g us rule: keep_newer.induct)
  case (2 g k t v us)
  have "t < g k \<Longrightarrow> g(k := max (g k) t) = g" by (auto simp: fun_eq_iff)
  with 2(1) show ?case
  proof (cases "t < g k")
    case False
    show ?thesis
      using 2(2) [OF False] by (simp only: keep_newer.simps False if_False list.map fst_conv snd_conv raised_simps)
  qed simp
qed simp

lemma raised_bounds:
  "g k \<le> raised g kts k" "(k, t) \<in> set kts \<Longrightarrow> t \<le> raised g kts k"
  "raised g kts k = g k \<or> (k, raised g kts k) \<in> set kts"
proof (induction kts rule: rev_induct)
  case (snoc kt kts)
  { case 1 show ?case using snoc(1) by (cases kt) (auto simp: le_max_iff_disj) }
  { case 2 then show ?case using snoc(2) by (cases kt) (auto simp: le_max_iff_disj) }
  { case 3 show ?case using snoc(3) by (cases kt) (auto simp: max_def) }
qed simp_all

text \<open>The last update kept for a key is the newest one, of equal times the one that came last.\<close>

lemma keep_newer_last:
  assumes "filter (\<lambda>u. fst u = k) (keep_newer g us) \<noteq> []"
  shows "\<exists>xs t v ys. us = xs @ (k, t, v) # ys \<and> (\<forall>(k', t', _) \<in> set xs. k' = k \<longrightarrow> t' \<le> t) \<and>
    (\<forall>(k', t', _) \<in> set ys. k' = k \<longrightarrow> t' < t) \<and> t = raised g (map key_time us) k \<and>
    last (filter (\<lambda>u. fst u = k) (keep_newer g us)) = (k, t, v)"
  using assms
proof (induction us rule: rev_induct)
  case (snoc u us)
  obtain k' t' v' where u: "u = (k', t', v')" by (cases u)
  let ?r = "raised g (map key_time us)"
  show ?case
  proof (cases "k' = k \<and> \<not> t' < ?r k'")
    case True
    then have "\<forall>(k'', t'', _) \<in> set us. k'' = k \<longrightarrow> t'' \<le> t'"
      using raised_bounds(2) [of k _ "map key_time us" g] by force
    moreover have "us @ [u] = us @ (k, t', v') # []" "t' = raised g (map key_time (us @ [u])) k"
      "last (filter (\<lambda>u. fst u = k) (keep_newer g (us @ [u]))) = (k, t', v')"
      using True by (auto simp: u keep_newer_snoc)
    ultimately show ?thesis by fastforce
  next
    case False
    then have same: "filter (\<lambda>u. fst u = k) (keep_newer g (us @ [u])) = filter (\<lambda>u. fst u = k) (keep_newer g us)"
      by (auto simp: u keep_newer_snoc)
    with snoc.prems snoc.IH obtain xs t v ys where
      *: "us = xs @ (k, t, v) # ys" "\<forall>(k', t', _) \<in> set xs. k' = k \<longrightarrow> t' \<le> t"
        "\<forall>(k', t', _) \<in> set ys. k' = k \<longrightarrow> t' < t" "t = ?r k"
        "last (filter (\<lambda>u. fst u = k) (keep_newer g us)) = (k, t, v)" by auto
    have r: "raised g (map key_time (us @ [u])) k = t" using False *(4) by (auto simp: u max_def)
    have "us @ [u] = xs @ (k, t, v) # (ys @ [u])" using *(1) by simp
    moreover have "\<forall>(k', t', _) \<in> set (ys @ [u]). k' = k \<longrightarrow> t' < t" using *(3,4) False by (auto simp: u)
    moreover have "last (filter (\<lambda>u. fst u = k) (keep_newer g (us @ [u]))) = (k, t, v)" using *(5) same by simp
    ultimately show ?thesis using *(2) r [symmetric] by blast
  qed
qed simp

lemma keep_newer_some:
  "(k, t, v) \<in> set us \<Longrightarrow> g k \<le> t \<Longrightarrow> filter (\<lambda>u. fst u = k) (keep_newer g us) \<noteq> []"
proof (induction us rule: rev_induct)
  case (snoc u us)
  obtain k' t' v' where u: "u = (k', t', v')" by (cases u)
  show ?case
  proof (cases "(k, t, v) \<in> set us")
    case True
    with snoc show ?thesis by (simp add: u keep_newer_snoc)
  next
    case False
    then have e: "k' = k" "t' = t" using snoc.prems u by auto
    show ?thesis
    proof (cases "t < raised g (map key_time us) k")
      case True
      with snoc.prems(2) have "raised g (map key_time us) k \<noteq> g k" by simp
      then have "(k, raised g (map key_time us) k) \<in> set (map key_time us)"
        using raised_bounds(3) [of g "map key_time us" k] by blast
      then have "raised g (map key_time (keep_newer g us)) k \<noteq> g k"
        using \<open>raised g (map key_time us) k \<noteq> g k\<close> by (simp add: raised_kept)
      then have "(k, raised g (map key_time (keep_newer g us)) k) \<in> set (map key_time (keep_newer g us))"
        using raised_bounds(3) [of g "map key_time (keep_newer g us)" k] by blast
      then show ?thesis by (auto simp: u keep_newer_snoc filter_empty_conv)
    qed (simp add: u e keep_newer_snoc)
  qed
qed simp


subsection \<open>The handler implements the specification\<close>

text \<open>The update a message asks for: key, event time and value of the record to write.\<close>

definition update_of :: "runtime \<Rightarrow> kmsg \<Rightarrow> update option" where
  "update_of rt m =
     (case from_json rt (k_value m) of
        Inr (Some e) \<Rightarrow>
          (case page_update rt e of
             Some (key, r) \<Rightarrow>
               (case (event_ms rt (event_time e), page_value rt r) of
                  (Inr t, Inr v) \<Rightarrow> Some (key, t, v)
                | _ \<Rightarrow> None)
           | None \<Rightarrow> None)
      | _ \<Rightarrow> None)"

definition updates_of :: "runtime \<Rightarrow> kmsg list \<Rightarrow> update list" where
  "updates_of rt ms = List.map_filter (update_of rt) ms"

definition written :: "ustr \<Rightarrow> update \<Rightarrow> outgoing" where
  "written topic u =
     (case u of (key, t, v) \<Rightarrow>
        \<lparr>out_topic = topic, out_key = (case utf8_encode key of Inr k \<Rightarrow> Some k | Inl _ \<Rightarrow> None),
         out_value = v, out_time = t\<rparr>)"

abbreviation guard_of :: "PageGuard \<Rightarrow> int \<Rightarrow> ustr \<Rightarrow> int" where
  "guard_of s p \<equiv> (\<lambda>k. get_default (get_default (applied s) p []) k (-1))"

lemma remember_lookup:
  "get_default (remember g key t) k (-1) = (if k = key then max (get_default g key (-1)) t else get_default g k (-1))"
  by (auto simp: remember_def dict_simps max_def)

lemma page_handle_step:
  assumes "page_handle rt topic s m = Inr (s', out)"
  shows "(case update_of rt m of
      None \<Rightarrow> out = [] \<and> guard_of s' (k_partition m) = guard_of s (k_partition m)
    | Some (key, t, v) \<Rightarrow>
        if t < guard_of s (k_partition m) key
        then out = [] \<and> guard_of s' (k_partition m) = guard_of s (k_partition m)
        else out = [written topic (key, t, v)] \<and> (\<exists>k. utf8_encode key = Inr k) \<and>
          guard_of s' (k_partition m) =
            (guard_of s (k_partition m))(key := max (guard_of s (k_partition m) key) t))"
proof (cases "\<exists>e key r. from_json rt (k_value m) = Inr (Some e) \<and> page_update rt e = Some (key, r)")
  case False
  then show ?thesis
    using assms by (auto simp: page_handle_def update_of_def split: sum.splits option.splits if_splits prod.splits)
next
  case True
  then obtain e key r where e: "from_json rt (k_value m) = Inr (Some e)" "page_update rt e = Some (key, r)" by blast
  from assms e obtain t where t: "event_ms rt (event_time e) = Inr t"
    by (auto simp: page_handle_def bind_res_Inr_iff)
  show ?thesis
  proof (cases "t < guard_of s (k_partition m) key")
    case True
    with assms e t show ?thesis
      by (auto simp: page_handle_def update_of_def is_stale_def Let_def dict_simps split: sum.split)
  next
    case False
    with assms e t obtain k v where "utf8_encode key = Inr k" "page_value rt r = Inr v"
      by (auto simp: page_handle_def is_stale_def Let_def bind_res_Inr_iff)
    with assms e t False show ?thesis
      by (auto simp: page_handle_def update_of_def is_stale_def Let_def dict_simps written_def
          remember_lookup fun_eq_iff split: if_splits)
  qed
qed

lemma page_handle_refines:
  assumes "handle_each (page_handle rt topic) s ms = Inr (s', outs)" and "\<forall>m \<in> set ms. k_partition m = p"
  shows "concat outs = map (written topic) (keep_newer (guard_of s p) (updates_of rt ms)) \<and>
    guard_of s' p = raised (guard_of s p) (map key_time (updates_of rt ms)) \<and>
    (\<forall>u \<in> set (keep_newer (guard_of s p) (updates_of rt ms)). \<exists>k. utf8_encode (fst u) = Inr k)"
  using assms
proof (induction ms arbitrary: s outs)
  case (Cons m ms)
  then obtain s1 out outs' where h: "page_handle rt topic s m = Inr (s1, out)"
    and rest: "handle_each (page_handle rt topic) s1 ms = Inr (s', outs')" and outs: "outs = out # outs'"
    by (auto simp: bind_res_Inr_iff)
  have p: "k_partition m = p" using Cons.prems by simp
  note st = page_handle_step [OF h, unfolded p]
  note ih = Cons.IH [OF rest] Cons.prems(2)
  show ?case
  proof (cases "update_of rt m")
    case None
    with st ih show ?thesis by (simp add: outs updates_of_def List.map_filter_simps)
  next
    case (Some u)
    obtain key t v where u: "u = (key, t, v)" by (cases u)
    show ?thesis
    proof (cases "t < guard_of s p key")
      case True
      moreover have "raised (guard_of s p) [(key, t)] = guard_of s p" using True by (auto simp: fun_eq_iff)
      ultimately show ?thesis
        using st ih Some u by (simp add: outs updates_of_def List.map_filter_simps)
    next
      case False
      with st Some u have o: "out = [written topic (key, t, v)]" "\<exists>k. utf8_encode key = Inr k"
        and g: "guard_of s1 p = (guard_of s p)(key := max (guard_of s p key) t)" by simp_all
      have us: "updates_of rt (m # ms) = (key, t, v) # updates_of rt ms"
        by (simp add: updates_of_def List.map_filter_simps Some u)
      show ?thesis
        unfolding us keep_newer.simps if_not_P [OF False] list.map fst_conv snd_conv raised_simps g [symmetric] outs o(1)
        using ih o(2) by simp
    qed
  qed
qed (simp add: updates_of_def List.map_filter_simps)


lemma utf8_encode_inj: "utf8_encode a = Inr b \<Longrightarrow> utf8_encode a' = Inr b \<Longrightarrow> a = a'"
  using utf8_roundtrip [of a b False] utf8_roundtrip [of a' b False] by simp

lemma filter_written:
  assumes "utf8_encode key = Inr kb" and "\<forall>u \<in> set us. \<exists>k. utf8_encode (fst u) = Inr k"
  shows "filter (\<lambda>r. out_key r = Some kb) (map (written topic) us) =
    map (written topic) (filter (\<lambda>u. fst u = key) us)"
  using assms(2)
proof (induction us)
  case (Cons u us)
  obtain k t v where u: "u = (k, t, v)" by (cases u)
  with Cons.prems obtain b where "utf8_encode k = Inr b" by auto
  moreover from this assms(1) have "b = kb \<longleftrightarrow> k = key" using utf8_encode_inj by auto
  ultimately show ?case using Cons assms(1) by (auto simp: u written_def)
qed simp

text \<open>
  C7. The page topic converges to the newest edit. However the updates of a page arrive, the last
  record written for it is the one with the latest event time, and of equal times the one that
  arrived last: every update before it is not newer, every update after it is older. An older edit
  never replaces a newer one, and an edit that arrives after its page's deletion but happened
  before it does not bring the page back.
\<close>

theorem page_topic_holds_newest:
  assumes "handle_each (page_handle rt topic) s ms = Inr (s', outs)" and "\<forall>m \<in> set ms. k_partition m = p"
    and "get_default (applied s) p [] = []" and "(key, t0, v0) \<in> set (updates_of rt ms)" and "0 \<le> t0"
    and "utf8_encode key = Inr kb"
  shows "\<exists>xs t v ys. updates_of rt ms = xs @ (key, t, v) # ys \<and>
    (\<forall>(k', t', _) \<in> set xs. k' = key \<longrightarrow> t' \<le> t) \<and> (\<forall>(k', t', _) \<in> set ys. k' = key \<longrightarrow> t' < t) \<and>
    filter (\<lambda>r. out_key r = Some kb) (concat outs) \<noteq> [] \<and>
    last (filter (\<lambda>r. out_key r = Some kb) (concat outs)) =
      \<lparr>out_topic = topic, out_key = Some kb, out_value = v, out_time = t\<rparr>"
proof -
  let ?g = "guard_of s p" and ?us = "updates_of rt ms"
  note r = page_handle_refines [OF assms(1,2)]
  have ne: "filter (\<lambda>u. fst u = key) (keep_newer ?g ?us) \<noteq> []"
    using assms(5) by (intro keep_newer_some [OF assms(4)]) (simp add: assms(3))
  have out: "filter (\<lambda>r. out_key r = Some kb) (concat outs) =
      map (written topic) (filter (\<lambda>u. fst u = key) (keep_newer ?g ?us))"
    using filter_written [OF assms(6)] r by simp
  obtain xs t v ys where k: "?us = xs @ (key, t, v) # ys" "\<forall>(k', t', _) \<in> set xs. k' = key \<longrightarrow> t' \<le> t"
    "\<forall>(k', t', _) \<in> set ys. k' = key \<longrightarrow> t' < t"
    "last (filter (\<lambda>u. fst u = key) (keep_newer ?g ?us)) = (key, t, v)"
    using keep_newer_last [OF ne] by blast
  have "last (filter (\<lambda>r. out_key r = Some kb) (concat outs)) = written topic (key, t, v)"
    unfolding out using ne k(4) by (simp add: last_map)
  with k(1-3) ne out assms(6) show ?thesis by (auto simp: written_def)
qed

subsection \<open>Rebuilding the guard\<close>

text \<open>A retained record of the topic, as its loader reads it.\<close>

definition stored_as :: "outgoing \<Rightarrow> kmsg \<Rightarrow> bool" where
  "stored_as r m \<longleftrightarrow> k_key m = out_key r \<and> k_value m = out_value r \<and> k_time m = out_time r"

lemma load_polls_raised:
  assumes "\<forall>m \<in> set ms. \<exists>kb. k_key m = Some kb \<and> utf8_decode False kb = Inr (f m) \<and>
      time_of_record rt (k_value m) (k_time m) = Inr (t m)"
  shows "\<exists>g'. load_polls rt (map Message ms @ [PollError PartitionEof]) g = Inr g' \<and>
    (\<lambda>k. get_default g' k (-1)) = raised (\<lambda>k. get_default g k (-1)) (map (\<lambda>m. (f m, t m)) ms)"
  using assms
proof (induction ms arbitrary: g)
  case (Cons m ms)
  then obtain kb where kb: "k_key m = Some kb" "utf8_decode False kb = Inr (f m)"
    "time_of_record rt (k_value m) (k_time m) = Inr (t m)" by auto
  let ?g = "remember g (f m) (t m)"
  have "(\<lambda>k. get_default ?g k (-1)) = (\<lambda>k. get_default g k (-1))(f m := max (get_default g (f m) (-1)) (t m))"
    by (auto simp: remember_lookup fun_eq_iff)
  moreover obtain g' where "load_polls rt (map Message ms @ [PollError PartitionEof]) ?g = Inr g'"
    "(\<lambda>k. get_default g' k (-1)) = raised (\<lambda>k. get_default ?g k (-1)) (map (\<lambda>m. (f m, t m)) ms)"
    using Cons by (meson list.set_intros(2))
  ultimately show ?case using kb by simp
qed simp

lemma update_time_of_record:
  assumes "update_of rt m = Some (key, t, v)"
    and "\<And>e. from_json rt (k_value m) = Inr (Some e) \<Longrightarrow> small_ints e"
  shows "time_of_record rt v t = Inr t"
proof -
  obtain e r where e: "from_json rt (k_value m) = Inr (Some e)" "page_update rt e = Some (key, r)"
    "event_ms rt (event_time e) = Inr t" "page_value rt r = Inr v"
    using assms(1) by (auto simp: update_of_def split: sum.splits option.splits)
  show ?thesis
  proof (cases r)
    case None
    with e show ?thesis by (simp add: page_value_def time_of_record_def)
  next
    case (Some x)
    then have x: "x = from_event rt e" using e(2) by (auto simp: page_update_def split: if_splits)
    obtain b where b: "pl_to_json rt x = Inr b" "v = Some b"
      using e(4) Some by (cases "pl_to_json rt x") (auto simp: page_value_def)
    have "pl_from_json rt b = Inr (Some x)"
      using assms(2) [OF e(1)] by (intro pl_from_json_to_json [OF b(1)]) (simp_all add: x from_event_def small_ints_def)
    then show ?thesis using e(3) by (simp add: b(2) time_of_record_def x from_event_def)
  qed
qed

lemma raised_eq_last:
  assumes sub: "set kts \<subseteq> set (map key_time us)"
    and lasts: "\<And>k. filter (\<lambda>u. fst u = k) us \<noteq> [] \<Longrightarrow> (k, raised (\<lambda>_. -1) (map key_time us) k) \<in> set kts"
  shows "raised (\<lambda>_. -1) kts = raised (\<lambda>_. -1) (map key_time us)"
proof
  fix k
  let ?a = "raised (\<lambda>_. -1) kts k" and ?b = "raised (\<lambda>_. -1) (map key_time us) k"
  have "?a \<le> ?b"
    using raised_bounds(3) [of "\<lambda>_. -1" kts k] raised_bounds(1) [of "\<lambda>_. -1" k "map key_time us"]
      raised_bounds(2) [of k ?a "map key_time us" "\<lambda>_. -1"] sub by auto
  moreover have "?b \<le> ?a"
  proof (cases "filter (\<lambda>u. fst u = k) us = []")
    case True
    then have "(k, ?b) \<notin> set (map key_time us)" by (auto simp: filter_empty_conv)
    then have "?b = -1" using raised_bounds(3) [of "\<lambda>_. -1" "map key_time us" k] by blast
    then show ?thesis using raised_bounds(1) [of "\<lambda>_. -1" k kts] by simp
  next
    case False
    then show ?thesis using raised_bounds(2) [OF lasts [OF False], of "\<lambda>_. -1"] by simp
  qed
  ultimately show "?a = ?b" by simp
qed


lemma keep_newer_subset: "set (keep_newer g us) \<subseteq> set us"
proof (induction us rule: rev_induct)
  case (snoc u us)
  then show ?case by (cases u) (auto simp: keep_newer_snoc split: if_splits)
qed simp

text \<open>The key under which a record of the topic is loaded.\<close>

definition record_key :: "kmsg \<Rightarrow> ustr" where
  "record_key m = projr (utf8_decode False (the (k_key m)))"

lemma stored_update:
  assumes "set rs = written topic ` set kept" and "\<forall>u \<in> set kept. \<exists>kb. utf8_encode (fst u) = Inr kb"
    and "\<exists>r \<in> set rs. stored_as r m"
  shows "\<exists>k t v kb. (k, t, v) \<in> set kept \<and> stored_as (written topic (k, t, v)) m \<and> utf8_encode k = Inr kb"
proof -
  obtain u where u: "u \<in> set kept" "stored_as (written topic u) m" using assms(1,3) by auto
  moreover obtain k t v where "u = (k, t, v)" by (cases u)
  moreover obtain kb where "utf8_encode (fst u) = Inr kb" using assms(2) u(1) by blast
  ultimately show ?thesis by auto
qed

lemma update_reads_back:
  assumes "(k, t, v) \<in> set (updates_of rt ms)" and "stored_as (written topic (k, t, v)) m" and "utf8_encode k = Inr kb"
    and "\<forall>m \<in> set ms. \<forall>e. from_json rt (k_value m) = Inr (Some e) \<longrightarrow> small_ints e"
  shows "k_key m = Some kb \<and> utf8_decode False kb = Inr k \<and> record_key m = k \<and> k_time m = t \<and>
    time_of_record rt (k_value m) (k_time m) = Inr t"
proof -
  obtain m' where m': "m' \<in> set ms" "update_of rt m' = Some (k, t, v)"
    using assms(1) by (auto simp: updates_of_def List.map_filter_def)
  have "time_of_record rt v t = Inr t"
    by (rule update_time_of_record [OF m'(2)]) (use assms(4) m'(1) in blast)
  with assms(2) utf8_roundtrip [OF assms(3), of False] assms(3) show ?thesis
    by (simp add: stored_as_def written_def record_key_def)
qed

text \<open>
  C14. A new owner rebuilds the guard from the topic. Loading the records a partition's owner has
  written, in whatever way compaction has thinned them out as long as the last record of each
  page is still there, gives a guard that judges every later event exactly as the guard in the
  previous owner's memory would: the same applied time for every page, deleted pages included.
  (Once Kafka removes an old tombstone, that last condition fails.)
\<close>

theorem restart_rebuilds_guard:
  assumes "handle_each (page_handle rt topic) s ms = Inr (s', outs)" and "\<forall>m \<in> set ms. k_partition m = p"
    and "get_default (applied s) p [] = []"
    and "\<forall>m \<in> set ms. \<forall>e. from_json rt (k_value m) = Inr (Some e) \<longrightarrow> small_ints e"
    and "\<forall>m \<in> set recs. \<exists>r \<in> set (concat outs). stored_as r m"
    and "\<forall>kb. filter (\<lambda>r. out_key r = Some kb) (concat outs) \<noteq> [] \<longrightarrow>
      (\<exists>m \<in> set recs. stored_as (last (filter (\<lambda>r. out_key r = Some kb) (concat outs))) m)"
  shows "\<exists>g. load_applied rt (map Message recs @ [PollError PartitionEof]) = Inr g \<and>
    (\<forall>k. get_default g k (-1) = get_default (get_default (applied s') p []) k (-1))"
proof -
  let ?us = "updates_of rt ms"
  define kept where "kept = keep_newer (\<lambda>_. -1) ?us"
  have g0: "guard_of s p = (\<lambda>_. -1)" by (simp add: assms(3))
  note r = page_handle_refines [OF assms(1,2), unfolded g0, folded kept_def]
  note rec = update_reads_back [OF _ _ _ assms(4), of _ _ _ topic]
  have sub: "set kept \<subseteq> set ?us" unfolding kept_def by (rule keep_newer_subset)
  have out: "set (concat outs) = written topic ` set kept" "\<forall>u \<in> set kept. \<exists>kb. utf8_encode (fst u) = Inr kb"
    using r by auto
  note recs = stored_update [OF out]
  have ok: "\<forall>m \<in> set recs. \<exists>kb. k_key m = Some kb \<and> utf8_decode False kb = Inr (record_key m) \<and>
      time_of_record rt (k_value m) (k_time m) = Inr (k_time m)"
  proof
    fix m assume "m \<in> set recs"
    then obtain k t v kb where *: "(k, t, v) \<in> set kept" "stored_as (written topic (k, t, v)) m" "utf8_encode k = Inr kb"
      using recs assms(5) by blast
    from rec [OF subsetD [OF sub *(1)] *(2,3)]
    show "\<exists>kb. k_key m = Some kb \<and> utf8_decode False kb = Inr (record_key m) \<and>
        time_of_record rt (k_value m) (k_time m) = Inr (k_time m)" by metis
  qed
  have "raised (\<lambda>_. -1) (map (\<lambda>m. (record_key m, k_time m)) recs) = raised (\<lambda>_. -1) (map key_time kept)"
  proof (rule raised_eq_last)
    show "set (map (\<lambda>m. (record_key m, k_time m)) recs) \<subseteq> set (map key_time kept)"
    proof
      fix x assume "x \<in> set (map (\<lambda>m. (record_key m, k_time m)) recs)"
      then obtain m where m: "m \<in> set recs" "x = (record_key m, k_time m)" by auto
      obtain k t v kb where *: "(k, t, v) \<in> set kept" "stored_as (written topic (k, t, v)) m" "utf8_encode k = Inr kb"
        using recs assms(5) m(1) by blast
      from rec [OF subsetD [OF sub *(1)] *(2,3)] m(2) *(1) show "x \<in> set (map key_time kept)" by force
    qed
  next
    fix k assume ne: "filter (\<lambda>u. fst u = k) kept \<noteq> []"
    obtain t v where l: "last (filter (\<lambda>u. fst u = k) kept) = (k, t, v)" "t = raised (\<lambda>_. -1) (map key_time ?us) k"
      using keep_newer_last [of k "\<lambda>_. -1" ?us] ne unfolding kept_def by blast
    have "last (filter (\<lambda>u. fst u = k) kept) \<in> set (filter (\<lambda>u. fst u = k) kept)" by (rule last_in_set [OF ne])
    then have inn: "(k, t, v) \<in> set kept" unfolding l(1) by simp
    then obtain kb where kb: "utf8_encode k = Inr kb" using r by force
    have fw: "filter (\<lambda>r. out_key r = Some kb) (concat outs) = map (written topic) (filter (\<lambda>u. fst u = k) kept)"
      using filter_written [OF kb] r by simp
    then obtain m where m: "m \<in> set recs" "stored_as (written topic (k, t, v)) m"
      using assms(6) ne l(1) by (metis last_map map_is_Nil_conv)
    from rec [OF subsetD [OF sub inn] m(2) kb] have "(record_key m, k_time m) = (k, t)" by simp
    with m(1) l(2) show "(k, raised (\<lambda>_. -1) (map key_time kept) k) \<in> set (map (\<lambda>m. (record_key m, k_time m)) recs)"
      by (force simp: kept_def raised_kept)
  qed
  also have "\<dots> = guard_of s' p" using r by (simp add: kept_def raised_kept)
  finally have e: "raised (\<lambda>_. -1) (map (\<lambda>m. (record_key m, k_time m)) recs) = guard_of s' p" .
  from load_polls_raised [OF ok, of "[]"] e show ?thesis
    by (auto simp: load_applied_def fun_eq_iff)
qed


subsection \<open>A run\<close>

lemma double_of_nonneg: "0 \<le> p \<Longrightarrow> 0 < q \<Longrightarrow> 0 \<le> fst (double_of (p, q)) \<and> 0 < snd (double_of (p, q))"
proof -
  assume pq: "0 \<le> p" "0 < q"
  have r: "0 \<le> x \<Longrightarrow> 0 < y \<Longrightarrow> 0 \<le> round_half_even x y" for x y
    by (simp add: round_half_even_def Let_def pos_imp_zdiv_nonneg_iff)
  have "\<exists>e. double_of (p, q) =
      (let scale = (\<lambda>e. if 0 \<le> e then (\<bar>p\<bar>, q * 2 ^ nat e) else (\<bar>p\<bar> * 2 ^ nat (- e), q));
           m = round_half_even (fst (scale e)) (snd (scale e));
           v = (if p < 0 then - m else m)
       in if p = 0 then (0, 1) else if 0 \<le> e then (v * 2 ^ nat e, 1) else (v, 2 ^ nat (- e)))"
    unfolding double_of_def Let_def prod.case by (rule exI, rule refl)
  then obtain e where e: "double_of (p, q) =
      (let scale = (\<lambda>e. if 0 \<le> e then (\<bar>p\<bar>, q * 2 ^ nat e) else (\<bar>p\<bar> * 2 ^ nat (- e), q));
           m = round_half_even (fst (scale e)) (snd (scale e));
           v = (if p < 0 then - m else m)
       in if p = 0 then (0, 1) else if 0 \<le> e then (v * 2 ^ nat e, 1) else (v, 2 ^ nat (- e)))" by blast
  show ?thesis unfolding e using pq by (auto simp: Let_def r)
qed

lemma timestamp_ms_nonneg: "0 \<le> us \<Longrightarrow> 0 \<le> timestamp_ms us"
proof -
  assume us: "0 \<le> us"
  obtain p q where pq: "double_of (us, 1000000) = (p, q)" by fastforce
  then have "0 \<le> p" "0 < q" using double_of_nonneg [OF us, of 1000000] by simp_all
  then have "0 \<le> fst (double_of (p * 1000, q)) \<and> 0 < snd (double_of (p * 1000, q))"
    by (intro double_of_nonneg) simp_all
  then show ?thesis
    by (auto simp: timestamp_ms_def pq trunc_def pos_imp_zdiv_nonneg_iff split: prod.splits)
qed

definition page_msg :: "bytes \<Rightarrow> kmsg" where
  "page_msg b = \<lparr>k_topic = [], k_partition = 0, k_offset = 0, k_time = 0, k_key = None, k_value = Some b\<rparr>"

lemma sample_page_run:
  "\<exists>b s' kb v t. from_json plain_runtime (Some b) = Inr (Some sample_event) \<and> small_ints sample_event \<and>
     page_handle plain_runtime [] new_guard (page_msg b) =
       Inr (s', [\<lparr>out_topic = [], out_key = Some kb, out_value = Some v, out_time = t\<rparr>]) \<and>
     update_of plain_runtime (page_msg b) = Some (page_key sample_event, t, Some v) \<and>
     utf8_encode (page_key sample_event) = Inr kb \<and> 0 \<le> t"
proof -
  let ?r = "from_event plain_runtime sample_event"
  have "encodable_event sample_event" by (simp add: encodable_event_def sample_event_def)
  then obtain b where b: "to_json plain_runtime sample_event = Inr b" using to_json_ok by blast
  have small: "small_ints sample_event"
    by (simp add: small_ints_def int_ok_def sample_event_def digits_of.simps MAX_STR_DIGITS_def)
  have fj: "from_json plain_runtime (Some b) = Inr (Some sample_event)" by (rule from_json_to_json [OF b small])
  have "event_time sample_event = isoformat_of sample_time" by (simp add: sample_time_iso sample_event_def)
  moreover have "fromisoformat (isoformat_of sample_time) = Inr sample_time"
    by (rule fromisoformat_isoformat [OF sample_time_valid]) (simp add: sample_time_def)
  ultimately have "fromisoformat (event_time sample_event) = Inr sample_time" by (simp only:)
  then have t: "event_ms plain_runtime (event_time sample_event) = Inr (timestamp_ms 1727000000000000)"
    using sample_time_us by (simp add: event_ms_def datetime_ms_def) (simp add: sample_time_def)
  have up: "page_update plain_runtime sample_event = Some (page_key sample_event, Some ?r)"
    by (simp add: page_update_def CONTENT_TYPES_def sample_event_def)
  have "\<exists>kb. utf8_encode (page_key sample_event) = Inr kb"
    by (rule utf8_encode_ok) (simp add: page_key_def sample_event_def surrogate_def)
  then obtain kb where kb: "utf8_encode (page_key sample_event) = Inr kb" by blast
  have "\<exists>v. pl_to_json plain_runtime ?r = Inr v"
    unfolding pl_to_json_def
    by (rule utf8_encode_ok) (simp add: pl_asdict_def from_event_def sample_event_def encodable_opt surrogate_def)
  then obtain v where v: "page_value plain_runtime (Some ?r) = Inr (Some v)" by (auto simp: page_value_def)
  have nn: "0 \<le> timestamp_ms 1727000000000000" by (rule timestamp_ms_nonneg) simp
  then have ns: "\<not> is_stale [] (page_key sample_event) (timestamp_ms 1727000000000000)" by (simp add: is_stale_def)
  have "update_of plain_runtime (page_msg b) = Some (page_key sample_event, timestamp_ms 1727000000000000, Some v)"
    by (simp add: update_of_def page_msg_def fj up t v)
  moreover have "\<exists>s'. page_handle plain_runtime [] new_guard (page_msg b) =
       Inr (s', [\<lparr>out_topic = [], out_key = Some kb, out_value = Some v, out_time = timestamp_ms 1727000000000000\<rparr>])"
    by (simp add: page_handle_def page_msg_def fj up t v kb ns new_guard_def Let_def)
  ultimately show ?thesis using fj small kb nn by blast
qed

theorem page_topic_holds_newest_witness:
  "\<exists>b s' outs kb t v. handle_each (page_handle plain_runtime []) new_guard [page_msg b] = Inr (s', outs) \<and>
     utf8_encode (page_key sample_event) = Inr kb \<and>
     last (filter (\<lambda>r. out_key r = Some kb) (concat outs)) =
       \<lparr>out_topic = [], out_key = Some kb, out_value = v, out_time = t\<rparr>"
proof -
  obtain b s' kb v t where r: "page_handle plain_runtime [] new_guard (page_msg b) =
       Inr (s', [\<lparr>out_topic = [], out_key = Some kb, out_value = Some v, out_time = t\<rparr>])"
     "update_of plain_runtime (page_msg b) = Some (page_key sample_event, t, Some v)"
     "utf8_encode (page_key sample_event) = Inr kb" "0 \<le> t"
    using sample_page_run by blast
  have h: "handle_each (page_handle plain_runtime []) new_guard [page_msg b] =
      Inr (s', [[\<lparr>out_topic = [], out_key = Some kb, out_value = Some v, out_time = t\<rparr>]])" by (simp add: r(1))
  have "(page_key sample_event, t, Some v) \<in> set (updates_of plain_runtime [page_msg b])"
    by (simp add: updates_of_def List.map_filter_simps r(2))
  from page_topic_holds_newest [OF h _ _ this r(4) r(3), of 0]
  obtain v' t' where "last (filter (\<lambda>r. out_key r = Some kb) (concat [[\<lparr>out_topic = [], out_key = Some kb, out_value = Some v, out_time = t\<rparr>]])) =
      \<lparr>out_topic = [], out_key = Some kb, out_value = v', out_time = t'\<rparr>"
    unfolding page_msg_def new_guard_def by force
  with h r(3) show ?thesis by blast
qed

theorem restart_rebuilds_guard_witness:
  "\<exists>b s' outs m g. handle_each (page_handle plain_runtime []) new_guard [page_msg b] = Inr (s', outs) \<and>
     load_applied plain_runtime (map Message [m] @ [PollError PartitionEof]) = Inr g \<and>
     (\<forall>k. get_default g k (-1) = get_default (get_default (applied s') 0 []) k (-1))"
proof -
  obtain b s' kb v t where r: "from_json plain_runtime (Some b) = Inr (Some sample_event)" "small_ints sample_event"
     "page_handle plain_runtime [] new_guard (page_msg b) =
       Inr (s', [\<lparr>out_topic = [], out_key = Some kb, out_value = Some v, out_time = t\<rparr>])"
    using sample_page_run by blast
  let ?o = "\<lparr>out_topic = [], out_key = Some kb, out_value = Some v, out_time = t\<rparr>"
  let ?m = "\<lparr>k_topic = [], k_partition = 0, k_offset = 0, k_time = t, k_key = Some kb, k_value = Some v\<rparr>"
  have h: "handle_each (page_handle plain_runtime []) new_guard [page_msg b] = Inr (s', [[?o]])" by (simp add: r(3))
  have "\<exists>g. load_applied plain_runtime (map Message [?m] @ [PollError PartitionEof]) = Inr g \<and>
     (\<forall>k. get_default g k (-1) = get_default (get_default (applied s') 0 []) k (-1))"
    by (rule restart_rebuilds_guard [OF h]) (use r(1,2) in \<open>auto simp: page_msg_def new_guard_def stored_as_def\<close>)
  with h show ?thesis by blast
qed

end
