(* ===== verification/EditWar.thy ===== *)
theory EditWar
  imports EditWarDetector Warmup Transactional Transform
begin

text \<open>
  \<^verbatim>\<open>processors/edit_war.py\<close>: one detector per partition on the transactional loop. A new
  owner replays the last window of a partition up to the committed offset into a fresh detector
  and discards the alerts of the replay.
\<close>

record EditWarProcessor =
  detectors :: "(int, EditWarDetector) pydict"
  alerts :: int

definition new_edit_war :: EditWarProcessor where
  "new_edit_war = \<lparr>detectors = [], alerts = 0\<rparr>"

definition detector_for :: "EditWarProcessor \<Rightarrow> int \<Rightarrow> EditWarDetector" where
  "detector_for s p = get_default (detectors s) p default_detector"

text \<open>The event and time of a message; \<open>None\<close> is a record that cannot be read.\<close>

definition event_of :: "runtime \<Rightarrow> kmsg \<Rightarrow> pyexc + (CleanEvent \<times> int) option" where
  "event_of rt m =
     (case from_json rt (k_value m) of
        Inl e \<Rightarrow> if is_value_error e \<or> e = TypeError then Inr None else Inl e
      | Inr None \<Rightarrow> Inr None
      | Inr (Some e) \<Rightarrow> bind_res (event_time_ms rt e (Some (k_time m))) (\<lambda>t. Inr (Some (e, t))))"

definition alert_record :: "runtime \<Rightarrow> ustr \<Rightarrow> EditWarAlert \<Rightarrow> pyexc + outgoing" where
  "alert_record rt topic al =
     bind_res (utf8_encode (alert_page_key al)) (\<lambda>key.
     bind_res (alert_to_json rt al) (\<lambda>value.
       Inr \<lparr>out_topic = topic, out_key = Some key, out_value = Some value, out_time = 0\<rparr>))"

definition war_handle :: "runtime \<Rightarrow> (bytes \<Rightarrow> ustr) \<Rightarrow> ustr \<Rightarrow> EditWarProcessor handler" where
  "war_handle rt sha topic s m =
     bind_res (event_of rt m) (\<lambda>et.
       case et of
         None \<Rightarrow> Inr (s, [])
       | Some (e, t) \<Rightarrow>
           bind_res (observe rt sha (detector_for s (k_partition m)) e t) (\<lambda>(d, alert).
             let s1 = s\<lparr>detectors := AList.update (k_partition m) d (detectors s)\<rparr>
             in case alert of
                  None \<Rightarrow> Inr (s1, [])
                | Some al \<Rightarrow>
                    bind_res (alert_record rt topic al) (\<lambda>out.
                      Inr (s1\<lparr>alerts := alerts s1 + 1\<rparr>, [out]))))"

text \<open>\<open>_replay_into\<close>; an exception that escapes it is \<open>None\<close>.\<close>

definition replay_into ::
  "runtime \<Rightarrow> (bytes \<Rightarrow> ustr) \<Rightarrow> EditWarDetector option \<Rightarrow> kmsg \<Rightarrow> EditWarDetector option \<times> bool" where
  "replay_into rt sha d m =
     (case event_of rt m of
        Inl _ \<Rightarrow> (None, False)
      | Inr None \<Rightarrow> (d, False)
      | Inr (Some (e, t)) \<Rightarrow>
          ((case d of
              None \<Rightarrow> None
            | Some d \<Rightarrow> (case observe rt sha d e t of Inl _ \<Rightarrow> None | Inr (d', _) \<Rightarrow> Some d')), True))"

fun war_warm ::
  "runtime \<Rightarrow> (bytes \<Rightarrow> ustr) \<Rightarrow> PartitionReplayer \<Rightarrow> (int \<Rightarrow> broker) \<Rightarrow> (int \<Rightarrow> int \<Rightarrow> poll list) \<Rightarrow>
   (int \<Rightarrow> int option) \<Rightarrow> int list \<Rightarrow> EditWarProcessor \<Rightarrow> EditWarProcessor option" where
  "war_warm rt sha r b polls committed [] s = Some s"
| "war_warm rt sha r b polls committed (p # ps) s =
     (let s1 = s\<lparr>detectors := AList.update p default_detector (detectors s)\<rparr>
      in case committed p of
           None \<Rightarrow> war_warm rt sha r b polls committed ps s1
         | Some offset \<Rightarrow>
             (if offset < 0 then war_warm rt sha r b polls committed ps s1
              else
                (case replay r (b p) (polls p) p offset (replay_into rt sha) (Some default_detector) of
                   Some (Some d, _) \<Rightarrow>
                     war_warm rt sha r b polls committed ps
                       (s1\<lparr>detectors := AList.update p d (detectors s1)\<rparr>)
                 | _ \<Rightarrow> None)))"

definition war_revoked :: "int list \<Rightarrow> EditWarProcessor \<Rightarrow> EditWarProcessor" where
  "war_revoked ps s = s\<lparr>detectors := fold AList.delete ps (detectors s)\<rparr>"

text \<open>\<open>periodic\<close>, when its interval is up.\<close>

definition war_expire :: "EditWarProcessor \<Rightarrow> EditWarProcessor" where
  "war_expire s = s\<lparr>detectors := map (\<lambda>(p, d). (p, fst (det_expire d))) (detectors s)\<rparr>"

definition war_summary :: "EditWarProcessor \<Rightarrow> int \<times> int" where
  "war_summary s = (alerts s, \<Sum>(_, d) \<leftarrow> detectors s. int (length (pages d)))"

subsection \<open>A replay is a run of the detector\<close>

definition obs_steps :: "(CleanEvent \<times> int) list \<Rightarrow> step list" where
  "obs_steps xs = map (\<lambda>(e, t). Observe e t) xs"

definition events_of :: "runtime \<Rightarrow> kmsg list \<Rightarrow> (CleanEvent \<times> int) list" where
  "events_of rt ms = List.map_filter (\<lambda>m. case event_of rt m of Inr x \<Rightarrow> x | Inl _ \<Rightarrow> None) ms"

lemma obs_steps_simps [simp]:
  "obs_steps [] = []" "obs_steps ((e, t) # xs) = Observe e t # obs_steps xs" "observed (obs_steps xs) = xs"
  by (simp_all add: obs_steps_def) (induction xs; auto)

lemma events_of_simps [simp]:
  "events_of rt [] = []"
  "events_of rt (ms @ ms') = events_of rt ms @ events_of rt ms'"
  by (simp_all add: events_of_def List.map_filter_def)

lemma replay_fold_none: "fold (\<lambda>m d. fst (replay_into rt sha d m)) ms None = None"
  by (induction ms) (auto simp: replay_into_def split: sum.split option.split)

lemma replay_is_run:
  "fold (\<lambda>m d. fst (replay_into rt sha d m)) ms (Some d) = Some d' \<Longrightarrow>
   \<exists>as. det_run rt sha d (obs_steps (events_of rt ms)) = Inr (d', as)"
proof (induction ms arbitrary: d)
  case (Cons m ms)
  have step: "fold (\<lambda>m d. fst (replay_into rt sha d m)) ms (fst (replay_into rt sha (Some d) m)) = Some d'"
    using Cons.prems by simp
  consider (exn) x where "event_of rt m = Inl x" | (none) "event_of rt m = Inr None"
    | (event) e t where "event_of rt m = Inr (Some (e, t))" by (metis not_None_eq old.sum.exhaust surj_pair)
  then show ?case
  proof cases
    case exn
    then have "fst (replay_into rt sha (Some d) m) = None" by (simp add: replay_into_def)
    with step replay_fold_none show ?thesis by (simp del: fold_simps)
  next
    case none
    then have "events_of rt (m # ms) = events_of rt ms" by (simp add: events_of_def List.map_filter_simps)
    with none step Cons.IH show ?thesis by (simp add: replay_into_def)
  next
    case event
    then have ev: "events_of rt (m # ms) = (e, t) # events_of rt ms" by (simp add: events_of_def List.map_filter_simps)
    show ?thesis
    proof (cases "observe rt sha d e t")
      case (Inl x)
      with event have "fst (replay_into rt sha (Some d) m) = None" by (simp add: replay_into_def)
      with step replay_fold_none show ?thesis by (simp del: fold_simps)
    next
      case (Inr da)
      obtain d1 a where da: "da = (d1, a)" by (cases da)
      with Inr event step have "fold (\<lambda>m d. fst (replay_into rt sha d m)) ms (Some d1) = Some d'"
        by (simp add: replay_into_def)
      from Cons.IH [OF this] show ?thesis by (auto simp: ev Inr da)
    qed
  qed
qed (simp add: events_of_def List.map_filter_simps)


subsection \<open>A detector that has seen less\<close>

text \<open>
  \<open>d\<close> has seen \<open>old @ recent\<close>, \<open>d'\<close> only \<open>recent\<close>: it is never quiet where \<open>d\<close> is not.
\<close>

definition behind ::
  "runtime \<Rightarrow> (CleanEvent \<times> int) list \<Rightarrow> (CleanEvent \<times> int) list \<Rightarrow> EditWarDetector \<Rightarrow> EditWarDetector \<Rightarrow> bool" where
  "behind rt old recent d d' \<longleftrightarrow>
     tracks rt d (old @ recent) \<and> tracks rt d' recent \<and> same_config d d' \<and>
     det_watermark d' \<le> det_watermark d \<and>
     (\<forall>k. alerted_until_ms (page_of d' k) \<le> alerted_until_ms (page_of d k))"

lemma page_reverts_append: "page_reverts rt bots k (xs @ ys) = page_reverts rt bots k xs @ page_reverts rt bots k ys"
  by (simp add: page_reverts_def)

text \<open>What \<open>observe\<close> decides on, when times do not go back.\<close>

lemma tracked_window:
  assumes "tracks rt d xs" and "det_watermark d \<le> t" and "counts rt (ignore_bots d) e"
  shows "evict (det_window_ms d) t (reverts (page_of d (page_key e)) @
      [\<lparr>rv_event_id = event_id e, rv_user = user e, rv_time = t\<rparr>]) =
    since (t - det_window_ms d) (page_reverts rt (ignore_bots d) (page_key e) (xs @ [(e, t)]))"
proof -
  let ?r = "\<lparr>rv_event_id = event_id e, rv_user = user e, rv_time = t\<rparr>"
  let ?old = "reverts (page_of d (page_key e))"
  have "in_order (?old @ [?r])" using assms(1,2) by (force simp: tracks_def sorted_append)
  then have "evict (det_window_ms d) t (?old @ [?r]) =
      since (t - det_window_ms d) ?old @ since (t - det_window_ms d) [?r]"
    by (simp add: evict_since)
  then show ?thesis using assms by (simp add: tracks_def page_reverts_snoc)
qed

lemma window_of_recent:
  "since s (page_reverts rt bots k (old @ recent)) =
     since s (page_reverts rt bots k old) @ since s (page_reverts rt bots k recent)"
  by (simp add: page_reverts_append)

lemma behind_step:
  assumes b: "behind rt old recent d d'" and t: "det_watermark d \<le> t"
    and o: "observe rt sha d e t = Inr (d1, a)" and o': "observe rt sha d' e t = Inr (d1', a')"
  shows "behind rt old (recent @ [(e, t)]) d1 d1'"
proof -
  have tr: "tracks rt d (old @ recent)" "tracks rt d' recent" and c: "same_config d d'"
    and wm: "det_watermark d' \<le> det_watermark d"
    and un: "\<And>k. alerted_until_ms (page_of d' k) \<le> alerted_until_ms (page_of d k)"
    using b unfolding behind_def by blast+
  have t': "det_watermark d' \<le> t" using wm t by simp
  have tr1: "tracks rt d1 ((old @ recent) @ [(e, t)])" "tracks rt d1' (recent @ [(e, t)])"
    by (rule tracks_observe [OF tr(1) t o], rule tracks_observe [OF tr(2) t' o'])
  have cfg: "same_config d1 d1'" "det_watermark d1' \<le> det_watermark d1"
    using observe_config [OF o] observe_config [OF o'] c wm by (auto simp: same_config_def)
  have "alerted_until_ms (page_of d1' k) \<le> alerted_until_ms (page_of d1 k)" for k
  proof (cases "counts rt (ignore_bots d) e")
    case False
    then have "\<not> counts rt (ignore_bots d') e" using c by (simp add: same_config_def)
    with False observe_ignored [of rt d e sha t] observe_ignored [of rt d' e sha t] o o' un show ?thesis by auto
  next
    case True
    then have T': "counts rt (ignore_bots d') e" using c by (simp add: same_config_def)
    let ?w = "det_window_ms d" and ?n = "min_reverts d" and ?u = "min_users d"
    let ?rs = "since (t - ?w) (page_reverts rt (ignore_bots d) (page_key e) ((old @ recent) @ [(e, t)]))"
    let ?rs' = "since (t - ?w) (page_reverts rt (ignore_bots d) (page_key e) (recent @ [(e, t)]))"
    have same: "det_window_ms d' = ?w" "min_reverts d' = ?n" "min_users d' = ?u" "ignore_bots d' = ignore_bots d"
      using c by (simp_all add: same_config_def)
    have app: "?rs = since (t - ?w) (page_reverts rt (ignore_bots d) (page_key e) old) @ ?rs'"
      using window_of_recent [of "t - ?w" rt "ignore_bots d" "page_key e" old "recent @ [(e, t)]"] by simp
    then have le: "int (length ?rs') \<le> int (length ?rs)" "int (card (set (map rv_user ?rs'))) \<le> int (card (set (map rv_user ?rs)))"
      by (auto intro!: card_mono)
    note p = observe_result(6) [OF o True, unfolded tracked_window [OF tr(1) t True]]
    note p' = observe_result(6) [OF o' T', unfolded tracked_window [OF tr(2) t' T'], unfolded same]
    show ?thesis
    proof (cases "k = page_key e")
      case k: True
      let ?U = "alerted_until_ms (page_of d (page_key e))" and ?U' = "alerted_until_ms (page_of d' (page_key e))"
      let ?W = "?n \<le> int (length ?rs) \<and> ?u \<le> int (card (set (map rv_user ?rs)))"
      let ?W' = "?n \<le> int (length ?rs') \<and> ?u \<le> int (card (set (map rv_user ?rs')))"
      have u: "alerted_until_ms (page_of d1 k) = (if t \<le> ?U \<or> ?W then t + ?w else ?U)"
        "alerted_until_ms (page_of d1' k) = (if t \<le> ?U' \<or> ?W' then t + ?w else ?U')"
        by (simp_all only: p p' k get_default_update if_True refl PageState.simps)
      have w0: "0 \<le> ?w" using tr(1) by (simp add: tracks_def)
      have "?W' \<Longrightarrow> ?W" using le by linarith
      then show ?thesis unfolding u using un [of "page_key e"] w0 by (auto split: if_splits)
    next
      case False
      then show ?thesis using un [of k] by (simp add: p p' dict_simps)
    qed
  qed
  with tr1 cfg show ?thesis unfolding behind_def by simp
qed


lemma behind_run:
  assumes "behind rt old recent d d'" and "sorted (det_watermark d # map snd ys)"
    and "det_run rt sha d (obs_steps ys) = Inr (d1, as)" and "det_run rt sha d' (obs_steps ys) = Inr (d1', as')"
  shows "behind rt old (recent @ ys) d1 d1'"
  using assms
proof (induction ys arbitrary: recent d d' as as')
  case (Cons x ys)
  obtain e t where x: "x = (e, t)" by (cases x)
  obtain d2 a2 d2' a2' where o: "observe rt sha d e t = Inr (d2, a2)" "observe rt sha d' e t = Inr (d2', a2')"
    using Cons.prems(3,4) by (auto simp: x bind_res_Inr_iff)
  then obtain bs bs' where r: "det_run rt sha d2 (obs_steps ys) = Inr (d1, bs)" "det_run rt sha d2' (obs_steps ys) = Inr (d1', bs')"
    using Cons.prems(3,4) by (auto simp: x bind_res_Inr_iff)
  have t: "det_watermark d \<le> t" using Cons.prems(2) x by simp
  have "det_watermark d2 = t" using observe_config [OF o(1)] t by simp
  then have "sorted (det_watermark d2 # map snd ys)" using Cons.prems(2) x by simp
  from Cons.IH [OF behind_step [OF Cons.prems(1) t o] this r] show ?case by (simp add: x)
qed simp

lemma alerted_until_nonneg:
  assumes "det_run rt sha d (obs_steps xs) = Inr (d', as)" and "\<forall>k. -1 \<le> alerted_until_ms (page_of d k)"
    and "0 \<le> det_window_ms d" and "\<forall>(e, t) \<in> set xs. 0 \<le> t"
  shows "\<forall>k. -1 \<le> alerted_until_ms (page_of d' k)"
  using assms
proof (induction xs arbitrary: d as)
  case (Cons x xs)
  obtain e t where x: "x = (e, t)" by (cases x)
  obtain d1 a where o: "observe rt sha d e t = Inr (d1, a)" using Cons.prems(1) by (auto simp: x bind_res_Inr_iff)
  then obtain bs where r: "det_run rt sha d1 (obs_steps xs) = Inr (d', bs)"
    using Cons.prems(1) by (auto simp: x bind_res_Inr_iff)
  have "-1 \<le> alerted_until_ms (page_of d1 k)" for k
  proof (cases "counts rt (ignore_bots d) e")
    case False
    with observe_ignored [OF this, of sha t] o Cons.prems(2) show ?thesis by auto
  next
    case True
    from observe_result(6) [OF o True] Cons.prems(2-4) x show ?thesis by (simp add: dict_simps)
  qed
  moreover have "0 \<le> det_window_ms d1" using observe_config [OF o] Cons.prems(3) by (simp add: same_config_def)
  ultimately show ?case using Cons.IH [OF r] Cons.prems(4) by simp
qed simp

lemma det_run_append:
  "det_run rt sha d (ss @ ss') = bind_res (det_run rt sha d ss) (\<lambda>(d1, as).
     bind_res (det_run rt sha d1 ss') (\<lambda>(d2, bs). Inr (d2, as @ bs)))"
proof (induction rt sha d ss rule: det_run.induct)
  case (1 rt sha d)
  then show ?case by (cases "det_run rt sha d ss'") auto
next
  case (2 rt sha d e t ss)
  show ?case
  proof (cases "observe rt sha d e t")
    case (Inr da)
    obtain d1 a where "da = (d1, a)" by (cases da)
    with Inr 2 show ?thesis
      by (cases "det_run rt sha d1 ss"; cases "det_run rt sha (fst (projr (det_run rt sha d1 ss))) ss'") (auto simp: split_beta)
  qed simp
qed simp

lemma filter_split_sorted:
  "sorted_wrt (\<lambda>m n. k_offset m < k_offset n) log \<Longrightarrow> start \<le> until \<Longrightarrow>
   filter (\<lambda>m. k_offset m < until) log =
     filter (\<lambda>m. k_offset m < start) log @ filter (\<lambda>m. start \<le> k_offset m \<and> k_offset m < until) log"
proof (induction log)
  case (Cons m log)
  show ?case
  proof (cases "k_offset m < start")
    case False
    then have "\<forall>n \<in> set log. \<not> k_offset n < start" using Cons.prems(1) by auto
    with False Cons show ?thesis by (auto simp: filter_empty_conv)
  qed (use Cons in auto)
qed simp

lemma run_watermark: "det_run rt sha d steps = Inr (d', as) \<Longrightarrow> det_watermark d \<le> det_watermark d'"
proof (induction rt sha d steps arbitrary: as rule: det_run.induct)
  case (2 rt sha d e t ss)
  from "2.prems" obtain d1 a bs where o: "observe rt sha d e t = Inr (d1, a)" and r: "det_run rt sha d1 ss = Inr (d', bs)"
    by (auto simp: bind_res_Inr_iff)
  have "det_watermark d \<le> det_watermark d1" using observe_config [OF o] by simp
  also have "\<dots> \<le> det_watermark d'" using "2.IH" [OF r] by simp
  finally show ?case .
next
  case (3 rt sha d ss)
  then show ?case by (simp add: det_expire_def)
qed simp

lemma behind_alert:
  assumes b: "behind rt old recent d d'" and t: "det_watermark d \<le> t"
    and far: "\<forall>(e', t') \<in> set old. t' < t - det_window_ms d"
    and o: "observe rt sha d e t = Inr (d1, Some al)"
  shows "\<exists>d1'. observe rt sha d' e t = Inr (d1', Some al)"
proof -
  have tr: "tracks rt d (old @ recent)" "tracks rt d' recent" and c: "same_config d d'"
    and wm: "det_watermark d' \<le> det_watermark d"
    and un: "\<And>k. alerted_until_ms (page_of d' k) \<le> alerted_until_ms (page_of d k)"
    using b unfolding behind_def by blast+
  have t': "det_watermark d' \<le> t" using wm t by simp
  have True: "counts rt (ignore_bots d) e" using observe_ignored [of rt d e sha t] o by force
  have same: "det_window_ms d' = det_window_ms d" "min_reverts d' = min_reverts d" "min_users d' = min_users d"
    "ignore_bots d' = ignore_bots d"
    using c by (simp_all add: same_config_def)
  have T': "counts rt (ignore_bots d') e" using True same by simp
  let ?rs = "since (t - det_window_ms d) (page_reverts rt (ignore_bots d) (page_key e) (recent @ [(e, t)]))"
  have "since (t - det_window_ms d) (page_reverts rt (ignore_bots d) (page_key e) old) = []"
    by (rule since_empty) (use far in \<open>auto simp: page_reverts_def\<close>)
  then have "since (t - det_window_ms d) (page_reverts rt (ignore_bots d) (page_key e) ((old @ recent) @ [(e, t)])) = ?rs"
    using window_of_recent [of "t - det_window_ms d" rt "ignore_bots d" "page_key e" old "recent @ [(e, t)]"] by simp
  note w = tracked_window [OF tr(1) t True, unfolded this]
  note w' = tracked_window [OF tr(2) t' T', unfolded same]
  have war: "alerted_until_ms (page_of d (page_key e)) < t" "min_reverts d \<le> int (length ?rs)"
    "min_users d \<le> int (card (set (map rv_user ?rs)))"
    using observe_result(7) [OF o True, unfolded w] by simp_all
  have al: "make_alert sha e ?rs = Inr al" using observe_result(8) [OF o True refl, unfolded w] .
  have "alerted_until_ms (page_of d' (page_key e)) < t" using un [of "page_key e"] war(1) by simp
  then show ?thesis
    unfolding observe_counted [OF T'] Let_def same w' using war(2,3) al by simp
qed

text \<open>
  C13. A restart misses no edit war. A detector that was warmed by a complete replay raises an alert
  whenever the detector of an instance that never stopped would, and the very same alert with the
  same id: the replay gives it every revert of the window, and it is never quiet about a page the
  other detector would alert. This needs the events before the replayed part to be older than the
  window of the new event, and event times that do not go back.
\<close>

theorem warmed_detector_misses_no_war:
  assumes "replay r b (log_polls log) p until (replay_into rt sha) (Some default_detector) = Some (Some dw, res)"
    and "sorted_wrt (\<lambda>m n. k_offset m < k_offset n) log"
    and "start_offset r b until = Some start" and "0 < until"
    and "det_run rt sha default_detector (obs_steps (events_of rt (filter (\<lambda>m. k_offset m < until) log))) = Inr (d, as)"
    and "sorted (0 # map snd (events_of rt (filter (\<lambda>m. k_offset m < until) log) @ [(e, t)]))"
    and "\<forall>(e', t') \<in> set (events_of rt (filter (\<lambda>m. k_offset m < start) log)). t' < t - DEFAULT_WINDOW_MS"
    and "observe rt sha d e t = Inr (d1, Some al)"
  shows "\<exists>dw1. observe rt sha dw e t = Inr (dw1, Some al)"
proof -
  let ?old = "events_of rt (filter (\<lambda>m. k_offset m < start) log)"
  let ?new = "events_of rt (filter (\<lambda>m. start \<le> k_offset m \<and> k_offset m < until) log)"
  have "start < until" using start_offset_range [OF assms(3)] by simp
  then have all: "events_of rt (filter (\<lambda>m. k_offset m < until) log) = ?old @ ?new"
    using filter_split_sorted [OF assms(2), of start until] by simp
  have so: "sorted (0 # map snd (?old @ ?new @ [(e, t)]))" using assms(6) unfolding all by simp
  have "obs_steps (?old @ ?new) = obs_steps ?old @ obs_steps ?new" by (simp add: obs_steps_def)
  with assms(5) all have "bind_res (det_run rt sha default_detector (obs_steps ?old)) (\<lambda>(d1, as).
     bind_res (det_run rt sha d1 (obs_steps ?new)) (\<lambda>(d2, bs). Inr (d2, as @ bs))) = Inr (d, as)"
    by (simp add: det_run_append)
  then obtain d0 as0 bs where r0: "det_run rt sha default_detector (obs_steps ?old) = Inr (d0, as0)"
    and r1: "det_run rt sha d0 (obs_steps ?new) = Inr (d, bs)"
    by (auto simp: bind_res_Inr_iff)
  from replay_is_run [OF replay_log_fold [OF assms(1-4), symmetric]]
  obtain cs where rw: "det_run rt sha default_detector (obs_steps ?new) = Inr (dw, cs)" by blast
  have w0: "0 \<le> DEFAULT_WINDOW_MS" by (simp add: DEFAULT_WINDOW_MS_def)
  have wm: "det_watermark default_detector = 0" by (simp add: new_detector_def)
  have "sorted (det_watermark default_detector # map snd (observed (obs_steps ?old)))"
    using so by (simp add: wm sorted_append)
  from run_tracks [OF r0 tracks_new [OF w0] this] have tr0: "tracks rt d0 ?old"
    and c0: "same_config default_detector d0"
    and le0: "\<And>t. 0 \<le> t \<Longrightarrow> \<forall>s \<in> set (map snd ?old). s \<le> t \<Longrightarrow> det_watermark d0 \<le> t"
    by (simp_all add: wm)
  have "\<forall>x \<in> set ?old. 0 \<le> snd x" using so by auto
  then have old0: "\<forall>(e, t) \<in> set ?old. 0 \<le> t" by (simp add: split_beta)
  have un0: "\<forall>k. -1 \<le> alerted_until_ms (page_of d0 k)"
    by (rule alerted_until_nonneg [OF r0 _ _ old0]) (use w0 in \<open>simp_all add: new_detector_def new_page_def\<close>)
  have "0 \<le> det_watermark d0" using run_watermark [OF r0] by (simp add: wm)
  then have b0: "behind rt ?old [] d0 default_detector"
    using tr0 c0 un0 tracks_new [OF w0, of rt 3 2 True]
    by (simp add: behind_def wm same_config_def) (simp add: new_detector_def new_page_def)
  have "sorted (det_watermark d0 # map snd (?new @ [(e, t)]))"
    using so le0 by (auto simp: sorted_append)
  then have s1: "sorted (det_watermark d0 # map snd ?new)" and le1: "\<forall>s \<in> set (map snd ?new). s \<le> t" "det_watermark d0 \<le> t"
    by (auto simp: sorted_append)
  have b: "behind rt ?old ?new d dw" using behind_run [OF b0 s1 r1 rw] by simp
  have wt: "det_watermark d \<le> t" using run_tracks [OF r1 tr0] s1 le1 by simp
  have "same_config d0 d" using run_tracks [OF r1 tr0] s1 by simp
  with c0 have cd: "det_window_ms d = DEFAULT_WINDOW_MS" by (simp add: same_config_def new_detector_def)
  show ?thesis
  proof (rule behind_alert [OF b wt _ assms(8)])
    show "\<forall>(e', t') \<in> set ?old. t' < t - det_window_ms d" using assms(7) by (simp add: cd)
  qed
qed

subsection \<open>Runs\<close>

text \<open>A broker that holds one log, and messages that are reverts of one page.\<close>

definition log_broker :: "kmsg list \<Rightarrow> broker" where
  "log_broker log = \<lparr>low = 0,
     at_offset = (\<lambda>p. case filter (\<lambda>m. k_offset m = p) log of [] \<Rightarrow> NoMessage | m # _ \<Rightarrow> Message m),
     at_time = (\<lambda>t. case filter (\<lambda>m. t \<le> k_time m) log of [] \<Rightarrow> -1 | m # _ \<Rightarrow> k_offset m)\<rparr>"

definition window_replayer :: PartitionReplayer where
  "window_replayer = \<lparr>pr_topic = [], pr_window_ms = DEFAULT_WINDOW_MS, pr_max_records = MAX_RECORDS,
     pr_now_ms = 9000000\<rparr>"

definition untimed_revert :: "string \<Rightarrow> string \<Rightarrow> CleanEvent" where
  "untimed_revert i u = (sample_revert i u)\<lparr>event_time := []\<rparr>"

definition revert_msg :: "(string \<Rightarrow> string \<Rightarrow> bytes) \<Rightarrow> string \<Rightarrow> string \<Rightarrow> int \<Rightarrow> int \<Rightarrow> kmsg" where
  "revert_msg v i u p t = \<lparr>k_topic = [], k_partition = 0, k_offset = p, k_time = t, k_key = None,
     k_value = Some (v i u)\<rparr>"

lemma untimed_revert_simps [simp]:
  "page_key (untimed_revert i u) = ascii ''enwiki:Main Page''" "event_id (untimed_revert i u) = ascii i"
  "user (untimed_revert i u) = ascii u" "wiki (untimed_revert i u) = ascii ''enwiki''"
  "title (untimed_revert i u) = ascii ''Main Page''" "counts plain_runtime bots (untimed_revert i u)"
  using sample_revert_simps [of i u] sample_revert_counts [of bots i u]
  by (simp_all add: untimed_revert_def page_key_def counts_def is_revert_def)

lemma untimed_revert_bytes:
  "\<exists>v. \<forall>i u. from_json plain_runtime (Some (v i u)) = Inr (Some (untimed_revert i u))"
proof -
  have "\<exists>b. from_json plain_runtime (Some b) = Inr (Some (untimed_revert i u))" for i u
  proof -
    have "encodable_event (untimed_revert i u)"
      by (simp add: encodable_event_def untimed_revert_def sample_revert_def sample_event_def)
    then obtain b where b: "to_json plain_runtime (untimed_revert i u) = Inr b" using to_json_ok by blast
    have "small_ints (untimed_revert i u)"
      by (simp add: small_ints_def int_ok_def untimed_revert_def sample_revert_def sample_event_def
          digits_of.simps MAX_STR_DIGITS_def)
    with from_json_to_json [OF b] show ?thesis by blast
  qed
  then show ?thesis by metis
qed

lemma revert_msg_simps [simp]:
  "k_offset (revert_msg v i u p t) = p" "k_time (revert_msg v i u p t) = t"
  by (simp_all add: revert_msg_def)

lemma event_of_revert:
  assumes "\<forall>i u. from_json plain_runtime (Some (v i u)) = Inr (Some (untimed_revert i u))"
  shows "event_of plain_runtime (revert_msg v i u p t) = Inr (Some (untimed_revert i u, t))"
  using assms
  by (simp add: event_of_def revert_msg_def event_time_ms_def untimed_revert_def fromisoformat_def is_value_error_def)

lemma events_of_reverts:
  assumes "\<forall>i u. from_json plain_runtime (Some (v i u)) = Inr (Some (untimed_revert i u))"
  shows "events_of plain_runtime (revert_msg v i u p t # ms) = (untimed_revert i u, t) # events_of plain_runtime ms"
  by (simp add: events_of_def List.map_filter_simps event_of_revert [OF assms])

lemma replay_reverts:
  assumes "\<forall>i u. from_json plain_runtime (Some (v i u)) = Inr (Some (untimed_revert i u))"
  shows "replay_into plain_runtime sha (Some d) (revert_msg v i u p t) =
    (case observe plain_runtime sha d (untimed_revert i u) t of Inl _ \<Rightarrow> None | Inr (d', _) \<Rightarrow> Some d', True)"
  by (simp add: replay_into_def event_of_revert [OF assms])

lemmas war_runs = observe_counted new_detector_def DEFAULT_WINDOW_MS_def new_page_def Let_def evict_def
  card_insert_if

lemmas replay_runs = replay_def start_offset_def anchor_time_def log_broker_def window_replayer_def log_polls_def
  MAX_RECORDS_def DEFAULT_WINDOW_MS_def

text \<open>An old revert, two new ones below the commit point.\<close>

abbreviation war_log :: "(string \<Rightarrow> string \<Rightarrow> bytes) \<Rightarrow> kmsg list" where
  "war_log v \<equiv> [revert_msg v ''z'' ''Ann'' 0 1000, revert_msg v ''a'' ''Ann'' 1 8000000,
     revert_msg v ''b'' ''Bob'' 2 8001000]"

theorem warmed_detector_misses_no_war_witness:
  "\<exists>v dw res dw1 al.
     replay window_replayer (log_broker (war_log v)) (log_polls (war_log v)) 0 3
       (replay_into plain_runtime (\<lambda>_. [])) (Some default_detector) = Some (Some dw, res) \<and>
     observe plain_runtime (\<lambda>_. []) dw (untimed_revert ''c'' ''Ann'') 8002000 = Inr (dw1, Some al)"
proof -
  obtain v where v: "\<forall>i u. from_json plain_runtime (Some (v i u)) = Inr (Some (untimed_revert i u))"
    using untimed_revert_bytes by blast
  let ?sha = "\<lambda>_. []" and ?log = "war_log v"
  have start: "start_offset window_replayer (log_broker ?log) 3 = Some 1" by (simp add: replay_runs)
  obtain dw res where rp: "replay window_replayer (log_broker ?log) (log_polls ?log) 0 3
       (replay_into plain_runtime ?sha) (Some default_detector) = Some (Some dw, res)"
    by (simp add: replay_runs replay_reverts [OF v] war_runs)
  obtain d as where run: "det_run plain_runtime ?sha default_detector
      (obs_steps (events_of plain_runtime (filter (\<lambda>m. k_offset m < 3) ?log))) = Inr (d, as)"
    and "\<exists>d1 al. observe plain_runtime ?sha d (untimed_revert ''c'' ''Ann'') 8002000 = Inr (d1, Some al)"
  proof -
    let ?rs = "[\<lparr>rv_event_id = ascii ''a'', rv_user = ascii ''Ann'', rv_time = 8000000\<rparr>,
      \<lparr>rv_event_id = ascii ''b'', rv_user = ascii ''Bob'', rv_time = 8001000\<rparr>,
      \<lparr>rv_event_id = ascii ''c'', rv_user = ascii ''Ann'', rv_time = 8002000\<rparr>]"
    obtain al where "make_alert ?sha (untimed_revert ''c'' ''Ann'') ?rs = Inr al"
      using make_alert_ok [of "untimed_revert ''c'' ''Ann''" ?rs] by auto
    then show ?thesis using that by (simp add: events_of_reverts [OF v] war_runs)
  qed
  then obtain d1 al where o: "observe plain_runtime ?sha d (untimed_revert ''c'' ''Ann'') 8002000 = Inr (d1, Some al)"
    by blast
  have "\<exists>dw1. observe plain_runtime ?sha dw (untimed_revert ''c'' ''Ann'') 8002000 = Inr (dw1, Some al)"
    by (rule warmed_detector_misses_no_war [OF rp _ start _ run _ _ o])
      (simp_all add: events_of_reverts [OF v] DEFAULT_WINDOW_MS_def)
  with rp show ?thesis by blast
qed

text \<open>
  A restart alerts a war again that is still going on. The detector of a running instance is
  quiet about a page for thirty minutes after each further revert. A new owner replays only the
  last window, which may hold fewer than three of the reverts, and then forgets that the page was
  alerted: the next revert raises an alert that the running instance would not have raised.
\<close>

theorem restart_realerts_ongoing_war:
  "\<exists>log d as dw res e t d1 dw1 al.
     det_run plain_runtime sha default_detector
       (obs_steps (events_of plain_runtime (filter (\<lambda>m. k_offset m < 5) log))) = Inr (d, as) \<and>
     replay window_replayer (log_broker log) (log_polls log) 0 5
       (replay_into plain_runtime sha) (Some default_detector) = Some (Some dw, res) \<and>
     observe plain_runtime sha d e t = Inr (d1, None) \<and>
     observe plain_runtime sha dw e t = Inr (dw1, Some al)"
proof -
  obtain v where v: "\<forall>i u. from_json plain_runtime (Some (v i u)) = Inr (Some (untimed_revert i u))"
    using untimed_revert_bytes by blast
  let ?log = "[revert_msg v ''a'' ''Ann'' 0 100000, revert_msg v ''b'' ''Bob'' 1 101000,
     revert_msg v ''c'' ''Ann'' 2 102000, revert_msg v ''d'' ''Bob'' 3 1500000, revert_msg v ''e'' ''Ann'' 4 2500000]"
  let ?rs = "[\<lparr>rv_event_id = ascii ''a'', rv_user = ascii ''Ann'', rv_time = 100000\<rparr>,
      \<lparr>rv_event_id = ascii ''b'', rv_user = ascii ''Bob'', rv_time = 101000\<rparr>,
      \<lparr>rv_event_id = ascii ''c'', rv_user = ascii ''Ann'', rv_time = 102000\<rparr>]"
  let ?rs' = "[\<lparr>rv_event_id = ascii ''d'', rv_user = ascii ''Bob'', rv_time = 1500000\<rparr>,
      \<lparr>rv_event_id = ascii ''e'', rv_user = ascii ''Ann'', rv_time = 2500000\<rparr>,
      \<lparr>rv_event_id = ascii ''f'', rv_user = ascii ''Bob'', rv_time = 2600000\<rparr>]"
  obtain al where al: "make_alert sha (untimed_revert ''c'' ''Ann'') ?rs = Inr al"
    using make_alert_ok [of "untimed_revert ''c'' ''Ann''" ?rs] by auto
  obtain al' where al': "make_alert sha (untimed_revert ''f'' ''Bob'') ?rs' = Inr al'"
    using make_alert_ok [of "untimed_revert ''f'' ''Bob''" ?rs'] by auto
  have run: "\<exists>d as d1. det_run plain_runtime sha default_detector
      (obs_steps (events_of plain_runtime (filter (\<lambda>m. k_offset m < 5) ?log))) = Inr (d, as) \<and>
      observe plain_runtime sha d (untimed_revert ''f'' ''Bob'') 2600000 = Inr (d1, None)"
    using al by (simp add: events_of_reverts [OF v] war_runs)
  have "\<exists>dw res dw1. replay window_replayer (log_broker ?log) (log_polls ?log) 0 5
       (replay_into plain_runtime sha) (Some default_detector) = Some (Some dw, res) \<and>
     observe plain_runtime sha dw (untimed_revert ''f'' ''Bob'') 2600000 = Inr (dw1, Some al')"
    using al' by (simp add: replay_runs replay_reverts [OF v] war_runs)
  with run show ?thesis by blast
qed

end
