(* ===== verification/Sse.thy ===== *)
theory Sse
  imports PyText
begin

text \<open>
  \<^verbatim>\<open>ingestor/sse.py\<close>: the client of the event stream. Lines go in, events come out. The
  HTTP response is its list of lines (\<open>None\<close> is a line the client skips).
\<close>

record SSEEvent =
  sse_event :: ustr
  sse_data :: ustr
  sse_id :: "ustr option"

record SSEParser =
  ps_event :: ustr
  ps_lines :: "ustr list"
  ps_id :: "ustr option"

definition MESSAGE :: ustr where
  "MESSAGE = ascii ''message''"

definition new_parser :: SSEParser where
  "new_parser = \<lparr>ps_event = MESSAGE, ps_lines = [], ps_id = None\<rparr>"

text \<open>\<open>_flush\<close>\<close>

definition sse_flush :: "SSEParser \<Rightarrow> SSEParser \<times> SSEEvent option" where
  "sse_flush p =
     (if ps_lines p = [] then (p\<lparr>ps_event := MESSAGE\<rparr>, None)
      else (p\<lparr>ps_event := MESSAGE, ps_lines := []\<rparr>,
            Some \<lparr>sse_event = ps_event p, sse_data = join [10] (ps_lines p), sse_id = ps_id p\<rparr>))"

definition feed :: "SSEParser \<Rightarrow> ustr \<Rightarrow> SSEParser \<times> SSEEvent option" where
  "feed p line =
     (if startswith line [58] then (p, None)
      else if line = [] then sse_flush p
      else
        (case partition_at 58 line of
           (field_name, rest) \<Rightarrow>
             (let value = (if startswith rest [32] then drop 1 rest else rest)
              in if field_name = ascii ''data'' then (p\<lparr>ps_lines := ps_lines p @ [value]\<rparr>, None)
                 else if field_name = ascii ''event'' then (p\<lparr>ps_event := value\<rparr>, None)
                 else if field_name = ascii ''id'' then (p\<lparr>ps_id := Some value\<rparr>, None)
                 else (p, None))))"

text \<open>The loop of \<open>stream_events\<close>.\<close>

fun stream_events :: "SSEParser \<Rightarrow> ustr option list \<Rightarrow> SSEEvent list" where
  "stream_events p [] = []"
| "stream_events p (None # lines) = stream_events p lines"
| "stream_events p (Some line # lines) =
     (case feed p line of
        (p', None) \<Rightarrow> stream_events p' lines
      | (p', Some e) \<Rightarrow> e # stream_events p' lines)"

subsection \<open>Frames\<close>

text \<open>
  The stream as its protocol describes it: frames of fields and comments, each ended by an empty
  line. A field has its value after a colon and perhaps one space, or is a bare name.
\<close>

datatype sse_field =
  Field ustr bool ustr
| Bare ustr
| Comment ustr

fun field_line :: "sse_field \<Rightarrow> ustr" where
  "field_line (Field name spaced v) = name @ [58] @ (if spaced then [32] else []) @ v"
| "field_line (Bare name) = name"
| "field_line (Comment c) = 58 # c"

fun wf_field :: "sse_field \<Rightarrow> bool" where
  "wf_field (Field name spaced v) \<longleftrightarrow> name \<noteq> [] \<and> 58 \<notin> set name \<and> (spaced \<or> \<not> startswith v [32])"
| "wf_field (Bare name) \<longleftrightarrow> name \<noteq> [] \<and> 58 \<notin> set name"
| "wf_field (Comment c) = True"

text \<open>The value a frame gives to a name, for each field of that name.\<close>

fun value_for :: "string \<Rightarrow> sse_field \<Rightarrow> ustr option" where
  "value_for n (Field name _ v) = (if name = ascii n then Some v else None)"
| "value_for n (Bare name) = (if name = ascii n then Some [] else None)"
| "value_for n (Comment _) = None"

definition field_values :: "string \<Rightarrow> sse_field list \<Rightarrow> ustr list" where
  "field_values n fs = List.map_filter (value_for n) fs"

definition last_or :: "'a \<Rightarrow> 'a list \<Rightarrow> 'a" where
  "last_or x xs = (if xs = [] then x else last xs)"

definition frame_id :: "ustr option \<Rightarrow> sse_field list \<Rightarrow> ustr option" where
  "frame_id known fs = last_or known (map Some (field_values ''id'' fs))"

text \<open>What a client has to dispatch; an id holds for the frames after it, too.\<close>

fun dispatched :: "ustr option \<Rightarrow> sse_field list list \<Rightarrow> SSEEvent list" where
  "dispatched known [] = []"
| "dispatched known (fs # frames) =
     (if field_values ''data'' fs = [] then []
      else [\<lparr>sse_event = last_or MESSAGE (field_values ''event'' fs),
             sse_data = join [10] (field_values ''data'' fs), sse_id = frame_id known fs\<rparr>])
     @ dispatched (frame_id known fs) frames"

definition frame_lines :: "sse_field list \<Rightarrow> ustr list" where
  "frame_lines fs = map field_line fs @ [[]]"

lemma partition_field:
  assumes "58 \<notin> set name"
  shows "partition_at 58 (name @ 58 # v) = (name, v)" and "partition_at 58 name = (name, [])"
proof -
  have n: "\<forall>c \<in> set name. c \<noteq> 58" using assms by auto
  then have d: "dropWhile (\<lambda>c. c \<noteq> 58) name = []" and t: "takeWhile (\<lambda>c. c \<noteq> 58) name = name"
    by (simp_all add: takeWhile_eq_all_conv)
  show "partition_at 58 name = (name, [])" by (simp only: partition_at_def d t drop_Nil)
  show "partition_at 58 (name @ 58 # v) = (name, v)"
    using n by (simp add: partition_at_def takeWhile_append2 dropWhile_append2)
qed

lemma feed_field:
  assumes "wf_field f"
  shows "feed p (field_line f) =
    (p\<lparr>ps_lines := ps_lines p @ (case value_for ''data'' f of None \<Rightarrow> [] | Some v \<Rightarrow> [v]),
       ps_event := (case value_for ''event'' f of None \<Rightarrow> ps_event p | Some v \<Rightarrow> v),
       ps_id := (case value_for ''id'' f of None \<Rightarrow> ps_id p | Some v \<Rightarrow> Some v)\<rparr>, None)"
proof (cases f)
  case (Field name spaced v)
  then have n: "name \<noteq> []" "58 \<notin> set name" "spaced \<or> \<not> startswith v [32]" using assms by simp_all
  have line: "field_line f = name @ 58 # (if spaced then [32] else []) @ v" by (simp add: Field)
  have "\<not> startswith (field_line f) [58]" using n by (cases name) (auto simp: line startswith_def)
  moreover have "(if startswith ((if spaced then [32] else []) @ v) [32]
      then drop 1 ((if spaced then [32] else []) @ v) else (if spaced then [32] else []) @ v) = v"
    using n(3) by (auto simp: startswith_def)
  ultimately show ?thesis
    unfolding feed_def line partition_field(1) [OF n(2)] by (simp add: Field Let_def)
next
  case (Bare name)
  then have n: "name \<noteq> []" "58 \<notin> set name" using assms by simp_all
  then have "\<not> startswith name [58]" by (cases name) (auto simp: startswith_def)
  with n show ?thesis by (simp add: feed_def Bare partition_field(2) startswith_def)
next
  case (Comment c)
  then show ?thesis by (simp add: feed_def startswith_def)
qed

lemma field_values_simps [simp]:
  "field_values n [] = []"
  "field_values n (f # fs) = (case value_for n f of None \<Rightarrow> field_values n fs | Some v \<Rightarrow> v # field_values n fs)"
  by (simp_all add: field_values_def List.map_filter_simps split: option.split)

lemma last_or_simps [simp]:
  "last_or x [] = x" "last_or x (y # ys) = last_or y ys"
  by (simp_all add: last_or_def)

lemma feed_fields:
  "\<forall>f \<in> set fs. wf_field f \<Longrightarrow>
   stream_events p (map Some (map field_line fs) @ rest) =
     stream_events \<lparr>ps_event = last_or (ps_event p) (field_values ''event'' fs),
       ps_lines = ps_lines p @ field_values ''data'' fs,
       ps_id = last_or (ps_id p) (map Some (field_values ''id'' fs))\<rparr> rest"
proof (induction fs arbitrary: p)
  case Nil
  show ?case by (cases p) simp
next
  case (Cons f fs)
  then have f: "wf_field f" by simp
  show ?case using Cons
    by (cases "value_for ''data'' f"; cases "value_for ''event'' f"; cases "value_for ''id'' f")
      (simp_all add: feed_field [OF f])
qed

lemma stream_frame:
  assumes "\<forall>f \<in> set fs. wf_field f" and "ps_event p = MESSAGE" and "ps_lines p = []"
  shows "\<exists>p'. stream_events p (map Some (frame_lines fs) @ rest) =
      dispatched (ps_id p) [fs] @ stream_events p' rest \<and>
    ps_event p' = MESSAGE \<and> ps_lines p' = [] \<and> ps_id p' = frame_id (ps_id p) fs"
proof -
  let ?p = "\<lparr>ps_event = last_or MESSAGE (field_values ''event'' fs), ps_lines = field_values ''data'' fs,
       ps_id = frame_id (ps_id p) fs\<rparr>"
  have "stream_events p (map Some (frame_lines fs) @ rest) = stream_events ?p (Some [] # rest)"
    using feed_fields [OF assms(1), of p "Some [] # rest"] assms(2,3) by (simp add: frame_lines_def frame_id_def)
  moreover have "feed ?p [] = sse_flush ?p" by (simp add: feed_def startswith_def)
  ultimately show ?thesis
    by (cases "field_values ''data'' fs = []") (auto simp: sse_flush_def intro!: exI)
qed

text \<open>
  C11. The parser reads the stream as its protocol describes it. For every sequence of frames, with
  any fields, comments and unknown names in any order, the events it yields are one for each frame
  that has data: its data lines joined by newlines, its last event type or \<open>message\<close>, and
  the last id seen on the connection, which an event without one inherits.
\<close>

theorem sse_parser_refines_frames:
  assumes "\<forall>fs \<in> set frames. \<forall>f \<in> set fs. wf_field f"
  shows "stream_events new_parser (map Some (concat (map frame_lines frames))) = dispatched None frames"
proof -
  have "stream_events p (map Some (concat (map frame_lines frames))) = dispatched (ps_id p) frames"
    if "ps_event p = MESSAGE" "ps_lines p = []" for p
    using assms that
  proof (induction frames arbitrary: p)
    case (Cons fs frames)
    from stream_frame [of fs p "map Some (concat (map frame_lines frames))"] Cons.prems
    obtain p' where p': "stream_events p (map Some (frame_lines fs) @ map Some (concat (map frame_lines frames))) =
        dispatched (ps_id p) [fs] @ stream_events p' (map Some (concat (map frame_lines frames)))"
      "ps_event p' = MESSAGE" "ps_lines p' = []" "ps_id p' = frame_id (ps_id p) fs" by auto
    with Cons.IH [of p'] Cons.prems show ?case by simp
  qed simp
  from this [of new_parser] show ?thesis by (simp add: new_parser_def)
qed

theorem sse_parser_refines_frames_witness:
  "stream_events new_parser (map Some (concat (map frame_lines
      [[Comment (ascii ''ok''), Field (ascii ''id'') True (ascii ''7''), Field (ascii ''data'') False (ascii ''a'')],
       [Field (ascii ''data'') True (ascii ''b''), Bare (ascii ''data'')]]))) =
     [\<lparr>sse_event = MESSAGE, sse_data = ascii ''a'', sse_id = Some (ascii ''7'')\<rparr>,
      \<lparr>sse_event = MESSAGE, sse_data = ascii ''b'' @ [10], sse_id = Some (ascii ''7'')\<rparr>]"
  by (subst sse_parser_refines_frames) (simp_all add: startswith_def ascii_def frame_id_def)

end
