(* ===== verification/Checkpoint.thy ===== *)
theory Checkpoint
  imports Models
begin

text \<open>
  \<^verbatim>\<open>ingestor/checkpoint.py\<close>: the stream id up to which Kafka has confirmed every event,
  in a JSON file that is replaced as a whole. The disk is the checkpoint file and the temporary
  file beside it; a save may stop at any point. The text is written with \<open>ensure_ascii\<close>, the
  default of \<open>json.dumps\<close>, which \<open>dumps_ascii\<close> adds for the values used here.
\<close>

record Checkpoint =
  last_event_id :: "ustr option"
  events_confirmed :: int

definition new_checkpoint :: Checkpoint where
  "new_checkpoint = \<lparr>last_event_id = None, events_confirmed = 0\<rparr>"

text \<open>\<open>load\<close> on the content of the file, \<open>None\<close> when there is none.\<close>

definition load :: "bytes option \<Rightarrow> pyexc + Checkpoint" where
  "load content =
     (case content of
        None \<Rightarrow> Inr new_checkpoint
      | Some b \<Rightarrow>
          (case bind_res (utf8_decode False b) json_loads of
             Inl e \<Rightarrow> if e = JSONDecodeError \<or> e = UnicodeDecodeError then Inr new_checkpoint else Inl e
           | Inr (JObj d) \<Rightarrow>
               Inr \<lparr>last_event_id =
                      (case field_of d ''last_event_id'' of
                         JStr s \<Rightarrow> if s = [] then None else Some s
                       | _ \<Rightarrow> None),
                    events_confirmed =
                      (case get_default d (ascii ''events_confirmed'') (JInt 0) of
                         JInt n \<Rightarrow> n
                       | JBool v \<Rightarrow> if v then 1 else 0
                       | _ \<Rightarrow> 0)\<rparr>
           | Inr _ \<Rightarrow> Inr new_checkpoint))"

definition present :: "ustr option \<Rightarrow> bool" where
  "present s \<longleftrightarrow> s \<noteq> None \<and> s \<noteq> Some []"

definition advance :: "ustr option \<Rightarrow> int \<Rightarrow> Checkpoint \<Rightarrow> Checkpoint" where
  "advance i count c =
     c\<lparr>last_event_id := (if present i then i else last_event_id c),
       events_confirmed := events_confirmed c + count\<rparr>"

subsection \<open>Writing the file\<close>

definition hex4_of :: "nat \<Rightarrow> ustr" where
  "hex4_of v = [92, 117, hex_char (v div 4096), hex_char (v div 256 mod 16), hex_char (v div 16 mod 16), hex_char (v mod 16)]"

text \<open>One character of a string as \<open>ensure_ascii\<close> writes it.\<close>

definition ascii_char :: "nat \<Rightarrow> ustr" where
  "ascii_char c =
     (case map_of [(34, 34), (92, 92), (10, 110), (13, 114), (9, 116), (12, 102), (8, 98)] c of
        Some e \<Rightarrow> [92, e]
      | None \<Rightarrow>
          if 32 \<le> c \<and> c \<le> 126 then [c]
          else if c < 0x10000 then hex4_of c
          else hex4_of (0xD800 + (c - 0x10000) div 1024) @ hex4_of (0xDC00 + (c - 0x10000) mod 1024))"

definition quote_ascii :: "ustr \<Rightarrow> ustr" where
  "quote_ascii s = 34 # concat (map ascii_char s) @ [34]"

text \<open>The text of \<open>save\<close>; an integer with too many digits has no text.\<close>

definition checkpoint_text :: "Checkpoint \<Rightarrow> pyexc + ustr" where
  "checkpoint_text c =
     (if length (digits_of (nat \<bar>events_confirmed c\<bar>)) > MAX_STR_DIGITS then Inl ValueError
      else Inr (ascii ''{\"last_event_id\": '' @
        (case last_event_id c of None \<Rightarrow> ascii ''null'' | Some s \<Rightarrow> quote_ascii s) @
        ascii '', \"events_confirmed\": '' @ int_repr (events_confirmed c) @ ascii ''}''))"

definition payload_bytes :: "Checkpoint \<Rightarrow> pyexc + bytes" where
  "payload_bytes c = bind_res (checkpoint_text c) utf8_encode"

record disk =
  target :: "bytes option"
  temp :: "bytes option"

text \<open>
  Where a save stops: before the temporary file is created, while it is written, after an
  exception that removed it, or with the file replaced.
\<close>

datatype stop = NotBegun | Writing nat | CleanedUp | Replaced

fun stopped_save :: "stop \<Rightarrow> bytes \<Rightarrow> disk \<Rightarrow> disk" where
  "stopped_save NotBegun b d = d"
| "stopped_save (Writing n) b d = d\<lparr>temp := Some (take n b)\<rparr>"
| "stopped_save CleanedUp b d = d\<lparr>temp := None\<rparr>"
| "stopped_save Replaced b d = d\<lparr>target := Some b, temp := None\<rparr>"

text \<open>\<open>save\<close>, and what a process finds after it stopped there.\<close>

definition save_until :: "stop \<Rightarrow> Checkpoint \<Rightarrow> disk \<Rightarrow> disk" where
  "save_until stop c d = (case payload_bytes c of Inl _ \<Rightarrow> d | Inr b \<Rightarrow> stopped_save stop b d)"

definition resume_header :: "Checkpoint \<Rightarrow> (ustr \<times> ustr) list" where
  "resume_header c =
     (case last_event_id c of
        Some s \<Rightarrow> if s = [] then [] else [(ascii ''Last-Event-ID'', s)]
      | None \<Rightarrow> [])"

subsection \<open>Reading back\<close>

lemma hex4_hex4_of: "v < 0x10000 \<Longrightarrow> hex4 (drop 2 (hex4_of v) @ r) = Some (v, r)"
proof -
  assume v: "v < 0x10000"
  have d: "v div 4096 < 16" "v div 256 mod 16 < 16" "v div 16 mod 16 < 16" "v mod 16 < 16"
    using v by auto
  have "v div 256 = v div 16 div 16" "v div 4096 = v div 16 div 16 div 16" by (simp_all add: div_mult2_eq [symmetric])
  then have "((v div 4096 * 16 + v div 256 mod 16) * 16 + v div 16 mod 16) * 16 + v mod 16 = v" by presburger
  then show ?thesis by (simp add: hex4_of_def hex4_def hex_val_hex_char d)
qed

lemma pstring_hex4:
  assumes "v < 0x10000" and "\<not> (0xD800 \<le> v \<and> v \<le> 0xDBFF)"
  shows "pstring (hex4_of v @ t) = cons_res v (pstring t)"
proof -
  define u where "u = drop 2 (hex4_of v)"
  have hu: "hex4_of v = 92 # 117 # u" by (simp add: hex4_of_def u_def)
  have h: "hex4 (u @ t) = Some (v, t)" using hex4_hex4_of [OF assms(1)] by (simp add: u_def)
  show ?thesis unfolding hu using assms(2) by (auto simp: h)
qed

lemma pstring_pair:
  assumes "0x10000 \<le> c" and "c < 0x110000"
  shows "pstring (hex4_of (0xD800 + (c - 0x10000) div 1024) @ hex4_of (0xDC00 + (c - 0x10000) mod 1024) @ t) =
    cons_res c (pstring t)"
proof -
  let ?v = "0xD800 + (c - 0x10000) div 1024" and ?w = "0xDC00 + (c - 0x10000) mod 1024"
  have v: "?v < 0x10000" "0xD800 \<le> ?v" "?v \<le> 0xDBFF" using assms by auto
  have w: "?w < 0x10000" "0xDC00 \<le> ?w" "?w \<le> 0xDFFF" by auto
  define u where "u = drop 2 (hex4_of ?v)"
  define x where "x = drop 2 (hex4_of ?w)"
  have hu: "hex4_of ?v = 92 # 117 # u" and hx: "hex4_of ?w = 92 # 117 # x" by (simp_all add: hex4_of_def u_def x_def)
  have h1: "hex4 (u @ r) = Some (?v, r)" for r using hex4_hex4_of [OF v(1)] by (simp add: u_def)
  have h2: "hex4 (x @ r) = Some (?w, r)" for r using hex4_hex4_of [OF w(1)] by (simp add: x_def)
  have low: "low_escape (92 # 117 # x @ t) = Some (?w, t)" using w by (simp add: low_escape_def h2)
  have "0x10000 + (?v - 0xD800) * 1024 + (?w - 0xDC00) = c" using assms by simp
  then show ?thesis unfolding hu hx using v low by (simp add: h1)
qed

lemma pstring_ascii_char:
  assumes "c < 0x110000" and "\<not> surrogate c"
  shows "pstring (ascii_char c @ t) = cons_res c (pstring t)"
proof (cases "map_of [(34, 34), (92, 92), (10, 110), (13, 114), (9, 116), (12, 102), (8, 98 :: nat)] c")
  case None
  then have "c \<noteq> 34" "c \<noteq> 92" by auto
  moreover have "pstring (hex4_of c @ t) = cons_res c (pstring t)" if "c < 0x10000"
    using that assms(2) by (intro pstring_hex4) (auto simp: surrogate_def)
  ultimately show ?thesis using None assms(1) pstring_pair [of c t] by (simp add: ascii_char_def)
next
  case (Some e)
  then have "escape_char c = ascii_char c" by (simp add: ascii_char_def escape_char_def)
  then show ?thesis using pstring_escape [of c t] by simp
qed

lemma pstring_quote_ascii:
  "encodable s \<Longrightarrow> pstring (concat (map ascii_char s) @ 34 # rest) = Inr (s, rest)"
proof (induction s)
  case (Cons c s)
  then have "pstring (ascii_char c @ concat (map ascii_char s) @ 34 # rest) = cons_res c (Inr (s, rest))"
    using pstring_ascii_char [of c] by simp
  then show ?case by (simp add: cons_res_def)
qed simp

lemma pmembers_member:
  assumes "pvalue m (vt @ e # rest) = Inr (v, e # rest)" and "vt \<noteq> []" and "\<not> json_ws (hd vt)" and "\<not> json_ws e"
  shows "pmembers (Suc m) (quote_str k @ 58 # 32 # vt @ e # rest) o' =
     (if e = 44 then pmembers m (skip_ws rest) (AList.update k v o')
      else if e = 125 then Inr (AList.update k v o', rest) else Inl JSONDecodeError)"
proof -
  have "skip_ws (vt @ e # rest) = vt @ e # rest" using assms(2,3) by (cases vt) simp_all
  then show ?thesis using pstring_quote [of k "58 # 32 # vt @ e # rest"] assms(1,4) by (simp add: quote_str_def)
qed

lemma json_loads_pair:
  assumes x1: "\<And>n r. length t1 \<le> n \<Longrightarrow> pvalue n (t1 @ 44 # r) = Inr (x1, 44 # r)"
    and x2: "\<And>n. length t2 \<le> n \<Longrightarrow> pvalue n (t2 @ 125 # []) = Inr (x2, 125 # [])"
    and n1: "t1 \<noteq> []" "\<not> json_ws (hd t1)" and n2: "t2 \<noteq> []" "\<not> json_ws (hd t2)" and ne: "k1 \<noteq> k2"
  shows "json_loads (123 # quote_str k1 @ 58 # 32 # t1 @ 44 # 32 # quote_str k2 @ 58 # 32 # t2 @ 125 # []) =
    Inr (JObj [(k1, x1), (k2, x2)])"
proof -
  let ?second = "quote_str k2 @ 58 # 32 # t2 @ 125 # []"
  let ?body = "quote_str k1 @ 58 # 32 # t1 @ 44 # 32 # ?second"
  have "Suc (length t1) \<le> length ?body" "Suc (Suc (length t2)) \<le> length ?body" by simp_all
  moreover define m where "m = length ?body - 1"
  ultimately have m: "length (123 # ?body) = Suc (Suc m)" "length t1 \<le> Suc m" "length t2 \<le> m" by simp_all
  have ws: "skip_ws (32 # ?second) = ?second" by (simp add: quote_str_def)
  have w: "\<not> json_ws (44 :: nat)" "\<not> json_ws (125 :: nat)" by simp_all
  have "pmembers (Suc m) ?second o' = Inr (AList.update k2 x2 o', [])" for o'
    using pmembers_member [OF x2 [OF m(3)] n2 w(2), where k = k2 and o' = o'] by (simp del: pmembers.simps)
  then have "pmembers (Suc (Suc m)) ?body [] = Inr ([(k1, x1), (k2, x2)], [])"
    using pmembers_member [OF x1 [OF m(2), of "32 # ?second"] n1 w(1), where k = k1 and o' = "[]"] ne
    unfolding ws by (simp del: pmembers.simps)
  then have "pvalue (Suc (length (123 # ?body))) (123 # ?body) = Inr (JObj [(k1, x1), (k2, x2)], [])"
    unfolding m(1) by (simp add: quote_str_def del: pmembers.simps)
  moreover have "skip_ws (123 # ?body) = 123 # ?body" "\<not> startswith (123 # ?body) [0xFEFF]"
    by (simp_all add: json_ws_def startswith_def)
  ultimately show ?thesis by (simp add: json_loads_def skip_ws_def del: pvalue.simps)
qed

definition id_json :: "ustr option \<Rightarrow> json" where
  "id_json i = (case i of None \<Rightarrow> JNull | Some s \<Rightarrow> JStr s)"

lemma pvalue_quoted:
  "pstring (w @ 34 # r) = Inr (s, r) \<Longrightarrow> length (34 # w @ [34]) \<le> n \<Longrightarrow>
   pvalue n ((34 # w @ [34]) @ r) = Inr (JStr s, r)"
  by (cases n) simp_all

lemma pvalue_id:
  assumes "\<forall>s. i = Some s \<longrightarrow> encodable s"
  defines "vt \<equiv> (case i of None \<Rightarrow> ascii ''null'' | Some s \<Rightarrow> quote_ascii s)"
  shows "length vt \<le> n \<Longrightarrow> pvalue n (vt @ 44 # r) = Inr (id_json i, 44 # r)" and "vt \<noteq> []" and "\<not> json_ws (hd vt)"
proof -
  show "vt \<noteq> []" "\<not> json_ws (hd vt)"
    by (auto simp: vt_def quote_ascii_def ascii_def json_ws_def split: option.split)
  assume n: "length vt \<le> n"
  show "pvalue n (vt @ 44 # r) = Inr (id_json i, 44 # r)"
  proof (cases i)
    case None
    have "length (dumps id JNull) \<le> n" using n by (simp add: vt_def None)
    then have "pvalue n (dumps id JNull @ 44 # r) = Inr (JNull, 44 # r)" using pvalue_keyword(1) [of id] by simp
    then show ?thesis by (simp add: vt_def None id_json_def)
  next
    case (Some s)
    have "pstring (concat (map ascii_char s) @ 34 # 44 # r) = Inr (s, 44 # r)"
      by (rule pstring_quote_ascii) (use assms(1) Some in blast)
    from pvalue_quoted [OF this] n show ?thesis by (simp add: vt_def Some id_json_def quote_ascii_def)
  qed
qed

lemma json_loads_checkpoint:
  assumes "checkpoint_text c = Inr t" and "\<forall>s. last_event_id c = Some s \<longrightarrow> encodable s"
  shows "json_loads t = Inr (JObj [(ascii ''last_event_id'', id_json (last_event_id c)),
    (ascii ''events_confirmed'', JInt (events_confirmed c))])"
proof -
  let ?vt = "case last_event_id c of None \<Rightarrow> ascii ''null'' | Some s \<Rightarrow> quote_ascii s"
  let ?n = "int_repr (events_confirmed c)"
  have small: "json_ok (JInt (events_confirmed c))"
    and t: "t = 123 # quote_str (ascii ''last_event_id'') @ 58 # 32 # ?vt @ 44 # 32 #
      quote_str (ascii ''events_confirmed'') @ 58 # 32 # ?n @ 125 # []"
    using assms(1) by (auto simp: checkpoint_text_def quote_str_def escape_char_def ascii_def split: if_splits)
  have n: "?n \<noteq> []" "\<not> json_ws (hd ?n)" using dumps_hd [OF small, of id] by auto
  have "pvalue m (?n @ 125 # []) = Inr (JInt (events_confirmed c), 125 # [])" if "length ?n \<le> m" for m
    using reads_back_dumps [OF small, of id] that by (simp del: pvalue.simps)
  then show ?thesis unfolding t
    by (intro json_loads_pair) (use n pvalue_id [OF assms(2)] in simp_all)
qed

lemma load_saved:
  assumes "payload_bytes c = Inr b" and "\<forall>s. last_event_id c = Some s \<longrightarrow> encodable s \<and> s \<noteq> []"
  shows "load (Some b) = Inr c"
proof -
  obtain t where t: "checkpoint_text c = Inr t" "utf8_encode t = Inr b"
    using assms(1) by (auto simp: payload_bytes_def bind_res_Inr_iff)
  have "json_loads t = Inr (JObj [(ascii ''last_event_id'', id_json (last_event_id c)),
    (ascii ''events_confirmed'', JInt (events_confirmed c))])"
    using json_loads_checkpoint [OF t(1)] assms(2) by blast
  with utf8_roundtrip [OF t(2)] assms(2) show ?thesis
    by (simp add: load_def field_of_def id_json_def split: option.splits)
qed

text \<open>
  C10. A crash never damages the checkpoint. Wherever a save stops, the file holds the checkpoint
  that was there before or the new one, complete, and \<open>load\<close> gives it back exactly; what is
  left in the temporary file is never read.
\<close>

theorem checkpoint_survives_crash:
  assumes "\<forall>s. last_event_id c = Some s \<longrightarrow> encodable s \<and> s \<noteq> []"
  shows "load (target (save_until stop c d)) = load (target d) \<or> load (target (save_until stop c d)) = Inr c"
proof (cases "payload_bytes c")
  case (Inr b)
  with load_saved [OF Inr assms] show ?thesis by (cases stop) (simp_all add: save_until_def)
qed (simp add: save_until_def)

definition sample_checkpoint :: Checkpoint where
  "sample_checkpoint = \<lparr>last_event_id = Some [91, 0x1F600, 93], events_confirmed = 12\<rparr>"

theorem checkpoint_survives_crash_witness:
  "load (target (save_until (Writing 5) sample_checkpoint \<lparr>target = None, temp = None\<rparr>)) = Inr new_checkpoint \<and>
   (load (target (save_until Replaced sample_checkpoint \<lparr>target = None, temp = None\<rparr>)) = Inr new_checkpoint \<or>
    load (target (save_until Replaced sample_checkpoint \<lparr>target = None, temp = None\<rparr>)) = Inr sample_checkpoint)"
proof -
  have ok: "\<forall>s. last_event_id sample_checkpoint = Some s \<longrightarrow> encodable s \<and> s \<noteq> []"
    by (simp add: sample_checkpoint_def surrogate_def)
  have "load (target (save_until (Writing 5) sample_checkpoint \<lparr>target = None, temp = None\<rparr>)) = Inr new_checkpoint"
    by (simp add: save_until_def load_def split: sum.split)
  with checkpoint_survives_crash [OF ok, of Replaced "\<lparr>target = None, temp = None\<rparr>"] show ?thesis
    by (simp add: load_def)
qed

end
