(* ===== verification/Ingestor.thy ===== *)
theory Ingestor
  imports Sse Checkpoint Dlq Kafka
begin

text \<open>
  \<^verbatim>\<open>ingestor/main.py\<close>: the live stream is written to \<^verbatim>\<open>wiki.raw\<close>, and the
  checkpoint follows what Kafka has confirmed. Time is an argument: whether the save interval is
  over, and the time a record was rejected. The names and the address of the configuration, the
  order of delivery reports and the answers of the stream server are arguments, too.
\<close>

record ingest_setup =
  is_runtime :: runtime
  is_raw :: ustr
  is_dlq :: ustr
  is_url :: ustr

text \<open>
  \<open>handle\<close> up to the call of the producer: \<open>None\<close> for an error event, else the message.
\<close>

definition to_dlq :: "ingest_setup \<Rightarrow> ustr \<Rightarrow> SSEEvent \<Rightarrow> parse_reason \<Rightarrow> pyexc + outgoing" where
  "to_dlq env now e reason =
     bind_res (dlq_record (is_runtime env) (ascii ''ingestor'') (reason_text (is_runtime env) reason)
                (Text (sse_data e)) (is_url env) [(ascii ''stream_id'', opt_str_json (sse_id e))] now) (\<lambda>record.
     bind_res (utf8_decode False record) (\<lambda>s.
     bind_res (utf8_encode s) (\<lambda>v.
       Inr \<lparr>out_topic = is_dlq env, out_key = None, out_value = Some v, out_time = 0\<rparr>)))"

definition to_raw :: "ingest_setup \<Rightarrow> raw \<Rightarrow> ustr \<Rightarrow> pyexc + outgoing" where
  "to_raw env r key =
     bind_res (utf8_encode key) (\<lambda>k.
     bind_res (utf8_encode (dumps (rt_float_repr (is_runtime env)) (JObj r))) (\<lambda>v.
       Inr \<lparr>out_topic = is_raw env, out_key = Some k, out_value = Some v, out_time = 0\<rparr>))"

definition prepare :: "ingest_setup \<Rightarrow> ustr \<Rightarrow> SSEEvent \<Rightarrow> pyexc + outgoing option" where
  "prepare env now e =
     (if sse_event e = ascii ''error'' then Inr None
      else
        (case bind_res (parse_raw (Text (sse_data e))) (\<lambda>r. map_sum id (Pair r) (event_id_of r)) of
           Inl (ParseError reason) \<Rightarrow> map_sum id Some (to_dlq env now e reason)
         | Inl (Py x) \<Rightarrow> Inl x
         | Inr (r, key) \<Rightarrow> map_sum id Some (to_raw env r key)))"

subsection \<open>Deliveries\<close>

record Ingestor =
  ig_checkpoint :: Checkpoint
  ig_pending :: "(int \<times> ustr option) list"
  ig_confirmed :: "int set"
  ig_running :: bool
  ig_failed :: bool
  ig_seq :: int
  ig_unsaved :: int

definition new_ingestor :: "Checkpoint \<Rightarrow> Ingestor" where
  "new_ingestor c =
     \<lparr>ig_checkpoint = c, ig_pending = [], ig_confirmed = {}, ig_running = True, ig_failed = False,
      ig_seq = 0, ig_unsaved = 0\<rparr>"

definition SAVE_EVERY :: int where
  "SAVE_EVERY = 200"

definition register :: "int \<Rightarrow> ustr option \<Rightarrow> Ingestor \<Rightarrow> Ingestor" where
  "register s stream_id ig = ig\<lparr>ig_pending := ig_pending ig @ [(s, stream_id)]\<rparr>"

text \<open>
  The loop of \<open>DeliveryTracker.confirm\<close>: the id released, the count, the confirmed set and
  the queue that remain.
\<close>

fun release_prefix ::
  "int set \<Rightarrow> (int \<times> ustr option) list \<Rightarrow> ustr option \<Rightarrow> int \<Rightarrow>
   ustr option \<times> int \<times> int set \<times> (int \<times> ustr option) list" where
  "release_prefix conf [] released count = (released, count, conf, [])"
| "release_prefix conf ((s, i) # pending) released count =
     (if s \<in> conf
      then release_prefix (conf - {s}) pending (if present i then i else released) (count + 1)
      else (released, count, conf, (s, i) # pending))"

definition confirm :: "int \<Rightarrow> Ingestor \<Rightarrow> ustr option \<times> int \<times> Ingestor" where
  "confirm s ig =
     (case release_prefix (insert s (ig_confirmed ig)) (ig_pending ig) None 0 of
        (released, count, conf, pending) \<Rightarrow>
          (released, count, ig\<lparr>ig_confirmed := conf, ig_pending := pending\<rparr>))"

text \<open>\<open>_maybe_save\<close>; \<open>None\<close> is an exception of \<open>save\<close>.\<close>

definition maybe_save :: "bool \<Rightarrow> Ingestor \<Rightarrow> disk \<Rightarrow> (Ingestor \<times> disk) option" where
  "maybe_save interval_over ig d =
     (if ig_unsaved ig \<noteq> 0 \<and> (SAVE_EVERY \<le> ig_unsaved ig \<or> interval_over)
      then (case payload_bytes (ig_checkpoint ig) of
              Inl _ \<Rightarrow> None
            | Inr _ \<Rightarrow> Some (ig\<lparr>ig_unsaved := 0\<rparr>, save_until Replaced (ig_checkpoint ig) d))
      else Some (ig, d))"

definition count_released :: "ustr option \<Rightarrow> int \<Rightarrow> Ingestor \<Rightarrow> Ingestor" where
  "count_released released count ig =
     (if count \<noteq> 0
      then ig\<lparr>ig_checkpoint := advance released count (ig_checkpoint ig), ig_unsaved := ig_unsaved ig + count\<rparr>
      else ig)"

definition on_delivery ::
  "bool \<Rightarrow> bool \<Rightarrow> int \<Rightarrow> Ingestor \<Rightarrow> disk \<Rightarrow> (Ingestor \<times> disk) option" where
  "on_delivery err interval_over s ig d =
     (if err then Some (ig\<lparr>ig_failed := True, ig_running := False\<rparr>, d)
      else
        (case confirm s ig of
           (released, count, ig1) \<Rightarrow> maybe_save interval_over (count_released released count ig1) d))"

text \<open>
  \<open>_send\<close>: the message joins the tracker once the producer has accepted it; when the local
  queue stays full, the ingestor stops.
\<close>

definition accepted :: "ustr option \<Rightarrow> Ingestor \<Rightarrow> Ingestor" where
  "accepted stream_id ig = register (ig_seq ig + 1) stream_id (ig\<lparr>ig_seq := ig_seq ig + 1\<rparr>)"

definition queue_full :: "Ingestor \<Rightarrow> Ingestor" where
  "queue_full ig = ig\<lparr>ig_failed := True, ig_running := False\<rparr>"

text \<open>\<open>shutdown\<close>, after the last reports of \<open>flush\<close>.\<close>

definition ig_shutdown :: "Ingestor \<Rightarrow> disk \<Rightarrow> disk" where
  "ig_shutdown ig d = (if ig_unsaved ig \<noteq> 0 then save_until Replaced (ig_checkpoint ig) d else d)"

subsection \<open>A run of the ingestor\<close>

text \<open>
  The stream gives an event at each position; \<open>resume_at\<close> is where the server goes on after
  an id. \<open>place\<close> and \<open>origin\<close> are kept for the statements only: the position of
  each message handed to the producer, and the position of the last connection made without an
  id, which starts wherever the stream then is.
\<close>

record ingest_world =
  proc :: Ingestor
  cursor :: "nat option"
  in_flight :: "int \<Rightarrow> outgoing option"
  topic_log :: "outgoing list"
  disk_of :: disk
  place :: "int \<Rightarrow> nat"
  origin :: nat

definition ingest_start :: ingest_world where
  "ingest_start =
     \<lparr>proc = new_ingestor new_checkpoint, cursor = None, in_flight = (\<lambda>_. None), topic_log = [],
      disk_of = \<lparr>target = None, temp = None\<rparr>, place = (\<lambda>_. 0), origin = 0\<rparr>"

definition start_again :: "Checkpoint \<Rightarrow> disk \<Rightarrow> ingest_world \<Rightarrow> ingest_world" where
  "start_again c d w =
     w\<lparr>proc := new_ingestor c, cursor := None, in_flight := (\<lambda>_. None), disk_of := d\<rparr>"

text \<open>
  A record is in the topic before its delivery is reported. A crash may come at any time, also in
  the middle of a save; an exception that nothing catches is such a crash.
\<close>

inductive ingest_step ::
  "ingest_setup \<Rightarrow> (nat \<Rightarrow> SSEEvent) \<Rightarrow> (ustr \<Rightarrow> nat) \<Rightarrow> ingest_world \<Rightarrow> ingest_world \<Rightarrow> bool"
  for env stream resume_at where
  connected_live: "ig_running (proc w) \<Longrightarrow> resume_header (ig_checkpoint (proc w)) = [] \<Longrightarrow>
    ingest_step env stream resume_at w (w\<lparr>cursor := Some p, origin := max (origin w) p\<rparr>)"
| connected_after: "ig_running (proc w) \<Longrightarrow> resume_header (ig_checkpoint (proc w)) = [(h, i)] \<Longrightarrow>
    ingest_step env stream resume_at w (w\<lparr>cursor := Some (resume_at i)\<rparr>)"
| disconnected: "ingest_step env stream resume_at w (w\<lparr>cursor := None\<rparr>)"
| error_event: "cursor w = Some p \<Longrightarrow> prepare env now (stream p) = Inr None \<Longrightarrow>
    ingest_step env stream resume_at w (w\<lparr>cursor := Some (Suc p)\<rparr>)"
| sent: "cursor w = Some p \<Longrightarrow> prepare env now (stream p) = Inr (Some m) \<Longrightarrow>
    ingest_step env stream resume_at w
      (w\<lparr>cursor := Some (Suc p), proc := accepted (sse_id (stream p)) (proc w),
         in_flight := (in_flight w)(ig_seq (proc w) + 1 := Some m),
         place := (place w)(ig_seq (proc w) + 1 := p)\<rparr>)"
| not_sent: "ingest_step env stream resume_at w (w\<lparr>cursor := None, proc := queue_full (proc w)\<rparr>)"
| written: "in_flight w s = Some m \<Longrightarrow>
    ingest_step env stream resume_at w (w\<lparr>topic_log := topic_log w @ [m]\<rparr>)"
| reported: "in_flight w s = Some m \<Longrightarrow> m \<in> set (topic_log w) \<or> err \<Longrightarrow>
    on_delivery err interval_over s (proc w) (disk_of w) = Some (ig, d) \<Longrightarrow>
    ingest_step env stream resume_at w
      (w\<lparr>proc := ig, disk_of := d, in_flight := (in_flight w)(s := None)\<rparr>)"
| stop_requested: "ingest_step env stream resume_at w (w\<lparr>proc := (proc w)\<lparr>ig_running := False\<rparr>\<rparr>)"
| shut_down: "\<not> ig_running (proc w) \<Longrightarrow> d = ig_shutdown (proc w) (disk_of w) \<Longrightarrow> load (target d) = Inr c \<Longrightarrow>
    ingest_step env stream resume_at w (start_again c d w)"
| process_died: "d = save_until stop (ig_checkpoint (proc w)) (disk_of w) \<Longrightarrow> load (target d) = Inr c \<Longrightarrow>
    ingest_step env stream resume_at w (start_again c d w)"

inductive ingest_reaches ::
  "ingest_setup \<Rightarrow> (nat \<Rightarrow> SSEEvent) \<Rightarrow> (ustr \<Rightarrow> nat) \<Rightarrow> ingest_world \<Rightarrow> bool"
  for env stream resume_at where
  ingest_begun: "ingest_reaches env stream resume_at ingest_start"
| ingest_went: "ingest_reaches env stream resume_at w \<Longrightarrow> ingest_step env stream resume_at w w' \<Longrightarrow>
    ingest_reaches env stream resume_at w'"

subsection \<open>The checkpoint never passes an event that is not in Kafka\<close>

text \<open>An event that needs no message, or whose message is in its topic.\<close>

definition covered :: "ingest_setup \<Rightarrow> (nat \<Rightarrow> SSEEvent) \<Rightarrow> outgoing list \<Rightarrow> nat \<Rightarrow> bool" where
  "covered env stream log p \<longleftrightarrow>
     (\<exists>now. prepare env now (stream p) = Inr None \<or>
        (\<exists>m \<in> set log. prepare env now (stream p) = Inr (Some m)))"

lemma covered_more: "covered env stream log p \<Longrightarrow> set log \<subseteq> set log' \<Longrightarrow> covered env stream log' p"
  unfolding covered_def by blast

text \<open>Up to \<open>n\<close>, every event is covered or waits in the queue \<open>ps\<close>.\<close>

definition settled ::
  "(nat \<Rightarrow> bool) \<Rightarrow> nat \<Rightarrow> (int \<Rightarrow> nat) \<Rightarrow> (int \<times> ustr option) list \<Rightarrow> nat \<Rightarrow> bool" where
  "settled cov from_pos pos ps n \<longleftrightarrow> (\<forall>j. from_pos \<le> j \<longrightarrow> j < n \<longrightarrow> cov j \<or> j \<in> pos ` fst ` set ps)"

definition safe_checkpoint :: "(nat \<Rightarrow> SSEEvent) \<Rightarrow> (nat \<Rightarrow> bool) \<Rightarrow> nat \<Rightarrow> Checkpoint \<Rightarrow> bool" where
  "safe_checkpoint stream cov from_pos c \<longleftrightarrow>
     (\<forall>i. last_event_id c = Some i \<longrightarrow> i \<noteq> [] \<and>
        (\<exists>n. sse_id (stream n) = Some i \<and> settled cov from_pos (\<lambda>_. 0) [] (Suc n)))"

lemma settled_weaken:
  assumes "settled cov from_pos pos ps n" and "\<And>j. cov j \<Longrightarrow> cov' j" and "from_pos \<le> from_pos'"
    and "\<And>q. q \<in> set ps \<Longrightarrow> q \<in> set ps' \<and> pos' (fst q) = pos (fst q) \<or> cov' (pos (fst q))"
  shows "settled cov' from_pos' pos' ps' n"
  using assms unfolding settled_def by (smt (verit) image_iff le_trans)

lemma safe_weaken:
  "safe_checkpoint stream cov from_pos c \<Longrightarrow> (\<And>j. cov j \<Longrightarrow> cov' j) \<Longrightarrow> from_pos \<le> from_pos' \<Longrightarrow>
   safe_checkpoint stream cov' from_pos' c"
  unfolding safe_checkpoint_def settled_def by fastforce

lemma safe_new: "safe_checkpoint stream cov from_pos new_checkpoint"
  by (simp add: safe_checkpoint_def new_checkpoint_def)

definition tracker_inv ::
  "ingest_setup \<Rightarrow> (nat \<Rightarrow> SSEEvent) \<Rightarrow> outgoing list \<Rightarrow> nat \<Rightarrow> (int \<Rightarrow> nat) \<Rightarrow> Ingestor \<Rightarrow> bool" where
  "tracker_inv env stream log from_pos pos ig \<longleftrightarrow>
     (\<forall>q \<in> set (ig_pending ig). fst q \<le> ig_seq ig \<and> snd q = sse_id (stream (pos (fst q)))) \<and>
     (\<forall>s \<in> ig_confirmed ig. s \<le> ig_seq ig \<and> covered env stream log (pos s)) \<and>
     (\<forall>xs q ys. ig_pending ig = xs @ q # ys \<longrightarrow>
        settled (covered env stream log) from_pos pos (xs @ [q]) (Suc (pos (fst q)))) \<and>
     safe_checkpoint stream (covered env stream log) from_pos (ig_checkpoint ig)"

lemma tracker_invD:
  assumes "tracker_inv env stream log from_pos pos ig"
  shows "q \<in> set (ig_pending ig) \<Longrightarrow> fst q \<le> ig_seq ig \<and> snd q = sse_id (stream (pos (fst q)))"
    and "s \<in> ig_confirmed ig \<Longrightarrow> s \<le> ig_seq ig \<and> covered env stream log (pos s)"
    and "ig_pending ig = xs @ q # ys \<Longrightarrow> settled (covered env stream log) from_pos pos (xs @ [q]) (Suc (pos (fst q)))"
    and "safe_checkpoint stream (covered env stream log) from_pos (ig_checkpoint ig)"
  using assms unfolding tracker_inv_def by blast+

lemma tracker_inv_weaken:
  assumes "tracker_inv env stream log from_pos pos ig" and "set log \<subseteq> set log'" and "from_pos \<le> from_pos'"
  shows "tracker_inv env stream log' from_pos' pos ig"
  unfolding tracker_inv_def
proof (intro conjI ballI allI impI)
  note D = tracker_invD [OF assms(1)]
  have more: "\<And>j. covered env stream log j \<Longrightarrow> covered env stream log' j" using covered_more assms(2) by blast
  show "safe_checkpoint stream (covered env stream log') from_pos' (ig_checkpoint ig)"
    using safe_weaken [OF D(4) more assms(3)] .
  fix xs q ys assume "ig_pending ig = xs @ q # ys"
  show "settled (covered env stream log') from_pos' pos (xs @ [q]) (Suc (pos (fst q)))"
    by (rule settled_weaken [OF D(3) [OF \<open>ig_pending ig = xs @ q # ys\<close>]]) (use more assms(3) in blast)+
qed (use tracker_invD [OF assms(1)] covered_more [OF _ assms(2)] in blast)+

lemma release_prefix_spec:
  "release_prefix conf ps r n = (r', n', conf', rest) \<Longrightarrow>
   \<exists>gone. ps = gone @ rest \<and> fst ` set gone \<subseteq> conf \<and> conf' \<subseteq> conf \<and> n' = n + int (length gone) \<and>
     (r' = r \<or> present r' \<and> (\<exists>xs s ys. gone = xs @ (s, r') # ys))"
proof (induction conf ps r n rule: release_prefix.induct)
  case (2 conf s i pending released count)
  show ?case
  proof (cases "s \<in> conf")
    case True
    with 2 obtain gone where d: "pending = gone @ rest" "fst ` set gone \<subseteq> conf - {s}" "conf' \<subseteq> conf - {s}"
        "n' = count + 1 + int (length gone)"
        "r' = (if present i then i else released) \<or> present r' \<and> (\<exists>xs s ys. gone = xs @ (s, r') # ys)"
      by auto
    have "r' = released \<or> present r' \<and> (\<exists>xs s' ys. (s, i) # gone = xs @ (s', r') # ys)"
    proof (cases "present r' \<and> (\<exists>xs s ys. gone = xs @ (s, r') # ys)")
      case True
      then show ?thesis by (metis append_Cons)
    next
      case False
      then have "r' = (if present i then i else released)" using d(5) by blast
      then show ?thesis by (metis append_Nil)
    qed
    with d True show ?thesis by (intro exI [of _ "(s, i) # gone"]) auto
  qed (use 2 in auto)
qed auto

lemma tracker_confirm:
  assumes inv: "tracker_inv env stream log from_pos pos ig" and s: "s \<le> ig_seq ig" "covered env stream log (pos s)"
    and c: "confirm s ig = (released, count, ig1)"
  shows "tracker_inv env stream log from_pos pos (count_released released count ig1)"
    and "ig_seq (count_released released count ig1) = ig_seq ig"
    and "settled (covered env stream log) from_pos pos (ig_pending ig) n \<Longrightarrow>
         settled (covered env stream log) from_pos pos (ig_pending (count_released released count ig1)) n"
proof -
  let ?cov = "covered env stream log"
  note D = tracker_invD [OF inv]
  obtain conf rest where r: "release_prefix (insert s (ig_confirmed ig)) (ig_pending ig) None 0 = (released, count, conf, rest)"
    and ig1: "ig1 = ig\<lparr>ig_confirmed := conf, ig_pending := rest\<rparr>"
    using c by (auto simp: confirm_def split: prod.splits)
  from release_prefix_spec [OF r] obtain gone where d: "ig_pending ig = gone @ rest"
    "fst ` set gone \<subseteq> insert s (ig_confirmed ig)" "conf \<subseteq> insert s (ig_confirmed ig)" "count = int (length gone)"
    "released = None \<or> present released \<and> (\<exists>xs s ys. gone = xs @ (s, released) # ys)" by auto
  have cov: "?cov (pos (fst q))" if "q \<in> set gone" for q using that d(2) s(2) D(2) by auto
  have drop_done: "settled ?cov from_pos pos ps n" if "settled ?cov from_pos pos (gone @ ps) n" for ps n
    by (rule settled_weaken [OF that]) (use cov in auto)
  have pend: "ig_pending (count_released released count ig1) = rest" "ig_confirmed (count_released released count ig1) = conf"
    "ig_seq (count_released released count ig1) = ig_seq ig"
    by (simp_all add: count_released_def ig1)
  then show "ig_seq (count_released released count ig1) = ig_seq ig" by simp
  show "settled ?cov from_pos pos (ig_pending ig) n \<Longrightarrow>
         settled ?cov from_pos pos (ig_pending (count_released released count ig1)) n"
    unfolding pend(1) d(1) by (rule drop_done)
  have ck: "ig_checkpoint (count_released released count ig1) =
      (if count \<noteq> 0 then advance released count (ig_checkpoint ig) else ig_checkpoint ig)"
    by (simp add: count_released_def ig1)
  have safe: "safe_checkpoint stream ?cov from_pos (ig_checkpoint (count_released released count ig1))"
  proof (cases "present released \<and> count \<noteq> 0")
    case False
    then have "last_event_id (ig_checkpoint (count_released released count ig1)) = last_event_id (ig_checkpoint ig)"
      by (auto simp: ck advance_def)
    with D(4) show ?thesis by (simp add: safe_checkpoint_def)
  next
    case True
    then obtain xs t ys where q: "gone = xs @ (t, released) # ys" using d(5) by (auto simp: present_def)
    then have "ig_pending ig = xs @ (t, released) # (ys @ rest)" using d(1) by simp
    from D(3) [OF this] have "settled ?cov from_pos pos (xs @ [(t, released)]) (Suc (pos t))" by simp
    then have "settled ?cov from_pos (\<lambda>_. 0) [] (Suc (pos t))"
      by (rule settled_weaken) (use cov q in auto)
    note set = this
    have sid: "sse_id (stream (pos t)) = released" using D(1) [of "(t, released)"] q d(1) by simp
    have last: "last_event_id (ig_checkpoint (count_released released count ig1)) = released"
      using True unfolding ck by (simp add: advance_def)
    show ?thesis unfolding safe_checkpoint_def last
    proof (intro allI impI conjI exI)
      fix i assume i: "released = Some i"
      then show "i \<noteq> []" using True by (simp add: present_def)
      show "sse_id (stream (pos t)) = Some i" using sid i by simp
    qed (rule set)
  qed
  show "tracker_inv env stream log from_pos pos (count_released released count ig1)"
    unfolding tracker_inv_def pend
  proof (intro conjI ballI allI impI)
    fix xs q ys assume "rest = xs @ q # ys"
    then have "ig_pending ig = (gone @ xs) @ q # ys" using d(1) by simp
    from D(3) [OF this] have "settled ?cov from_pos pos (gone @ xs @ [q]) (Suc (pos (fst q)))" by simp
    then show "settled ?cov from_pos pos (xs @ [q]) (Suc (pos (fst q)))"
      by (rule drop_done)
  next
    fix q assume "q \<in> set rest"
    then have "q \<in> set (ig_pending ig)" using d(1) by simp
    from D(1) [OF this] show "fst q \<le> ig_seq ig" "snd q = sse_id (stream (pos (fst q)))" by blast+
  next
    fix t assume "t \<in> conf"
    then have "t = s \<or> t \<in> ig_confirmed ig" using d(3) by blast
    then show "t \<le> ig_seq ig" "?cov (pos t)" using s D(2) by blast+
  qed (rule safe)
qed

definition ingest_inv ::
  "ingest_setup \<Rightarrow> (nat \<Rightarrow> SSEEvent) \<Rightarrow> ingest_world \<Rightarrow> bool" where
  "ingest_inv env stream w \<longleftrightarrow>
     tracker_inv env stream (topic_log w) (origin w) (place w) (proc w) \<and>
     (\<forall>s m. in_flight w s = Some m \<longrightarrow> s \<le> ig_seq (proc w) \<and>
        (\<exists>now. prepare env now (stream (place w s)) = Inr (Some m))) \<and>
     (\<forall>r. cursor w = Some r \<longrightarrow>
        settled (covered env stream (topic_log w)) (origin w) (place w) (ig_pending (proc w)) r) \<and>
     (\<forall>c. load (target (disk_of w)) = Inr c \<longrightarrow>
        safe_checkpoint stream (covered env stream (topic_log w)) (origin w) c)"

lemma ingest_invI:
  assumes "tracker_inv env stream (topic_log w) (origin w) (place w) (proc w)"
    and "\<And>s m. in_flight w s = Some m \<Longrightarrow> s \<le> ig_seq (proc w) \<and>
        (\<exists>now. prepare env now (stream (place w s)) = Inr (Some m))"
    and "\<And>r. cursor w = Some r \<Longrightarrow>
        settled (covered env stream (topic_log w)) (origin w) (place w) (ig_pending (proc w)) r"
    and "\<And>c. load (target (disk_of w)) = Inr c \<Longrightarrow>
        safe_checkpoint stream (covered env stream (topic_log w)) (origin w) c"
  shows "ingest_inv env stream w"
  using assms unfolding ingest_inv_def by blast

lemma ingest_invD:
  assumes "ingest_inv env stream w"
  shows "tracker_inv env stream (topic_log w) (origin w) (place w) (proc w)"
    and "in_flight w s = Some m \<Longrightarrow> s \<le> ig_seq (proc w) \<and>
        (\<exists>now. prepare env now (stream (place w s)) = Inr (Some m))"
    and "cursor w = Some r \<Longrightarrow>
        settled (covered env stream (topic_log w)) (origin w) (place w) (ig_pending (proc w)) r"
    and "load (target (disk_of w)) = Inr c \<Longrightarrow>
        safe_checkpoint stream (covered env stream (topic_log w)) (origin w) c"
  using assms unfolding ingest_inv_def by blast+

text \<open>A save, wherever it stops, leaves a file that is still safe to resume from.\<close>

lemma save_safe:
  assumes "safe_checkpoint stream cov from_pos c"
    and "\<And>c'. load (target d) = Inr c' \<Longrightarrow> safe_checkpoint stream cov from_pos c'"
    and "\<forall>n i. sse_id (stream n) = Some i \<longrightarrow> encodable i"
    and "load (target (save_until stop c d)) = Inr c'"
  shows "safe_checkpoint stream cov from_pos c'"
proof -
  have ok: "\<forall>s. last_event_id c = Some s \<longrightarrow> encodable s \<and> s \<noteq> []"
    using assms(1,3) unfolding safe_checkpoint_def by blast
  show ?thesis
  proof (cases "payload_bytes c")
    case (Inl e)
    with assms(2,4) show ?thesis by (simp add: save_until_def)
  next
    case (Inr b)
    with assms load_saved [OF Inr ok] show ?thesis by (cases stop) (auto simp: save_until_def)
  qed
qed

lemma tracker_inv_new:
  "safe_checkpoint stream (covered env stream log) from_pos c \<Longrightarrow> tracker_inv env stream log from_pos pos (new_ingestor c)"
  by (simp add: tracker_inv_def new_ingestor_def)

lemma tracker_inv_cong:
  "tracker_inv env stream log from_pos pos ig \<Longrightarrow> ig_pending ig' = ig_pending ig \<Longrightarrow>
   ig_confirmed ig' = ig_confirmed ig \<Longrightarrow> ig_seq ig' = ig_seq ig \<Longrightarrow> ig_checkpoint ig' = ig_checkpoint ig \<Longrightarrow>
   tracker_inv env stream log from_pos pos ig'"
  by (simp add: tracker_inv_def)

lemma inv_start_again:
  assumes "ingest_inv env stream w" and "load (target d) = Inr c"
    and "safe_checkpoint stream (covered env stream (topic_log w)) (origin w) c"
  shows "ingest_inv env stream (start_again c d w)"
  by (rule ingest_invI) (use assms tracker_inv_new in \<open>auto simp: start_again_def\<close>)

lemma tracker_accepted:
  assumes inv: "tracker_inv env stream log from_pos pos ig"
    and cur: "settled (covered env stream log) from_pos pos (ig_pending ig) r"
  defines "s \<equiv> ig_seq ig + 1"
  shows "tracker_inv env stream log from_pos (pos(s := r)) (accepted (sse_id (stream r)) ig)"
    and "settled (covered env stream log) from_pos (pos(s := r)) (ig_pending (accepted (sse_id (stream r)) ig)) (Suc r)"
proof -
  let ?cov = "covered env stream log"
  note D = tracker_invD [OF inv]
  have pend: "ig_pending (accepted (sse_id (stream r)) ig) = ig_pending ig @ [(s, sse_id (stream r))]"
    "ig_confirmed (accepted (sse_id (stream r)) ig) = ig_confirmed ig" "ig_seq (accepted (sse_id (stream r)) ig) = s"
    "ig_checkpoint (accepted (sse_id (stream r)) ig) = ig_checkpoint ig"
    by (simp_all add: accepted_def register_def s_def)
  have old: "fst q < s" if "q \<in> set (ig_pending ig)" for q using D(1) [OF that] by (simp add: s_def)
  have keep: "settled ?cov from_pos (pos(s := r)) ps n" if "settled ?cov from_pos pos ps n" "set ps \<subseteq> set (ig_pending ig)" for ps n
    by (rule settled_weaken [OF that(1)]) (use that(2) old in force)+
  have "settled ?cov from_pos (pos(s := r)) (ig_pending ig) r" by (rule keep [OF cur]) simp
  then show new: "settled ?cov from_pos (pos(s := r)) (ig_pending (accepted (sse_id (stream r)) ig)) (Suc r)"
    unfolding pend settled_def by (auto simp: less_Suc_eq)
  show "tracker_inv env stream log from_pos (pos(s := r)) (accepted (sse_id (stream r)) ig)"
    unfolding tracker_inv_def pend
  proof (intro conjI ballI allI impI)
    fix xs q ys assume split: "ig_pending ig @ [(s, sse_id (stream r))] = xs @ q # ys"
    show "settled ?cov from_pos (pos(s := r)) (xs @ [q]) (Suc ((pos(s := r)) (fst q)))"
    proof (cases ys rule: rev_cases)
      case Nil
      then have "xs = ig_pending ig" "q = (s, sse_id (stream r))" using split by auto
      with new show ?thesis by (simp add: pend)
    next
      case (snoc zs z)
      then have p: "ig_pending ig = xs @ q # zs" using split by auto
      then have "(pos(s := r)) (fst q) = pos (fst q)" using old [of q] by auto
      then show ?thesis using keep [OF D(3) [OF p]] p by auto
    qed
  next
    fix q assume "q \<in> set (ig_pending ig @ [(s, sse_id (stream r))])"
    then show "fst q \<le> s" "snd q = sse_id (stream ((pos(s := r)) (fst q)))"
      using D(1) [of q] old [of q] by (auto simp: s_def)
  next
    fix t assume "t \<in> ig_confirmed ig"
    then show "t \<le> s" "?cov ((pos(s := r)) t)" using D(2) [of t] by (auto simp: s_def)
  qed (use D(4) in blast)
qed

lemma on_delivery_fields:
  assumes "maybe_save interval_over ig d = Some (ig', d')"
  shows "ig_pending ig' = ig_pending ig" "ig_confirmed ig' = ig_confirmed ig" "ig_seq ig' = ig_seq ig"
    "ig_checkpoint ig' = ig_checkpoint ig" "d' = d \<or> d' = save_until Replaced (ig_checkpoint ig) d"
  using assms by (auto simp: maybe_save_def split: if_splits sum.splits)

lemma inv_reported:
  assumes inv: "ingest_inv env stream w" and f: "in_flight w s = Some m" and m: "m \<in> set (topic_log w) \<or> err"
    and o: "on_delivery err interval_over s (proc w) (disk_of w) = Some (ig, d)"
    and enc: "\<forall>n i. sse_id (stream n) = Some i \<longrightarrow> encodable i"
  shows "ingest_inv env stream (w\<lparr>proc := ig, disk_of := d, in_flight := (in_flight w)(s := None)\<rparr>)"
proof -
  note D = ingest_invD [OF inv]
  let ?w' = "w\<lparr>proc := ig, disk_of := d, in_flight := (in_flight w)(s := None)\<rparr>"
  let ?cov = "covered env stream (topic_log w)"
  have new: "tracker_inv env stream (topic_log w) (origin w) (place w) ig \<and> ig_seq ig = ig_seq (proc w) \<and>
      (\<forall>n. settled ?cov (origin w) (place w) (ig_pending (proc w)) n \<longrightarrow>
         settled ?cov (origin w) (place w) (ig_pending ig) n) \<and>
      (d = disk_of w \<or> d = save_until Replaced (ig_checkpoint ig) (disk_of w))"
  proof (cases err)
    case True
    then have "ig = (proc w)\<lparr>ig_failed := True, ig_running := False\<rparr>" "d = disk_of w"
      using o by (auto simp: on_delivery_def)
    then show ?thesis using D(1) by (simp add: tracker_inv_cong)
  next
    case False
    obtain released count ig1 where c: "confirm s (proc w) = (released, count, ig1)" by (cases "confirm s (proc w)")
    with o False have ms: "maybe_save interval_over (count_released released count ig1) (disk_of w) = Some (ig, d)"
      by (simp add: on_delivery_def)
    have "?cov (place w s)" using D(2) [OF f] m False unfolding covered_def by blast
    note t = tracker_confirm [OF D(1) _ this c] and ms = on_delivery_fields [OF ms]
    have sq: "s \<le> ig_seq (proc w)" using D(2) [OF f] by blast
    from t(1) [OF sq] have "tracker_inv env stream (topic_log w) (origin w) (place w) ig"
      by (rule tracker_inv_cong) (use ms in simp_all)
    with t(2,3) [OF sq] ms show ?thesis by simp
  qed
  show ?thesis
  proof (rule ingest_invI)
    show "tracker_inv env stream (topic_log ?w') (origin ?w') (place ?w') (proc ?w')" using new by simp
    fix c assume "load (target (disk_of ?w')) = Inr c"
    then have l: "load (target d) = Inr c" by simp
    have "safe_checkpoint stream ?cov (origin w) c"
    proof (cases "d = disk_of w")
      case False
      with new have d: "d = save_until Replaced (ig_checkpoint ig) (disk_of w)" by blast
      show ?thesis using save_safe [OF tracker_invD(4) [OF conjunct1 [OF new]] D(4) enc l [unfolded d]] .
    qed (use l D(4) in blast)
    then show "safe_checkpoint stream (covered env stream (topic_log ?w')) (origin ?w') c" by simp
  qed (use new D(2,3) in \<open>auto split: if_splits\<close>)
qed

lemma inv_ingest_step:
  assumes "ingest_step env stream resume_at w w'" and inv: "ingest_inv env stream w"
    and enc: "\<forall>n i. sse_id (stream n) = Some i \<longrightarrow> encodable i"
    and res: "\<forall>n i. sse_id (stream n) = Some i \<longrightarrow> resume_at i \<le> Suc n"
  shows "ingest_inv env stream w'"
  using assms(1)
proof cases
  case (connected_live p)
  note D = ingest_invD [OF inv]
  let ?cov = "covered env stream (topic_log w)"
  show ?thesis unfolding connected_live(1)
  proof (rule ingest_invI, goal_cases)
    case 1
    show ?case using tracker_inv_weaken [OF D(1), of "topic_log w" "max (origin w) p"] by simp
  next
    case (3 r)
    then show ?case by (auto simp: settled_def)
  next
    case (4 c)
    then show ?case using safe_weaken [OF D(4), of c ?cov "max (origin w) p"] by simp
  qed (use D in auto)
next
  case (connected_after h i)
  note D = ingest_invD [OF inv]
  let ?cov = "covered env stream (topic_log w)"
  have "last_event_id (ig_checkpoint (proc w)) = Some i"
    using connected_after(3) by (auto simp: resume_header_def split: option.splits if_splits)
  then obtain n where n: "sse_id (stream n) = Some i" "settled ?cov (origin w) (\<lambda>_. 0) [] (Suc n)"
    using tracker_invD(4) [OF D(1)] unfolding safe_checkpoint_def by blast
  have "resume_at i \<le> Suc n" using res n(1) by blast
  with n(2) have "settled ?cov (origin w) (place w) (ig_pending (proc w)) (resume_at i)" by (simp add: settled_def)
  then show ?thesis unfolding connected_after(1) by (intro ingest_invI) (use D in auto)
next
  case disconnected
  show ?thesis unfolding disconnected by (rule ingest_invI) (use ingest_invD [OF inv] in auto)
next
  case (error_event p now)
  note D = ingest_invD [OF inv]
  have "covered env stream (topic_log w) p" using error_event(3) by (auto simp: covered_def)
  then have "settled (covered env stream (topic_log w)) (origin w) (place w) (ig_pending (proc w)) (Suc p)"
    using D(3) [OF error_event(2)] by (auto simp: settled_def less_Suc_eq)
  then show ?thesis unfolding error_event(1) by (intro ingest_invI) (use D in auto)
next
  case (sent p now m)
  note D = ingest_invD [OF inv]
  let ?s = "ig_seq (proc w) + 1"
  note t = tracker_accepted [OF D(1) D(3) [OF sent(2)]]
  have sq: "ig_seq (accepted (sse_id (stream p)) (proc w)) = ?s" by (simp add: accepted_def register_def)
  show ?thesis unfolding sent(1)
  proof (rule ingest_invI, goal_cases)
    case (2 s' m')
    then show ?case using D(2) [of s' m'] sent(3) by (auto simp: sq split: if_splits)
  qed (use t D in auto)
next
  case not_sent
  show ?thesis unfolding not_sent
    by (rule ingest_invI) (use ingest_invD [OF inv] in \<open>auto simp: queue_full_def intro: tracker_inv_cong\<close>)
next
  case (written s m)
  note D = ingest_invD [OF inv]
  have more: "set (topic_log w) \<subseteq> set (topic_log w @ [m])" by auto
  have cov: "\<And>j. covered env stream (topic_log w) j \<Longrightarrow> covered env stream (topic_log w @ [m]) j"
    using covered_more more by blast
  show ?thesis unfolding written(1)
  proof (rule ingest_invI, goal_cases)
    case 1
    show ?case using tracker_inv_weaken [OF D(1) more order_refl] by simp
  next
    case (3 r)
    then have "settled (covered env stream (topic_log w)) (origin w) (place w) (ig_pending (proc w)) r" using D(3) by simp
    then show ?case using cov by (auto simp: settled_def)
  next
    case (4 c)
    then show ?case using safe_weaken [OF D(4) cov order_refl] by simp
  qed (use D(2) in auto)
next
  case (reported s m err interval_over ig d)
  from inv_reported [OF inv reported(2-4) enc] show ?thesis unfolding reported(1) .
next
  case stop_requested
  show ?thesis unfolding stop_requested
    by (rule ingest_invI) (use ingest_invD [OF inv] in \<open>auto intro: tracker_inv_cong\<close>)
next
  case (shut_down d c)
  note D = ingest_invD [OF inv]
  have "safe_checkpoint stream (covered env stream (topic_log w)) (origin w) c"
    using shut_down(3,4) D(4) save_safe [OF tracker_invD(4) [OF D(1)] D(4) enc]
    by (auto simp: ig_shutdown_def split: if_splits)
  then show ?thesis unfolding shut_down(1) using inv_start_again [OF inv shut_down(4)] by blast
next
  case (process_died d stop c)
  note D = ingest_invD [OF inv]
  have "safe_checkpoint stream (covered env stream (topic_log w)) (origin w) c"
    using save_safe [OF tracker_invD(4) [OF D(1)] D(4) enc] process_died(2,3) by blast
  then show ?thesis unfolding process_died(1) using inv_start_again [OF inv process_died(3)] by blast
qed

lemma inv_ingest_reaches:
  assumes "ingest_reaches env stream resume_at w"
    and "\<forall>n i. sse_id (stream n) = Some i \<longrightarrow> encodable i"
    and "\<forall>n i. sse_id (stream n) = Some i \<longrightarrow> resume_at i \<le> Suc n"
  shows "ingest_inv env stream w"
  using assms(1)
proof (induction rule: ingest_reaches.induct)
  case ingest_begun
  have "load (target (disk_of ingest_start)) = Inr new_checkpoint" by (simp add: ingest_start_def load_def)
  then show ?case
    by (intro ingest_invI) (use safe_new tracker_inv_new in \<open>auto simp: ingest_start_def\<close>)
qed (rule inv_ingest_step [OF _ _ assms(2,3)])

lemma never_skips:
  assumes "ingest_reaches env stream resume_at w"
    and "\<forall>n i. sse_id (stream n) = Some i \<longrightarrow> encodable i"
    and "\<forall>n i. sse_id (stream n) = Some i \<longrightarrow> resume_at i \<le> Suc n"
    and "load (target (disk_of w)) = Inr c" and "resume_header c = [(h, i)]"
    and "origin w \<le> p" and "p < resume_at i"
  shows "covered env stream (topic_log w) p"
proof -
  have i: "last_event_id c = Some i"
    using assms(5) by (auto simp: resume_header_def split: option.splits if_splits)
  have "safe_checkpoint stream (covered env stream (topic_log w)) (origin w) c"
    using ingest_invD(4) [OF inv_ingest_reaches [OF assms(1-3)] assms(4)] .
  then obtain n where n: "sse_id (stream n) = Some i"
      "settled (covered env stream (topic_log w)) (origin w) (\<lambda>_. 0) [] (Suc n)"
    using i unfolding safe_checkpoint_def by blast
  have "p < Suc n" using assms(3,7) n(1) by (meson le_trans not_le)
  with n(2) assms(6) show ?thesis by (auto simp: settled_def)
qed

text \<open>
  C5. The ingestor never skips an event. At any moment of a run with reconnections, failed
  deliveries, a full queue, stops and crashes, also in the middle of a save: if the process starts
  again from the checkpoint file, every event between the last connection that was made without
  an id and the place where the server resumes is in Kafka, in \<^verbatim>\<open>wiki.raw\<close> or in
  \<^verbatim>\<open>wiki.dlq\<close>, or needs no message. The server is assumed to resume after the id at the
  latest.
\<close>

theorem ingestor_never_skips:
  assumes "ingest_reaches env stream resume_at w"
    and "\<forall>n i. sse_id (stream n) = Some i \<longrightarrow> encodable i"
    and "\<forall>n i. sse_id (stream n) = Some i \<longrightarrow> resume_at i \<le> Suc n"
    and "load (target (disk_of w)) = Inr c" and "resume_header c = [(h, i)]"
    and "origin w \<le> p" and "p < resume_at i"
  shows "\<exists>now. prepare env now (stream p) = Inr None \<or>
    (\<exists>m \<in> set (topic_log w). prepare env now (stream p) = Inr (Some m))"
  using never_skips [OF assms] unfolding covered_def .

lemma prepare_surrogate:
  assumes "sse_event e \<noteq> ascii ''error''" and "parse_raw (Text (sse_data e)) = Inr r"
    and "event_id_of r = Inr key" and "\<exists>ch \<in> set (dumps (rt_float_repr (is_runtime env)) (JObj r)). surrogate ch"
  shows "prepare env now e = Inl UnicodeEncodeError"
proof -
  have "utf8_encode key = Inl UnicodeEncodeError \<or> (\<exists>k. utf8_encode key = Inr k)"
    by (induction key) (auto simp: bind_res_Inr_iff split: option.split)
  then show ?thesis
    using assms utf8_encode_surrogate [OF assms(4)] by (auto simp: prepare_def to_raw_def)
qed

text \<open>
  One event the ingestor cannot encode stops it for good. An event whose JSON holds a lone
  surrogate escape, as a cut comment may, is parsed and then raises \<open>UnicodeEncodeError\<close>,
  which nothing catches. The process dies, and as nothing about the event was sent, no checkpoint
  ever lets the server resume after it: every restart reads it again and dies again. It is not sent
  to the dead letters either.
\<close>

theorem surrogate_event_stops_ingestor:
  assumes "ingest_reaches env stream resume_at w"
    and "\<forall>n i. sse_id (stream n) = Some i \<longrightarrow> encodable i"
    and "\<forall>n i. sse_id (stream n) = Some i \<longrightarrow> resume_at i \<le> Suc n"
    and "sse_event (stream p) \<noteq> ascii ''error''" and "parse_raw (Text (sse_data (stream p))) = Inr r"
    and "event_id_of r = Inr key" and "\<exists>ch \<in> set (dumps (rt_float_repr (is_runtime env)) (JObj r)). surrogate ch"
    and "load (target (disk_of w)) = Inr c" and "resume_header c = [(h, i)]" and "origin w \<le> p"
  shows "prepare env now (stream p) = Inl UnicodeEncodeError \<and> resume_at i \<le> p"
proof -
  have bad: "prepare env now (stream p) = Inl UnicodeEncodeError" for now
    using prepare_surrogate [OF assms(4-7)] .
  then have "\<not> covered env stream (topic_log w) p" by (simp add: covered_def)
  then have "\<not> p < resume_at i" using never_skips [OF assms(1-3,8,9,10)] by blast
  with bad show ?thesis by simp
qed

subsection \<open>A run\<close>

definition good_raw :: raw where
  "good_raw = [(ascii ''meta'', JObj [(ascii ''id'', JStr (ascii ''a1''))])]"

definition good_data :: ustr where
  "good_data = dumps id (JObj good_raw)"

lemma good_parses: "parse_raw (Text good_data) = Inr good_raw"
proof -
  have "json_loads good_data = Inr (JObj good_raw)"
    unfolding good_data_def by (rule json_loads_dumps) (simp add: good_raw_def)
  then show ?thesis by (simp add: parse_text_def)
qed

text \<open>The same event with a comment that was cut inside an emoji.\<close>

definition bad_data :: ustr where
  "bad_data = 123 # quote_str (ascii ''meta'') @ 58 # 32 # dumps id (JObj [(ascii ''id'', JStr (ascii ''a1''))]) @
     44 # 32 # quote_str (ascii ''comment'') @ 58 # 32 # (34 # hex4_of 0xD83D @ [34]) @ 125 # []"

definition bad_raw :: raw where
  "bad_raw = good_raw @ [(ascii ''comment'', JStr [0xD83D])]"

lemma bad_parses: "parse_raw (Text bad_data) = Inr bad_raw"
proof -
  let ?t1 = "dumps id (JObj [(ascii ''id'', JStr (ascii ''a1''))])"
  have ok: "json_ok (JObj [(ascii ''id'', JStr (ascii ''a1''))])" by simp
  have x1: "pvalue n (?t1 @ 44 # r) = Inr (JObj [(ascii ''id'', JStr (ascii ''a1''))], 44 # r)" if "length ?t1 \<le> n" for n r
    using reads_back_dumps [OF ok, of id] that by (simp del: pvalue.simps)
  have "pstring (hex4_of 0xD83D @ 34 # 125 # []) = Inr ([0xD83D], 125 # [])"
    by (simp add: hex4_of_def hex4_def hex_val_def hex_char_def low_escape_def cons_res_def)
  then have x2: "pvalue n ((34 # hex4_of 0xD83D @ [34]) @ 125 # []) = Inr (JStr [0xD83D], 125 # [])"
    if "length (34 # hex4_of 0xD83D @ [34]) \<le> n" for n
    using pvalue_quoted that by blast
  have "json_loads bad_data = Inr (JObj bad_raw)"
    unfolding bad_data_def
    by (subst json_loads_pair [OF x1 x2]) (simp_all add: bad_raw_def good_raw_def json_ws_def)
  then show ?thesis by (simp add: parse_text_def)
qed

definition sample_stream :: "nat \<Rightarrow> SSEEvent" where
  "sample_stream p = (if p = 0 then \<lparr>sse_event = MESSAGE, sse_data = good_data, sse_id = Some (ascii ''7'')\<rparr>
     else \<lparr>sse_event = MESSAGE, sse_data = bad_data, sse_id = Some (ascii ''8'')\<rparr>)"

definition sample_resume :: "ustr \<Rightarrow> nat" where
  "sample_resume i = (if i = ascii ''7'' then 1 else 2)"

definition sample_setup :: ingest_setup where
  "sample_setup = \<lparr>is_runtime = plain_runtime, is_raw = ascii ''wiki.raw'', is_dlq = ascii ''wiki.dlq'', is_url = []\<rparr>"

lemma sample_stream_ok:
  "\<forall>n i. sse_id (sample_stream n) = Some i \<longrightarrow> encodable i"
  "\<forall>n i. sse_id (sample_stream n) = Some i \<longrightarrow> sample_resume i \<le> Suc n"
  by (auto simp: sample_stream_def sample_resume_def)

lemma sample_first: "\<exists>m. prepare sample_setup now (sample_stream 0) = Inr (Some m)"
proof -
  have "MESSAGE \<noteq> ascii ''error''" by (simp add: MESSAGE_def)
  moreover have "event_id_of good_raw = Inr (ascii ''a1'')" by (simp add: event_id_of_def good_raw_def)
  moreover have "\<exists>k. utf8_encode (ascii ''a1'') = Inr k" "\<exists>v. utf8_encode (dumps id (JObj good_raw)) = Inr v"
    by (rule utf8_encode_ok, simp add: good_raw_def surrogate_def)+
  ultimately show ?thesis
    using good_parses by (auto simp: prepare_def to_raw_def sample_stream_def sample_setup_def plain_runtime_def)
qed

abbreviation saved_first :: Checkpoint where
  "saved_first \<equiv> \<lparr>last_event_id = Some (ascii ''7''), events_confirmed = 1\<rparr>"

lemma sample_ingest_run:
  "\<exists>w. ingest_reaches sample_setup sample_stream sample_resume w \<and> origin w = 0 \<and>
     load (target (disk_of w)) = Inr saved_first"
proof -
  obtain m where m: "prepare sample_setup [] (sample_stream 0) = Inr (Some m)" using sample_first by blast
  let ?w0 = "ingest_start"
  let ?w1 = "?w0\<lparr>cursor := Some 0, origin := max (origin ?w0) 0\<rparr>"
  let ?w2 = "?w1\<lparr>cursor := Some (Suc 0), proc := accepted (sse_id (sample_stream 0)) (proc ?w1),
         in_flight := (in_flight ?w1)(ig_seq (proc ?w1) + 1 := Some m),
         place := (place ?w1)(ig_seq (proc ?w1) + 1 := 0)\<rparr>"
  let ?w3 = "?w2\<lparr>topic_log := topic_log ?w2 @ [m]\<rparr>"
  have s1: "ingest_step sample_setup sample_stream sample_resume ?w0 ?w1"
    by (rule connected_live) (simp_all add: ingest_start_def new_ingestor_def new_checkpoint_def resume_header_def)
  have s2: "ingest_step sample_setup sample_stream sample_resume ?w1 ?w2"
    by (rule sent [where now = "[]"]) (use m in simp_all)
  have s3: "ingest_step sample_setup sample_stream sample_resume ?w2 ?w3"
    by (rule written [where s = 1]) (simp add: ingest_start_def new_ingestor_def)
  have r3: "ingest_reaches sample_setup sample_stream sample_resume ?w3"
    using ingest_went [OF ingest_went [OF ingest_went [OF ingest_begun s1] s2] s3] .
  have p: "proc ?w3 = (new_ingestor new_checkpoint)\<lparr>ig_seq := 1, ig_pending := [(1, Some (ascii ''7''))]\<rparr>"
    by (simp add: ingest_start_def new_ingestor_def accepted_def register_def sample_stream_def)
  obtain b where b: "payload_bytes saved_first = Inr b"
  proof -
    have "\<exists>b. utf8_encode (ascii ''{\"last_event_id\": '' @ quote_ascii (ascii ''7'') @
        ascii '', \"events_confirmed\": '' @ int_repr 1 @ ascii ''}'') = Inr b"
      by (rule utf8_encode_ok)
        (simp add: quote_ascii_def ascii_char_def ascii_def int_repr_def digits_of.simps surrogate_def)
    then show ?thesis
      using that by (auto simp: payload_bytes_def checkpoint_text_def digits_of.simps MAX_STR_DIGITS_def)
  qed
  have "on_delivery False True 1 (proc ?w3) (disk_of ?w3) =
      Some ((proc ?w3)\<lparr>ig_confirmed := {}, ig_pending := [], ig_checkpoint := saved_first, ig_unsaved := 0\<rparr>,
        save_until Replaced saved_first (disk_of ?w3))"
    unfolding p
    by (simp add: on_delivery_def confirm_def new_ingestor_def count_released_def maybe_save_def advance_def present_def
        new_checkpoint_def b)
  moreover have "in_flight ?w3 1 = Some m" "m \<in> set (topic_log ?w3) \<or> False"
    by (simp_all add: ingest_start_def new_ingestor_def)
  ultimately have s4: "ingest_step sample_setup sample_stream sample_resume ?w3
      (?w3\<lparr>proc := (proc ?w3)\<lparr>ig_confirmed := {}, ig_pending := [], ig_checkpoint := saved_first, ig_unsaved := 0\<rparr>,
        disk_of := save_until Replaced saved_first (disk_of ?w3), in_flight := (in_flight ?w3)(1 := None)\<rparr>)"
    by (intro reported)
  have "load (target (save_until Replaced saved_first (disk_of ?w3))) = Inr saved_first"
    using load_saved [OF b] by (simp add: save_until_def b)
  with ingest_went [OF r3 s4] show ?thesis
    by (intro exI conjI) (assumption, simp_all add: ingest_start_def)
qed

theorem ingestor_never_skips_witness:
  "\<exists>w now. ingest_reaches sample_setup sample_stream sample_resume w \<and>
     (prepare sample_setup now (sample_stream 0) = Inr None \<or>
      (\<exists>m \<in> set (topic_log w). prepare sample_setup now (sample_stream 0) = Inr (Some m)))"
proof -
  obtain w where w: "ingest_reaches sample_setup sample_stream sample_resume w" "origin w = 0"
     "load (target (disk_of w)) = Inr saved_first" using sample_ingest_run by blast
  have h: "resume_header saved_first = [(ascii ''Last-Event-ID'', ascii ''7'')]" by (simp add: resume_header_def)
  from ingestor_never_skips [OF w(1) sample_stream_ok w(3) h, of 0] w(1,2)
  show ?thesis by (auto simp: sample_resume_def)
qed

theorem surrogate_event_stops_ingestor_witness:
  "\<exists>w. ingest_reaches sample_setup sample_stream sample_resume w \<and>
     load (target (disk_of w)) = Inr saved_first \<and>
     prepare sample_setup [] (sample_stream 1) = Inl UnicodeEncodeError \<and> sample_resume (ascii ''7'') \<le> 1"
proof -
  obtain w where w: "ingest_reaches sample_setup sample_stream sample_resume w" "origin w = 0"
     "load (target (disk_of w)) = Inr saved_first" using sample_ingest_run by blast
  have h: "resume_header saved_first = [(ascii ''Last-Event-ID'', ascii ''7'')]" by (simp add: resume_header_def)
  have e: "sse_event (sample_stream 1) \<noteq> ascii ''error''" "parse_raw (Text (sse_data (sample_stream 1))) = Inr bad_raw"
    "event_id_of bad_raw = Inr (ascii ''a1'')"
    using bad_parses by (simp_all add: sample_stream_def MESSAGE_def event_id_of_def bad_raw_def good_raw_def)
  have "\<exists>ch \<in> set (dumps (rt_float_repr (is_runtime sample_setup)) (JObj bad_raw)). surrogate ch"
    by (simp add: bad_raw_def good_raw_def quote_str_def escape_char_def surrogate_def)
  from surrogate_event_stops_ingestor [OF w(1) sample_stream_ok e this w(3) h] w
  show ?thesis by auto
qed

end
