(* ===== verification/PageStore.thy ===== *)
theory PageStore
  imports PageLatest
begin

text \<open>
  \<^verbatim>\<open>web/pages.py\<close> and \<^verbatim>\<open>scripts/page_snapshot.py\<close>: the pages of the compacted
  topic in memory, kept up to date by the dashboard or built once by the script. A record whose
  fields have other types than declared counts as unreadable. \<open>casefold\<close> is an argument of
  the search.
\<close>

record PageStore =
  st_pages :: "(ustr, PageLatest) pydict"
  st_records :: int
  st_tombstones :: int
  st_partitions :: nat
  st_at_end :: "int set"

definition empty_store :: "nat \<Rightarrow> PageStore" where
  "empty_store n = \<lparr>st_pages = [], st_records = 0, st_tombstones = 0, st_partitions = n, st_at_end = {}\<rparr>"

text \<open>\<open>apply\<close>; the exception is that of a key that is not UTF-8.\<close>

definition store_apply :: "runtime \<Rightarrow> bytes option \<Rightarrow> bytes option \<Rightarrow> PageStore \<Rightarrow> pyexc + PageStore" where
  "store_apply rt key value s =
     (case key of
        None \<Rightarrow> Inr s
      | Some kb \<Rightarrow>
          bind_res (utf8_decode False kb) (\<lambda>k.
            let s1 = s\<lparr>st_records := st_records s + 1\<rparr>
            in case value of
                 None \<Rightarrow> Inr (s1\<lparr>st_tombstones := st_tombstones s + 1, st_pages := AList.delete k (st_pages s)\<rparr>)
               | Some vb \<Rightarrow>
                   (case pl_from_json rt vb of
                      Inr (Some r) \<Rightarrow> Inr (s1\<lparr>st_pages := AList.update k r (st_pages s)\<rparr>)
                    | Inr None \<Rightarrow> Inr s1
                    | Inl e \<Rightarrow>
                        if is_value_error e \<or> e = TypeError \<or> e = KeyError then Inr s1 else Inl e)))"

text \<open>
  The polls of \<open>_follow\<close>, each with the partition it came from; \<open>None\<close> is an exception,
  after which \<open>_run\<close> starts again with an empty store.
\<close>

fun store_follow :: "runtime \<Rightarrow> (int \<times> poll) list \<Rightarrow> PageStore \<Rightarrow> PageStore option" where
  "store_follow rt [] s = Some s"
| "store_follow rt ((p, poll) # polls) s =
     (case poll of
        NoMessage \<Rightarrow> store_follow rt polls s
      | PollError e \<Rightarrow>
          (if e = PartitionEof then store_follow rt polls (s\<lparr>st_at_end := insert p (st_at_end s)\<rparr>)
           else if e = FatalError then None else store_follow rt polls s)
      | Message m \<Rightarrow>
          (case store_apply rt (k_key m) (k_value m) s of
             Inl e \<Rightarrow> None
           | Inr s' \<Rightarrow> store_follow rt polls s'))"

definition store_get :: "ustr \<Rightarrow> ustr \<Rightarrow> PageStore \<Rightarrow> PageLatest option" where
  "store_get w t s = map_of (st_pages s) (w @ [58] @ t)"

definition contains :: "ustr \<Rightarrow> ustr \<Rightarrow> bool" where
  "contains s needle \<longleftrightarrow> list_ex (\<lambda>n. startswith (drop n s) needle) [0..<Suc (length s)]"

text \<open>\<open>search\<close>: newest first, pages of equal time in the order of the dictionary.\<close>

definition store_search ::
  "(ustr \<Rightarrow> ustr) \<Rightarrow> ustr \<Rightarrow> ustr option \<Rightarrow> nat \<Rightarrow> PageStore \<Rightarrow> PageLatest list" where
  "store_search casefold q w limit s =
     (let needle = strip (casefold q);
          matches = filter (\<lambda>p. (w = None \<or> w = Some [] \<or> Some (pl_wiki p) = w) \<and>
                      (needle = [] \<or> contains (casefold (pl_title p)) needle)) (map snd (st_pages s))
      in take limit (rev (sort_key pl_event_time (rev matches))))"

definition caught_up :: "PageStore \<Rightarrow> bool" where
  "caught_up s \<longleftrightarrow> 0 < st_partitions s \<and> st_partitions s \<le> card (st_at_end s)"


text \<open>\<open>wait_until_caught_up\<close>: what each look at the store saw, with the time left.\<close>

fun wait_until_caught_up :: "(int \<times> PageStore) list \<Rightarrow> bool" where
  "wait_until_caught_up [] = False"
| "wait_until_caught_up ((remaining, s) # looks) =
     (0 < remaining \<and> (caught_up s \<or> wait_until_caught_up looks))"

subsection \<open>The snapshot of the script\<close>

record snapshot =
  sn_pages :: "(ustr option, PageLatest) pydict"
  sn_records :: int
  sn_tombstones :: int
  sn_removed :: int
  sn_superseded :: int
  sn_finished :: "int set"

definition empty_snapshot :: snapshot where
  "empty_snapshot = \<lparr>sn_pages = [], sn_records = 0, sn_tombstones = 0, sn_removed = 0, sn_superseded = 0,
                     sn_finished = {}\<rparr>"

definition snapshot_apply :: "runtime \<Rightarrow> kmsg \<Rightarrow> snapshot \<Rightarrow> pyexc + snapshot" where
  "snapshot_apply rt m s =
     bind_res (case k_key m of None \<Rightarrow> Inr None
               | Some kb \<Rightarrow> if kb = [] then Inr None else map_sum id Some (utf8_decode False kb)) (\<lambda>key.
     let s1 = s\<lparr>sn_records := sn_records s + 1\<rparr>
     in case k_value m of
          None \<Rightarrow>
            Inr (if map_of (sn_pages s) key = None then s1\<lparr>sn_tombstones := sn_tombstones s + 1\<rparr>
                 else s1\<lparr>sn_tombstones := sn_tombstones s + 1, sn_removed := sn_removed s + 1,
                         sn_pages := AList.delete key (sn_pages s)\<rparr>)
        | Some v \<Rightarrow>
            bind_res (pl_from_json rt v) (\<lambda>r.
            case r of None \<Rightarrow> Inl TypeError
            | Some r \<Rightarrow>
                let s2 = (if map_of (sn_pages s) key = None then s1
                          else s1\<lparr>sn_superseded := sn_superseded s + 1\<rparr>)
                in Inr (s2\<lparr>sn_pages := AList.update key r (sn_pages s)\<rparr>)))"

text \<open>The loop of \<open>build_snapshot\<close>; \<open>None\<close> is an exception.\<close>

fun build_snapshot :: "runtime \<Rightarrow> nat \<Rightarrow> (int \<times> poll) list \<Rightarrow> snapshot \<Rightarrow> snapshot option" where
  "build_snapshot rt n [] s = Some s"
| "build_snapshot rt n ((p, poll) # polls) s =
     (if n \<le> card (sn_finished s) then Some s
      else
        (case poll of
           NoMessage \<Rightarrow> Some s
         | PollError e \<Rightarrow>
             if e = PartitionEof then build_snapshot rt n polls (s\<lparr>sn_finished := insert p (sn_finished s)\<rparr>)
             else None
         | Message m \<Rightarrow>
             (case snapshot_apply rt m s of
                Inl e \<Rightarrow> None
              | Inr s' \<Rightarrow> build_snapshot rt n polls s')))"

definition pages_of_wiki :: "ustr \<Rightarrow> snapshot \<Rightarrow> PageLatest list" where
  "pages_of_wiki w s =
     rev (sort_key pl_event_time (rev (filter (\<lambda>r. pl_wiki r = w) (map snd (sn_pages s)))))"

subsection \<open>What a key holds\<close>

definition readable :: "runtime \<Rightarrow> kmsg \<Rightarrow> bool" where
  "readable rt m =
     (case k_key m of
        None \<Rightarrow> False
      | Some kb \<Rightarrow>
          kb \<noteq> [] \<and>
          (case utf8_decode False kb of
             Inl e \<Rightarrow> False
           | Inr k \<Rightarrow>
               utf8_encode k = Inr kb \<and>
               (case k_value m of
                  None \<Rightarrow> True
                | Some v \<Rightarrow> (case pl_from_json rt v of Inr (Some r) \<Rightarrow> True | _ \<Rightarrow> False))))"

definition page_in :: "runtime \<Rightarrow> kmsg \<Rightarrow> PageLatest option" where
  "page_in rt m =
     (case k_value m of
        None \<Rightarrow> None
      | Some v \<Rightarrow> (case pl_from_json rt v of Inr r \<Rightarrow> r | Inl e \<Rightarrow> None))"

abbreviation records_of :: "bytes \<Rightarrow> kmsg list \<Rightarrow> kmsg list" where
  "records_of kb \<equiv> filter (\<lambda>m. k_key m = Some kb)"

definition newest :: "runtime \<Rightarrow> kmsg list \<Rightarrow> bytes \<Rightarrow> PageLatest option" where
  "newest rt ms kb = (case rev (records_of kb ms) of [] \<Rightarrow> None | m # _ \<Rightarrow> page_in rt m)"

lemma newest_Nil [simp]: "newest rt [] kb = None"
  by (simp add: newest_def)

lemma newest_snoc: "newest rt (ms @ [m]) kb = (if k_key m = Some kb then page_in rt m else newest rt ms kb)"
  by (simp add: newest_def)

lemma readable_cases:
  assumes "readable rt m"
  obtains k kb where "k_key m = Some kb" "kb \<noteq> []" "utf8_decode False kb = Inr k" "utf8_encode k = Inr kb"
    and "k_value m = None \<or> (\<exists>v r. k_value m = Some v \<and> pl_from_json rt v = Inr (Some r))"
proof -
  obtain kb where kb: "k_key m = Some kb" using assms by (auto simp: readable_def split: option.splits)
  obtain k where k: "utf8_decode False kb = Inr k"
    using assms kb by (auto simp: readable_def split: sum.splits)
  show ?thesis
  proof (rule that [OF kb _ k])
    show "kb \<noteq> []" "utf8_encode k = Inr kb" using assms kb k by (simp_all add: readable_def)
    show "k_value m = None \<or> (\<exists>v r. k_value m = Some v \<and> pl_from_json rt v = Inr (Some r))"
      using assms kb k by (auto simp: readable_def split: option.splits sum.splits)
  qed
qed

text \<open>The two readers agree on a readable record: it sets or deletes its page.\<close>

definition set_page :: "'k \<Rightarrow> PageLatest option \<Rightarrow> ('k, PageLatest) pydict \<Rightarrow> ('k, PageLatest) pydict" where
  "set_page k r d = (case r of None \<Rightarrow> AList.delete k d | Some r \<Rightarrow> AList.update k r d)"

lemma map_of_set_page [simp]: "map_of (set_page k r d) = (map_of d)(k := r)"
  by (cases r) (simp_all add: set_page_def dict_simps)

lemma store_apply_readable:
  assumes "readable rt m" and "k_key m = Some kb" and "utf8_decode False kb = Inr k"
  shows "\<exists>s'. store_apply rt (k_key m) (k_value m) s = Inr s' \<and> st_pages s' = set_page k (page_in rt m) (st_pages s)
           \<and> st_partitions s' = st_partitions s \<and> st_at_end s' = st_at_end s"
  using assms(1)
  by (rule readable_cases) (use assms(2,3) in \<open>auto simp: store_apply_def page_in_def set_page_def Let_def\<close>)

lemma store_apply_key:
  assumes "readable rt m" and "utf8_encode k = Inr kb"
  shows "\<exists>s'. store_apply rt (k_key m) (k_value m) s = Inr s' \<and>
           map_of (st_pages s') k = (if k_key m = Some kb then page_in rt m else map_of (st_pages s) k)"
  using assms(1)
proof (rule readable_cases)
  fix k' kb' assume r: "k_key m = Some kb'" "utf8_decode False kb' = Inr k'" "utf8_encode k' = Inr kb'"
  have "k' = k \<longleftrightarrow> kb' = kb" using r(3) assms(2) utf8_encode_inj by force
  then show ?thesis using store_apply_readable [OF assms(1) r(1,2), of s] r(1) by auto
qed

abbreviation polled :: "(int \<times> poll) list \<Rightarrow> kmsg list" where
  "polled polls \<equiv> messages polls"

lemma store_follow_newest:
  assumes "\<forall>m \<in> set (polled polls). readable rt m" and "\<forall>(p, e) \<in> set polls. e \<noteq> PollError FatalError"
    and "utf8_encode k = Inr kb" and "map_of (st_pages s) k = newest rt before kb"
  shows "\<exists>s'. store_follow rt polls s = Some s' \<and> map_of (st_pages s') k = newest rt (before @ polled polls) kb"
  using assms(1,2,4)
proof (induction polls arbitrary: s before)
  case (Cons x polls)
  obtain p poll where x: "x = (p, poll)" by (cases x)
  show ?case
  proof (cases poll)
    case (Message m)
    have rm: "readable rt m" using Cons.prems(1) by (simp add: x Message)
    from store_apply_key [OF rm assms(3), of s] obtain s1 where s1:
      "store_apply rt (k_key m) (k_value m) s = Inr s1"
      "map_of (st_pages s1) k = (if k_key m = Some kb then page_in rt m else map_of (st_pages s) k)" by blast
    have "map_of (st_pages s1) k = newest rt (before @ [m]) kb"
      using s1(2) Cons.prems(3) by (simp add: newest_snoc)
    from Cons.IH [OF _ _ this] Cons.prems(1,2) show ?thesis by (simp add: x Message s1(1))
  next
    case (PollError e)
    then show ?thesis using Cons.IH [OF _ _ , of "s\<lparr>st_at_end := insert p (st_at_end s)\<rparr>" before]
      Cons.IH [of s before] Cons.prems by (auto simp: x)
  next
    case NoMessage
    then show ?thesis using Cons.IH [of s before] Cons.prems by (simp add: x)
  qed
qed simp


lemma store_follow_keys:
  assumes "\<forall>m \<in> set (polled polls). readable rt m" and "store_follow rt polls s = Some s'"
    and "\<forall>k. map_of (st_pages s) k \<noteq> None \<longrightarrow> (\<exists>kb. utf8_encode k = Inr kb)"
  shows "\<forall>k. map_of (st_pages s') k \<noteq> None \<longrightarrow> (\<exists>kb. utf8_encode k = Inr kb)"
  using assms
proof (induction polls arbitrary: s)
  case (Cons x polls)
  obtain p poll where x: "x = (p, poll)" by (cases x)
  show ?case
  proof (cases poll)
    case (Message m)
    have rm: "readable rt m" using Cons.prems(1) by (simp add: x Message)
    then obtain k kb where k: "k_key m = Some kb" "utf8_decode False kb = Inr k" "utf8_encode k = Inr kb"
      by (rule readable_cases)
    from store_apply_readable [OF rm k(1,2), of s] obtain s1 where s1:
      "store_apply rt (k_key m) (k_value m) s = Inr s1" "st_pages s1 = set_page k (page_in rt m) (st_pages s)" by blast
    show ?thesis
    proof (rule Cons.IH [of s1])
      show "\<forall>m \<in> set (polled polls). readable rt m" using Cons.prems(1) by (simp add: x Message)
      show "store_follow rt polls s1 = Some s'" using Cons.prems(2) by (simp add: x Message s1(1))
      show "\<forall>k. map_of (st_pages s1) k \<noteq> None \<longrightarrow> (\<exists>kb. utf8_encode k = Inr kb)"
        using Cons.prems(3) k(3) by (simp add: s1(2))
    qed
  next
    case (PollError e)
    then show ?thesis using Cons.IH [of "s\<lparr>st_at_end := insert p (st_at_end s)\<rparr>"]
      Cons.IH [of s] Cons.prems by (auto simp: x split: if_splits)
  next
    case NoMessage
    then show ?thesis using Cons.IH [of s] Cons.prems by (simp add: x)
  qed
qed simp

subsection \<open>Compaction\<close>

text \<open>
  What the broker's cleaner may do to the log, seen in the order it is read: drop a record that a
  later one of the same key supersedes, drop a deletion once nothing of its page is left before it,
  and (between two reads) interleave the partitions differently, which keeps the order within a key.
\<close>

inductive compacts :: "kmsg list \<Rightarrow> kmsg list \<Rightarrow> bool" where
  unchanged: "compacts log log"
| superseded: "compacts log (xs @ m # ys) \<Longrightarrow> m' \<in> set ys \<Longrightarrow> k_key m' = k_key m \<Longrightarrow> compacts log (xs @ ys)"
| expired: "compacts log (xs @ m # ys) \<Longrightarrow> k_value m = None \<Longrightarrow> \<forall>m' \<in> set xs. k_key m' \<noteq> k_key m \<Longrightarrow>
    compacts log (xs @ ys)"
| interleaved: "compacts log log' \<Longrightarrow> \<forall>kb. records_of kb log' = records_of kb log'' \<Longrightarrow> set log' = set log'' \<Longrightarrow>
    compacts log log''"

lemma newest_last: "newest rt ms kb =
    (if records_of kb ms = [] then None else page_in rt (last (records_of kb ms)))"
  by (cases "records_of kb ms" rule: rev_cases) (auto simp: newest_def)

lemma last_superseded: "y \<in> set ys \<Longrightarrow> P y \<Longrightarrow> last (filter P (xs @ x # ys)) = last (filter P (xs @ ys))"
  by (induction ys rule: rev_induct) auto

lemma compacts_newest: "compacts log log' \<Longrightarrow> newest rt log' kb = newest rt log kb \<and> set log' \<subseteq> set log"
proof (induction rule: compacts.induct)
  case (superseded log xs m ys m')
  have "newest rt (xs @ ys) kb = newest rt (xs @ m # ys) kb"
  proof (cases "k_key m = Some kb")
    case True
    then show ?thesis
      using superseded.hyps last_superseded [of m' ys "\<lambda>m. k_key m = Some kb" xs m]
      by (auto simp: newest_last filter_empty_conv)
  qed (simp add: newest_def)
  with superseded.IH show ?case by auto
next
  case (expired log xs m ys)
  have "newest rt (xs @ ys) kb = newest rt (xs @ m # ys) kb"
  proof (cases "k_key m = Some kb")
    case True
    then have "records_of kb xs = []" using expired.hyps(3) by (auto simp: filter_empty_conv)
    with True expired.hyps(2) show ?thesis by (auto simp: newest_last page_in_def)
  qed (simp add: newest_def)
  with expired.IH show ?case by auto
qed (auto simp: newest_def)

text \<open>
  C12. Compaction loses no page. Whatever the broker's cleaner has removed from the page topic
  (records superseded by a later one of the same page, deletions with nothing left before them) and
  however the partitions interleave when the topic is read, the dashboard's store ends up with the
  same current record for every page as it would from the full log, and that record is the page's
  newest one: a deleted page is gone, a page deleted and edited again is back. This takes a topic of
  which every record can be read (the key is there and is UTF-8, the value is a tombstone or decodes),
  as the page processor writes them, and a client that reports no fatal error; then reading succeeds.
\<close>

theorem compaction_keeps_the_pages:
  assumes "\<forall>m \<in> set (polled full). readable rt m" and "compacts (polled full) (polled thinned)"
    and "\<forall>(p, e) \<in> set full. e \<noteq> PollError FatalError" and "\<forall>(p, e) \<in> set thinned. e \<noteq> PollError FatalError"
  shows "\<exists>s s'. store_follow rt full (empty_store n) = Some s \<and> store_follow rt thinned (empty_store n) = Some s'
           \<and> map_of (st_pages s') = map_of (st_pages s)
           \<and> (\<forall>w t kb. utf8_encode (w @ [58] @ t) = Inr kb \<longrightarrow> store_get w t s' = newest rt (polled full) kb)"
proof -
  have sub: "\<forall>m \<in> set (polled thinned). readable rt m"
    using compacts_newest [OF assms(2)] assms(1) by blast
  have key: "\<exists>s s'. store_follow rt full (empty_store n) = Some s \<and> store_follow rt thinned (empty_store n) = Some s'
      \<and> map_of (st_pages s) k = newest rt (polled full) kb \<and> map_of (st_pages s') k = newest rt (polled full) kb"
    if "utf8_encode k = Inr kb" for k kb
    using store_follow_newest [OF assms(1,3) that, of "empty_store n" "[]"]
      store_follow_newest [OF sub assms(4) that, of "empty_store n" "[]"] compacts_newest [OF assms(2)]
    by (fastforce simp: empty_store_def)
  from key [of "[]" "[]"] obtain s s' where s: "store_follow rt full (empty_store n) = Some s"
    "store_follow rt thinned (empty_store n) = Some s'" by auto
  have ks: "\<forall>k. map_of (st_pages s) k \<noteq> None \<longrightarrow> (\<exists>kb. utf8_encode k = Inr kb)"
    by (rule store_follow_keys [OF assms(1) s(1)]) (simp add: empty_store_def)
  have ks': "\<forall>k. map_of (st_pages s') k \<noteq> None \<longrightarrow> (\<exists>kb. utf8_encode k = Inr kb)"
    by (rule store_follow_keys [OF sub s(2)]) (simp add: empty_store_def)
  have "map_of (st_pages s') k = map_of (st_pages s) k" for k
  proof (cases "\<exists>kb. utf8_encode k = Inr kb")
    case True
    then show ?thesis using key s by fastforce
  next
    case False
    have "map_of (st_pages s) k = None" by (rule ccontr) (use ks False in blast)
    moreover have "map_of (st_pages s') k = None" by (rule ccontr) (use ks' False in blast)
    ultimately show ?thesis by simp
  qed
  then have "map_of (st_pages s') = map_of (st_pages s)" by (rule ext)
  moreover have "\<forall>w t kb. utf8_encode (w @ [58] @ t) = Inr kb \<longrightarrow> store_get w t s' = newest rt (polled full) kb"
    using key s(2) by (fastforce simp: store_get_def)
  ultimately show ?thesis using s by blast
qed


subsection \<open>The snapshot counts\<close>

definition snapshot_inv :: "snapshot \<Rightarrow> bool" where
  "snapshot_inv s \<longleftrightarrow> wf_dict (sn_pages s) \<and>
     sn_records s = int (length (sn_pages s)) + sn_superseded s + sn_removed s + sn_tombstones s"

lemma length_delete_present: "wf_dict d \<Longrightarrow> map_of d k \<noteq> None \<Longrightarrow> Suc (length (AList.delete k d)) = length d"
proof (induction d)
  case (Cons x d)
  obtain k' v where x: "x = (k', v)" by (cases x)
  show ?case
  proof (cases "k' = k")
    case True
    with Cons.prems have "k \<notin> fst ` set d" by (simp add: x)
    then have "AList.delete k d = d" unfolding AList.delete_eq by (force simp: filter_id_conv)
    with True show ?thesis by (simp add: x)
  qed (use Cons in \<open>simp add: x\<close>)
qed simp

lemma snapshot_apply_inv:
  assumes "snapshot_apply rt m s = Inr s'" and "snapshot_inv s"
  shows "snapshot_inv s'"
proof -
  have wf: "wf_dict (sn_pages s)" using assms(2) by (simp add: snapshot_inv_def)
  show ?thesis
  proof (cases "k_value m")
    case None
    obtain key where "s' = (let s1 = s\<lparr>sn_records := sn_records s + 1\<rparr>
       in if map_of (sn_pages s) key = None then s1\<lparr>sn_tombstones := sn_tombstones s + 1\<rparr>
          else s1\<lparr>sn_tombstones := sn_tombstones s + 1, sn_removed := sn_removed s + 1,
                  sn_pages := AList.delete key (sn_pages s)\<rparr>)"
      using assms(1) unfolding snapshot_apply_def bind_res_Inr_iff by (auto simp: None Let_def)
    then show ?thesis
      using assms(2) length_delete_present [OF wf, of key] by (auto simp: snapshot_inv_def Let_def simp del: not_None_eq)
  next
    case (Some v)
    obtain key r where "s' = (let s1 = s\<lparr>sn_records := sn_records s + 1\<rparr>;
         s2 = (if map_of (sn_pages s) key = None then s1 else s1\<lparr>sn_superseded := sn_superseded s + 1\<rparr>)
       in s2\<lparr>sn_pages := AList.update key r (sn_pages s)\<rparr>)"
      using assms(1) unfolding snapshot_apply_def bind_res_Inr_iff
      by (auto simp: Some Let_def bind_res_Inr_iff split: option.splits)
    then show ?thesis
      using assms(2) by (auto simp: snapshot_inv_def Let_def length_update)
  qed
qed

lemma snapshot_apply_key:
  assumes "readable rt m" and "utf8_encode k = Inr kb"
  shows "\<exists>s'. snapshot_apply rt m s = Inr s' \<and> sn_finished s' = sn_finished s \<and> sn_records s' = sn_records s + 1 \<and>
           map_of (sn_pages s') (Some k) = (if k_key m = Some kb then page_in rt m else map_of (sn_pages s) (Some k))"
  using assms(1)
proof (rule readable_cases)
  fix k' kb' assume r: "k_key m = Some kb'" "kb' \<noteq> []" "utf8_decode False kb' = Inr k'" "utf8_encode k' = Inr kb'"
    "k_value m = None \<or> (\<exists>v r. k_value m = Some v \<and> pl_from_json rt v = Inr (Some r))"
  have same: "k' = k \<longleftrightarrow> kb' = kb" using r(4) assms(2) utf8_encode_inj by force
  from r(5) show ?thesis
  proof
    assume "k_value m = None"
    then show ?thesis using r(1-3) same by (auto simp: snapshot_apply_def page_in_def Let_def dict_simps)
  next
    assume "\<exists>v r. k_value m = Some v \<and> pl_from_json rt v = Inr (Some r)"
    then show ?thesis using r(1-3) same by (auto simp: snapshot_apply_def page_in_def Let_def dict_simps)
  qed
qed

lemma build_snapshot_newest:
  assumes "\<forall>m \<in> set (polled polls). readable rt m" and "\<forall>(p, e) \<in> set polls. e = PollError PartitionEof \<or> (\<exists>m. e = Message m)"
    and "snapshot_inv s" and "\<And>k kb. utf8_encode k = Inr kb \<Longrightarrow> map_of (sn_pages s) (Some k) = newest rt before kb"
    and "sn_records s = int (length before)"
  shows "\<exists>s' got. build_snapshot rt n polls s = Some s' \<and> (\<exists>rest. polls = got @ rest \<and> (rest = [] \<or> n \<le> card (sn_finished s'))) \<and>
     snapshot_inv s' \<and> sn_records s' = int (length (before @ polled got)) \<and>
     (\<forall>k kb. utf8_encode k = Inr kb \<longrightarrow> map_of (sn_pages s') (Some k) = newest rt (before @ polled got) kb)"
  using assms
proof (induction polls arbitrary: s before)
  case Nil
  then show ?case by (auto intro: exI [of _ "[]"])
next
  case (Cons x polls)
  obtain p poll where x: "x = (p, poll)" by (cases x)
  show ?case
  proof (cases "n \<le> card (sn_finished s)")
    case True
    then have "build_snapshot rt n (x # polls) s = Some s" by (simp add: x)
    then show ?thesis using True Cons.prems(3-5) by (intro exI [of _ s] exI [of _ "[]"]) auto
  next
    case False
    have step: ?thesis
      if "build_snapshot rt n ((p, poll) # polls) s = build_snapshot rt n polls s1"
        "snapshot_inv s1" "\<And>k kb. utf8_encode k = Inr kb \<Longrightarrow> map_of (sn_pages s1) (Some k) = newest rt (before @ new) kb"
        "sn_records s1 = int (length (before @ new))" "polled [(p, poll)] = new" for s1 new
    proof -
      have "\<forall>m \<in> set (polled polls). readable rt m" "\<forall>(p, e) \<in> set polls. e = PollError PartitionEof \<or> (\<exists>m. e = Message m)"
        using Cons.prems(1,2) by (cases poll; simp add: x)+
      from Cons.IH [OF this that(2-4)] obtain s' got rest where r: "build_snapshot rt n polls s1 = Some s'"
        "polls = got @ rest" "rest = [] \<or> n \<le> card (sn_finished s')" "snapshot_inv s'"
        "sn_records s' = int (length ((before @ new) @ polled got))"
        "\<forall>k kb. utf8_encode k = Inr kb \<longrightarrow> map_of (sn_pages s') (Some k) = newest rt ((before @ new) @ polled got) kb" by blast
      have "polled (x # got) = new @ polled got" using that(5) by (cases poll) (auto simp: x)
      then show ?thesis
        using r(3-6) that(1) r(1,2) by (intro exI [of _ s'] exI [of _ "x # got"]) (auto simp: x)
    qed
    show ?thesis
    proof (cases poll)
      case (Message m)
      have rm: "readable rt m" using Cons.prems(1) by (simp add: x Message)
      from snapshot_apply_key [OF rm, of "[]" "[]" s] obtain s1 where s1: "snapshot_apply rt m s = Inr s1"
        "sn_records s1 = sn_records s + 1" by auto
      show ?thesis
      proof (rule step [of s1 "[m]"])
        show "build_snapshot rt n ((p, poll) # polls) s = build_snapshot rt n polls s1"
          using False by (simp add: Message s1(1))
        show "snapshot_inv s1" by (rule snapshot_apply_inv [OF s1(1) Cons.prems(3)])
        show "map_of (sn_pages s1) (Some k) = newest rt (before @ [m]) kb" if "utf8_encode k = Inr kb" for k kb
          using snapshot_apply_key [OF rm that, of s] Cons.prems(4) [OF that] s1(1) by (auto simp: newest_snoc)
      qed (simp_all add: Message s1(2) Cons.prems(5))
    next
      case (PollError e)
      then have e: "e = PartitionEof" using Cons.prems(2) by (simp add: x)
      show ?thesis
        by (rule step [of "s\<lparr>sn_finished := insert p (sn_finished s)\<rparr>" "[]"])
          (use False Cons.prems(3-5) in \<open>simp_all add: PollError e snapshot_inv_def\<close>)
    next
      case NoMessage
      then show ?thesis using Cons.prems(2) by (simp add: x)
    qed
  qed
qed

text \<open>
  The snapshot is the table, and its statistics add up. Over readable records and ends of
  partitions, the script reads the topic until every partition has ended (or the polls run out);
  its pages are then the newest record of every page among those it read, and the records it
  counted are all of them, split without overlap into the live pages, the records a later one
  superseded, the pages removed and the deletions.
\<close>

theorem snapshot_is_the_table:
  assumes "\<forall>m \<in> set (polled polls). readable rt m"
    and "\<forall>(p, e) \<in> set polls. e = PollError PartitionEof \<or> (\<exists>m. e = Message m)"
  shows "\<exists>s got rest. build_snapshot rt n polls empty_snapshot = Some s \<and> polls = got @ rest
     \<and> (rest = [] \<or> n \<le> card (sn_finished s))
     \<and> (\<forall>k kb. utf8_encode k = Inr kb \<longrightarrow> map_of (sn_pages s) (Some k) = newest rt (polled got) kb)
     \<and> sn_records s = int (length (polled got))
     \<and> sn_records s = int (length (sn_pages s)) + sn_superseded s + sn_removed s + sn_tombstones s"
proof -
  have "snapshot_inv empty_snapshot" "sn_records empty_snapshot = int (length [])"
    "\<And>k kb. map_of (sn_pages empty_snapshot) (Some k) = newest rt [] kb"
    by (simp_all add: snapshot_inv_def empty_snapshot_def)
  from build_snapshot_newest [OF assms this(1) this(3) this(2), of n] show ?thesis
    by (auto simp: snapshot_inv_def)
qed

lemma sample_page_value: "\<exists>v. pl_from_json plain_runtime v = Inr (Some (from_event plain_runtime sample_event))"
proof -
  let ?r = "from_event plain_runtime sample_event"
  have "\<exists>v. pl_to_json plain_runtime ?r = Inr v"
    unfolding pl_to_json_def
    by (rule utf8_encode_ok) (simp add: pl_asdict_def from_event_def sample_event_def encodable_opt surrogate_def)
  moreover have "int_ok (pl_rev_id ?r)" "int_ok (pl_length ?r)"
    by (simp_all add: from_event_def sample_event_def int_ok_def digits_of.simps MAX_STR_DIGITS_def)
  ultimately show ?thesis using pl_from_json_to_json by blast
qed

definition page_rec :: "nat list \<Rightarrow> bytes option \<Rightarrow> poll" where
  "page_rec kb v = Message \<lparr>k_topic = [], k_partition = 0, k_offset = 0, k_time = 0, k_key = Some kb, k_value = v\<rparr>"

lemma readable_sample:
  "pl_from_json plain_runtime v = Inr (Some r) \<Longrightarrow>
   readable plain_runtime \<lparr>k_topic = [], k_partition = 0, k_offset = 0, k_time = 0, k_key = Some [97], k_value = Some v\<rparr>"
  "readable plain_runtime \<lparr>k_topic = [], k_partition = 0, k_offset = 0, k_time = 0, k_key = Some [97], k_value = None\<rparr>"
  by (simp_all add: readable_def utf8_char_def)

theorem compaction_keeps_the_pages_witness:
  "\<exists>v s s'. store_follow plain_runtime [(0, page_rec [97] (Some v)), (0, page_rec [97] None), (0, page_rec [97] (Some v))] (empty_store 1) = Some s \<and>
     store_follow plain_runtime [(0, page_rec [97] (Some v))] (empty_store 1) = Some s' \<and>
     map_of (st_pages s') = map_of (st_pages s)"
proof -
  obtain v where v: "pl_from_json plain_runtime v = Inr (Some (from_event plain_runtime sample_event))"
    using sample_page_value by blast
  let ?e = "\<lparr>k_topic = [], k_partition = 0, k_offset = 0, k_time = 0, k_key = Some [97], k_value = Some v\<rparr>"
  let ?d = "\<lparr>k_topic = [], k_partition = 0, k_offset = 0, k_time = 0, k_key = Some [97], k_value = None\<rparr>"
  let ?full = "[(0, page_rec [97] (Some v)), (0, page_rec [97] None), (0, page_rec [97] (Some v))]"
  let ?thin = "[(0, page_rec [97] (Some v))]"
  have "compacts [?e, ?d, ?e] ([?e] @ ?d # [?e])" by (simp add: compacts.unchanged)
  then have "compacts [?e, ?d, ?e] ([?e] @ [?e])" by (rule compacts.superseded [where m' = ?e]) simp_all
  then have "compacts [?e, ?d, ?e] ([] @ ?e # [?e])" by simp
  then have "compacts [?e, ?d, ?e] ([] @ [?e])" by (rule compacts.superseded [where m' = ?e]) simp_all
  then have c: "compacts (polled ?full) (polled ?thin)" by (simp add: page_rec_def)
  have "\<exists>s s'. store_follow plain_runtime ?full (empty_store 1) = Some s \<and>
     store_follow plain_runtime ?thin (empty_store 1) = Some s' \<and> map_of (st_pages s') = map_of (st_pages s) \<and>
     (\<forall>w t kb. utf8_encode (w @ [58] @ t) = Inr kb \<longrightarrow> store_get w t s' = newest plain_runtime (polled ?full) kb)"
    by (rule compaction_keeps_the_pages [OF _ c])
      (use readable_sample(1) [OF v] readable_sample(2) v in \<open>simp_all add: page_rec_def\<close>)
  then show ?thesis by blast
qed

theorem snapshot_is_the_table_witness:
  "\<exists>v s. build_snapshot plain_runtime 1 [(0, page_rec [97] (Some v)), (0, page_rec [97] None)] empty_snapshot = Some s \<and>
     sn_records s = int (length (sn_pages s)) + sn_superseded s + sn_removed s + sn_tombstones s"
proof -
  obtain v where v: "pl_from_json plain_runtime v = Inr (Some (from_event plain_runtime sample_event))"
    using sample_page_value by blast
  have "\<exists>s got rest. build_snapshot plain_runtime 1 [(0, page_rec [97] (Some v)), (0, page_rec [97] None)] empty_snapshot = Some s \<and>
     [(0, page_rec [97] (Some v)), (0, page_rec [97] None)] = got @ rest \<and> (rest = [] \<or> 1 \<le> card (sn_finished s)) \<and>
     (\<forall>k kb. utf8_encode k = Inr kb \<longrightarrow> map_of (sn_pages s) (Some k) = newest plain_runtime (polled got) kb) \<and>
     sn_records s = int (length (polled got)) \<and>
     sn_records s = int (length (sn_pages s)) + sn_superseded s + sn_removed s + sn_tombstones s"
    by (rule snapshot_is_the_table) (use readable_sample(1) [OF v] readable_sample(2) v in \<open>simp_all add: page_rec_def\<close>)
  then show ?thesis by blast
qed

end
