(* ===== verification/Config.thy ===== *)
theory Config
  imports Kafka
begin

text \<open>
  \<^verbatim>\<open>common/config.py\<close> and the parts of \<^verbatim>\<open>common/sandbox.py\<close> that tell one
  namespace from another: topic and group names, the topics with their settings, the settings of
  the clients, the clean-up of a sandbox. The namespace and the other environment variables are
  arguments.
\<close>

subsection \<open>Names\<close>

definition DEFAULT_NAMESPACE :: ustr where
  "DEFAULT_NAMESPACE = ascii ''wiki''"

definition topic_name :: "ustr \<Rightarrow> ustr \<Rightarrow> ustr" where
  "topic_name ns name = ns @ [46] @ name"

definition scoped :: "ustr \<Rightarrow> ustr \<Rightarrow> ustr" where
  "scoped ns name = (if ns = DEFAULT_NAMESPACE then name else ns @ [46] @ name)"

subsection \<open>Settings\<close>

datatype setting = SStr ustr | SInt int | SBool bool

type_synonym conf = "(ustr, setting) pydict"

text \<open>\<open>conf.update(overrides)\<close>\<close>

definition conf_update :: "('k, 'v) pydict \<Rightarrow> ('k, 'v) pydict \<Rightarrow> ('k, 'v) pydict" where
  "conf_update conf overrides = fold (\<lambda>(k, v) c. AList.update k v c) overrides conf"

definition DAY_MS :: int where
  "DAY_MS = 24 * (60 * 60 * 1000)"

record TopicSpec =
  ts_name :: ustr
  ts_partitions :: int
  ts_config :: "(ustr, ustr) pydict"

definition retention :: "int \<Rightarrow> (ustr, ustr) pydict" where
  "retention ms = [(ascii ''retention.ms'', int_repr ms)]"

definition TOPIC_RAW :: "ustr \<Rightarrow> ustr" where "TOPIC_RAW ns = topic_name ns (ascii ''raw'')"
definition TOPIC_CLEAN :: "ustr \<Rightarrow> ustr" where "TOPIC_CLEAN ns = topic_name ns (ascii ''clean'')"
definition TOPIC_ALERTS :: "ustr \<Rightarrow> ustr" where "TOPIC_ALERTS ns = topic_name ns (ascii ''alerts'')"
definition TOPIC_PAGE_LATEST :: "ustr \<Rightarrow> ustr" where
  "TOPIC_PAGE_LATEST ns = topic_name ns (ascii ''page-latest'')"
definition TOPIC_DLQ :: "ustr \<Rightarrow> ustr" where "TOPIC_DLQ ns = topic_name ns (ascii ''dlq'')"

definition TOPICS :: "ustr \<Rightarrow> TopicSpec list" where
  "TOPICS ns =
     [\<lparr>ts_name = TOPIC_RAW ns, ts_partitions = 6, ts_config = retention DAY_MS\<rparr>,
      \<lparr>ts_name = TOPIC_CLEAN ns, ts_partitions = 6, ts_config = retention (7 * DAY_MS)\<rparr>,
      \<lparr>ts_name = TOPIC_ALERTS ns, ts_partitions = 3, ts_config = retention (30 * DAY_MS)\<rparr>,
      \<lparr>ts_name = TOPIC_PAGE_LATEST ns, ts_partitions = 6,
       ts_config = [(ascii ''cleanup.policy'', ascii ''compact''),
                    (ascii ''min.cleanable.dirty.ratio'', ascii ''0.1''),
                    (ascii ''segment.ms'', int_repr (60 * 60 * 1000))]\<rparr>,
      \<lparr>ts_name = TOPIC_DLQ ns, ts_partitions = 1, ts_config = retention (30 * DAY_MS)\<rparr>]"

definition producer_config :: "ustr \<Rightarrow> conf \<Rightarrow> conf" where
  "producer_config servers overrides =
     conf_update
       [(ascii ''bootstrap.servers'', SStr servers), (ascii ''acks'', SStr (ascii ''all'')),
        (ascii ''enable.idempotence'', SBool True), (ascii ''compression.type'', SStr (ascii ''lz4'')),
        (ascii ''linger.ms'', SInt 20), (ascii ''batch.size'', SInt (64 * 1024))] overrides"

text \<open>Two keyword arguments of one name are a \<open>TypeError\<close>.\<close>

definition transactional_producer_config :: "ustr \<Rightarrow> ustr \<Rightarrow> conf \<Rightarrow> pyexc + conf" where
  "transactional_producer_config servers tid overrides =
     (if list_ex (\<lambda>(k, _). k = ascii ''transactional.id'' \<or> k = ascii ''transaction.timeout.ms'') overrides
      then Inl TypeError
      else Inr (producer_config servers
             ([(ascii ''transactional.id'', SStr tid), (ascii ''transaction.timeout.ms'', SInt 60000)] @ overrides)))"

definition consumer_config :: "ustr \<Rightarrow> ustr \<Rightarrow> ustr \<Rightarrow> conf \<Rightarrow> conf" where
  "consumer_config servers assignor gid overrides =
     conf_update
       [(ascii ''bootstrap.servers'', SStr servers), (ascii ''group.id'', SStr gid),
        (ascii ''enable.auto.commit'', SBool False), (ascii ''auto.offset.reset'', SStr (ascii ''earliest'')),
        (ascii ''isolation.level'', SStr (ascii ''read_committed'')),
        (ascii ''partition.assignment.strategy'', SStr assignor), (ascii ''heartbeat.interval.ms'', SInt 1000)]
       overrides"

subsection \<open>The sandbox\<close>

definition box_topic :: "ustr \<Rightarrow> ustr \<Rightarrow> ustr" where "box_topic ns name = ns @ [46] @ name"

definition box_group :: "ustr \<Rightarrow> ustr \<Rightarrow> ustr" where "box_group ns name = ns @ [46] @ name"

text \<open>The topics and groups \<open>delete_kafka_state\<close> asks the cluster to delete.\<close>

definition delete_kafka_state :: "ustr \<Rightarrow> ustr list \<Rightarrow> ustr list \<Rightarrow> ustr list \<times> ustr list" where
  "delete_kafka_state ns topics groups =
     (filter (\<lambda>t. startswith t (ns @ [46])) topics, filter (\<lambda>g. startswith g (ns @ [46])) groups)"

text \<open>
  \<open>committed_offsets\<close> and \<open>group_caught_up\<close>, from what the client answers for each
  partition: the committed offset, negative if there is none, and the end of the log.
\<close>

definition committed_offsets :: "(int \<times> int \<times> int) list \<Rightarrow> (int, int \<times> int) pydict" where
  "committed_offsets answers =
     fold (\<lambda>(p, off, high) r. AList.update p (if off \<ge> 0 then off else -1, high) r) answers []"

fun group_caught_up :: "(int \<times> int \<times> int) list \<Rightarrow> bool" where
  "group_caught_up [] = True"
| "group_caught_up ((p, off, high) # answers) =
     (if off < 0 \<and> high > 0 then False
      else if 0 \<le> off \<and> off < high then False
      else group_caught_up answers)"

text \<open>
  \<open>wait_until\<close> on what each round finds: the time that has passed, the processes that have
  exited, whether the condition holds (\<open>None\<close> if it raised) and the time after it.
\<close>

datatype wait_end = Held int | ExitedEarly "ustr list" | WaitTimeout | StillWaiting

fun wait_until :: "int \<Rightarrow> (int \<times> ustr list \<times> bool option \<times> int) list \<Rightarrow> wait_end" where
  "wait_until timeout [] = StillWaiting"
| "wait_until timeout ((passed, exited, cond, after) # rounds) =
     (if passed \<ge> timeout then WaitTimeout
      else if exited \<noteq> [] then ExitedEarly exited
      else if cond = Some True then Held after
      else wait_until timeout rounds)"

text \<open>Processes by name, each with its exit code once it has exited.\<close>

definition crashed :: "ustr list \<Rightarrow> (ustr, int option) pydict \<Rightarrow> ustr list" where
  "crashed ignored procs =
     map fst (filter (\<lambda>(name, code). name \<notin> set ignored \<and> code \<noteq> None \<and> code \<noteq> Some 0) procs)"

subsection \<open>Overrides\<close>

lemma conf_update_lookup:
  "map_of (conf_update c ovr) k = (case map_of (rev ovr) k of None \<Rightarrow> map_of c k | Some v \<Rightarrow> Some v)"
proof (induction ovr arbitrary: c)
  case (Cons x ovr)
  obtain k' v where "x = (k', v)" by (cases x)
  with Cons show ?case
    by (auto simp: conf_update_def dict_simps map_add_def split: option.splits)
qed (simp add: conf_update_def)

text \<open>Unless overridden, no client loses what the pipeline's guarantees rest on.\<close>

lemma consumer_defaults:
  "map_of (rev ovr) k = None \<Longrightarrow>
   map_of (consumer_config s a g ovr) k = map_of (consumer_config s a g []) k"
  by (simp add: consumer_config_def conf_update_lookup)

lemma producer_defaults:
  "map_of (rev ovr) k = None \<Longrightarrow> map_of (producer_config s ovr) k = map_of (producer_config s []) k"
  by (simp add: producer_config_def conf_update_lookup)

subsection \<open>Namespaces do not touch\<close>

definition undotted :: "ustr \<Rightarrow> bool" where
  "undotted s \<longleftrightarrow> 46 \<notin> set s"

lemma dotted_eq: "undotted a \<Longrightarrow> undotted b \<Longrightarrow> a @ 46 # x = b @ 46 # y \<longleftrightarrow> a = b \<and> x = y"
proof (induction a arbitrary: b)
  case Nil
  then show ?case by (cases b) (auto simp: undotted_def)
next
  case (Cons c a)
  then show ?case by (cases b) (auto simp: undotted_def)
qed

lemma startswith_iff: "startswith s p \<longleftrightarrow> (\<exists>r. s = p @ r)"
  unfolding startswith_def by (metis append_take_drop_id append_eq_conv_conj)

lemma startswith_dotted: "undotted a \<Longrightarrow> undotted b \<Longrightarrow> startswith (a @ 46 # x) (b @ [46]) \<longleftrightarrow> a = b"
  using dotted_eq by (auto simp: startswith_iff)

lemma undotted_not_startswith: "undotted s \<Longrightarrow> \<not> startswith s (b @ [46])"
  by (auto simp: startswith_iff undotted_def)

text \<open>
  C29. Namespaces do not touch. In two different namespaces without dots, no topic has the same name,
  and no group or transactional id without dots has the same name, so neither fences the other's
  producers nor takes its partitions. Cleaning up a sandbox deletes every topic and group of its own
  namespace, and nothing that belongs to another, the production namespace with its unprefixed
  groups included.
\<close>

theorem namespaces_are_isolated:
  assumes "undotted ns" and "undotted ns'" and "ns \<noteq> ns'" and "undotted a" and "undotted b"
  shows "topic_name ns x \<noteq> topic_name ns' y \<and> scoped ns a \<noteq> scoped ns' b
    \<and> (topic_name ns' y \<notin> set (fst (delete_kafka_state ns topics groups)))
    \<and> (scoped ns' b \<notin> set (snd (delete_kafka_state ns topics groups)))
    \<and> (box_topic ns x \<in> set topics \<longrightarrow> topic_name ns x \<in> set (fst (delete_kafka_state ns topics groups)))
    \<and> (ns \<noteq> DEFAULT_NAMESPACE \<and> box_group ns x \<in> set groups \<longrightarrow>
        scoped ns x \<in> set (snd (delete_kafka_state ns topics groups)))"
proof (intro conjI impI)
  show "topic_name ns x \<noteq> topic_name ns' y" using assms(1-3) by (simp add: topic_name_def dotted_eq)
  show "scoped ns a \<noteq> scoped ns' b"
    using assms dotted_eq by (auto simp: scoped_def undotted_def)
  show "topic_name ns' y \<notin> set (fst (delete_kafka_state ns topics groups))"
    using assms(1-3) startswith_dotted by (auto simp: topic_name_def delete_kafka_state_def)
  show "scoped ns' b \<notin> set (snd (delete_kafka_state ns topics groups))"
    using assms startswith_dotted undotted_not_startswith by (auto simp: scoped_def delete_kafka_state_def)
qed (use assms(1) startswith_dotted in
  \<open>auto simp: topic_name_def scoped_def box_topic_def box_group_def delete_kafka_state_def\<close>)

text \<open>The groups of the default namespace have no prefix, and a clean-up of it would leave them.\<close>

lemma default_groups_survive:
  "undotted b \<Longrightarrow> scoped DEFAULT_NAMESPACE b \<notin> set (snd (delete_kafka_state DEFAULT_NAMESPACE topics groups))"
  using undotted_not_startswith by (auto simp: scoped_def delete_kafka_state_def)

lemma group_caught_up_iff:
  "group_caught_up answers \<longleftrightarrow> (\<forall>(p, off, high) \<in> set answers. if off < 0 then high \<le> 0 else high \<le> off)"
  by (induction answers rule: group_caught_up.induct) auto

lemma topics_distinct: "distinct (map ts_name (TOPICS ns))"
  by (simp add: TOPICS_def TOPIC_RAW_def TOPIC_CLEAN_def TOPIC_ALERTS_def TOPIC_PAGE_LATEST_def TOPIC_DLQ_def
      topic_name_def)

theorem namespaces_are_isolated_witness:
  "topic_name (ascii ''itest1'') (ascii ''raw'') \<noteq> topic_name (ascii ''wiki'') (ascii ''raw'') \<and>
   scoped (ascii ''wiki'') (ascii ''cleaner'') \<notin>
     set (snd (delete_kafka_state (ascii ''itest1'') [] [ascii ''cleaner'', ascii ''itest1.cleaner'']))"
proof -
  have "undotted (ascii ''itest1'')" "undotted (ascii ''wiki'')" "undotted (ascii ''cleaner'')"
    "ascii ''itest1'' \<noteq> ascii ''wiki''"
    by (simp_all add: undotted_def ascii_def)
  from namespaces_are_isolated [OF this(1,2,4,3,3), where x = "ascii ''raw''" and y = "ascii ''raw''"]
  show ?thesis by blast
qed

end
