(* ===== verification/Admin.thy ===== *)
theory Admin
  imports Config Models
begin

text \<open>
  The administration scripts: \<^verbatim>\<open>admin/create_topics.py\<close>,
  \<^verbatim>\<open>admin/wait_for_leaders.py\<close> and \<^verbatim>\<open>admin/backfill_reverts.py\<close>. What the
  cluster does with a request is an argument: \<open>None\<close> is a request that failed, and the
  properties name the documented effect of one that did not.
\<close>

subsection \<open>Creating topics\<close>

record NewTopic =
  nt_name :: ustr
  nt_partitions :: int
  nt_replication :: int
  nt_config :: "(ustr, ustr) pydict"

definition topic_config :: "ustr \<Rightarrow> TopicSpec \<Rightarrow> (ustr, ustr) pydict" where
  "topic_config isr spec = conf_update [(ascii ''min.insync.replicas'', isr)] (ts_config spec)"

definition create_missing :: "ustr \<Rightarrow> ustr \<Rightarrow> int \<Rightarrow> ustr set \<Rightarrow> NewTopic list" where
  "create_missing ns isr replication existing =
     map (\<lambda>spec. \<lparr>nt_name = ts_name spec, nt_partitions = ts_partitions spec, nt_replication = replication,
                   nt_config = topic_config isr spec\<rparr>)
       (filter (\<lambda>spec. ts_name spec \<notin> existing) (TOPICS ns))"

definition sync_configs :: "ustr \<Rightarrow> ustr \<Rightarrow> ustr set \<Rightarrow> (ustr \<times> (ustr, ustr) pydict) list" where
  "sync_configs ns isr existing =
     map (\<lambda>spec. (ts_name spec, topic_config isr spec)) (filter (\<lambda>spec. ts_name spec \<in> existing) (TOPICS ns))"

text \<open>The warnings: the topic, its partitions, those of the specification.\<close>

definition check_partitions :: "ustr \<Rightarrow> (ustr \<times> int) list \<Rightarrow> (ustr \<times> int \<times> int) list" where
  "check_partitions ns meta =
     List.map_filter (\<lambda>spec. case map_of meta (ts_name spec) of
         None \<Rightarrow> None
       | Some actual \<Rightarrow>
           if actual \<noteq> ts_partitions spec then Some (ts_name spec, actual, ts_partitions spec) else None) (TOPICS ns)"

text \<open>A batch of requests, each with a future of its own; the second component is those that failed.\<close>

fun run_all :: "('c \<Rightarrow> 'r \<Rightarrow> 'c option) \<Rightarrow> 'r list \<Rightarrow> 'c \<Rightarrow> 'c \<times> 'r list" where
  "run_all req [] c = (c, [])"
| "run_all req (r # rs) c =
     (case req c r of
        None \<Rightarrow> apsnd ((#) r) (run_all req rs c)
      | Some c' \<Rightarrow> run_all req rs c')"

text \<open>
  \<open>main\<close>: a topic that could not be created is printed, a configuration that could not be
  changed ends the script (\<open>None\<close>).
\<close>

definition create_topics ::
  "('c \<Rightarrow> (ustr \<times> int) list) \<Rightarrow> ('c \<Rightarrow> NewTopic \<Rightarrow> 'c option) \<Rightarrow>
   ('c \<Rightarrow> ustr \<times> (ustr, ustr) pydict \<Rightarrow> 'c option) \<Rightarrow> ustr \<Rightarrow> ustr \<Rightarrow> int \<Rightarrow> 'c \<Rightarrow>
   ('c \<times> NewTopic list \<times> (ustr \<times> int \<times> int) list) option" where
  "create_topics list_topics mk alter ns isr replication c =
     (let existing = set (map fst (list_topics c));
          (c1, failed) = run_all mk (create_missing ns isr replication existing) c;
          (c2, refused) = run_all alter (sync_configs ns isr existing) c1
      in if refused \<noteq> [] then None else Some (c2, failed, check_partitions ns (list_topics c2)))"

text \<open>
  What the broker documents of the three requests, for a view \<open>look\<close> of a topic's number of
  partitions and settings.
\<close>

definition admin_laws ::
  "('c \<Rightarrow> ustr \<Rightarrow> (int \<times> (ustr \<Rightarrow> ustr option)) option) \<Rightarrow> ('c \<Rightarrow> (ustr \<times> int) list) \<Rightarrow>
   ('c \<Rightarrow> NewTopic \<Rightarrow> 'c option) \<Rightarrow> ('c \<Rightarrow> ustr \<times> (ustr, ustr) pydict \<Rightarrow> 'c option) \<Rightarrow> bool" where
  "admin_laws look list_topics mk alter \<longleftrightarrow>
     (\<forall>c n. map_of (list_topics c) n = map_option fst (look c n)) \<and>
     (\<forall>c r c'. mk c r = Some c' \<longrightarrow>
        look c' = (look c)(nt_name r := Some (nt_partitions r, map_of (nt_config r)))) \<and>
     (\<forall>c r c'. alter c r = Some c' \<longrightarrow>
        look c' = (look c)(fst r := map_option (map_prod id (\<lambda>cfg. cfg ++ map_of (snd r))) (look c (fst r))))"

lemma run_all_effect:
  assumes "\<And>c r c'. req c r = Some c' \<Longrightarrow> look c' = (look c)(nm r := eff r (look c (nm r)))"
    and "run_all req rs c = (c1, failed)" and "distinct (map nm rs)"
  shows "set failed \<subseteq> set rs \<and>
    (\<forall>r \<in> set rs. look c1 (nm r) = (if r \<in> set failed then look c (nm r) else eff r (look c (nm r)))) \<and>
    (\<forall>n. n \<notin> nm ` set rs \<longrightarrow> look c1 n = look c n)"
  using assms(2,3)
proof (induction rs arbitrary: c failed)
  case (Cons r rs)
  show ?case
  proof (cases "req c r")
    case None
    then obtain failed' where f: "run_all req rs c = (c1, failed')" "failed = r # failed'"
      using Cons.prems(1) by (cases "run_all req rs c") auto
    from Cons.IH [OF f(1)] Cons.prems(2) f(2) show ?thesis by (auto split: if_splits)
  next
    case (Some c')
    have f: "run_all req rs c' = (c1, failed)" using Cons.prems(1) Some by simp
    have l: "look c' = (look c)(nm r := eff r (look c (nm r)))" by (rule assms(1) [OF Some])
    from Cons.IH [OF f] Cons.prems(2) have ih: "set failed \<subseteq> set rs"
      "\<forall>r \<in> set rs. look c1 (nm r) = (if r \<in> set failed then look c' (nm r) else eff r (look c' (nm r)))"
      "\<forall>n. n \<notin> nm ` set rs \<longrightarrow> look c1 n = look c' n" by simp_all
    have "r \<notin> set failed" "nm r \<notin> nm ` set rs" using ih(1) Cons.prems(2) by auto
    moreover have "look c' (nm q) = look c (nm q)" if "q \<in> set rs" for q
      using l that \<open>nm r \<notin> nm ` set rs\<close> by (auto simp: image_iff)
    ultimately show ?thesis using ih l by (auto simp: image_iff)
  qed
qed simp


lemma in_map_filter: "y \<in> set (List.map_filter f xs) \<longleftrightarrow> (\<exists>x \<in> set xs. f x = Some y)"
  by (induction xs) (auto simp: List.map_filter_simps split: option.splits)

lemma map_add_twice: "(f ++ g) ++ g = f ++ g" "g ++ g = g"
  by (auto simp: map_add_def fun_eq_iff split: option.splits)

lemma create_topics_effect:
  assumes laws: "admin_laws look list_topics mk alter"
    and run: "create_topics list_topics mk alter ns isr replication c = Some (c', failed, warnings)"
  shows "(\<forall>spec \<in> set (TOPICS ns). look c' (ts_name spec) =
       (case look c (ts_name spec) of
          Some (k, cfg) \<Rightarrow> Some (k, cfg ++ map_of (topic_config isr spec))
        | None \<Rightarrow> if ts_name spec \<in> nt_name ` set failed then None
                  else Some (ts_partitions spec, map_of (topic_config isr spec)))) \<and>
    (\<forall>n. n \<notin> ts_name ` set (TOPICS ns) \<longrightarrow> look c' n = look c n) \<and>
    warnings = check_partitions ns (list_topics c')"
proof -
  let ?ex = "set (map fst (list_topics c))"
  let ?new = "create_missing ns isr replication ?ex" and ?old = "sync_configs ns isr ?ex"
  obtain c1 where r1: "run_all mk ?new c = (c1, failed)" and r2: "run_all alter ?old c1 = (c', [])"
    and w: "warnings = check_partitions ns (list_topics c')"
    using run unfolding create_topics_def Let_def by (auto split: prod.splits if_splits)
  have known: "n \<in> ?ex \<longleftrightarrow> look c n \<noteq> None" for n
  proof -
    have "map_of (list_topics c) n = map_option fst (look c n)" using laws by (simp add: admin_laws_def)
    then show ?thesis using map_of_eq_None_iff [of "list_topics c" n] by auto
  qed
  have dist: "distinct (map nt_name ?new)" "distinct (map fst ?old)"
    using topics_distinct [of ns] by (auto simp: create_missing_def sync_configs_def comp_def distinct_map inj_on_def)
  have e1: "set failed \<subseteq> set ?new \<and>
     (\<forall>r \<in> set ?new. look c1 (nt_name r) = (if r \<in> set failed then look c (nt_name r)
        else Some (nt_partitions r, map_of (nt_config r)))) \<and>
     (\<forall>n. n \<notin> nt_name ` set ?new \<longrightarrow> look c1 n = look c n)"
    by (rule run_all_effect [where eff = "\<lambda>r _. Some (nt_partitions r, map_of (nt_config r))", OF _ r1 dist(1)])
      (use laws in \<open>unfold admin_laws_def, blast\<close>)
  have e2: "set [] \<subseteq> set ?old \<and>
     (\<forall>r \<in> set ?old. look c' (fst r) = (if r \<in> set [] then look c1 (fst r)
        else map_option (map_prod id (\<lambda>cfg. cfg ++ map_of (snd r))) (look c1 (fst r)))) \<and>
     (\<forall>n. n \<notin> fst ` set ?old \<longrightarrow> look c' n = look c1 n)"
    by (rule run_all_effect [where eff = "\<lambda>r. map_option (map_prod id (\<lambda>cfg. cfg ++ map_of (snd r)))", OF _ r2 dist(2)])
      (use laws in \<open>unfold admin_laws_def, blast\<close>)
  have names: "nt_name ` set ?new = ts_name ` {spec \<in> set (TOPICS ns). ts_name spec \<notin> ?ex}"
    "fst ` set ?old = ts_name ` {spec \<in> set (TOPICS ns). ts_name spec \<in> ?ex}"
    by (simp_all add: create_missing_def sync_configs_def image_image)
  have spec: "look c' (ts_name spec) =
       (case look c (ts_name spec) of
          Some (k, cfg) \<Rightarrow> Some (k, cfg ++ map_of (topic_config isr spec))
        | None \<Rightarrow> if ts_name spec \<in> nt_name ` set failed then None
                  else Some (ts_partitions spec, map_of (topic_config isr spec)))"
    if sp: "spec \<in> set (TOPICS ns)" for spec
  proof (cases "look c (ts_name spec)")
    case None
    then have n: "ts_name spec \<notin> ?ex" using known by blast
    let ?r = "\<lparr>nt_name = ts_name spec, nt_partitions = ts_partitions spec, nt_replication = replication,
                nt_config = topic_config isr spec\<rparr>"
    have r: "?r \<in> set ?new" using sp n by (auto simp: create_missing_def)
    have same: "?r \<in> set failed \<longleftrightarrow> ts_name spec \<in> nt_name ` set failed"
    proof
      assume "ts_name spec \<in> nt_name ` set failed"
      then obtain q where q: "q \<in> set failed" "nt_name q = nt_name ?r" by auto
      then have "q \<in> set ?new" using e1 by blast
      with q(2) r dist(1) have "q = ?r" by (metis distinct_map inj_onD)
      with q(1) show "?r \<in> set failed" by simp
    qed (auto simp: image_iff intro: bexI [of _ ?r])
    have "ts_name spec \<notin> fst ` set ?old" unfolding names using n by (auto simp del: set_map list.set_map)
    then have "look c' (ts_name spec) = look c1 (ts_name spec)" using e2 by blast
    moreover have "look c1 (nt_name ?r) = (if ?r \<in> set failed then look c (nt_name ?r)
        else Some (nt_partitions ?r, map_of (nt_config ?r)))" using e1 r by blast
    ultimately show ?thesis using None same by simp
  next
    case (Some v)
    then have n: "ts_name spec \<in> ?ex" using known by blast
    then have "ts_name spec \<notin> nt_name ` set ?new" unfolding names by (auto simp del: set_map list.set_map)
    then have "look c1 (ts_name spec) = look c (ts_name spec)" using e1 by blast
    moreover have "(ts_name spec, topic_config isr spec) \<in> set ?old" using sp n by (auto simp: sync_configs_def)
    ultimately show ?thesis using e2 Some by (cases v) force
  qed
  have "look c' n = look c n" if "n \<notin> ts_name ` set (TOPICS ns)" for n
  proof -
    have "n \<notin> nt_name ` set ?new" "n \<notin> fst ` set ?old" using that unfolding names by auto
    then show ?thesis using e1 e2 by simp
  qed
  with spec w show ?thesis by blast
qed

lemma check_partitions_iff:
  assumes "admin_laws look list_topics mk alter"
  shows "(n, actual, k) \<in> set (check_partitions ns (list_topics c)) \<longleftrightarrow>
    (\<exists>spec \<in> set (TOPICS ns). n = ts_name spec \<and> k = ts_partitions spec \<and> (\<exists>cfg. look c n = Some (actual, cfg)) \<and> actual \<noteq> k)"
proof -
  have m: "map_of (list_topics c) n = map_option fst (look c n)" for n using assms by (simp add: admin_laws_def)
  have "(case map_of (list_topics c) (ts_name spec) of
         None \<Rightarrow> None
       | Some actual \<Rightarrow>
           if actual \<noteq> ts_partitions spec then Some (ts_name spec, actual, ts_partitions spec) else None) = Some (n, actual, k)
     \<longleftrightarrow> n = ts_name spec \<and> k = ts_partitions spec \<and> (\<exists>cfg. look c n = Some (actual, cfg)) \<and> actual \<noteq> k" for spec
    unfolding m by (cases "look c (ts_name spec)") auto
  then show ?thesis unfolding check_partitions_def in_map_filter by blast
qed

text \<open>
  C18. Creating topics brings the cluster in line and is repeatable. For every topic of the
  specification: one that existed keeps its partitions and every setting the specification does not
  name, and gets every setting it does; one that did not exist now has the specified partitions and
  settings, unless its creation failed and was reported. No other topic changes. The warnings are
  exactly the topics whose number of partitions differs. When nothing failed, running the script
  again creates nothing and changes nothing.
\<close>

theorem topics_brought_in_line:
  assumes "admin_laws look list_topics mk alter"
    and "create_topics list_topics mk alter ns isr replication c = Some (c', failed, warnings)"
  shows "(\<forall>spec \<in> set (TOPICS ns). look c' (ts_name spec) =
       (case look c (ts_name spec) of
          Some (k, cfg) \<Rightarrow> Some (k, cfg ++ map_of (topic_config isr spec))
        | None \<Rightarrow> if ts_name spec \<in> nt_name ` set failed then None
                  else Some (ts_partitions spec, map_of (topic_config isr spec))))
    \<and> (\<forall>n. n \<notin> ts_name ` set (TOPICS ns) \<longrightarrow> look c' n = look c n)
    \<and> (\<forall>n actual k. (n, actual, k) \<in> set warnings \<longleftrightarrow>
        (\<exists>spec \<in> set (TOPICS ns). n = ts_name spec \<and> k = ts_partitions spec \<and>
           (\<exists>cfg. look c' n = Some (actual, cfg)) \<and> actual \<noteq> k))
    \<and> (failed = [] \<longrightarrow> create_missing ns isr replication (set (map fst (list_topics c'))) = [] \<and>
        (\<forall>c'' failed' warnings'. create_topics list_topics mk alter ns isr replication c' = Some (c'', failed', warnings')
           \<longrightarrow> look c'' = look c'))"
proof -
  note e = create_topics_effect [OF assms]
  have again: "create_missing ns isr replication (set (map fst (list_topics c'))) = []" if "failed = []"
  proof -
    have "ts_name spec \<in> set (map fst (list_topics c'))" if sp: "spec \<in> set (TOPICS ns)" for spec
    proof -
      have "look c' (ts_name spec) \<noteq> None" using e sp \<open>failed = []\<close> by (auto split: option.splits)
      then have "map_of (list_topics c') (ts_name spec) \<noteq> None" using assms(1) by (simp add: admin_laws_def)
      then show ?thesis using map_of_eq_None_iff [of "list_topics c'" "ts_name spec"] by auto
    qed
    then show ?thesis by (auto simp: create_missing_def filter_empty_conv)
  qed
  have same: "look c'' = look c'" if f: "failed = []"
    and run: "create_topics list_topics mk alter ns isr replication c' = Some (c'', failed', warnings')" for c'' failed' warnings'
  proof
    fix n
    note e' = create_topics_effect [OF assms(1) run]
    show "look c'' n = look c' n"
    proof (cases "n \<in> ts_name ` set (TOPICS ns)")
      case True
      then obtain spec where sp: "spec \<in> set (TOPICS ns)" "n = ts_name spec" by auto
      have s: "look c' (ts_name spec) =
         (case look c (ts_name spec) of
            Some (k, cfg) \<Rightarrow> Some (k, cfg ++ map_of (topic_config isr spec))
          | None \<Rightarrow> if ts_name spec \<in> nt_name ` set failed then None
                    else Some (ts_partitions spec, map_of (topic_config isr spec)))" using e sp(1) by blast
      obtain k cfg where "look c' (ts_name spec) = Some (k, cfg)" "cfg ++ map_of (topic_config isr spec) = cfg"
        using s f map_add_twice by (cases "look c (ts_name spec)") auto
      moreover have "look c'' (ts_name spec) = (case look c' (ts_name spec) of
          Some (k, cfg) \<Rightarrow> Some (k, cfg ++ map_of (topic_config isr spec))
        | None \<Rightarrow> if ts_name spec \<in> nt_name ` set failed' then None
                  else Some (ts_partitions spec, map_of (topic_config isr spec)))" using e' sp(1) by blast
      ultimately show ?thesis by (simp add: sp(2))
    qed (use e' in blast)
  qed
  show ?thesis using e again same check_partitions_iff [OF assms(1)] by blast
qed


subsection \<open>Waiting for the cluster\<close>

record partition_meta =
  pm_leader :: int
  pm_replicas :: "int list"
  pm_isrs :: "int list"

definition pipeline_partitions :: "ustr \<Rightarrow> (ustr, partition_meta list) pydict \<Rightarrow> partition_meta list" where
  "pipeline_partitions ns meta = concat (map snd (filter (\<lambda>(name, _). startswith name (ns @ [46])) meta))"

definition led_away_from :: "ustr \<Rightarrow> int \<Rightarrow> (ustr, partition_meta list) pydict \<Rightarrow> bool" where
  "led_away_from ns broker meta =
     list_all (\<lambda>p. pm_leader p \<noteq> broker \<and> pm_leader p \<noteq> -1) (pipeline_partitions ns meta)"

definition fully_in_sync :: "ustr \<Rightarrow> (ustr, partition_meta list) pydict \<Rightarrow> bool" where
  "fully_in_sync ns meta =
     list_all (\<lambda>p. length (pm_isrs p) = length (pm_replicas p)) (pipeline_partitions ns meta)"

text \<open>
  \<open>wait\<close> on its rounds: the time (in milliseconds) at the head of the loop, the metadata
  unless the request raised, the time after the check. \<open>Inl True\<close> is the timeout,
  \<open>Inl False\<close> a wait that is not over.
\<close>

fun wait_recovered ::
  "('m \<Rightarrow> bool) \<Rightarrow> int \<Rightarrow> int \<Rightarrow> (int \<times> 'm option \<times> int) list \<Rightarrow> bool + int" where
  "wait_recovered check start_ms deadline [] = Inl False"
| "wait_recovered check start_ms deadline ((now, meta, after) # rounds) =
     (if now \<ge> deadline then Inl True
      else if (case meta of None \<Rightarrow> False | Some m \<Rightarrow> check m) then Inr (after - start_ms)
      else wait_recovered check start_ms deadline rounds)"

lemma wait_recovered_result:
  "wait_recovered check start_ms deadline rounds = Inr t \<longleftrightarrow>
     (\<exists>i < length rounds. \<exists>now m after. rounds ! i = (now, Some m, after) \<and> check m \<and> t = after - start_ms \<and> now < deadline \<and>
       (\<forall>j < i. \<exists>now' m' after'. rounds ! j = (now', m', after') \<and> now' < deadline \<and> (\<forall>m. m' = Some m \<longrightarrow> \<not> check m)))"
proof (induction rounds)
  case (Cons r rounds)
  obtain now meta after where "r = (now, meta, after)" by (cases r)
  with Cons show ?case by (auto simp: Ex_less_Suc2 All_less_Suc2 split: option.splits)
qed simp

subsection \<open>Filling in old rows\<close>

text \<open>The columns of \<^verbatim>\<open>edits\<close> the script uses: type, comment, \<open>is_revert\<close>.\<close>

type_synonym old_rows = "(ustr, ustr \<times> ustr \<times> bool option) pydict"

definition BATCH :: nat where
  "BATCH = 5000"

definition null_rows :: "old_rows \<Rightarrow> (ustr \<times> ustr \<times> ustr) list" where
  "null_rows t = map (\<lambda>(i, k, c, _). (i, k, c)) (filter (\<lambda>(_, _, _, f). f = None) t)"

text \<open>\<open>SELECT\<close> with a limit and no order: some rows, and at least one if there is one.\<close>

definition select_ok :: "(old_rows \<Rightarrow> (ustr \<times> ustr \<times> ustr) list) \<Rightarrow> bool" where
  "select_ok pick \<longleftrightarrow> (\<forall>t. wf_dict t \<longrightarrow>
     set (pick t) \<subseteq> set (null_rows t) \<and> distinct (map fst (pick t)) \<and> length (pick t) \<le> BATCH \<and>
     (null_rows t \<noteq> [] \<longrightarrow> pick t \<noteq> []))"

definition flags :: "unicode \<Rightarrow> (ustr \<times> ustr \<times> ustr) list \<Rightarrow> (ustr \<times> bool) list" where
  "flags U rows = map (\<lambda>(i, k, c). (i, k = ascii ''edit'' \<and> is_revert_comment U c)) rows"

definition update_batch :: "(ustr \<times> bool) list \<Rightarrow> old_rows \<Rightarrow> old_rows" where
  "update_batch values t =
     map (\<lambda>(i, k, c, f). (i, k, c, case map_of values i of None \<Rightarrow> f | Some b \<Rightarrow> Some b)) t"

text \<open>The loop of \<open>main\<close>, with the rows updated and the reverts among them.\<close>

partial_function (option) backfill ::
  "unicode \<Rightarrow> (old_rows \<Rightarrow> (ustr \<times> ustr \<times> ustr) list) \<Rightarrow> nat \<Rightarrow> nat \<Rightarrow> old_rows \<Rightarrow> (nat \<times> nat \<times> old_rows) option" where
  "backfill U pick updated reverts t =
     (let rows = pick t
      in if rows = [] then Some (updated, reverts, t)
         else let values = flags U rows
              in backfill U pick (updated + length values) (reverts + length (filter snd values)) (update_batch values t))"

text \<open>What the rows come to, and the number of reverts still to be found.\<close>

definition filled :: "unicode \<Rightarrow> ustr \<times> ustr \<times> bool option \<Rightarrow> ustr \<times> ustr \<times> bool option" where
  "filled U r = (case r of (k, c, f) \<Rightarrow>
     (k, c, Some (case f of Some b \<Rightarrow> b | None \<Rightarrow> k = ascii ''edit'' \<and> is_revert_comment U c)))"


lemma split_off:
  assumes "distinct ns" and "distinct rs" and "set rs \<subseteq> set ns"
  shows "length (filter P ns) = length (filter P (filter (\<lambda>x. x \<notin> set rs) ns)) + length (filter P rs)"
proof -
  have "length (filter P ns) = card {x \<in> set ns. P x}"
    using assms(1) by (metis distinct_card distinct_filter set_filter)
  also have "{x \<in> set ns. P x} = {x \<in> set ns. x \<notin> set rs \<and> P x} \<union> {x \<in> set rs. P x}" using assms(3) by blast
  also have "card \<dots> = card {x \<in> set ns. x \<notin> set rs \<and> P x} + card {x \<in> set rs. P x}"
    by (rule card_Un_disjoint) auto
  also have "card {x \<in> set rs. P x} = length (filter P rs)"
    using assms(2) by (metis distinct_card distinct_filter set_filter)
  also have "card {x \<in> set ns. x \<notin> set rs \<and> P x} = length (filter P (filter (\<lambda>x. x \<notin> set rs) ns))"
    using distinct_card [of "filter P (filter (\<lambda>x. x \<notin> set rs) ns)"] assms(1) by (simp add: conj_commute)
  finally show ?thesis by simp
qed

definition to_revert :: "unicode \<Rightarrow> ustr \<times> ustr \<times> ustr \<Rightarrow> bool" where
  "to_revert U r = (case r of (_, k, c) \<Rightarrow> k = ascii ''edit'' \<and> is_revert_comment U c)"

lemma in_null_rows: "(i, k, c) \<in> set (null_rows t) \<longleftrightarrow> (i, k, c, None) \<in> set t"
  by (force simp: null_rows_def)

lemma distinct_null_rows:
  assumes "wf_dict t"
  shows "distinct (map fst (null_rows t))"
proof -
  have "map fst (null_rows t) = map fst (filter (\<lambda>(_, _, _, f). f = None) t)"
    by (auto simp: null_rows_def)
  then show ?thesis using wf_dict_filter [OF assms] by (simp add: wf_dict_def)
qed

lemma flags_lookup:
  assumes "distinct (map fst rows)"
  shows "map_of (flags U rows) i = Some b \<longleftrightarrow> (\<exists>k c. (i, k, c) \<in> set rows \<and> b = to_revert U (i, k, c))"
proof -
  have "map fst (flags U rows) = map fst rows" by (auto simp: flags_def)
  with assms have "map_of (flags U rows) i = Some b \<longleftrightarrow> (i, b) \<in> set (flags U rows)"
    by (metis map_of_SomeD map_of_is_SomeI)
  then show ?thesis by (force simp: flags_def to_revert_def)
qed

lemma update_batch_step:
  assumes wf: "wf_dict t" and sub: "set rows \<subseteq> set (null_rows t)" and dist: "distinct (map fst rows)"
    and t1_def: "t1 = update_batch (flags U rows) t"
  shows "wf_dict t1" and "map (apsnd (filled U)) t1 = map (apsnd (filled U)) t"
    and "null_rows t1 = filter (\<lambda>x. x \<notin> set rows) (null_rows t)"
proof -
  have upd: "(case map_of (flags U rows) i of None \<Rightarrow> f | Some b \<Rightarrow> Some b) =
      (if (i, k, c) \<in> set rows then Some (to_revert U (i, k, c)) else f) \<and> ((i, k, c) \<in> set rows \<longrightarrow> f = None)"
    if row: "(i, k, c, f) \<in> set t" for i k c f
  proof -
    have one: "k' = k \<and> c' = c \<and> f = None" if "(i, k', c') \<in> set rows" for k' c'
    proof -
      have "(i, k', c', None) \<in> set t" using that sub in_null_rows by blast
      then show ?thesis using row in_dict_iff [OF wf] by (metis option.inject prod.inject)
    qed
    show ?thesis
    proof (cases "(i, k, c) \<in> set rows")
      case True
      then have "map_of (flags U rows) i = Some (to_revert U (i, k, c))" using flags_lookup [OF dist] by blast
      moreover have "f = None" using one [OF True] by blast
      ultimately show ?thesis using True by simp
    next
      case False
      have "map_of (flags U rows) i \<noteq> Some b" for b
      proof
        assume "map_of (flags U rows) i = Some b"
        then obtain k' c' where kc: "(i, k', c') \<in> set rows" using flags_lookup [OF dist] by blast
        with one [OF kc] False show "False" by simp
      qed
      then have "map_of (flags U rows) i = None" by (cases "map_of (flags U rows) i") metis+
      with False show ?thesis by simp
    qed
  qed
  have t1: "t1 = map (\<lambda>(i, k, c, f). (i, k, c, if (i, k, c) \<in> set rows then Some (to_revert U (i, k, c)) else f)) t"
    unfolding t1_def update_batch_def by (rule map_cong [OF refl]) (use upd in auto)
  have "map fst t1 = map fst t" by (auto simp: t1)
  with wf show "wf_dict t1" by (simp add: wf_dict_def)
  show "map (apsnd (filled U)) t1 = map (apsnd (filled U)) t"
    unfolding t1 map_map by (rule map_cong [OF refl]) (use upd in \<open>force simp: filled_def to_revert_def\<close>)
  have "\<forall>r \<in> set t'. \<forall>i k c f. r = (i, k, c, f) \<and> (i, k, c) \<in> set rows \<longrightarrow> f = None \<Longrightarrow>
     null_rows (map (\<lambda>(i, k, c, f). (i, k, c, if (i, k, c) \<in> set rows then Some (to_revert U (i, k, c)) else f)) t') =
     filter (\<lambda>x. x \<notin> set rows) (null_rows t')" for t'
    by (induction t') (auto simp: null_rows_def)
  then show "null_rows t1 = filter (\<lambda>x. x \<notin> set rows) (null_rows t)" unfolding t1 using upd by blast
qed

lemma backfill_runs:
  assumes "select_ok pick" and "wf_dict t"
  shows "backfill U pick u r t = Some (u + length (null_rows t), r + length (filter (to_revert U) (null_rows t)),
     map (apsnd (filled U)) t)"
  using assms(2)
proof (induction "length (null_rows t)" arbitrary: t u r rule: less_induct)
  case less
  have sel: "set (pick t) \<subseteq> set (null_rows t)" "distinct (map fst (pick t))" "null_rows t \<noteq> [] \<Longrightarrow> pick t \<noteq> []"
    using assms(1) less.prems by (auto simp: select_ok_def)
  show ?case
  proof (cases "pick t = []")
    case True
    with sel(3) have n: "null_rows t = []" by blast
    then have "\<forall>x \<in> set t. apsnd (filled U) x = x"
      by (auto simp: null_rows_def filter_empty_conv filled_def)
    then have "map (apsnd (filled U)) t = t" by (simp add: map_idI)
    then show ?thesis using True n by (subst backfill.simps) simp
  next
    case False
    let ?t1 = "update_batch (flags U (pick t)) t"
    note st = update_batch_step [OF less.prems sel(1,2), where U = U, OF refl]
    have d: "distinct (null_rows t)" "distinct (pick t)"
      using distinct_null_rows [OF less.prems] sel(2) by (simp_all add: distinct_map)
    have len: "length (filter P (null_rows t)) = length (filter P (null_rows ?t1)) + length (filter P (pick t))" for P
      unfolding st(3) by (rule split_off [OF d sel(1)])
    have l: "length (null_rows t) = length (null_rows ?t1) + length (pick t)" using len [of "\<lambda>_. True"] by simp
    with False have "length (null_rows ?t1) < length (null_rows t)" by simp
    note ih = less.hyps [OF this st(1)]
    have f: "length (flags U (pick t)) = length (pick t)"
      "length (filter snd (flags U (pick t))) = length (filter (to_revert U) (pick t))"
      by (simp_all add: flags_def filter_map comp_def to_revert_def [abs_def] case_prod_beta)
    have "backfill U pick u r t =
        backfill U pick (u + length (pick t)) (r + length (filter (to_revert U) (pick t))) ?t1"
      using False by (subst backfill.simps) (simp add: Let_def f)
    also have "\<dots> = Some (u + length (null_rows t), r + length (filter (to_revert U) (null_rows t)), map (apsnd (filled U)) t)"
      unfolding ih st(2) using l len [of "to_revert U"] by simp
    finally show ?thesis .
  qed
qed


lemma map_of_apsnd: "map_of (map (apsnd f) t) i = map_option f (map_of t i)"
  by (induction t) (auto simp: apsnd_def)

text \<open>
  C19. The backfill ends, and old rows then agree with new ones. Whichever rows each query picks, the
  script stops after finitely many batches with no row left unset; every row that was unset now
  holds what the pipeline would have stored for that edit, rows that were set keep their value, and
  no row appears or disappears. Stopping after a batch and starting again gives the same table.
\<close>

theorem backfill_agrees_with_pipeline:
  assumes "select_ok pick" and "wf_dict t"
  shows "\<exists>t'. backfill (rt_unicode rt) pick 0 0 t =
      Some (length (null_rows t), length (filter (to_revert (rt_unicode rt)) (null_rows t)), t')
    \<and> null_rows t' = [] \<and> map fst t' = map fst t
    \<and> (\<forall>e. map_of t (event_id e) = Some (etype e, comment e, None) \<longrightarrow>
         map_of t' (event_id e) = Some (etype e, comment e, Some (is_revert rt e)))
    \<and> (\<forall>i k c b. map_of t i = Some (k, c, Some b) \<longrightarrow> map_of t' i = Some (k, c, Some b))
    \<and> (\<exists>u r. backfill (rt_unicode rt) pick 0 0 (update_batch (flags (rt_unicode rt) (pick t)) t) = Some (u, r, t'))"
proof -
  let ?U = "rt_unicode rt" and ?t' = "map (apsnd (filled (rt_unicode rt))) t"
  have "null_rows ?t' = []" by (auto simp: null_rows_def filter_empty_conv filled_def)
  moreover have "map fst ?t' = map fst t" by simp
  moreover have "\<exists>u r. backfill ?U pick 0 0 (update_batch (flags ?U (pick t)) t) = Some (u, r, ?t')"
  proof -
    have p: "set (pick t) \<subseteq> set (null_rows t)" "distinct (map fst (pick t))"
      using assms by (auto simp: select_ok_def)
    note st = update_batch_step [OF assms(2) p, where U = ?U, OF refl]
    from backfill_runs [OF assms(1) st(1), of ?U 0 0] show ?thesis unfolding st(2) by blast
  qed
  ultimately show ?thesis
    using backfill_runs [OF assms, of ?U 0 0] by (auto simp: map_of_apsnd filled_def is_revert_def)
qed

subsection \<open>Runs\<close>

type_synonym toy_cluster = "(ustr, int \<times> (ustr \<Rightarrow> ustr option)) pydict"

definition toy_create :: "toy_cluster \<Rightarrow> NewTopic \<Rightarrow> toy_cluster option" where
  "toy_create c r =
     (if map_of c (nt_name r) \<noteq> None then None
      else Some (AList.update (nt_name r) (nt_partitions r, map_of (nt_config r)) c))"

definition toy_alter :: "toy_cluster \<Rightarrow> ustr \<times> (ustr, ustr) pydict \<Rightarrow> toy_cluster option" where
  "toy_alter c r =
     (case map_of c (fst r) of
        None \<Rightarrow> None
      | Some v \<Rightarrow> Some (AList.update (fst r) (fst v, snd v ++ map_of (snd r)) c))"

lemma toy_laws: "admin_laws map_of (map (apsnd fst)) toy_create toy_alter"
  by (auto simp: admin_laws_def map_of_apsnd toy_create_def toy_alter_def dict_simps split: if_splits option.splits)

theorem topics_brought_in_line_witness:
  "\<exists>c' warnings. create_topics (map (apsnd fst)) toy_create toy_alter (ascii ''wiki'') (ascii ''2'') 3 [] = Some (c', [], warnings) \<and>
     map_of c' (TOPIC_DLQ (ascii ''wiki'')) =
       Some (1, map_of (topic_config (ascii ''2'') \<lparr>ts_name = TOPIC_DLQ (ascii ''wiki''), ts_partitions = 1, ts_config = retention (30 * DAY_MS)\<rparr>))"
proof -
  obtain c' warnings where r:
    "create_topics (map (apsnd fst)) toy_create toy_alter (ascii ''wiki'') (ascii ''2'') 3 [] = Some (c', [], warnings)"
    by (simp add: create_topics_def create_missing_def sync_configs_def toy_create_def TOPICS_def TOPIC_RAW_def
        TOPIC_CLEAN_def TOPIC_ALERTS_def TOPIC_PAGE_LATEST_def TOPIC_DLQ_def topic_name_def)
  have "\<lparr>ts_name = TOPIC_DLQ (ascii ''wiki''), ts_partitions = 1, ts_config = retention (30 * DAY_MS)\<rparr> \<in> set (TOPICS (ascii ''wiki''))"
    by (simp add: TOPICS_def)
  with topics_brought_in_line [OF toy_laws r] r show ?thesis by fastforce
qed

theorem backfill_agrees_with_pipeline_witness:
  "\<exists>t'. backfill (rt_unicode plain_runtime) (take BATCH \<circ> null_rows) 0 0 [([1], ascii ''log'', [], None), ([2], ascii ''edit'', [], Some True)] = Some (1, 0, t') \<and>
     null_rows t' = []"
proof -
  have "select_ok (take BATCH \<circ> null_rows)"
    using distinct_null_rows by (auto simp: select_ok_def take_map [symmetric] BATCH_def dest: in_set_takeD)
  from backfill_agrees_with_pipeline [OF this, of "[([1], ascii ''log'', [], None), ([2], ascii ''edit'', [], Some True)]" plain_runtime]
  show ?thesis by (auto simp: null_rows_def to_revert_def)
qed

end
