(* ===== verification/Queries.thy ===== *)
theory Queries
  imports PyText "HOL-Library.Multiset"
begin

text \<open>
  \<^verbatim>\<open>web/queries.py\<close>: the questions the dashboard asks PostgreSQL and the shapes it
  answers in, each statement as the list it selects. Times are instants in microseconds, minutes
  those of UTC. A share is kept as its two counts, and so are the rates, since the code only
  divides and rounds them. Rows that are equal under a statement's \<open>ORDER BY\<close> come in
  whatever order the database likes, which is an argument.
\<close>

subsection \<open>Windows\<close>

definition MINUTE :: int where
  "MINUTE = 60000000"

definition MIN_MINUTES :: int where "MIN_MINUTES = 5"

definition MAX_MINUTES :: int where "MAX_MINUTES = 6 * 60"

definition clamp_minutes :: "int \<Rightarrow> int" where
  "clamp_minutes m = max MIN_MINUTES (min MAX_MINUTES m)"

text \<open>\<open>replace(second=0, microsecond=0)\<close>, and \<open>date_trunc('minute', ...)\<close>\<close>

definition trunc_minute :: "int \<Rightarrow> int" where
  "trunc_minute t = t - t mod MINUTE"

function series_from :: "(int, int) pydict \<Rightarrow> int \<Rightarrow> int \<Rightarrow> (int \<times> int) list" where
  "series_from counts minute fin =
     (if minute < fin then (minute, get_default counts minute 0) # series_from counts (minute + MINUTE) fin else [])"
  by pat_completeness auto
termination
  by (relation "measure (\<lambda>(counts, minute, fin). nat (fin - minute))") (simp_all add: MINUTE_def)

definition minute_series :: "(int \<times> int) list \<Rightarrow> int \<Rightarrow> int \<Rightarrow> (int \<times> int) list" where
  "minute_series rows minutes now =
     (let fin = trunc_minute now;
          start = fin - minutes * MINUTE;
          counts = fold (\<lambda>(m, n) d. AList.update m n d) rows []
      in series_from counts start fin)"

subsection \<open>The tables\<close>

record edit_row =
  er_id :: ustr
  er_wiki :: ustr
  er_title :: ustr
  er_type :: ustr
  er_user :: ustr
  er_bot :: bool
  er_minor :: bool
  er_is_revert :: "bool option"
  er_comment :: ustr
  er_time :: int
  er_length_old :: "int option"
  er_length_new :: "int option"
  er_server :: ustr
  er_ingested :: int

record alert_row =
  ar_id :: ustr
  ar_wiki :: ustr
  ar_title :: ustr
  ar_reverts :: int
  ar_users :: "ustr list"
  ar_start :: int
  ar_end :: int
  ar_detected :: int

type_synonym trending_rows = "((ustr \<times> ustr \<times> int) \<times> int) list"

text \<open>What every statement over a window selects from: after \<open>since\<close>, up to \<open>now\<close>.\<close>

definition in_window :: "int \<Rightarrow> int \<Rightarrow> int \<Rightarrow> bool" where
  "in_window since now t \<longleftrightarrow> since < t \<and> t \<le> now"

definition window_edits :: "int \<Rightarrow> int \<Rightarrow> edit_row list \<Rightarrow> edit_row list" where
  "window_edits since now edits = filter (\<lambda>r. in_window since now (er_time r)) edits"

text \<open>\<open>GROUP BY\<close> with a count\<close>

definition count_by :: "('r \<Rightarrow> 'k) \<Rightarrow> 'r list \<Rightarrow> ('k \<times> int) list" where
  "count_by key rows = map (\<lambda>k. (k, int (length (filter (\<lambda>r. key r = k) rows)))) (remdups (map key rows))"

subsection \<open>The overview\<close>

record overview_answer =
  ov_minutes :: int
  ov_now :: int
  ov_edits :: int
  ov_bots :: int
  ov_wikis :: int
  ov_pages :: int
  ov_last_minute :: int
  ov_edit_wars :: int
  ov_stored :: int
  ov_newest_stored :: "int option"
  ov_newest_event :: "int option"
  ov_per_minute :: "(int \<times> int) list"

definition newest_of :: "int list \<Rightarrow> int option" where
  "newest_of ts = (if ts = [] then None else Some (foldr max ts (hd ts)))"

text \<open>
  Every statement runs on its own and sees the tables as they are then: \<open>edits i\<close> is what the
  \<open>i\<close>-th one sees. They are, in their order, the totals, what is stored, the last minute and the
  edits per minute.
\<close>

definition overview :: "(nat \<Rightarrow> edit_row list) \<Rightarrow> (nat \<Rightarrow> alert_row list) \<Rightarrow> int \<Rightarrow> int \<Rightarrow> overview_answer" where
  "overview edits alerts asked now =
     (let minutes = clamp_minutes asked;
          since = now - minutes * MINUTE;
          win = window_edits since now (edits 0)
      in \<lparr>ov_minutes = minutes, ov_now = now,
          ov_edits = int (length win),
          ov_bots = int (length (filter er_bot win)),
          ov_wikis = int (length (remdups (map er_wiki win))),
          ov_pages = int (length (remdups (map (\<lambda>r. (er_wiki r, er_title r)) win))),
          ov_last_minute = int (length (window_edits (now - MINUTE) now (edits 2))),
          ov_edit_wars = int (length (filter (\<lambda>a. since < ar_end a \<and> ar_start a \<le> now) (alerts 1))),
          ov_stored = int (length (edits 1)),
          ov_newest_stored = newest_of (map er_ingested (edits 1)),
          ov_newest_event = newest_of (map er_time (edits 1)),
          ov_per_minute = minute_series (count_by (\<lambda>r. trunc_minute (er_time r)) (window_edits since now (edits 3))) minutes now\<rparr>)"

subsection \<open>Trending pages\<close>

record trending_page =
  tp_wiki :: ustr
  tp_title :: ustr
  tp_edits :: int
  tp_per_minute :: "int list"

definition wiki_matches :: "ustr option \<Rightarrow> ustr \<Rightarrow> bool" where
  "wiki_matches wanted w \<longleftrightarrow> wanted = None \<or> wanted = Some [] \<or> wanted = Some w"

text \<open>\<open>ORDER BY edits DESC, wiki, title\<close> on rows whose key is unique\<close>

definition ranked :: "('k :: linorder \<times> int) list \<Rightarrow> ('k \<times> int) list" where
  "ranked rows = sort_key (\<lambda>(k, n). (- n, k)) rows"

definition top_pages :: "trending_rows \<Rightarrow> int \<Rightarrow> int \<Rightarrow> ustr option \<Rightarrow> nat \<Rightarrow> ((ustr \<times> ustr) \<times> int) list" where
  "top_pages rows since now wanted limit =
     (let win = filter (\<lambda>((w, t, m), n). in_window since now m \<and> wiki_matches wanted w) rows;
          pages = remdups (map (\<lambda>((w, t, m), n). (w, t)) win)
      in take limit (ranked (map (\<lambda>p. (p, sum_list (map snd (filter (\<lambda>((w, t, m), n). (w, t) = p) win)))) pages)))"

definition page_minutes :: "trending_rows \<Rightarrow> int \<Rightarrow> int \<Rightarrow> ustr \<times> ustr \<Rightarrow> (int \<times> int) list" where
  "page_minutes rows since now p =
     map (\<lambda>((w, t, m), n). (m, n)) (filter (\<lambda>((w, t, m), n). in_window since now m \<and> (w, t) = p) rows)"

text \<open>
  The statements in their order: the pages with the most edits, their minutes (asked for only when
  there is a page), and the newest minute.
\<close>

definition trending :: "(nat \<Rightarrow> trending_rows) \<Rightarrow> int \<Rightarrow> ustr option \<Rightarrow> int \<Rightarrow> int \<Rightarrow> int option \<times> trending_page list" where
  "trending rows asked wanted limit now =
     (let minutes = clamp_minutes asked;
          since = now - minutes * MINUTE;
          top = top_pages (rows 0) since now wanted (nat (max 1 (min limit 50)))
      in (newest_of (map (\<lambda>((w, t, m), n). m) (rows 2)),
          map (\<lambda>(p, n). \<lparr>tp_wiki = fst p, tp_title = snd p, tp_edits = n,
                 tp_per_minute = (let found = page_minutes (rows 1) since now p
                    in if found = [] then [] else map snd (minute_series found minutes now))\<rparr>) top))"

subsection \<open>Wikis, edits, alerts\<close>

definition top_wikis :: "edit_row list \<Rightarrow> int \<Rightarrow> int \<Rightarrow> int \<Rightarrow> (ustr \<times> int \<times> int) list" where
  "top_wikis edits asked limit now =
     (let win = window_edits (now - clamp_minutes asked * MINUTE) now edits
      in take (nat (max 1 (min limit 100)))
           (map (\<lambda>(w, n). (w, n, int (length (filter (\<lambda>r. er_wiki r = w \<and> er_bot r) win))))
             (ranked (count_by er_wiki win))))"

definition url_safe :: "nat \<Rightarrow> bool" where
  "url_safe c \<longleftrightarrow> 48 \<le> c \<and> c \<le> 57 \<or> 65 \<le> c \<and> c \<le> 90 \<or> 97 \<le> c \<and> c \<le> 122 \<or>
     c \<in> set (ascii ''_.-~:/(),!*'')"

definition percent :: "nat \<Rightarrow> ustr" where
  "percent b = (let hex = (\<lambda>n. if n < 10 then 48 + n else 55 + n) in [37, hex (b div 16), hex (b mod 16)])"

definition quote_url :: "ustr \<Rightarrow> pyexc + ustr" where
  "quote_url s =
     bind_res (utf8_encode s) (\<lambda>b. Inr (concat (map (\<lambda>c. if url_safe c then [c] else percent c) b)))"

definition page_url :: "ustr \<Rightarrow> ustr \<Rightarrow> pyexc + ustr option" where
  "page_url server title =
     (if server = [] then Inr None
      else bind_res (quote_url (map (\<lambda>c. if c = 32 then 95 else c) title)) (\<lambda>q.
        Inr (Some (ascii ''https://'' @ server @ ascii ''/wiki/'' @ q))))"

definition size_change :: "edit_row \<Rightarrow> int option" where
  "size_change r =
     (case (er_length_old r, er_length_new r) of (Some a, Some b) \<Rightarrow> Some (b - a) | _ \<Rightarrow> None)"

definition edit_wanted :: "ustr option \<Rightarrow> bool \<Rightarrow> bool \<Rightarrow> edit_row \<Rightarrow> bool" where
  "edit_wanted wanted humans reverts r \<longleftrightarrow>
     wiki_matches wanted (er_wiki r) \<and> (humans \<longrightarrow> \<not> er_bot r) \<and> (reverts \<longrightarrow> er_is_revert r = Some True)"

text \<open>
  The page of the feed and \<open>next_before\<close>; \<open>order\<close> is the database's
  \<open>ORDER BY event_time DESC\<close>.
\<close>

definition latest_edits ::
  "(edit_row list \<Rightarrow> edit_row list) \<Rightarrow> edit_row list \<Rightarrow> int \<Rightarrow> ustr option \<Rightarrow> bool \<Rightarrow> bool \<Rightarrow> int option \<Rightarrow>
   edit_row list \<times> int option" where
  "latest_edits order edits limit wanted humans reverts before =
     (let page = take (nat (max 1 (min limit 200)))
           (order (filter (\<lambda>r. edit_wanted wanted humans reverts r \<and>
              (case before of None \<Rightarrow> True | Some b \<Rightarrow> er_time r < b)) edits))
      in (page, if page = [] then None else Some (er_time (last page))))"

text \<open>A reader of the feed that asks for one page after another, until a page is empty.\<close>

fun read_feed ::
  "(edit_row list \<Rightarrow> edit_row list) \<Rightarrow> edit_row list \<Rightarrow> int \<Rightarrow> ustr option \<Rightarrow> bool \<Rightarrow> bool \<Rightarrow> nat \<Rightarrow> int option \<Rightarrow>
   edit_row list option" where
  "read_feed order edits limit wanted humans reverts 0 before = None"
| "read_feed order edits limit wanted humans reverts (Suc fuel) before =
     (case latest_edits order edits limit wanted humans reverts before of
        (page, None) \<Rightarrow> Some []
      | (page, Some b) \<Rightarrow>
          map_option ((@) page) (read_feed order edits limit wanted humans reverts fuel (Some b)))"

definition alerts_of :: "(alert_row list \<Rightarrow> alert_row list) \<Rightarrow> alert_row list \<Rightarrow> int \<Rightarrow> alert_row list" where
  "alerts_of order alerts limit = take (nat (max 1 (min limit 200))) (order alerts)"

text \<open>What PostgreSQL promises of the order.\<close>

definition newest_first :: "(edit_row list \<Rightarrow> edit_row list) \<Rightarrow> bool" where
  "newest_first order \<longleftrightarrow>
     (\<forall>rs. mset (order rs) = mset rs \<and> sorted_wrt (\<lambda>a b. er_time b \<le> er_time a) (order rs))"


subsection \<open>The series\<close>

lemma series_from_eq:
  "series_from counts minute (minute + int n * MINUTE) =
     map (\<lambda>i. (minute + int i * MINUTE, get_default counts (minute + int i * MINUTE) 0)) [0..<n]"
proof (induction n arbitrary: minute)
  case (Suc n)
  have "series_from counts minute (minute + int (Suc n) * MINUTE) =
      (minute, get_default counts minute 0) # series_from counts (minute + MINUTE) (minute + MINUTE + int n * MINUTE)"
    by (subst series_from.simps) (simp add: MINUTE_def algebra_simps)
  also have "\<dots> = (minute, get_default counts minute 0) #
      map (\<lambda>i. (minute + int (Suc i) * MINUTE, get_default counts (minute + int (Suc i) * MINUTE) 0)) [0..<n]"
    unfolding Suc.IH by (simp add: algebra_simps)
  also have "\<dots> = map (\<lambda>i. (minute + int i * MINUTE, get_default counts (minute + int i * MINUTE) 0)) [0..<Suc n]"
    by (simp add: upt_conv_Cons map_Suc_upt [symmetric] del: upt_Suc)
  finally show ?case .
qed (subst series_from.simps, simp)

lemma fold_update_lookup:
  "map_of (fold (\<lambda>(m, n) d. AList.update m n d) rows d) k =
     (case map_of (rev rows) k of None \<Rightarrow> map_of d k | Some v \<Rightarrow> Some v)"
  by (induction rows arbitrary: d) (auto simp: dict_simps map_add_def split: option.splits)

lemma clamp_pos: "0 < clamp_minutes m" "int (nat (clamp_minutes m)) = clamp_minutes m"
  by (simp_all add: clamp_minutes_def MIN_MINUTES_def MAX_MINUTES_def)

definition series_start :: "int \<Rightarrow> int \<Rightarrow> int" where
  "series_start asked now = trunc_minute now - clamp_minutes asked * MINUTE"

lemma minute_series_eq:
  assumes "distinct (map fst rows)"
  shows "minute_series rows (clamp_minutes asked) now =
     map (\<lambda>i. let m = series_start asked now + int i * MINUTE
               in (m, case map_of rows m of None \<Rightarrow> 0 | Some n \<Rightarrow> n)) [0..<nat (clamp_minutes asked)]"
proof -
  have d: "distinct (map fst (rev rows))" using assms by (simp add: rev_map [symmetric])
  have "map_of (rev rows) = map_of rows"
    using map_of_inject_set [OF d assms] by simp
  then have "get_default (fold (\<lambda>(m, n) d. AList.update m n d) rows []) k 0 = (case map_of rows k of None \<Rightarrow> 0 | Some n \<Rightarrow> n)" for k
    by (auto simp: get_default_def fold_update_lookup split: option.splits)
  moreover have "trunc_minute now = series_start asked now + int (nat (clamp_minutes asked)) * MINUTE"
    unfolding series_start_def clamp_pos(2) by simp
  moreover have "minute_series rows (clamp_minutes asked) now =
      series_from (fold (\<lambda>(m, n) d. AList.update m n d) rows []) (series_start asked now) (trunc_minute now)"
    by (simp only: minute_series_def Let_def series_start_def)
  ultimately show ?thesis by (simp only: series_from_eq Let_def)
qed

lemma trunc_minute_bounds: "trunc_minute t \<le> t" "t < trunc_minute t + MINUTE" "trunc_minute t mod MINUTE = 0"
  by (simp_all add: trunc_minute_def MINUTE_def mod_diff_left_eq [symmetric])

lemma trunc_minute_eq_iff:
  assumes "m mod MINUTE = 0"
  shows "trunc_minute t = m \<longleftrightarrow> m \<le> t \<and> t < m + MINUTE"
proof
  assume "m \<le> t \<and> t < m + MINUTE"
  moreover from assms have "MINUTE * (m div MINUTE) = m" by (metis mult_div_mod_eq add.right_neutral)
  ultimately have "t mod MINUTE = t - m"
    by (intro int_mod_pos_eq [where q = "m div MINUTE"]) simp_all
  then show "trunc_minute t = m" by (simp add: trunc_minute_def)
qed (use trunc_minute_bounds(1,2) [of t] in auto)

lemma series_minute: "(series_start asked now + int i * MINUTE) mod MINUTE = 0"
proof -
  have "MINUTE dvd trunc_minute now" using trunc_minute_bounds(3) by (rule mod_0_imp_dvd)
  then show ?thesis unfolding series_start_def by simp
qed

lemma distinct_count_by: "distinct (map fst (count_by key rows))"
  by (simp add: count_by_def comp_def)

lemma count_by_lookup:
  "(case map_of (count_by key rows) k of None \<Rightarrow> 0 | Some n \<Rightarrow> n) = int (length (filter (\<lambda>r. key r = k) rows))"
proof (cases "k \<in> key ` set rows")
  case True
  then have "(k, int (length (filter (\<lambda>r. key r = k) rows))) \<in> set (count_by key rows)" by (auto simp: count_by_def)
  then show ?thesis using map_of_is_SomeI [OF distinct_count_by] by fastforce
next
  case False
  then have "map_of (count_by key rows) k = None" by (simp add: map_of_eq_None_iff count_by_def image_image)
  moreover have "filter (\<lambda>r. key r = k) rows = []" using False by (auto simp: filter_empty_conv)
  ultimately show ?thesis by simp
qed

definition window_start :: "int \<Rightarrow> int \<Rightarrow> int" where
  "window_start asked now = now - clamp_minutes asked * MINUTE"

definition in_minute :: "int \<Rightarrow> edit_row \<Rightarrow> bool" where
  "in_minute m r \<longleftrightarrow> m \<le> er_time r \<and> er_time r < m + MINUTE"

lemma length_remdups_map: "length (remdups (map f xs)) \<le> length xs"
  by (metis length_map length_remdups_leq)

lemma series_start_bounds:
  "series_start asked now \<le> window_start asked now" "window_start asked now < series_start asked now + MINUTE"
  using trunc_minute_bounds(1,2) [of now] by (simp_all add: series_start_def window_start_def)

text \<open>The rows a minute of the series counts: those of the window with that minute as their group.\<close>

lemma series_row_iff:
  assumes m: "m = series_start asked now + int i * MINUTE" and i: "i < nat (clamp_minutes asked)"
  shows "trunc_minute (er_time r) = m \<and> in_window (window_start asked now) now (er_time r) \<longleftrightarrow>
    in_minute m r \<and> (m = series_start asked now \<longrightarrow> window_start asked now < er_time r)"
proof -
  have "int i + 1 \<le> clamp_minutes asked" using i by linarith
  then have "(int i + 1) * MINUTE \<le> clamp_minutes asked * MINUTE" by (rule mult_right_mono) (simp add: MINUTE_def)
  then have late: "m + MINUTE \<le> now"
    using trunc_minute_bounds(1) [of now] m by (simp add: series_start_def algebra_simps)
  have "m = series_start asked now \<or> window_start asked now < m"
  proof (cases i)
    case (Suc j)
    have "series_start asked now + MINUTE \<le> m" unfolding m Suc by (simp add: MINUTE_def)
    with series_start_bounds(2) [of asked now] show ?thesis by simp
  qed (simp add: m)
  moreover have "trunc_minute (er_time r) = m \<longleftrightarrow> in_minute m r"
    unfolding in_minute_def m by (rule trunc_minute_eq_iff [OF series_minute])
  ultimately show ?thesis using late by (auto simp: in_window_def in_minute_def)
qed

lemma wikis_le_pages:
  "length (remdups (map er_wiki rows)) \<le> length (remdups (map (\<lambda>r. (er_wiki r, er_title r)) rows))"
proof -
  have "er_wiki ` set rows = fst ` ((\<lambda>r. (er_wiki r, er_title r)) ` set rows)" by (simp add: image_image)
  then have "card (er_wiki ` set rows) \<le> card ((\<lambda>r. (er_wiki r, er_title r)) ` set rows)"
    by (simp only:) (rule card_image_le, simp)
  then show ?thesis by (simp add: length_remdups_card_conv)
qed

text \<open>
  C31. The overview counts every minute but the first in full. Each of its statements sees the tables
  as they are when it runs. The chart has one entry for each full minute of the window; each entry
  after the first counts exactly the edits of its minute that are stored when the statement of the
  chart runs, while the first counts only those after the start of the window, which lies inside that
  minute unless the question is asked on the minute. The counts of bots, of pages and of wikis are no
  larger than that of edits, and the one of wikis no larger than that of pages.
\<close>

theorem overview_series_exact:
  "map fst (ov_per_minute (overview edits alerts asked now)) =
      map (\<lambda>i. series_start asked now + int i * MINUTE) [0..<nat (clamp_minutes asked)]
    \<and> (\<forall>(m, n) \<in> set (ov_per_minute (overview edits alerts asked now)).
        n = int (length (filter (\<lambda>r. in_minute m r \<and> (m = series_start asked now \<longrightarrow> window_start asked now < er_time r)) (edits 3))))
    \<and> series_start asked now \<le> window_start asked now
    \<and> ov_bots (overview edits alerts asked now) \<le> ov_edits (overview edits alerts asked now)
    \<and> ov_wikis (overview edits alerts asked now) \<le> ov_pages (overview edits alerts asked now)
    \<and> ov_pages (overview edits alerts asked now) \<le> ov_edits (overview edits alerts asked now)"
proof -
  let ?win = "window_edits (window_start asked now) now (edits 3)" and ?all = "window_edits (window_start asked now) now (edits 0)" and ?start = "series_start asked now"
  let ?key = "\<lambda>r. trunc_minute (er_time r)"
  have per: "ov_per_minute (overview edits alerts asked now) =
     map (\<lambda>i. let m = ?start + int i * MINUTE in (m, int (length (filter (\<lambda>r. ?key r = m) ?win)))) [0..<nat (clamp_minutes asked)]"
    by (simp add: overview_def Let_def window_start_def minute_series_eq [OF distinct_count_by] count_by_lookup)
  note start = series_start_bounds [of asked now]
  have "n = int (length (filter (\<lambda>r. in_minute m r \<and> (m = ?start \<longrightarrow> window_start asked now < er_time r)) (edits 3)))"
    if "(m, n) \<in> set (ov_per_minute (overview edits alerts asked now))" for m n
  proof -
    from that obtain i where "i \<in> set [0..<nat (clamp_minutes asked)]"
      and eq: "(m, n) = (let m = ?start + int i * MINUTE in (m, int (length (filter (\<lambda>r. ?key r = m) ?win))))"
      unfolding per set_map by (elim imageE)
    then have i: "i < nat (clamp_minutes asked)" "m = ?start + int i * MINUTE"
      "n = int (length (filter (\<lambda>r. ?key r = ?start + int i * MINUTE) ?win))" by (simp_all add: Let_def)
    show ?thesis using series_row_iff [OF i(2,1)] unfolding i(3) i(2) [symmetric] by (simp add: window_edits_def conj_commute)
  qed
  moreover have "map fst (ov_per_minute (overview edits alerts asked now)) =
      map (\<lambda>i. ?start + int i * MINUTE) [0..<nat (clamp_minutes asked)]"
    by (simp add: per Let_def comp_def)
  moreover have "length (remdups (map er_wiki ?all)) \<le> length (remdups (map (\<lambda>r. (er_wiki r, er_title r)) ?all))"
    by (rule wikis_le_pages)
  ultimately show ?thesis
    using start(1) by (auto simp: overview_def Let_def window_start_def length_remdups_map)
qed


lemma page_minutes_distinct: "distinct (map fst rows) \<Longrightarrow> distinct (map fst (page_minutes rows since now k))"
  by (induction rows) (force simp: page_minutes_def)+

lemma top_pages_row:
  assumes "(k, cnt) \<in> set (top_pages rows since now wanted limit)"
  shows "page_minutes rows since now k \<noteq> []"
proof -
  let ?win = "filter (\<lambda>((w, t, m), n). in_window since now m \<and> wiki_matches wanted w) rows"
  have "(k, cnt) \<in> set (map (\<lambda>p. (p, sum_list (map snd (filter (\<lambda>((w, t, m), n). (w, t) = p) ?win))))
      (remdups (map (\<lambda>((w, t, m), n). (w, t)) ?win)))"
    using assms in_set_takeD unfolding top_pages_def ranked_def Let_def set_sort by fastforce
  then have "k \<in> set (map (\<lambda>((w, t, m), n). (w, t)) ?win)"
    unfolding set_map [of "\<lambda>p. (p, _ p)"] by (elim imageE) (simp only: prod.inject set_remdups)
  then obtain m n where "((fst k, snd k, m), n) \<in> set rows" "in_window since now m" by auto
  then show ?thesis by (force simp: page_minutes_def filter_empty_conv)
qed

lemma page_minutes_lookup:
  assumes "distinct (map fst rows)"
  shows "map_of (page_minutes rows since now k) m =
    (if in_window since now m then map_of rows (fst k, snd k, m) else None)"
  using assms
proof (induction rows)
  case (Cons x rows)
  obtain w t m' n where x: "x = ((w, t, m'), n)" by (metis prod.exhaust)
  have "map_of rows (w, t, m') = None" using Cons.prems by (simp add: x map_of_eq_None_iff)
  with Cons show ?case by (cases k) (auto simp: x page_minutes_def)
qed (simp add: page_minutes_def)

text \<open>If nothing changes between the statements, every page listed has minutes.\<close>

lemma listed_page_has_minutes:
  assumes "p \<in> set (snd (trending (\<lambda>_. rows) asked wanted limit now))"
  shows "page_minutes rows (now - clamp_minutes asked * MINUTE) now (tp_wiki p, tp_title p) \<noteq> []"
proof -
  obtain k cnt where "(k, cnt) \<in> set (top_pages rows (now - clamp_minutes asked * MINUTE) now wanted (nat (max 1 (min limit 50))))"
    and "tp_wiki p = fst k" "tp_title p = snd k"
    using assms by (auto simp: trending_def Let_def)
  then show ?thesis using top_pages_row by simp
qed

text \<open>
  The first minute of a trending page's chart is always empty. The chart of every page listed, if
  the statement of the minutes still finds the page, has one entry per minute of the window, and the
  first is zero whatever was stored for that minute: the statement asks for minutes after the start of
  the window, and the first of the chart never is. If the rows have the key the table declares, every
  later entry is what is stored for its minute.
\<close>

theorem trending_first_minute_empty:
  assumes "p \<in> set (snd (trending rows asked wanted limit now))" and "distinct (map fst (rows 1))"
    and "page_minutes (rows 1) (now - clamp_minutes asked * MINUTE) now (tp_wiki p, tp_title p) \<noteq> []"
  shows "length (tp_per_minute p) = nat (clamp_minutes asked) \<and> hd (tp_per_minute p) = 0
    \<and> (\<forall>i \<in> {1..<nat (clamp_minutes asked)}. tp_per_minute p ! i =
         (case map_of (rows 1) (tp_wiki p, tp_title p, series_start asked now + int i * MINUTE) of None \<Rightarrow> 0 | Some n \<Rightarrow> n))"
proof -
  let ?since = "now - clamp_minutes asked * MINUTE" and ?start = "series_start asked now"
  let ?n = "nat (clamp_minutes asked)"
  from assms(1) obtain k cnt where k: "(k, cnt) \<in> set (top_pages (rows 0) ?since now wanted (nat (max 1 (min limit 50))))"
    and p: "p = \<lparr>tp_wiki = fst k, tp_title = snd k, tp_edits = cnt,
                 tp_per_minute = (let found = page_minutes (rows 1) ?since now k
                    in if found = [] then [] else map snd (minute_series found (clamp_minutes asked) now))\<rparr>"
    by (auto simp: trending_def Let_def)
  let ?found = "page_minutes (rows 1) ?since now k"
  have ne: "?found \<noteq> []" using assms(3) by (simp add: p)
  have dist: "distinct (map fst ?found)" by (rule page_minutes_distinct [OF assms(2)])
  note look = page_minutes_lookup [OF assms(2), of ?since now k]
  have per: "tp_per_minute p = map (\<lambda>i. case map_of ?found (?start + int i * MINUTE) of None \<Rightarrow> 0 | Some n \<Rightarrow> n) [0..<?n]"
    using ne by (simp del: One_nat_def add: p Let_def minute_series_eq [OF dist] del: One_nat_def)
  have start: "?start \<le> ?since" "?since < ?start + MINUTE"
    using trunc_minute_bounds(1,2) [of now] by (simp_all add: series_start_def)
  have "\<not> in_window ?since now ?start" using start(1) by (simp del: One_nat_def add: in_window_def)
  moreover have "0 < ?n" using clamp_pos(1) by simp
  ultimately have "hd (tp_per_minute p) = 0" by (simp del: One_nat_def add: per look hd_map upt_rec)
  moreover have "tp_per_minute p ! i =
      (case map_of (rows 1) (tp_wiki p, tp_title p, ?start + int i * MINUTE) of None \<Rightarrow> 0 | Some n \<Rightarrow> n)"
    if i: "i \<in> {1..<?n}" for i
  proof -
    have "1 * MINUTE \<le> int i * MINUTE" "(int i + 1) * MINUTE \<le> clamp_minutes asked * MINUTE"
      using i by (auto simp del: One_nat_def simp: MINUTE_def)
    then have "in_window ?since now (?start + int i * MINUTE)"
      using start trunc_minute_bounds(1) [of now] unfolding in_window_def series_start_def
      by (simp only: distrib_right) linarith
    moreover have "tp_wiki p = fst k" "tp_title p = snd k" by (simp_all add: p)
    ultimately show ?thesis using i by (simp del: One_nat_def add: per look)
  qed
  ultimately show ?thesis by (simp del: One_nat_def add: per)
qed

subsection \<open>Paging through the feed\<close>

definition feed_rows :: "edit_row list \<Rightarrow> ustr option \<Rightarrow> bool \<Rightarrow> bool \<Rightarrow> int option \<Rightarrow> edit_row list" where
  "feed_rows edits wanted humans reverts before =
     filter (\<lambda>r. edit_wanted wanted humans reverts r \<and>
       (case before of None \<Rightarrow> True | Some b \<Rightarrow> er_time r < b)) edits"

lemma latest_edits_page:
  "latest_edits order edits limit wanted humans reverts before =
     (let page = take (nat (max 1 (min limit 200))) (order (feed_rows edits wanted humans reverts before))
      in (page, if page = [] then None else Some (er_time (last page))))"
  by (simp add: latest_edits_def feed_rows_def)

lemma newest_first_order:
  assumes "newest_first order"
  shows "mset (order rs) = mset rs" "sorted_wrt (\<lambda>a b. er_time b \<le> er_time a) (order rs)"
    "set (order rs) = set rs" "order rs = [] \<longleftrightarrow> rs = []"
proof -
  show m: "mset (order rs) = mset rs" "sorted_wrt (\<lambda>a b. er_time b \<le> er_time a) (order rs)"
    using assms by (simp_all add: newest_first_def)
  show "set (order rs) = set rs" "order rs = [] \<longleftrightarrow> rs = []"
    using m(1) mset_eq_setD [OF m(1)] by auto
qed

lemma feed_page:
  assumes "newest_first order" and "latest_edits order edits limit wanted humans reverts before = (page, nxt)"
  shows "(nxt = None \<and> page = [] \<and> feed_rows edits wanted humans reverts before = []) \<or>
    (\<exists>b rest. nxt = Some b \<and> page \<noteq> [] \<and> b = er_time (last page) \<and>
       order (feed_rows edits wanted humans reverts before) = page @ rest \<and>
       (\<forall>r \<in> set page. b \<le> er_time r) \<and> (\<forall>r \<in> set rest. er_time r \<le> b) \<and> (\<forall>c. before = Some c \<longrightarrow> b < c))"
proof -
  let ?F = "feed_rows edits wanted humans reverts before" and ?L = "nat (max 1 (min limit 200))"
  note nf = newest_first_order [OF assms(1), of ?F]
  have "(take ?L (order ?F), if take ?L (order ?F) = [] then None else Some (er_time (last (take ?L (order ?F))))) = (page, nxt)"
    using assms(2) unfolding latest_edits_page Let_def .
  then have page: "page = take ?L (order ?F)" and nxt: "nxt = (if page = [] then None else Some (er_time (last page)))"
    by (elim Pair_inject, simp only:)+
  show ?thesis
  proof (cases "?F = []")
    case True
    then show ?thesis using page nxt nf(4) by simp
  next
    case False
    have ne: "page \<noteq> []" using False nf(4) by (simp add: page)
    obtain rest where o: "order ?F = page @ rest" using page by (metis append_take_drop_id)
    have "page @ rest = butlast page @ [last page] @ rest" using ne by (metis append.assoc append_butlast_last_id)
    with nf(2) have s: "sorted_wrt (\<lambda>a b. er_time b \<le> er_time a) (butlast page @ [last page] @ rest)"
      unfolding o by (simp only:)
    have "\<forall>r \<in> set page. er_time (last page) \<le> er_time r"
    proof
      fix r assume "r \<in> set page"
      then have "r \<in> set (butlast page) \<or> r = last page"
        using ne by (metis append_butlast_last_id rotate1.simps(2) set_ConsD set_rotate1)
      then show "er_time (last page) \<le> er_time r" using s by (auto simp: sorted_wrt_append)
    qed
    moreover have "\<forall>r \<in> set rest. er_time r \<le> er_time (last page)" using s by (auto simp: sorted_wrt_append)
    moreover have "last page \<in> set ?F" using ne o nf(3) by (metis Un_iff last_in_set set_append)
    then have "\<forall>c. before = Some c \<longrightarrow> er_time (last page) < c" by (auto simp: feed_rows_def)
    ultimately show ?thesis using ne o nxt by auto
  qed
qed

lemma feed_rows_next:
  assumes "\<forall>c. before = Some c \<longrightarrow> b < c"
  shows "feed_rows edits wanted humans reverts (Some b) =
     filter (\<lambda>r. er_time r < b) (feed_rows edits wanted humans reverts before)"
  unfolding feed_rows_def filter_filter
  by (rule filter_cong [OF refl]) (use assms in \<open>auto split: option.splits\<close>)

lemma read_feed_reads:
  assumes "newest_first order" and "length (feed_rows edits wanted humans reverts before) < fuel"
  shows "\<exists>read. read_feed order edits limit wanted humans reverts fuel before = Some read \<and>
    mset read \<subseteq># mset (feed_rows edits wanted humans reverts before) \<and>
    sorted_wrt (\<lambda>a b. er_time b \<le> er_time a) read \<and>
    (distinct (map er_time (feed_rows edits wanted humans reverts before)) \<longrightarrow>
       mset read = mset (feed_rows edits wanted humans reverts before))"
  using assms(2)
proof (induction fuel arbitrary: before)
  case (Suc fuel)
  let ?F = "feed_rows edits wanted humans reverts before"
  obtain page nxt where l: "latest_edits order edits limit wanted humans reverts before = (page, nxt)" by fastforce
  from feed_page [OF assms(1) l] show ?case
  proof (elim disjE exE conjE)
    assume "nxt = None" "page = []" "?F = []"
    then show ?thesis by (simp add: l)
  next
    fix b rest
    assume nxt: "nxt = Some b" and ne: "page \<noteq> []" and b: "b = er_time (last page)" and o: "order ?F = page @ rest"
      and hi: "\<forall>r \<in> set page. b \<le> er_time r" and lo: "\<forall>r \<in> set rest. er_time r \<le> b"
      and lt: "\<forall>c. before = Some c \<longrightarrow> b < c"
    let ?F' = "feed_rows edits wanted humans reverts (Some b)"
    have ms: "mset ?F = mset page + mset rest"
      using newest_first_order(1) [OF assms(1), of ?F] by (simp add: o)
    have F': "mset ?F' = filter_mset (\<lambda>r. er_time r < b) (mset ?F)"
      unfolding feed_rows_next [OF lt] by simp
    have "filter_mset (\<lambda>r. er_time r < b) (mset page) = {#}"
      using hi by (auto simp: filter_mset_eq_conv not_less)
    then have F'': "mset ?F' = filter_mset (\<lambda>r. er_time r < b) (mset rest)" unfolding F' ms by simp
    then have sub: "mset ?F' \<subseteq># mset rest" by simp
    have "length ?F' \<le> length rest" using size_mset_mono [OF sub] by simp
    moreover have "length ?F = length page + length rest" using arg_cong [OF ms, of size] by simp
    ultimately have "length ?F' < fuel" using Suc.prems ne by (cases page) simp_all
    from Suc.IH [OF this] obtain read where r: "read_feed order edits limit wanted humans reverts fuel (Some b) = Some read"
      "mset read \<subseteq># mset ?F'" "sorted_wrt (\<lambda>a b. er_time b \<le> er_time a) read"
      "distinct (map er_time ?F') \<longrightarrow> mset read = mset ?F'" by blast
    have "mset (page @ read) \<subseteq># mset ?F"
      unfolding ms using subset_mset.order_trans [OF r(2) sub] by simp
    moreover have "sorted_wrt (\<lambda>a b. er_time b \<le> er_time a) (page @ read)"
    proof -
      have "sorted_wrt (\<lambda>a b. er_time b \<le> er_time a) page"
        using newest_first_order(2) [OF assms(1), of ?F] by (simp add: o sorted_wrt_append)
      moreover have "er_time r \<le> b" if "r \<in> set read" for r
        using that mset_subset_eqD [OF r(2), of r] F' by (auto simp: feed_rows_def)
      ultimately show ?thesis using r(3) hi by (fastforce simp: sorted_wrt_append)
    qed
    moreover have "mset (page @ read) = mset ?F" if d: "distinct (map er_time ?F)"
    proof -
      have "mset (map er_time (page @ rest)) = mset (map er_time ?F)" using ms by (simp add: mset_map)
      then have dd: "distinct (map er_time (page @ rest))" using d by (metis mset_eq_imp_distinct_iff)
      have "er_time r \<noteq> b" if "r \<in> set rest" for r
        using dd that ne b by (auto simp: disjoint_iff image_iff) (metis last_in_set)
      then have "filter_mset (\<lambda>r. er_time r < b) (mset rest) = mset rest"
        using lo by (auto simp: filter_mset_eq_conv order_le_less)
      moreover have "distinct (map er_time ?F')" using d unfolding feed_rows_next [OF lt] by (rule distinct_map_filter)
      ultimately show ?thesis using r(4) F'' ms by simp
    qed
    ultimately show ?thesis by (simp add: l nxt r(1))
  qed
qed simp

text \<open>
  C30. The feed can be paged to its end. Asking for page after page with the time the last one ended
  at always reaches an empty page (no more pages than rows are needed), never shows a row twice,
  and shows the rows newest first; if no two of the rows asked for have the same time, it shows
  every one of them.
\<close>

theorem feed_pages_to_the_end:
  assumes "newest_first order"
  shows "\<exists>read. read_feed order edits limit wanted humans reverts (Suc (length edits)) None = Some read
    \<and> mset read \<subseteq># mset (filter (edit_wanted wanted humans reverts) edits)
    \<and> sorted_wrt (\<lambda>a b. er_time b \<le> er_time a) read
    \<and> (distinct (map er_time (filter (edit_wanted wanted humans reverts) edits)) \<longrightarrow>
         mset read = mset (filter (edit_wanted wanted humans reverts) edits))"
proof -
  have all: "feed_rows edits wanted humans reverts None = filter (edit_wanted wanted humans reverts) edits"
    by (simp add: feed_rows_def)
  have "length (feed_rows edits wanted humans reverts None) < Suc (length edits)" by (simp add: all less_Suc_eq_le)
  from read_feed_reads [OF assms this] show ?thesis unfolding all .
qed

lemma read_feed_below:
  assumes "newest_first order" and "read_feed order edits limit wanted humans reverts fuel (Some b) = Some read"
  shows "\<forall>r \<in> set read. er_time r < b"
  using assms(2)
proof (induction fuel arbitrary: b read)
  case (Suc fuel)
  obtain page nxt where l: "latest_edits order edits limit wanted humans reverts (Some b) = (page, nxt)" by fastforce
  from feed_page [OF assms(1) l] show ?case
  proof (elim disjE exE conjE)
    assume "nxt = None"
    then show ?thesis using Suc.prems by (simp add: l)
  next
    fix b' rest
    assume n: "nxt = Some b'" and o: "order (feed_rows edits wanted humans reverts (Some b)) = page @ rest"
      and lt: "\<forall>c. Some b = Some c \<longrightarrow> b' < c"
    obtain read' where r: "read_feed order edits limit wanted humans reverts fuel (Some b') = Some read'" "read = page @ read'"
      using Suc.prems by (auto simp: l n)
    have "set page \<subseteq> set (feed_rows edits wanted humans reverts (Some b))"
      using newest_first_order(3) [OF assms(1), of "feed_rows edits wanted humans reverts (Some b)"] by (auto simp: o)
    then have "\<forall>r \<in> set page. er_time r < b" by (auto simp: feed_rows_def)
    with Suc.IH [OF r(1)] lt show ?thesis unfolding r(2) by force
  qed
qed simp

text \<open>
  Paging loses edits of the same second. An edit that matches but did not fit on the page, and
  happened at the very time the page ends at, is on no later page either: the next page asks for
  strictly earlier times. (Event times have whole seconds, and the wikis make dozens of edits a
  second.)
\<close>

theorem paging_skips_equal_times:
  assumes "newest_first order" and "latest_edits order edits limit wanted humans reverts before = (page, Some b)"
    and "r \<in> set (filter (edit_wanted wanted humans reverts) edits)" and "er_time r = b" and "r \<notin> set page"
    and "read_feed order edits limit wanted humans reverts fuel before = Some read"
  shows "r \<notin> set read"
proof -
  obtain fuel' where f: "fuel = Suc fuel'" using assms(6) by (cases fuel) auto
  obtain read' where r: "read_feed order edits limit wanted humans reverts fuel' (Some b) = Some read'" "read = page @ read'"
    using assms(6) by (auto simp: f assms(2))
  from read_feed_below [OF assms(1) r(1)] assms(4,5) show ?thesis by (auto simp: r(2))
qed

subsection \<open>Runs\<close>

definition sample_row :: "ustr \<Rightarrow> int \<Rightarrow> edit_row" where
  "sample_row i t = \<lparr>er_id = i, er_wiki = [], er_title = [], er_type = [], er_user = [], er_bot = False, er_minor = False,
     er_is_revert = None, er_comment = [], er_time = t, er_length_old = None, er_length_new = None, er_server = [],
     er_ingested = t\<rparr>"

definition by_time :: "edit_row list \<Rightarrow> edit_row list" where
  "by_time rs = rev (sort_key er_time rs)"

lemma newest_first_by_time: "newest_first by_time"
  unfolding newest_first_def by_time_def
  by (simp add: sorted_wrt_rev) (metis sorted_sort_key sorted_map)

theorem overview_series_exact_witness:
  "map snd (ov_per_minute (overview (\<lambda>_. [sample_row [1] 1000000, sample_row [2] 40000000]) (\<lambda>_. []) 5 330000000)) = [1, 0, 0, 0, 0]"
proof -
  let ?es = "[sample_row [1] 1000000, sample_row [2] 40000000]"
  let ?s = "ov_per_minute (overview (\<lambda>_. ?es) (\<lambda>_. []) 5 330000000)"
  note r = overview_series_exact [of "\<lambda>_. ?es" "\<lambda>_. []" 5 330000000]
  have c: "clamp_minutes 5 = 5" "series_start 5 330000000 = 0" "window_start 5 330000000 = 30000000"
    by (simp_all add: clamp_minutes_def MIN_MINUTES_def MAX_MINUTES_def series_start_def trunc_minute_def MINUTE_def
        window_start_def)
  have n: "n = int (length (filter (\<lambda>r. in_minute m r \<and> (m = 0 \<longrightarrow> 30000000 < er_time r)) ?es))"
    if "(m, n) \<in> set ?s" for m n using r that unfolding c by blast
  have "map fst ?s = [0, 60000000, 120000000, 180000000, 240000000]"
    using r unfolding c by (simp add: upt_rec MINUTE_def)
  then have f: "map fst ?s = [0, 60000000, 120000000, 180000000, 240000000]" .
  obtain a0 a1 a2 a3 a4 where s: "?s = [(0, a0), (60000000, a1), (120000000, a2), (180000000, a3), (240000000, a4)]"
    using f by (auto simp: map_eq_Cons_conv)
  have "a0 = 1" "a1 = 0" "a2 = 0" "a3 = 0" "a4 = 0"
    using n [of 0 a0] n [of 60000000 a1] n [of 120000000 a2] n [of 180000000 a3] n [of 240000000 a4]
    unfolding s by (simp_all add: in_minute_def sample_row_def MINUTE_def)
  then show ?thesis unfolding s by simp
qed

theorem trending_first_minute_empty_witness:
  "hd (tp_per_minute (hd (snd (trending (\<lambda>_. [(([], [], 600000000), 7), (([], [], 300000000), 9)]) 5 None 10 630000000)))) = 0"
proof -
  let ?t = "trending (\<lambda>_. [(([], [], 600000000), 7), (([], [], 300000000), 9)]) 5 None 10 630000000"
  have "snd ?t \<noteq> []"
    by (simp add: trending_def Let_def top_pages_def ranked_def clamp_minutes_def MIN_MINUTES_def MAX_MINUTES_def
        MINUTE_def in_window_def wiki_matches_def)
  then have "hd (snd ?t) \<in> set (snd ?t)" by (rule hd_in_set)
  from trending_first_minute_empty [OF this _ listed_page_has_minutes [OF this]] show ?thesis by simp
qed

theorem feed_pages_to_the_end_witness:
  "\<exists>read. read_feed by_time [sample_row [1] 5, sample_row [2] 7] 1 None False False 3 None = Some read \<and>
     mset read = {#sample_row [1] 5, sample_row [2] 7#}"
  using feed_pages_to_the_end [OF newest_first_by_time, of "[sample_row [1] 5, sample_row [2] 7]" 1 None False False]
  by (auto simp: sample_row_def edit_wanted_def wiki_matches_def numeral_3_eq_3)

theorem paging_skips_equal_times_witness:
  "\<exists>read. read_feed by_time [sample_row [1] 5, sample_row [2] 5] 1 None False False 3 None = Some read \<and>
     sample_row [1] 5 \<notin> set read"
proof -
  let ?es = "[sample_row [1] 5, sample_row [2] 5]"
  have l: "latest_edits by_time ?es 1 None False False None = ([sample_row [2] 5], Some 5)"
    by (simp add: latest_edits_def by_time_def sample_row_def edit_wanted_def wiki_matches_def)
  obtain read where r: "read_feed by_time ?es 1 None False False 3 None = Some read"
    using feed_pages_to_the_end [OF newest_first_by_time, of ?es 1 None False False] by (auto simp: numeral_3_eq_3)
  have "sample_row [1] 5 \<notin> set read"
    by (rule paging_skips_equal_times [OF newest_first_by_time l _ _ _ r])
      (simp_all add: sample_row_def edit_wanted_def wiki_matches_def)
  with r show ?thesis by simp
qed

end
