(* ===== verification/Dashboard.thy ===== *)
theory Dashboard
  imports Admin "HOL-Library.Multiset"
begin

text \<open>
  \<^verbatim>\<open>web/cache.py\<close> and \<^verbatim>\<open>web/cluster.py\<close>: the answers the dashboard
  shares between its readers, and what it reports of the cluster and of every consumer group. The
  cache is used by many threads at once: it is a step relation whose steps are the parts of
  \<open>get\<close> that hold the lock. What the cluster answers is an argument.
\<close>

subsection \<open>The cache\<close>

type_synonym ('k, 'v) entries = "('k, int \<times> 'v) pydict"

definition cache_lookup :: "int \<Rightarrow> int \<Rightarrow> 'k \<Rightarrow> ('k, 'v) entries \<Rightarrow> 'v option" where
  "cache_lookup seconds now key entries =
     (case map_of entries key of
        None \<Rightarrow> None
      | Some (t, v) \<Rightarrow> if now - t < seconds then Some v else None)"

definition oldest_key :: "('k, 'v) entries \<Rightarrow> 'k" where
  "oldest_key entries = fst (hd (sort_key (\<lambda>(k, t, v). t) entries))"

definition cache_store :: "int \<Rightarrow> 'k \<Rightarrow> 'v \<Rightarrow> ('k, 'v) entries \<Rightarrow> ('k, 'v) entries" where
  "cache_store now key v entries =
     (let es = AList.update key (now, v) entries
      in if length es > 256 then AList.delete (oldest_key es) es else es)"

text \<open>\<open>get\<close> undisturbed: the clock before and after computing, and what is computed.\<close>

definition cache_get :: "int \<Rightarrow> 'k \<Rightarrow> int \<Rightarrow> 'v \<Rightarrow> int \<Rightarrow> ('k, 'v) entries \<Rightarrow> 'v \<times> ('k, 'v) entries" where
  "cache_get seconds key now v later entries =
     (case cache_lookup seconds now key entries of
        Some old \<Rightarrow> (old, entries)
      | None \<Rightarrow> (v, cache_store later key v entries))"

text \<open>The clock, the entries, the keys being computed, and every value stored, newest first.\<close>

record ('k, 'v) cache_state =
  cs_clock :: int
  cs_entries :: "('k, int \<times> 'v) pydict"
  cs_pending :: "'k list"
  cs_stored :: "(int \<times> 'k \<times> 'v) list"

inductive cache_step :: "int \<Rightarrow> ('k, 'v) cache_state \<Rightarrow> ('k, 'v) cache_state \<Rightarrow> bool" for seconds where
  tick: "cs_clock s \<le> t \<Longrightarrow> cache_step seconds s (s\<lparr>cs_clock := t\<rparr>)"
| hit: "cache_lookup seconds (cs_clock s) k (cs_entries s) = Some v \<Longrightarrow> cache_step seconds s s"
| miss: "cache_lookup seconds (cs_clock s) k (cs_entries s) = None \<Longrightarrow>
    cache_step seconds s (s\<lparr>cs_pending := k # cs_pending s\<rparr>)"
| store: "k \<in> set (cs_pending s) \<Longrightarrow>
    cache_step seconds s (s\<lparr>cs_pending := remove1 k (cs_pending s), cs_stored := (cs_clock s, k, v) # cs_stored s,
                            cs_entries := cache_store (cs_clock s) k v (cs_entries s)\<rparr>)"
| raised: "k \<in> set (cs_pending s) \<Longrightarrow> cache_step seconds s (s\<lparr>cs_pending := remove1 k (cs_pending s)\<rparr>)"

inductive cache_reach :: "int \<Rightarrow> ('k, 'v) cache_state \<Rightarrow> bool" for seconds where
  start: "cache_reach seconds \<lparr>cs_clock = t, cs_entries = [], cs_pending = [], cs_stored = []\<rparr>"
| step: "cache_reach seconds s \<Longrightarrow> cache_step seconds s s' \<Longrightarrow> cache_reach seconds s'"

definition last_stored :: "(int \<times> 'k \<times> 'v) list \<Rightarrow> 'k \<Rightarrow> (int \<times> 'v) option" where
  "last_stored stored key = map_option (\<lambda>(t, k, v). (t, v)) (find (\<lambda>(t, k, v). k = key) stored)"

definition cache_inv :: "('k, 'v) cache_state \<Rightarrow> bool" where
  "cache_inv s \<longleftrightarrow> wf_dict (cs_entries s) \<and> length (cs_entries s) \<le> 256 \<and>
     (\<forall>k e. map_of (cs_entries s) k = Some e \<longrightarrow> last_stored (cs_stored s) k = Some e \<and> fst e \<le> cs_clock s)"

lemma sort_hd_in: "xs \<noteq> [] \<Longrightarrow> hd (sort_key f xs) \<in> set xs"
  by (metis hd_in_set length_0_conv length_sort set_sort)

lemma length_delete_less: "k \<in> fst ` set d \<Longrightarrow> length (AList.delete k d) < length d"
  unfolding AList.delete_eq by (auto intro: length_filter_less)

lemma cache_store_props:
  assumes "wf_dict es" and "length es \<le> 256"
  shows "wf_dict (cache_store now k v es)" and "length (cache_store now k v es) \<le> 256"
    and "map_of (cache_store now k v es) k' = Some e \<Longrightarrow> (if k' = k then e = (now, v) else map_of es k' = Some e)"
proof -
  let ?es = "AList.update k (now, v) es"
  have le: "length ?es \<le> 257" using assms(2) by (simp add: length_update)
  show "wf_dict (cache_store now k v es)" using assms(1) by (auto simp: cache_store_def Let_def)
  show "length (cache_store now k v es) \<le> 256"
  proof (cases "length ?es > 256")
    case True
    then have "hd (sort_key (\<lambda>(k, t, v). t) ?es) \<in> set ?es" by (intro sort_hd_in) auto
    then have "oldest_key ?es \<in> fst ` set ?es" by (simp add: oldest_key_def)
    from length_delete_less [OF this] True le show ?thesis by (simp add: cache_store_def Let_def)
  qed (simp add: cache_store_def Let_def)
  show "map_of (cache_store now k v es) k' = Some e \<Longrightarrow> (if k' = k then e = (now, v) else map_of es k' = Some e)"
    by (auto simp: cache_store_def Let_def dict_simps split: if_splits)
qed

lemma cache_step_inv: "cache_step seconds s s' \<Longrightarrow> cache_inv s \<Longrightarrow> cache_inv s'"
proof (induction rule: cache_step.induct)
  case (store k s v)
  then have es: "wf_dict (cs_entries s)" "length (cs_entries s) \<le> 256" by (simp_all add: cache_inv_def)
  have "last_stored ((cs_clock s, k, v) # cs_stored s) k' = Some e \<and> fst e \<le> cs_clock s"
    if "map_of (cache_store (cs_clock s) k v (cs_entries s)) k' = Some e" for k' e
  proof (cases "k' = k")
    case True
    then show ?thesis using cache_store_props(3) [OF es that] by (simp add: last_stored_def)
  next
    case False
    then have "map_of (cs_entries s) k' = Some e" using cache_store_props(3) [OF es that] by simp
    then have "last_stored (cs_stored s) k' = Some e \<and> fst e \<le> cs_clock s"
      using store.prems unfolding cache_inv_def by blast
    then show ?thesis using False by (simp add: last_stored_def)
  qed
  then show ?case using cache_store_props(1,2) [OF es] by (simp add: cache_inv_def)
qed (auto simp: cache_inv_def intro: order_trans)

lemma cache_reach_inv: "cache_reach seconds s \<Longrightarrow> cache_inv s"
proof (induction rule: cache_reach.induct)
  case (step s s')
  then show ?case using cache_step_inv by blast
qed (simp add: cache_inv_def)

text \<open>
  The cache stays small and never serves an old answer. However the threads that ask interleave,
  the cache holds at most 256 entries, one per key, and an answer served from it is the value that
  was stored last for its key, less than the configured time ago.
\<close>

theorem cache_is_bounded_and_fresh:
  assumes "cache_reach seconds s"
  shows "length (cs_entries s) \<le> 256 \<and> wf_dict (cs_entries s)
    \<and> (\<forall>k v. cache_lookup seconds (cs_clock s) k (cs_entries s) = Some v \<longrightarrow>
        (\<exists>t. last_stored (cs_stored s) k = Some (t, v) \<and> t \<le> cs_clock s \<and> cs_clock s - t < seconds))"
proof -
  have inv: "cache_inv s" by (rule cache_reach_inv [OF assms])
  have "\<exists>t. last_stored (cs_stored s) k = Some (t, v) \<and> t \<le> cs_clock s \<and> cs_clock s - t < seconds"
    if "cache_lookup seconds (cs_clock s) k (cs_entries s) = Some v" for k v
    using that inv by (fastforce simp: cache_lookup_def cache_inv_def split: option.splits if_splits)
  then show ?thesis using inv by (simp add: cache_inv_def)
qed

text \<open>\<open>get\<close> alone is a run of these steps.\<close>

lemma cache_get_steps:
  assumes "cs_clock s \<le> later" and "cache_get seconds k (cs_clock s) v later (cs_entries s) = (answer, es)"
  shows "\<exists>s'. (cache_step seconds)\<^sup>*\<^sup>* s s' \<and> cs_entries s' = es"
proof (cases "cache_lookup seconds (cs_clock s) k (cs_entries s)")
  case None
  let ?s1 = "s\<lparr>cs_pending := k # cs_pending s\<rparr>"
  let ?s2 = "?s1\<lparr>cs_clock := later\<rparr>"
  let ?s3 = "?s2\<lparr>cs_pending := remove1 k (cs_pending ?s2), cs_stored := (cs_clock ?s2, k, v) # cs_stored ?s2,
      cs_entries := cache_store (cs_clock ?s2) k v (cs_entries ?s2)\<rparr>"
  have "cache_step seconds s ?s1" by (rule cache_step.miss [OF None])
  moreover have "cache_step seconds ?s1 ?s2" by (rule cache_step.tick) (use assms(1) in simp)
  moreover have "cache_step seconds ?s2 ?s3" by (rule cache_step.store) simp
  ultimately have "(cache_step seconds)\<^sup>*\<^sup>* s ?s3" by (meson rtranclp.rtrancl_into_rtrancl rtranclp.rtrancl_refl)
  moreover have "cs_entries ?s3 = es" using assms(2) by (auto simp: cache_get_def None)
  ultimately show ?thesis by blast
qed (use assms(2) in \<open>auto simp: cache_get_def\<close>)

subsection \<open>Consumer groups\<close>

record group_answer =
  ga_group :: ustr
  ga_topic :: ustr
  ga_state :: ustr
  ga_members :: nat
  ga_lag :: int
  ga_caught_up :: bool
  ga_partitions :: "(int \<times> int \<times> int \<times> int) list"

text \<open>A partition of a group: its number, the committed offset or -1, the end, the lag.\<close>

definition partition_row :: "(int, int) pydict \<Rightarrow> (int, int) pydict \<Rightarrow> int \<Rightarrow> int \<times> int \<times> int \<times> int" where
  "partition_row committed log_ends p =
     (let off = get_default committed p (-1);
          fin = get_default log_ends p 0
      in (p, off, fin, if off \<ge> 0 then fin - off else fin))"

definition group_lag ::
  "ustr \<Rightarrow> ustr \<Rightarrow> nat \<Rightarrow> (int, int) pydict \<Rightarrow> ((ustr \<times> int) \<times> int) list \<Rightarrow> ustr \<Rightarrow> nat \<Rightarrow> group_answer" where
  "group_lag gid topic partitions log_ends offsets state_name members =
     (let committed = fold (\<lambda>((t, p), off) d. if t = topic then AList.update p off d else d) offsets [];
          rows = map (partition_row committed log_ends) (map int [0..<partitions])
      in \<lparr>ga_group = gid, ga_topic = topic, ga_state = state_name, ga_members = members,
          ga_lag = sum_list (map (\<lambda>(_, _, _, lag). lag) rows),
          ga_caught_up = list_all (\<lambda>(_, _, _, lag). lag \<le> 1) rows,
          ga_partitions = rows\<rparr>)"

definition GROUPS :: "ustr \<Rightarrow> (ustr \<times> ustr) list" where
  "GROUPS ns =
     [(scoped ns (ascii ''cleaner''), TOPIC_RAW ns), (scoped ns (ascii ''page-state''), TOPIC_CLEAN ns),
      (scoped ns (ascii ''edit-wars''), TOPIC_CLEAN ns), (scoped ns (ascii ''trending''), TOPIC_CLEAN ns),
      (scoped ns (ascii ''storage''), TOPIC_CLEAN ns), (scoped ns (ascii ''alerts-storage''), TOPIC_ALERTS ns)]"

text \<open>
  \<open>count_records\<close> on the results of successive polls, each with its partition. The second
  component is false while the loop still runs.
\<close>

fun count_records :: "nat \<Rightarrow> nat \<Rightarrow> (int \<times> poll) list \<Rightarrow> nat \<Rightarrow> int set \<Rightarrow> nat \<times> bool" where
  "count_records partitions limit polls n finished =
     (if \<not> (card finished < partitions \<and> n < limit) then (n, True)
      else
        (case polls of
           [] \<Rightarrow> (n, False)
         | (p, NoMessage) # rest \<Rightarrow> (n, True)
         | (p, PollError e) # rest \<Rightarrow>
             count_records partitions limit rest n (if e = PartitionEof then insert p finished else finished)
         | (p, Message m) # rest \<Rightarrow> count_records partitions limit rest (n + 1) finished))"

subsection \<open>The whole pipeline\<close>

record topic_report =
  tr_name :: ustr
  tr_partitions :: nat
  tr_under_replicated :: nat
  tr_leaderless :: nat
  tr_leaders :: "(int, nat) pydict"

definition report_topic :: "ustr \<times> partition_meta list \<Rightarrow> topic_report" where
  "report_topic nt = (case nt of (name, parts) \<Rightarrow>
     \<lparr>tr_name = name, tr_partitions = length parts,
      tr_under_replicated = length (filter (\<lambda>p. length (pm_isrs p) < length (pm_replicas p)) parts),
      tr_leaderless = length (filter (\<lambda>p. pm_leader p < 0) parts),
      tr_leaders = sort_key fst
        (fold (\<lambda>p d. AList.update (pm_leader p) (get_default d (pm_leader p) 0 + 1) d) parts [])\<rparr>)"

record pipeline_report =
  pr_brokers :: "int list"
  pr_controller :: "int option"
  pr_total :: nat
  pr_under_replicated :: nat
  pr_leaderless :: nat
  pr_topics :: "topic_report list"
  pr_groups :: "(ustr \<times> ustr \<times> group_answer option) list"
  pr_dlq :: "nat option"

definition report_group ::
  "(ustr \<Rightarrow> nat) \<Rightarrow> (ustr \<Rightarrow> nat \<Rightarrow> (int, int) pydict option) \<Rightarrow>
   (ustr \<Rightarrow> (((ustr \<times> int) \<times> int) list \<times> ustr \<times> nat) option) \<Rightarrow> ustr \<times> ustr \<Rightarrow> ustr \<times> ustr \<times> group_answer option" where
  "report_group size_of log_ends ask gt = (case gt of (g, t) \<Rightarrow>
     (g, t, case ask g of
        None \<Rightarrow> None
      | Some (offsets, state_name, members) \<Rightarrow>
          Some (group_lag g t (size_of t) (the (log_ends t (size_of t))) offsets state_name members)))"

text \<open>
  \<open>log_ends\<close> is the answer of \<open>end_offsets\<close> for a topic, whose failure ends the report
  (\<open>None\<close>); \<open>ask\<close> is that of the two requests about a group, whose failure is reported
  for that group; \<open>dlq\<close> counts the dead letters.
\<close>

definition pipeline ::
  "ustr \<Rightarrow> (ustr, partition_meta list) pydict \<Rightarrow> int list \<Rightarrow> int option \<Rightarrow> (ustr \<Rightarrow> nat \<Rightarrow> (int, int) pydict option) \<Rightarrow>
   (ustr \<Rightarrow> (((ustr \<times> int) \<times> int) list \<times> ustr \<times> nat) option) \<Rightarrow> (nat \<Rightarrow> nat) \<Rightarrow> pipeline_report option" where
  "pipeline ns meta brokers controller log_ends ask dlq =
     (let mine = sort_key fst (filter (\<lambda>(name, _). startswith name (ns @ [46])) meta);
          topics = map report_topic mine;
          size_of = (\<lambda>t. case map_of mine t of None \<Rightarrow> 0 | Some parts \<Rightarrow> length parts);
          asked = filter (\<lambda>(g, t). size_of t \<noteq> 0) (GROUPS ns)
      in if list_ex (\<lambda>(g, t). log_ends t (size_of t) = None) asked then None
         else Some
           \<lparr>pr_brokers = sort brokers, pr_controller = controller,
            pr_total = sum_list (map tr_partitions topics),
            pr_under_replicated = sum_list (map tr_under_replicated topics),
            pr_leaderless = sum_list (map tr_leaderless topics),
            pr_topics = topics,
            pr_groups = map (report_group size_of log_ends ask) asked,
            pr_dlq = map_option (\<lambda>parts. dlq (length parts)) (map_of mine (TOPIC_DLQ ns))\<rparr>)"


subsection \<open>What the report says\<close>

lemma count_records_bound: "fst (count_records partitions limit polls n finished) \<le> max n limit"
proof (induction polls arbitrary: n finished)
  case (Cons x polls)
  obtain p poll where "x = (p, poll)" by (cases x)
  with Cons.IH [of "n + 1"] Cons.IH [of n] show ?case
    by (cases poll; subst count_records.simps) (auto simp: max_def simp del: count_records.simps split: if_splits)
qed (subst count_records.simps, simp)

text \<open>A group that is reported as caught up has at most one unread offset in each partition.\<close>

lemma sum_list_le_length: "\<forall>x \<in> set xs. f x \<le> (1 :: int) \<Longrightarrow> sum_list (map f xs) \<le> int (length xs)"
  by (induction xs) auto

lemma caught_up_lag:
  assumes "ga_caught_up (group_lag g t n log_ends offsets st members)"
  shows "ga_lag (group_lag g t n log_ends offsets st members) \<le> int n"
proof -
  let ?a = "group_lag g t n log_ends offsets st members"
  have "\<forall>x \<in> set (ga_partitions ?a). (\<lambda>(_, _, _, lag). lag) x \<le> 1" "length (ga_partitions ?a) = n"
    "ga_lag ?a = sum_list (map (\<lambda>(_, _, _, lag). lag) (ga_partitions ?a))"
    using assms by (simp_all add: group_lag_def Let_def list_all_iff case_prod_beta)
  with sum_list_le_length [of "ga_partitions ?a" "\<lambda>(_, _, _, lag). lag"] show ?thesis by simp
qed

text \<open>It may have that one: in a topic written without transactions, a record nobody has read.\<close>

lemma caught_up_with_unread_record:
  "ga_caught_up (group_lag g t 1 [(0, 8)] [((t, 0), 7)] st members) \<and>
   ga_lag (group_lag g t 1 [(0, 8)] [((t, 0), 7)] st members) = 1"
  by (simp add: group_lag_def partition_row_def Let_def)

lemma sum_list_length_filter:
  "sum_list (map (\<lambda>x. length (filter P (f x))) xs) = length (filter P (concat (map f xs)))"
  by (induction xs) simp_all

lemma length_concat_mset:
  assumes "mset xs = mset ys"
  shows "length (concat (map f xs)) = length (concat (map f ys))"
proof -
  have "mset (map (length \<circ> f) xs) = mset (map (length \<circ> f) ys)" unfolding mset_map assms by (rule refl)
  then have "sum_mset (mset (map (length \<circ> f) xs)) = sum_mset (mset (map (length \<circ> f) ys))" by (simp only:)
  then show ?thesis by (simp only: sum_mset_sum_list length_concat map_map)
qed

text \<open>
  The report agrees with what the administration waits for. The partitions it counts are those
  of the pipeline's topics; none of them is reported short of replicas exactly when the cluster is
  fully in sync in the sense of \<^verbatim>\<open>admin/wait_for_leaders.py\<close>, and none without a
  leader exactly when each has one. A group that is asked about is reported with at most one unread
  offset per partition of its topic when it is reported as caught up.
\<close>

theorem pipeline_report_agrees:
  assumes "pipeline ns meta brokers controller log_ends ask dlq = Some r"
    and "\<forall>p \<in> set (pipeline_partitions ns meta). length (pm_isrs p) \<le> length (pm_replicas p)"
  shows "pr_total r = length (pipeline_partitions ns meta)
    \<and> (pr_under_replicated r = 0 \<longleftrightarrow> fully_in_sync ns meta)
    \<and> (pr_leaderless r = 0 \<longleftrightarrow> (\<forall>p \<in> set (pipeline_partitions ns meta). 0 \<le> pm_leader p))
    \<and> (\<forall>g t a. (g, t, Some a) \<in> set (pr_groups r) \<and> ga_caught_up a \<longrightarrow> ga_lag a \<le> int (length (ga_partitions a)))"
proof -
  let ?mine = "sort_key fst (filter (\<lambda>(name, _). startswith name (ns @ [46])) meta)"
  let ?parts = "concat (map snd ?mine)"
  have parts: "set ?parts = set (pipeline_partitions ns meta)" "length ?parts = length (pipeline_partitions ns meta)"
  proof -
    have m: "mset ?mine = mset (filter (\<lambda>(name, _). startswith name (ns @ [46])) meta)" by (rule mset_sort)
    show "set ?parts = set (pipeline_partitions ns meta)" unfolding pipeline_partitions_def by simp
    show "length ?parts = length (pipeline_partitions ns meta)"
      unfolding pipeline_partitions_def by (rule length_concat_mset [OF m])
  qed
  have r: "pr_total r = sum_list (map tr_partitions (map report_topic ?mine))"
    "pr_under_replicated r = sum_list (map tr_under_replicated (map report_topic ?mine))"
    "pr_leaderless r = sum_list (map tr_leaderless (map report_topic ?mine))"
    using assms(1) by (auto simp: pipeline_def Let_def split: if_splits)
  have total: "pr_total r = length ?parts"
    unfolding r(1) by (simp add: comp_def report_topic_def case_prod_beta length_concat)
  have under: "pr_under_replicated r = length (filter (\<lambda>p. length (pm_isrs p) < length (pm_replicas p)) ?parts)"
    unfolding r(2) sum_list_length_filter [symmetric] by (simp add: comp_def report_topic_def case_prod_beta)
  have leaders: "pr_leaderless r = length (filter (\<lambda>p. pm_leader p < 0) ?parts)"
    unfolding r(3) sum_list_length_filter [symmetric] by (simp add: comp_def report_topic_def case_prod_beta)
  have "pr_under_replicated r = 0 \<longleftrightarrow> fully_in_sync ns meta"
    unfolding under fully_in_sync_def list_all_iff length_0_conv filter_empty_conv parts(1) using assms(2) by force
  moreover have "pr_leaderless r = 0 \<longleftrightarrow> (\<forall>p \<in> set (pipeline_partitions ns meta). 0 \<le> pm_leader p)"
    unfolding leaders length_0_conv filter_empty_conv parts(1) by (auto simp: not_less)
  moreover have "ga_lag a \<le> int (length (ga_partitions a))" if "(g, t, Some a) \<in> set (pr_groups r)" "ga_caught_up a" for g t a
  proof -
    have "\<exists>size_of asked. pr_groups r = map (report_group size_of log_ends ask) asked"
      using assms(1) by (clarsimp simp: pipeline_def Let_def split: if_splits) (intro exI, rule refl)
    then obtain size_of asked where e: "pr_groups r = map (report_group size_of log_ends ask) asked" by blast
    from that(1) obtain gt where "(g, t, Some a) = report_group size_of log_ends ask gt"
      unfolding e set_map by (elim imageE)
    then obtain n es offsets st members where a: "a = group_lag g t n es offsets st members"
      by (auto simp: report_group_def split: prod.splits option.splits)
    then have "int n = int (length (ga_partitions a))" by (simp add: group_lag_def Let_def)
    then show ?thesis using caught_up_lag that(2) a by metis
  qed
  ultimately show ?thesis using total parts(2) by auto
qed

theorem cache_is_bounded_and_fresh_witness:
  "length (cs_entries \<lparr>cs_clock = 3, cs_entries = [(''k'', (3 :: int, True))], cs_pending = [], cs_stored = [(3, ''k'', True)]\<rparr>) \<le> 256 \<and>
   last_stored [(3, ''k'', True)] ''k'' = Some (3, True)"
proof -
  let ?s0 = "\<lparr>cs_clock = 3, cs_entries = [], cs_pending = [], cs_stored = []\<rparr> :: (string, bool) cache_state"
  let ?s1 = "?s0\<lparr>cs_pending := ''k'' # cs_pending ?s0\<rparr>"
  let ?s2 = "?s1\<lparr>cs_pending := remove1 ''k'' (cs_pending ?s1), cs_stored := (cs_clock ?s1, ''k'', True) # cs_stored ?s1,
      cs_entries := cache_store (cs_clock ?s1) ''k'' True (cs_entries ?s1)\<rparr>"
  have "cache_reach 5 ?s0" by (rule cache_reach.start)
  moreover have "cache_step 5 ?s0 ?s1" by (rule cache_step.miss) (simp add: cache_lookup_def)
  moreover have "cache_step 5 ?s1 ?s2" by (rule cache_step.store) simp
  ultimately have "cache_reach 5 ?s2" by (meson cache_reach.step)
  then have "cache_reach 5 \<lparr>cs_clock = 3, cs_entries = [(''k'', (3 :: int, True))], cs_pending = [], cs_stored = [(3, ''k'', True)]\<rparr>"
    by (simp add: cache_store_def)
  note r = cache_is_bounded_and_fresh [OF this]
  have "cache_lookup 5 3 ''k'' [(''k'', (3 :: int, True))] = Some True" by (simp add: cache_lookup_def)
  with r show ?thesis by (fastforce simp: last_stored_def)
qed

theorem pipeline_report_agrees_witness:
  "\<exists>r. pipeline (ascii ''wiki'') [(ascii ''wiki.raw'', [\<lparr>pm_leader = 1, pm_replicas = [1, 2], pm_isrs = [1]\<rparr>])] [1, 2] None
      (\<lambda>t n. Some [(0, 8)]) (\<lambda>g. None) (\<lambda>n. 0) = Some r \<and> pr_under_replicated r \<noteq> 0 \<and> pr_leaderless r = 0"
proof -
  let ?meta = "[(ascii ''wiki.raw'', [\<lparr>pm_leader = 1, pm_replicas = [1, 2], pm_isrs = [1]\<rparr>])]"
  obtain r where r: "pipeline (ascii ''wiki'') ?meta [1, 2] None (\<lambda>t n. Some [(0, 8)]) (\<lambda>g. None) (\<lambda>n. 0) = Some r"
    by (simp add: pipeline_def Let_def list_ex_iff case_prod_beta)
  have p: "pipeline_partitions (ascii ''wiki'') ?meta = [\<lparr>pm_leader = 1, pm_replicas = [1, 2], pm_isrs = [1]\<rparr>]"
    by (simp add: pipeline_partitions_def startswith_def ascii_def)
  from pipeline_report_agrees [OF r] r show ?thesis by (auto simp: p fully_in_sync_def)
qed

end
