(* ===== verification/Scan.thy ===== *)
theory Scan
  imports Kafka Models
begin

text \<open>
  The two scripts that read a topic from end to end and count: \<^verbatim>\<open>scripts/check_duplicates.py\<close>
  (the check of the crash tests) and the partition report of
  \<^verbatim>\<open>scripts/pipeline_report.py\<close>. Both poll until every partition has reported its end.
\<close>

subsection \<open>Counters\<close>

text \<open>\<open>Counter\<close>: \<open>c[k] += 1\<close>, and \<open>most_common(1)[0]\<close>, the first of the largest.\<close>

definition count_up :: "'k \<Rightarrow> ('k, int) pydict \<Rightarrow> ('k, int) pydict" where
  "count_up k c = AList.update k (get_default c k 0 + 1) c"

definition counter_of :: "'k list \<Rightarrow> ('k, int) pydict" where
  "counter_of ks = fold count_up ks []"

definition most_common_first :: "('k, int) pydict \<Rightarrow> 'k \<times> int" where
  "most_common_first c = hd (filter (\<lambda>(_, n). \<forall>(_, m) \<in> set c. m \<le> n) c)"

lemma counter_of_snoc: "counter_of (ks @ [k]) = count_up k (counter_of ks)"
  by (simp add: counter_of_def)

lemma counter_of_facts:
  "wf_dict (counter_of ks)"
  "map_of (counter_of ks) k = (if k \<in> set ks then Some (int (count_list ks k)) else None)"
proof -
  have "wf_dict (counter_of ks) \<and> (\<forall>k. map_of (counter_of ks) k = (if k \<in> set ks then Some (int (count_list ks k)) else None))"
  proof (induction ks rule: rev_induct)
    case (snoc x ks)
    then show ?case
      by (auto simp: counter_of_snoc count_up_def dict_simps get_default_def)
  qed (simp add: counter_of_def)
  then show "wf_dict (counter_of ks)"
    "map_of (counter_of ks) k = (if k \<in> set ks then Some (int (count_list ks k)) else None)" by blast+
qed

lemma counter_of_member: "(k, n) \<in> set (counter_of ks) \<longleftrightarrow> k \<in> set ks \<and> n = int (count_list ks k)"
  unfolding in_dict_iff [OF counter_of_facts(1)] counter_of_facts(2) by auto

lemma counter_of_keys: "fst ` set (counter_of ks) = set ks"
  unfolding dom_map_of_conv_image_fst [symmetric] dom_def counter_of_facts(2) by simp

lemma length_counter_of: "length (counter_of ks) = card (set ks)"
  using counter_of_facts(1) [of ks] counter_of_keys [of ks]
  by (metis distinct_card length_map list.set_map wf_dict_def)

lemma sum_counter_of: "sum_list (map snd (counter_of ks)) = int (length ks)"
proof (induction ks rule: rev_induct)
  case (snoc x ks)
  have "sum_list (map snd (AList.update k n d)) = sum_list (map snd d) - get_default d k 0 + n"
    if "wf_dict d" for d :: "('a, int) pydict" and k n
    using that by (induction d) (force simp: get_default_def dest: map_of_SomeD split: option.splits)+
  with snoc counter_of_facts(1) [of ks] show ?case by (simp add: counter_of_snoc count_up_def)
qed (simp add: counter_of_def)

lemma most_common_first_max:
  assumes "c \<noteq> []"
  shows "most_common_first c \<in> set c \<and> (\<forall>x \<in> set c. snd x \<le> snd (most_common_first c))"
proof -
  let ?P = "\<lambda>(_, n). \<forall>(_, m) \<in> set c. m \<le> n"
  obtain x where x: "x \<in> set c" "snd x = Max (snd ` set c)"
    using assms Max_in [of "snd ` set c"] by (auto simp del: Max_in)
  have "m \<le> snd x" if "(k, m) \<in> set c" for k m
    unfolding x(2) using that by (intro Max_ge) (auto intro: image_eqI [of _ _ "(k, m)"])
  then have "?P x" by (auto simp: split_beta)
  with x(1) have "filter ?P c \<noteq> []" by (auto simp: filter_empty_conv)
  then have "hd (filter ?P c) \<in> set (filter ?P c)" by (rule hd_in_set)
  then show ?thesis by (force simp: most_common_first_def split_beta)
qed

subsection \<open>Reading to the end\<close>

text \<open>
  The polling loop of both scripts on the results of successive polls, each with its partition.
  \<open>StillReading\<close> is a loop that is not over after the polls given.
\<close>

datatype 'a scanned = AllRead 'a | StoppedEarly 'a | BodyRaised pyexc | KafkaRaised kerror | StillReading

fun scan_polls ::
  "('a \<Rightarrow> kmsg \<Rightarrow> pyexc + 'a) \<Rightarrow> nat \<Rightarrow> (int \<times> poll) list \<Rightarrow> int set \<Rightarrow> 'a \<Rightarrow> 'a scanned" where
  "scan_polls body n [] finished s = (if card finished < n then StillReading else AllRead s)"
| "scan_polls body n ((p, poll) # polls) finished s =
     (if \<not> card finished < n then AllRead s
      else
        (case poll of
           NoMessage \<Rightarrow> StoppedEarly s
         | PollError e \<Rightarrow>
             if e = PartitionEof then scan_polls body n polls (insert p finished) s else KafkaRaised e
         | Message m \<Rightarrow>
             (case body s m of Inl x \<Rightarrow> BodyRaised x | Inr s' \<Rightarrow> scan_polls body n polls finished s')))"

text \<open>The messages the loop reads.\<close>

fun scan_read :: "nat \<Rightarrow> (int \<times> poll) list \<Rightarrow> int set \<Rightarrow> kmsg list" where
  "scan_read n [] finished = []"
| "scan_read n ((p, poll) # polls) finished =
     (if \<not> card finished < n then []
      else
        (case poll of
           NoMessage \<Rightarrow> []
         | PollError e \<Rightarrow> if e = PartitionEof then scan_read n polls (insert p finished) else []
         | Message m \<Rightarrow> m # scan_read n polls finished))"

fun fold_res :: "('a \<Rightarrow> 'm \<Rightarrow> 'e + 'a) \<Rightarrow> 'm list \<Rightarrow> 'a \<Rightarrow> 'e + 'a" where
  "fold_res f [] s = Inr s"
| "fold_res f (m # ms) s = bind_res (f s m) (fold_res f ms)"

lemma scan_polls_fold:
  "scan_polls body n polls finished s \<in> {AllRead s', StoppedEarly s'} \<Longrightarrow>
   fold_res body (scan_read n polls finished) s = Inr s'"
proof (induction polls arbitrary: finished s)
  case (Cons x polls)
  obtain p poll where x: "x = (p, poll)" by (cases x)
  show ?case
    using Cons.prems Cons.IH x by (cases poll) (auto split: if_splits sum.splits)
qed (auto split: if_splits)

text \<open>
  The topic as the polls show it: a partition reports its end after exactly the records of its log,
  and every record polled is one of its log.
\<close>

definition shows_topic :: "nat \<Rightarrow> (int \<Rightarrow> kmsg list) \<Rightarrow> (int \<times> poll) list \<Rightarrow> bool" where
  "shows_topic n logs polls \<longleftrightarrow>
     (\<forall>p m. (p, Message m) \<in> set polls \<longrightarrow> k_partition m = p) \<and>
     (\<forall>(p, _) \<in> set polls. 0 \<le> p \<and> p < int n) \<and>
     (\<forall>before p after. polls = before @ (p, PollError PartitionEof) # after \<longrightarrow>
        filter (\<lambda>m. k_partition m = p) (messages before) = logs p \<and>
        filter (\<lambda>m. k_partition m = p) (messages after) = [])"

lemma scan_read_split:
  "scan_polls body n polls finished s = AllRead s' \<Longrightarrow> \<exists>used rest. polls = used @ rest \<and>
     scan_read n polls finished = messages used \<and>
     \<not> card (finished \<union> {p. (p, PollError PartitionEof) \<in> set used}) < n"
proof (induction polls arbitrary: finished s)
  case (Cons x polls)
  obtain p poll where x: "x = (p, poll)" by (cases x)
  show ?case
  proof (cases "card finished < n")
    case True
    show ?thesis
    proof (cases poll)
      case (Message m)
      with Cons.prems x True obtain s1 where "scan_polls body n polls finished s1 = AllRead s'" by (auto split: sum.splits)
      from Cons.IH [OF this] obtain used rest where "polls = used @ rest" "scan_read n polls finished = messages used"
        "\<not> card (finished \<union> {p. (p, PollError PartitionEof) \<in> set used}) < n" by blast
      then show ?thesis
        using x True Message by (intro exI [of _ "x # used"] exI [of _ rest]) simp
    next
      case (PollError e)
      with Cons.prems x True have e: "e = PartitionEof" and r: "scan_polls body n polls (insert p finished) s = AllRead s'"
        by (auto split: if_splits)
      from Cons.IH [OF r] obtain used rest where "polls = used @ rest" "scan_read n polls (insert p finished) = messages used"
        "\<not> card (insert p finished \<union> {p. (p, PollError PartitionEof) \<in> set used}) < n" by blast
      moreover have "finished \<union> {q. (q, PollError PartitionEof) \<in> set (x # used)} =
          insert p finished \<union> {q. (q, PollError PartitionEof) \<in> set used}" using x PollError e by auto
      ultimately show ?thesis
        using x True PollError e by (intro exI [of _ "x # used"] exI [of _ rest]) simp
    qed (use Cons.prems x True in simp)
  next
    case False
    then show ?thesis using x by (intro exI [of _ "[]"] exI [of _ "x # polls"]) simp
  qed
qed (auto split: if_splits intro: exI [of _ "[]"])

lemma messages_append: "messages (a @ b) = messages a @ messages b"
  by (simp add: messages_def List.map_filter_def)

lemma messages_member: "m \<in> set (messages polls) \<longleftrightarrow> (\<exists>p. (p, Message m) \<in> set polls)"
  by (force simp: messages_def map_filter_def split: poll.splits)

text \<open>A loop that has seen the end of every partition has read every record once, in log order.\<close>

lemma all_read:
  assumes "scan_polls body n polls {} s = AllRead s'" and "shows_topic n logs polls"
  shows "(\<forall>p. 0 \<le> p \<longrightarrow> p < int n \<longrightarrow> filter (\<lambda>m. k_partition m = p) (scan_read n polls {}) = logs p) \<and>
    (\<forall>m \<in> set (scan_read n polls {}). 0 \<le> k_partition m \<and> k_partition m < int n)"
proof -
  obtain used rest where used: "polls = used @ rest" "scan_read n polls {} = messages used"
    "\<not> card {p. (p, PollError PartitionEof) \<in> set used} < n"
    using scan_read_split [OF assms(1)] by auto
  have sub: "{p. (p, PollError PartitionEof) \<in> set used} \<subseteq> {0..<int n}"
    using assms(2) used(1) unfolding shows_topic_def by fastforce
  have "card {p. (p, PollError PartitionEof) \<in> set used} \<le> card {0..<int n}"
    by (rule card_mono [OF _ sub]) simp
  with used(3) have "card {p. (p, PollError PartitionEof) \<in> set used} = card {0..<int n}" by simp
  with sub have all: "{p. (p, PollError PartitionEof) \<in> set used} = {0..<int n}" by (intro card_subset_eq) auto
  have "filter (\<lambda>m. k_partition m = p) (messages used) = logs p" if p: "0 \<le> p" "p < int n" for p
  proof -
    have "(p, PollError PartitionEof) \<in> set used" using all p by (metis atLeastLessThan_iff mem_Collect_eq)
    then obtain before after where u: "used = before @ (p, PollError PartitionEof) # after" by (meson split_list)
    then have "polls = before @ (p, PollError PartitionEof) # (after @ rest)" using used(1) by simp
    with assms(2) have "filter (\<lambda>m. k_partition m = p) (messages before) = logs p"
      "filter (\<lambda>m. k_partition m = p) (messages (after @ rest)) = []"
      unfolding shows_topic_def by blast+
    then show ?thesis by (simp add: u messages_append)
  qed
  moreover have "0 \<le> k_partition m \<and> k_partition m < int n" if "m \<in> set (messages used)" for m
  proof -
    from that obtain p where "(p, Message m) \<in> set polls" unfolding used(1) messages_member by auto
    with assms(2) show ?thesis unfolding shows_topic_def by fastforce
  qed
  ultimately show ?thesis unfolding used(2) by blast
qed


subsection \<open>The check for duplicates\<close>

record duplicate_scan =
  ds_ids :: "(json, int) pydict"
  ds_partitions :: "(int, int) pydict"
  ds_unreadable :: int

definition empty_scan :: duplicate_scan where
  "empty_scan = \<lparr>ds_ids = [], ds_partitions = [], ds_unreadable = 0\<rparr>"

text \<open>
  The key a record is counted under: \<open>json.loads(msg.value())[field]\<close>, which must be hashable.
  Python holds some numbers and truth values equal; \<open>same\<close> picks the one that stands for
  them and is the identity on texts.
\<close>

definition hashable :: "json \<Rightarrow> bool" where
  "hashable v \<longleftrightarrow> (case v of JList _ \<Rightarrow> False | JObj _ \<Rightarrow> False | _ \<Rightarrow> True)"

definition id_in :: "runtime \<Rightarrow> (json \<Rightarrow> json) \<Rightarrow> ustr \<Rightarrow> kmsg \<Rightarrow> pyexc + json" where
  "id_in rt same field m =
     bind_res (case k_value m of None \<Rightarrow> Inl TypeError | Some b \<Rightarrow> json_loads_bytes (rt_wide rt) b) (\<lambda>v.
       case v of
         JObj d \<Rightarrow>
           (case map_of d field of
              None \<Rightarrow> Inl KeyError
            | Some x \<Rightarrow> if hashable x then Inr (same x) else Inl TypeError)
       | _ \<Rightarrow> Inl TypeError)"

definition scan_record :: "runtime \<Rightarrow> (json \<Rightarrow> json) \<Rightarrow> ustr \<Rightarrow> duplicate_scan \<Rightarrow> kmsg \<Rightarrow> pyexc + duplicate_scan" where
  "scan_record rt same field s m =
     (let s1 = s\<lparr>ds_partitions := count_up (k_partition m) (ds_partitions s)\<rparr>
      in case id_in rt same field m of
           Inr k \<Rightarrow> Inr (s1\<lparr>ds_ids := count_up k (ds_ids s)\<rparr>)
         | Inl e \<Rightarrow>
             (if e \<in> {JSONDecodeError, KeyError, TypeError} then Inr (s1\<lparr>ds_unreadable := ds_unreadable s + 1\<rparr>)
              else Inl e))"

record duplicate_report =
  dr_records :: int
  dr_unique :: nat
  dr_duplicates :: "(json, int) pydict"
  dr_partitions :: "(int, int) pydict"
  dr_unreadable :: int

definition duplicate_report_of :: "duplicate_scan \<Rightarrow> duplicate_report" where
  "duplicate_report_of s =
     \<lparr>dr_records = sum_list (map snd (ds_partitions s)), dr_unique = length (ds_ids s),
      dr_duplicates = filter (\<lambda>(_, n). n > 1) (ds_ids s),
      dr_partitions = sort_key fst (ds_partitions s), dr_unreadable = ds_unreadable s\<rparr>"

text \<open>\<open>scan\<close>; the result also says how the loop ended.\<close>

definition scan ::
  "runtime \<Rightarrow> (json \<Rightarrow> json) \<Rightarrow> ustr \<Rightarrow> nat \<Rightarrow> (int \<times> poll) list \<Rightarrow> duplicate_report scanned" where
  "scan rt same field n polls =
     (case scan_polls (scan_record rt same field) n polls {} empty_scan of
        AllRead s \<Rightarrow> AllRead (duplicate_report_of s)
      | StoppedEarly s \<Rightarrow> StoppedEarly (duplicate_report_of s)
      | BodyRaised x \<Rightarrow> BodyRaised x
      | KafkaRaised e \<Rightarrow> KafkaRaised e
      | StillReading \<Rightarrow> StillReading)"

text \<open>\<open>main\<close> reports failure exactly when it found duplicates.\<close>

definition check_fails :: "duplicate_report \<Rightarrow> bool" where
  "check_fails r \<longleftrightarrow> dr_duplicates r \<noteq> []"

definition ids_of :: "runtime \<Rightarrow> (json \<Rightarrow> json) \<Rightarrow> ustr \<Rightarrow> kmsg list \<Rightarrow> json list" where
  "ids_of rt same field ms = List.map_filter (\<lambda>m. case id_in rt same field m of Inr k \<Rightarrow> Some k | Inl _ \<Rightarrow> None) ms"

lemma ids_of_Nil [simp]: "ids_of rt same field [] = []"
  by (simp add: ids_of_def List.map_filter_simps)

lemma ids_of_append: "ids_of rt same field (xs @ ys) = ids_of rt same field xs @ ids_of rt same field ys"
  by (simp add: ids_of_def List.map_filter_def)

lemma scan_records:
  assumes "fold_res (scan_record rt same field) ms s = Inr s'"
    and "ds_ids s = counter_of (ids_of rt same field xs)" and "ds_partitions s = counter_of (map k_partition xs)"
    and "ds_unreadable s = int (length xs) - int (length (ids_of rt same field xs))"
  shows "ds_ids s' = counter_of (ids_of rt same field (xs @ ms)) \<and>
    ds_partitions s' = counter_of (map k_partition (xs @ ms)) \<and>
    ds_unreadable s' = int (length (xs @ ms)) - int (length (ids_of rt same field (xs @ ms)))"
  using assms
proof (induction ms arbitrary: s xs)
  case (Cons m ms)
  obtain s1 where s1: "scan_record rt same field s m = Inr s1" "fold_res (scan_record rt same field) ms s1 = Inr s'"
    using Cons.prems(1) by (auto simp: bind_res_Inr_iff)
  have one: "ids_of rt same field [m] = (case id_in rt same field m of Inr k \<Rightarrow> [k] | Inl _ \<Rightarrow> [])"
    by (simp add: ids_of_def List.map_filter_simps split: sum.split)
  have "ds_ids s1 = counter_of (ids_of rt same field (xs @ [m]))" "ds_partitions s1 = counter_of (map k_partition (xs @ [m]))"
    "ds_unreadable s1 = int (length (xs @ [m])) - int (length (ids_of rt same field (xs @ [m])))"
    using s1(1) Cons.prems(2-4)
    by (auto simp: scan_record_def ids_of_append one counter_of_snoc Let_def split: sum.splits if_splits)
  from Cons.IH [OF s1(2) this] show ?case by simp
qed simp

lemma count_list_map_filter: "count_list (map f xs) y = length (filter (\<lambda>x. f x = y) xs)"
  by (induction xs) auto

text \<open>What a scan that ran through reports of the records it read.\<close>

lemma scan_counts:
  assumes "scan rt same field n polls = AllRead r \<or> scan rt same field n polls = StoppedEarly r"
  shows "dr_records r = int (length (scan_read n polls {})) \<and>
    dr_unique r = card (set (ids_of rt same field (scan_read n polls {}))) \<and>
    (\<forall>k c. (k, c) \<in> set (dr_duplicates r) \<longleftrightarrow> c = int (count_list (ids_of rt same field (scan_read n polls {})) k) \<and> c > 1) \<and>
    dr_unreadable r = dr_records r - int (length (ids_of rt same field (scan_read n polls {}))) \<and>
    (\<forall>p. get_default (dr_partitions r) p 0 = int (length (filter (\<lambda>m. k_partition m = p) (scan_read n polls {}))))"
proof -
  let ?ms = "scan_read n polls {}"
  obtain s where s: "scan_polls (scan_record rt same field) n polls {} empty_scan \<in> {AllRead s, StoppedEarly s}"
    and r: "r = duplicate_report_of s"
    using assms by (auto simp: scan_def split: scanned.splits)
  have f: "ds_ids s = counter_of (ids_of rt same field ?ms)" "ds_partitions s = counter_of (map k_partition ?ms)"
    "ds_unreadable s = int (length ?ms) - int (length (ids_of rt same field ?ms))"
    using scan_records [OF scan_polls_fold [OF s], of "[]"]
    by (simp_all add: empty_scan_def counter_of_def ids_of_def List.map_filter_simps)
  have "(k, c) \<in> set (dr_duplicates r) \<longleftrightarrow> c = int (count_list (ids_of rt same field ?ms) k) \<and> c > 1" for k c
    using count_list_0_iff [of "ids_of rt same field ?ms" k] by (auto simp: r duplicate_report_of_def f counter_of_member)
  moreover have "get_default (dr_partitions r) p 0 = int (length (filter (\<lambda>m. k_partition m = p) ?ms))" for p
  proof -
    have w: "wf_dict (dr_partitions r)" "set (dr_partitions r) = set (counter_of (map k_partition ?ms))"
      using counter_of_facts(1) [of "map k_partition ?ms"]
      by (simp_all add: r duplicate_report_of_def f wf_dict_def distinct_map)
    then have "map_of (dr_partitions r) p = map_of (counter_of (map k_partition ?ms)) p"
      using counter_of_facts(1) by (metis (no_types, lifting) in_dict_iff not_None_eq option.exhaust_sel)
    then show ?thesis
      by (auto simp: get_default_def counter_of_facts(2) count_list_map_filter filter_empty_conv)
  qed
  ultimately show ?thesis
    by (simp add: r duplicate_report_of_def f sum_counter_of length_counter_of)
qed


lemma count_over_partitions:
  "\<forall>m \<in> set ms. 0 \<le> k_partition m \<and> k_partition m < int n \<Longrightarrow>
   count_list (ids_of rt same field ms) k =
     (\<Sum>p < n. count_list (ids_of rt same field (filter (\<lambda>m. k_partition m = int p) ms)) k)"
proof (induction ms rule: rev_induct)
  case Nil
  show ?case by (simp add: ids_of_def List.map_filter_simps)
next
  case (snoc m ms)
  let ?c = "\<lambda>xs. count_list (ids_of rt same field xs) k"
  have q: "nat (k_partition m) < n" "int (nat (k_partition m)) = k_partition m" using snoc.prems by auto
  have "?c (filter (\<lambda>m. k_partition m = int p) (ms @ [m])) =
      ?c (filter (\<lambda>m. k_partition m = int p) ms) + (if p = nat (k_partition m) then ?c [m] else 0)" for p
    using q(2) by (auto simp: ids_of_append)
  then have "(\<Sum>p < n. ?c (filter (\<lambda>m. k_partition m = int p) (ms @ [m]))) =
      (\<Sum>p < n. ?c (filter (\<lambda>m. k_partition m = int p) ms)) + ?c [m]"
    using q(1) by (simp add: sum.distrib)
  with snoc show ?case by (simp add: ids_of_append)
qed

text \<open>
  C36. The duplicate check is exact. When the scan has read a topic to the end of every partition, its
  counts per partition are the lengths of the logs, the ids it reports are exactly those that occur
  more than once over all partitions, each with its number of occurrences, and it fails exactly
  when some id occurs twice.
\<close>

theorem duplicate_check_is_exact:
  assumes "scan rt same field n polls = AllRead r" and "shows_topic n logs polls"
  shows "(\<forall>p < n. get_default (dr_partitions r) (int p) 0 = int (length (logs (int p)))) \<and>
    (\<forall>k c. (k, c) \<in> set (dr_duplicates r) \<longleftrightarrow>
       c = int (\<Sum>p < n. count_list (ids_of rt same field (logs (int p))) k) \<and> c > 1) \<and>
    (check_fails r \<longleftrightarrow> (\<exists>k. (\<Sum>p < n. count_list (ids_of rt same field (logs (int p))) k) > 1))"
proof -
  let ?ms = "scan_read n polls {}"
  obtain s where s: "scan_polls (scan_record rt same field) n polls {} empty_scan = AllRead s"
    using assms(1) by (auto simp: scan_def split: scanned.splits)
  have logs: "filter (\<lambda>m. k_partition m = int p) ?ms = logs (int p)" if "p < n" for p
    using all_read [OF s assms(2)] that by simp
  have range: "\<forall>m \<in> set ?ms. 0 \<le> k_partition m \<and> k_partition m < int n"
    using all_read [OF s assms(2)] by blast
  have total: "count_list (ids_of rt same field ?ms) k = (\<Sum>p < n. count_list (ids_of rt same field (logs (int p))) k)" for k
    unfolding count_over_partitions [OF range] using logs by (intro sum.cong) simp_all
  note c = scan_counts [OF disjI1 [OF assms(1)], unfolded total]
  have d: "(k, c) \<in> set (dr_duplicates r) \<longleftrightarrow>
      c = int (\<Sum>p < n. count_list (ids_of rt same field (logs (int p))) k) \<and> c > 1" for k c
    using c by blast
  have "check_fails r \<longleftrightarrow> (\<exists>k c. (k, c) \<in> set (dr_duplicates r))"
    unfolding check_fails_def by (cases "dr_duplicates r") auto
  then have "check_fails r \<longleftrightarrow> (\<exists>k. (\<Sum>p < n. count_list (ids_of rt same field (logs (int p))) k) > 1)"
    unfolding d by (auto simp del: of_nat_sum)
  with c d logs show ?thesis by simp
qed

text \<open>
  A record that is not UTF-8 ends the check. \<open>scan\<close> counts a record that is not JSON as
  unreadable, but decoding raises \<open>UnicodeDecodeError\<close>, which it does not catch.
\<close>

lemma bad_bytes_stop_the_scan:
  assumes "k_value m = Some [128]"
  shows "scan rt same field (Suc n) ((p, Message m) # polls) = BodyRaised UnicodeDecodeError"
proof -
  have "id_in rt same field m = Inl UnicodeDecodeError"
    by (simp add: id_in_def assms json_loads_bytes_def detect_encoding_def startswith_def)
  then show ?thesis by (simp add: scan_def scan_record_def Let_def)
qed

text \<open>Two records of one id in two partitions.\<close>

definition id_record :: "bytes \<Rightarrow> int \<Rightarrow> kmsg" where
  "id_record b p = \<lparr>k_topic = ascii ''wiki.clean'', k_partition = p, k_offset = 0, k_time = 5, k_key = None, k_value = Some b\<rparr>"

definition two_partitions :: "bytes \<Rightarrow> (int \<times> poll) list" where
  "two_partitions b = [(0, Message (id_record b 0)), (0, PollError PartitionEof), (1, Message (id_record b 1)),
     (1, PollError PartitionEof)]"

lemma two_partitions_shows: "shows_topic 2 (\<lambda>p. [id_record b p]) (two_partitions b)"
  unfolding shows_topic_def two_partitions_def
  by (auto simp: id_record_def Cons_eq_append_conv)


theorem duplicate_check_is_exact_witness:
  "\<exists>b r. scan plain_runtime id (ascii ''event_id'') 2 (two_partitions b) = AllRead r \<and>
     (JStr (event_id sample_event), 2) \<in> set (dr_duplicates r) \<and> check_fails r"
proof -
  have "encodable_event sample_event" by (simp add: encodable_event_def sample_event_def)
  then obtain b where b: "to_json plain_runtime sample_event = Inr b" using to_json_ok by blast
  have j: "json_loads_bytes (rt_wide plain_runtime) b = Inr (JObj (asdict sample_event))"
    by (rule to_json_loads [OF b]) (simp add: small_ints_def int_ok_def sample_event_def digits_of.simps MAX_STR_DIGITS_def)
  have k: "id_in plain_runtime id (ascii ''event_id'') (id_record b p) = Inr (JStr (event_id sample_event))" for p
    by (simp add: id_in_def id_record_def j asdict_def hashable_def)
  obtain r where r: "scan plain_runtime id (ascii ''event_id'') 2 (two_partitions b) = AllRead r"
    by (simp add: scan_def two_partitions_def scan_record_def k Let_def)
  have "ids_of plain_runtime id (ascii ''event_id'') [id_record b (int p)] = [JStr (event_id sample_event)]" for p
    by (simp add: ids_of_def List.map_filter_simps k)
  then have "(\<Sum>p < 2. count_list (ids_of plain_runtime id (ascii ''event_id'') [id_record b (int p)]) (JStr (event_id sample_event))) = 2"
    by simp
  with duplicate_check_is_exact [OF r two_partitions_shows]
  have "(JStr (event_id sample_event), 2) \<in> set (dr_duplicates r)" by (simp del: of_nat_sum)
  moreover from this have "check_fails r" unfolding check_fails_def by (cases "dr_duplicates r") simp_all
  ultimately show ?thesis using r by blast
qed

end
