(* ===== verification/Balance.thy ===== *)
theory Balance
  imports Scan Complex_Main
begin

text \<open>
  The partition report of \<^verbatim>\<open>scripts/pipeline_report.py\<close>: records per minute and
  partition, the busiest key of each, and the minutes in which one partition carried the largest
  share. Shares are exact fractions.
\<close>

definition MINUTE_MS :: int where
  "MINUTE_MS = 60000"

record partition_scan =
  pn_partitions :: nat
  pn_per_minute :: "(int, (int, int) pydict) pydict"
  pn_keys :: "(int \<times> int, (bytes option, int) pydict) pydict"
  pn_totals :: "(int, int) pydict"

definition count_in :: "'k \<Rightarrow> 'c \<Rightarrow> ('k, ('c, int) pydict) pydict \<Rightarrow> ('k, ('c, int) pydict) pydict" where
  "count_in k x d = AList.update k (count_up x (get_default d k [])) d"

definition scan_partition_record :: "partition_scan \<Rightarrow> kmsg \<Rightarrow> pyexc + partition_scan" where
  "scan_partition_record s m =
     (let t = k_time m div MINUTE_MS
      in Inr (s\<lparr>pn_per_minute := count_in t (k_partition m) (pn_per_minute s),
                pn_keys := count_in (t, k_partition m) (k_key m) (pn_keys s),
                pn_totals := count_up (k_partition m) (pn_totals s)\<rparr>))"

text \<open>\<open>scan_partitions\<close>; an empty poll ends it like the end of the topic does.\<close>

definition scan_partitions :: "nat \<Rightarrow> (int \<times> poll) list \<Rightarrow> partition_scan scanned" where
  "scan_partitions n polls =
     (case scan_polls scan_partition_record n polls {}
             \<lparr>pn_partitions = n, pn_per_minute = [], pn_keys = [], pn_totals = []\<rparr> of
        StoppedEarly s \<Rightarrow> AllRead s
      | r \<Rightarrow> r)"

record hot_minute =
  hm_minute :: int
  hm_events :: int
  hm_partition :: int
  hm_share :: rat
  hm_key :: ustr
  hm_key_share :: rat

text \<open>\<open>replace\<close> decodes with replacement characters.\<close>

definition hot_row :: "(bytes \<Rightarrow> ustr) \<Rightarrow> partition_scan \<Rightarrow> int \<times> (int, int) pydict \<Rightarrow> hot_minute" where
  "hot_row replace s x = (case x of (t, counts) \<Rightarrow>
     (let total = sum_list (map snd counts);
          (partition_no, top) = most_common_first counts;
          (key, key_count) = most_common_first (get_default (pn_keys s) (t, partition_no) [])
      in \<lparr>hm_minute = t, hm_events = total, hm_partition = partition_no, hm_share = of_int top / of_int total,
          hm_key = (case key of None \<Rightarrow> [] | Some b \<Rightarrow> if b = [] then [] else replace b),
          hm_key_share = of_int key_count / of_int total\<rparr>))"

definition hottest_minutes :: "(bytes \<Rightarrow> ustr) \<Rightarrow> partition_scan \<Rightarrow> int \<Rightarrow> nat \<Rightarrow> hot_minute list" where
  "hottest_minutes replace s min_events limit =
     take limit (sort_key (\<lambda>r. - hm_share r)
       (map (hot_row replace s) (filter (\<lambda>(_, counts). \<not> sum_list (map snd counts) < min_events) (pn_per_minute s))))"

text \<open>The share of a partition in \<open>print_partitions\<close>, and the even one.\<close>

definition partition_share :: "partition_scan \<Rightarrow> int \<Rightarrow> rat" where
  "partition_share s p =
     (let total = sum_list (map snd (pn_totals s))
      in if total = 0 then 0 else of_int (get_default (pn_totals s) p 0) / of_int total)"

definition fair_share :: "partition_scan \<Rightarrow> rat" where
  "fair_share s = (if pn_partitions s = 0 then 0 else 1 / of_nat (pn_partitions s))"

subsection \<open>What the report says of the records\<close>

abbreviation minute_of_msg :: "kmsg \<Rightarrow> int" where
  "minute_of_msg m \<equiv> k_time m div MINUTE_MS"

text \<open>The records of a minute, and of a minute and a partition.\<close>

abbreviation in_minute :: "int \<Rightarrow> kmsg list \<Rightarrow> kmsg list" where
  "in_minute t ms \<equiv> filter (\<lambda>m. minute_of_msg m = t) ms"

lemma count_in_default:
  "get_default (count_in k x d) k' [] = (if k' = k then count_up x (get_default d k []) else get_default d k' [])"
  by (simp add: count_in_def dict_simps)

lemma scan_partition_records:
  assumes "fold_res scan_partition_record ms s = Inr s'"
    and "\<And>t. get_default (pn_per_minute s) t [] = counter_of (map k_partition (in_minute t xs))"
    and "\<And>t p. get_default (pn_keys s) (t, p) [] = counter_of (map k_key (filter (\<lambda>m. k_partition m = p) (in_minute t xs)))"
    and "pn_totals s = counter_of (map k_partition xs)"
    and "fst ` set (pn_per_minute s) = set (map minute_of_msg xs)" and "wf_dict (pn_per_minute s)"
  shows "(\<forall>t. get_default (pn_per_minute s') t [] = counter_of (map k_partition (in_minute t (xs @ ms)))) \<and>
    (\<forall>t p. get_default (pn_keys s') (t, p) [] = counter_of (map k_key (filter (\<lambda>m. k_partition m = p) (in_minute t (xs @ ms))))) \<and>
    pn_totals s' = counter_of (map k_partition (xs @ ms)) \<and>
    fst ` set (pn_per_minute s') = set (map minute_of_msg (xs @ ms)) \<and> wf_dict (pn_per_minute s') \<and>
    pn_partitions s' = pn_partitions s"
  using assms
proof (induction ms arbitrary: s xs)
  case (Cons m ms)
  obtain s1 where s1: "scan_partition_record s m = Inr s1" "fold_res scan_partition_record ms s1 = Inr s'"
    using Cons.prems(1) by (auto simp: bind_res_Inr_iff)
  have d: "s1 = s\<lparr>pn_per_minute := count_in (minute_of_msg m) (k_partition m) (pn_per_minute s),
      pn_keys := count_in (minute_of_msg m, k_partition m) (k_key m) (pn_keys s),
      pn_totals := count_up (k_partition m) (pn_totals s)\<rparr>"
    using s1(1) by (simp add: scan_partition_record_def Let_def)
  have 1: "get_default (pn_per_minute s1) t [] = counter_of (map k_partition (in_minute t (xs @ [m])))" for t
    using Cons.prems(2) by (simp add: d count_in_default counter_of_snoc)
  have 2: "get_default (pn_keys s1) (t, p) [] =
      counter_of (map k_key (filter (\<lambda>m. k_partition m = p) (in_minute t (xs @ [m]))))" for t p
    using Cons.prems(3) by (simp add: d count_in_default counter_of_snoc)
  have 3: "pn_totals s1 = counter_of (map k_partition (xs @ [m]))"
    using Cons.prems(4) by (simp add: d counter_of_snoc)
  have 4: "fst ` set (pn_per_minute s1) = set (map minute_of_msg (xs @ [m]))" "wf_dict (pn_per_minute s1)"
    using Cons.prems(5,6) by (simp_all add: d count_in_def keys_update)
  from Cons.IH [OF s1(2) 1 2 3 4] show ?case by (simp add: d)
qed simp

lemma scan_partitions_counts:
  assumes "scan_partitions n polls = AllRead s"
  defines "ms \<equiv> scan_read n polls {}"
  shows "get_default (pn_per_minute s) t [] = counter_of (map k_partition (in_minute t ms))"
    and "get_default (pn_keys s) (t, p) [] = counter_of (map k_key (filter (\<lambda>m. k_partition m = p) (in_minute t ms)))"
    and "pn_totals s = counter_of (map k_partition ms)"
    and "fst ` set (pn_per_minute s) = set (map minute_of_msg ms)" and "wf_dict (pn_per_minute s)"
    and "pn_partitions s = n"
proof -
  let ?s0 = "\<lparr>pn_partitions = n, pn_per_minute = [], pn_keys = [], pn_totals = []\<rparr>"
  have "scan_polls scan_partition_record n polls {} ?s0 \<in> {AllRead s, StoppedEarly s}"
    using assms(1) by (auto simp: scan_partitions_def split: scanned.splits)
  from scan_partition_records [OF scan_polls_fold [OF this], of "[]"]
  show "get_default (pn_per_minute s) t [] = counter_of (map k_partition (in_minute t ms))"
    "get_default (pn_keys s) (t, p) [] = counter_of (map k_key (filter (\<lambda>m. k_partition m = p) (in_minute t ms)))"
    "pn_totals s = counter_of (map k_partition ms)"
    "fst ` set (pn_per_minute s) = set (map minute_of_msg ms)" "wf_dict (pn_per_minute s)" "pn_partitions s = n"
    by (simp_all add: counter_of_def ms_def)
qed

lemma pair_in_per_minute:
  assumes "scan_partitions n polls = AllRead s"
  shows "(t, c) \<in> set (pn_per_minute s) \<longleftrightarrow> in_minute t (scan_read n polls {}) \<noteq> [] \<and>
    c = counter_of (map k_partition (in_minute t (scan_read n polls {})))"
proof -
  note c = scan_partitions_counts [OF assms]
  have "map_of (pn_per_minute s) t = Some c \<longleftrightarrow> t \<in> fst ` set (pn_per_minute s) \<and> get_default (pn_per_minute s) t [] = c"
  proof (cases "map_of (pn_per_minute s) t")
    case None
    then have "t \<notin> fst ` set (pn_per_minute s)" unfolding map_of_eq_None_iff .
    with None show ?thesis by simp
  next
    case (Some x)
    then have "t \<in> fst ` set (pn_per_minute s)" using map_of_SomeD by force
    with Some show ?thesis by (simp add: get_default_def)
  qed
  also have "t \<in> fst ` set (pn_per_minute s) \<longleftrightarrow> in_minute t (scan_read n polls {}) \<noteq> []"
    unfolding c(4) by (force simp: filter_empty_conv)
  finally show ?thesis unfolding in_dict_iff [OF c(5)] c(1) by blast
qed

text \<open>How many of the records fall in a minute, and in a minute and a partition.\<close>

definition minute_count :: "kmsg list \<Rightarrow> int \<Rightarrow> int" where
  "minute_count ms t = int (length (in_minute t ms))"

definition share_count :: "kmsg list \<Rightarrow> int \<Rightarrow> int \<Rightarrow> int" where
  "share_count ms t p = int (length (filter (\<lambda>m. k_partition m = p) (in_minute t ms)))"

lemma share_count_list: "share_count ms t p = int (count_list (map k_partition (in_minute t ms)) p)"
  by (simp add: share_count_def count_list_map_filter)

lemma hot_row_facts:
  assumes "counts = counter_of (map k_partition (in_minute t ms))" and "in_minute t ms \<noteq> []"
  shows "hm_minute (hot_row replace s (t, counts)) = t"
    and "hm_events (hot_row replace s (t, counts)) = minute_count ms t"
    and "hm_share (hot_row replace s (t, counts)) =
      of_int (share_count ms t (hm_partition (hot_row replace s (t, counts)))) / of_int (minute_count ms t)"
    and "share_count ms t p \<le> share_count ms t (hm_partition (hot_row replace s (t, counts)))"
proof -
  have ne: "counts \<noteq> []" using assms length_counter_of [of "map k_partition (in_minute t ms)"] by auto
  obtain q top where q: "most_common_first counts = (q, top)" by (cases "most_common_first counts")
  from most_common_first_max [OF ne] have m: "(q, top) \<in> set counts" "\<And>x. x \<in> set counts \<Longrightarrow> snd x \<le> top"
    by (simp_all add: q)
  have top: "top = share_count ms t q" using m(1) by (simp add: assms(1) counter_of_member share_count_list)
  have total: "sum_list (map snd counts) = minute_count ms t"
    by (simp add: assms(1) sum_counter_of minute_count_def)
  have r: "hm_minute (hot_row replace s (t, counts)) = t" "hm_events (hot_row replace s (t, counts)) = minute_count ms t"
    "hm_partition (hot_row replace s (t, counts)) = q"
    "hm_share (hot_row replace s (t, counts)) = of_int top / of_int (minute_count ms t)"
    by (simp_all add: hot_row_def q total Let_def split: prod.split)
  show "hm_minute (hot_row replace s (t, counts)) = t" "hm_events (hot_row replace s (t, counts)) = minute_count ms t"
    "hm_share (hot_row replace s (t, counts)) =
      of_int (share_count ms t (hm_partition (hot_row replace s (t, counts)))) / of_int (minute_count ms t)"
    using r top by simp_all
  show "share_count ms t p \<le> share_count ms t (hm_partition (hot_row replace s (t, counts)))"
  proof (cases "p \<in> set (map k_partition (in_minute t ms))")
    case True
    then have "(p, share_count ms t p) \<in> set counts" by (simp add: assms(1) counter_of_member share_count_list)
    with m(2) [OF this] top r(3) show ?thesis by simp
  next
    case False
    then show ?thesis by (simp add: share_count_list)
  qed
qed

lemma sort_key_take:
  fixes f :: "'a \<Rightarrow> 'b::linorder"
  assumes "x \<in> set xs" and "x \<notin> set (take n (sort_key f xs))"
  shows "n \<le> length (take n (sort_key f xs)) \<and> (\<forall>y \<in> set (take n (sort_key f xs)). f y \<le> f x)"
proof -
  let ?s = "sort_key f xs"
  have "x \<in> set (take n ?s @ drop n ?s)" using assms(1) by simp
  with assms(2) have x: "x \<in> set (drop n ?s)" by (metis Un_iff set_append)
  then have "n < length ?s" by (metis drop_all empty_iff list.set(1) not_le)
  moreover have "sorted (map f (take n ?s @ drop n ?s))" by simp
  then have "\<forall>y \<in> set (take n ?s). \<forall>z \<in> set (drop n ?s). f y \<le> f z"
    unfolding map_append sorted_append by auto
  ultimately show ?thesis using x by auto
qed

text \<open>
  The hottest minutes are the hottest. The report of a scan lists, by falling share and at most
  \<open>limit\<close> of them, minutes that have at least \<open>min_events\<close> records, each with its number of
  records, a partition that carried the most of them and the share of it; and a minute with enough
  records that is not listed is not hotter, in any partition, than any of a full list.
\<close>

theorem hottest_minutes_are_hottest:
  assumes "scan_partitions n polls = AllRead s" and "ms = scan_read n polls {}"
    and "rows = hottest_minutes replace s min_events limit"
  shows "length rows \<le> limit \<and> sorted_wrt (\<lambda>a b. hm_share b \<le> hm_share a) rows \<and>
    (\<forall>r \<in> set rows. min_events \<le> hm_events r \<and> hm_events r = minute_count ms (hm_minute r) \<and>
       hm_share r = of_int (share_count ms (hm_minute r) (hm_partition r)) / of_int (hm_events r) \<and>
       (\<forall>p. share_count ms (hm_minute r) p \<le> share_count ms (hm_minute r) (hm_partition r))) \<and>
    (\<forall>t p. 0 < minute_count ms t \<longrightarrow> min_events \<le> minute_count ms t \<longrightarrow> t \<notin> hm_minute ` set rows \<longrightarrow>
       length rows = limit \<and> (\<forall>r \<in> set rows. of_int (share_count ms t p) / of_int (minute_count ms t) \<le> hm_share r))"
proof -
  define L where "L = map (hot_row replace s) (filter (\<lambda>(_, counts). \<not> sum_list (map snd counts) < min_events) (pn_per_minute s))"
  have rows: "rows = take limit (sort_key (\<lambda>r. - hm_share r) L)" by (simp add: assms(3) hottest_minutes_def L_def)
  have L: "r \<in> set L \<longleftrightarrow> (\<exists>t. in_minute t ms \<noteq> [] \<and> min_events \<le> minute_count ms t \<and>
      r = hot_row replace s (t, counter_of (map k_partition (in_minute t ms))))" for r
  proof -
    have "r \<in> set L \<longleftrightarrow> (\<exists>t c. (t, c) \<in> set (pn_per_minute s) \<and> min_events \<le> sum_list (map snd c) \<and> r = hot_row replace s (t, c))"
      by (auto simp: L_def not_less)
    then show ?thesis
      unfolding pair_in_per_minute [OF assms(1)] assms(2) [symmetric]
      by (auto simp: sum_counter_of minute_count_def)
  qed
  have sorted: "sorted_wrt (\<lambda>a b. hm_share b \<le> hm_share a) rows"
  proof -
    have "sorted (map (\<lambda>r. - hm_share r) rows)"
      unfolding rows take_map [symmetric] by (rule sorted_wrt_take) (rule sorted_sort_key)
    then show ?thesis by (simp add: sorted_wrt_map)
  qed
  have row: "min_events \<le> hm_events r \<and> hm_events r = minute_count ms (hm_minute r) \<and>
      hm_share r = of_int (share_count ms (hm_minute r) (hm_partition r)) / of_int (hm_events r) \<and>
      (\<forall>p. share_count ms (hm_minute r) p \<le> share_count ms (hm_minute r) (hm_partition r))"
    if "r \<in> set rows" for r
  proof -
    have "r \<in> set L" using that in_set_takeD [of r limit "sort_key (\<lambda>r. - hm_share r) L"] by (simp add: rows)
    then obtain t where t: "in_minute t ms \<noteq> []" "min_events \<le> minute_count ms t"
      "r = hot_row replace s (t, counter_of (map k_partition (in_minute t ms)))" unfolding L by blast
    note h = hot_row_facts [where replace = replace and s = s, OF refl t(1), folded t(3)]
    show ?thesis using h t(2) by simp
  qed
  have missing: "length rows = limit \<and> (\<forall>r \<in> set rows. of_int (share_count ms t p) / of_int (minute_count ms t) \<le> hm_share r)"
    if t: "0 < minute_count ms t" "min_events \<le> minute_count ms t" "t \<notin> hm_minute ` set rows" for t p
  proof -
    let ?r = "hot_row replace s (t, counter_of (map k_partition (in_minute t ms)))"
    have ne: "in_minute t ms \<noteq> []" using t(1) by (auto simp: minute_count_def)
    note h = hot_row_facts [where replace = replace and s = s, OF refl ne]
    have "?r \<in> set L" unfolding L using ne t(2) by blast
    moreover have "?r \<notin> set rows" using t(3) h(1) by force
    ultimately have k: "limit \<le> length rows" "\<forall>r \<in> set rows. - hm_share r \<le> - hm_share ?r"
      using sort_key_take [of ?r L limit "\<lambda>r. - hm_share r"] unfolding rows by blast+
    have "(of_int (share_count ms t p) :: rat) \<le> of_int (share_count ms t (hm_partition ?r))"
      using h(4) [of p] by (simp only: of_int_le_iff)
    then have "of_int (share_count ms t p) / of_int (minute_count ms t) \<le> hm_share ?r"
      unfolding h(3) using t(1) by (intro divide_right_mono) simp_all
    with k show ?thesis by (force simp: rows)
  qed
  have "length rows \<le> limit" by (simp add: rows)
  moreover note sorted
  moreover have "\<forall>r \<in> set rows. min_events \<le> hm_events r \<and> hm_events r = minute_count ms (hm_minute r) \<and>
       hm_share r = of_int (share_count ms (hm_minute r) (hm_partition r)) / of_int (hm_events r) \<and>
       (\<forall>p. share_count ms (hm_minute r) p \<le> share_count ms (hm_minute r) (hm_partition r))"
    by (rule ballI) (rule row)
  moreover have "\<forall>t p. 0 < minute_count ms t \<longrightarrow> min_events \<le> minute_count ms t \<longrightarrow> t \<notin> hm_minute ` set rows \<longrightarrow>
       length rows = limit \<and> (\<forall>r \<in> set rows. of_int (share_count ms t p) / of_int (minute_count ms t) \<le> hm_share r)"
    by (intro allI impI) (rule missing)
  ultimately show ?thesis by (intro conjI)
qed


definition report_msg :: "int \<Rightarrow> int \<Rightarrow> kmsg" where
  "report_msg p t = \<lparr>k_topic = ascii ''wiki.clean'', k_partition = p, k_offset = 0, k_time = t, k_key = None, k_value = None\<rparr>"

definition report_polls :: "(int \<times> poll) list" where
  "report_polls = [(0, Message (report_msg 0 1)), (1, Message (report_msg 1 2)), (1, Message (report_msg 1 3)),
     (0, PollError PartitionEof), (1, PollError PartitionEof)]"

theorem hottest_minutes_are_hottest_witness:
  "\<exists>s r. scan_partitions 2 report_polls = AllRead s \<and> hottest_minutes (\<lambda>_. []) s 2 5 = [r] \<and>
     hm_partition r = 1 \<and> hm_events r = 3 \<and> hm_events r = minute_count (scan_read 2 report_polls {}) (hm_minute r)"
proof -
  obtain s where s: "scan_partitions 2 report_polls = AllRead s"
    and h: "\<exists>r. hottest_minutes (\<lambda>_. []) s 2 5 = [r] \<and> hm_partition r = 1 \<and> hm_events r = 3"
    by (simp add: scan_partitions_def report_polls_def scan_partition_record_def report_msg_def MINUTE_MS_def
        count_in_def count_up_def hottest_minutes_def hot_row_def most_common_first_def Let_def)
  from h obtain r where r: "hottest_minutes (\<lambda>_. []) s 2 5 = [r]" "hm_partition r = 1" "hm_events r = 3" by blast
  from hottest_minutes_are_hottest [OF s refl r(1) [symmetric]] s r show ?thesis by auto
qed

end
