(* ===== verification/Recording.thy ===== *)
theory Recording
  imports Sse Models Kafka Complex_Main
begin

text \<open>
  \<^verbatim>\<open>scripts/record_sample.py\<close> writes valid events of the live stream to a file, and
  \<^verbatim>\<open>scripts/replay.py\<close> reads such a file and sends it to \<^verbatim>\<open>wiki.raw\<close>, once
  or several times, at a chosen speed.
\<close>

subsection \<open>Recording\<close>

record recording =
  re_file :: bytes
  re_written :: nat
  re_unparseable :: nat
  re_reverts :: nat
  re_bots :: nat
  re_wikis :: "ustr set"

definition empty_recording :: recording where
  "empty_recording = \<lparr>re_file = [], re_written = 0, re_unparseable = 0, re_reverts = 0, re_bots = 0, re_wikis = {}\<rparr>"

text \<open>\<open>handle.write(json.dumps(raw, ensure_ascii=False) + "\n")\<close> with the file's encoding.\<close>

definition recorded_line :: "runtime \<Rightarrow> raw \<Rightarrow> pyexc + bytes" where
  "recorded_line rt raw = utf8_encode (dumps (rt_float_repr rt) (JObj raw) @ [10])"

definition recorded :: "runtime \<Rightarrow> SSEEvent \<Rightarrow> exc + raw \<times> CleanEvent" where
  "recorded rt ev = bind_res (parse_raw (Text (sse_data ev))) (\<lambda>raw. bind_res (clean_event rt raw) (\<lambda>e. Inr (raw, e)))"

definition note_recorded :: "runtime \<Rightarrow> bytes \<Rightarrow> CleanEvent \<Rightarrow> recording \<Rightarrow> recording" where
  "note_recorded rt line e s =
     s\<lparr>re_file := re_file s @ line, re_written := re_written s + 1,
       re_reverts := re_reverts s + (if is_revert rt e then 1 else 0),
       re_bots := re_bots s + (if bot e then 1 else 0), re_wikis := insert (wiki e) (re_wikis s)\<rparr>"

text \<open>\<open>record\<close> on the events of the stream. A left result is an exception that ends it.\<close>

fun record_events :: "runtime \<Rightarrow> nat \<Rightarrow> SSEEvent list \<Rightarrow> recording \<Rightarrow> pyexc + recording" where
  "record_events rt n [] s = Inr s"
| "record_events rt n (ev # evs) s =
     (if sse_event ev \<noteq> MESSAGE then record_events rt n evs s
      else
        (case recorded rt ev of
           Inl (ParseError _) \<Rightarrow> record_events rt n evs (s\<lparr>re_unparseable := re_unparseable s + 1\<rparr>)
         | Inl (Py x) \<Rightarrow> Inl x
         | Inr (raw, e) \<Rightarrow>
             bind_res (recorded_line rt raw) (\<lambda>line.
               let s1 = note_recorded rt line e s in if re_written s1 \<ge> n then Inr s1 else record_events rt n evs s1)))"

definition record_sample :: "runtime \<Rightarrow> nat \<Rightarrow> SSEEvent list \<Rightarrow> pyexc + recording" where
  "record_sample rt n evs = record_events rt n evs empty_recording"

subsection \<open>Loading\<close>

text \<open>The lines of a file opened for bytes, with their line ends.\<close>

function file_lines :: "bytes \<Rightarrow> bytes list" where
  "file_lines b =
     (if b = [] then []
      else
        (case dropWhile (\<lambda>c. c \<noteq> 10) b of
           [] \<Rightarrow> [b]
         | _ # rest \<Rightarrow> (takeWhile (\<lambda>c. c \<noteq> 10) b @ [10]) # file_lines rest))"
  by pat_completeness auto
termination
proof (relation "measure length")
  fix b :: bytes and c rest
  assume "dropWhile (\<lambda>c. c \<noteq> 10) b = c # rest"
  then have "length (c # rest) \<le> length b" by (metis length_dropWhile_le)
  then show "(rest, b) \<in> measure length" by simp
qed simp

declare file_lines.simps [simp del]

definition byte_space :: "nat \<Rightarrow> bool" where
  "byte_space c \<longleftrightarrow> c = 32 \<or> 9 \<le> c \<and> c \<le> 13"

definition bytes_strip :: "bytes \<Rightarrow> bytes" where
  "bytes_strip b = rev (dropWhile byte_space (rev (dropWhile byte_space b)))"

text \<open>A record: the event id, the line and the event's \<open>timestamp\<close>, if it has one.\<close>

type_synonym replay_record = "ustr \<times> bytes \<times> json option"

definition load_line :: "bytes \<Rightarrow> exc + replay_record" where
  "load_line line =
     bind_res (parse_raw (Bytes line)) (\<lambda>raw.
     bind_res (event_id_of raw) (\<lambda>i. Inr (i, bytes_strip line, map_of raw (ascii ''timestamp''))))"

text \<open>\<open>load\<close>: the records and the number of lines skipped.\<close>

fun load_lines :: "bytes list \<Rightarrow> pyexc + replay_record list \<times> nat" where
  "load_lines [] = Inr ([], 0)"
| "load_lines (line # lines) =
     (if bytes_strip line = [] then load_lines lines
      else
        (case load_line line of
           Inr r \<Rightarrow> map_sum id (apfst ((#) r)) (load_lines lines)
         | Inl (ParseError _) \<Rightarrow> map_sum id (apsnd Suc) (load_lines lines)
         | Inl (Py x) \<Rightarrow> Inl x))"

definition load_file :: "bytes \<Rightarrow> pyexc + replay_record list \<times> nat" where
  "load_file b = load_lines (file_lines b)"

subsection \<open>What was recorded can be replayed\<close>

lemma utf8_char_byte: "utf8_char c = Some bs \<Longrightarrow> b \<in> set bs \<Longrightarrow> b < 128 \<Longrightarrow> c = b \<and> bs = [b]"
  by (auto simp: utf8_char_def split: if_splits)

lemma utf8_ascii_byte: "utf8_encode s = Inr bs \<Longrightarrow> b \<in> set bs \<Longrightarrow> b < 128 \<Longrightarrow> b \<in> set s"
proof (induction s arbitrary: bs)
  case (Cons c cs)
  from Cons.prems(1) obtain cb rest where u: "utf8_char c = Some cb" "utf8_encode cs = Inr rest" "bs = cb @ rest"
    by (auto simp: bind_res_Inr_iff split: option.splits)
  with Cons utf8_char_byte [OF u(1)] show ?case by auto
qed simp

lemma utf8_encode_append:
  "utf8_encode (s @ t) = Inr out \<Longrightarrow> \<exists>a b. utf8_encode s = Inr a \<and> utf8_encode t = Inr b \<and> out = a @ b"
proof (induction s arbitrary: out)
  case (Cons c s)
  from Cons.prems obtain cb r where u: "utf8_char c = Some cb" "utf8_encode (s @ t) = Inr r" "out = cb @ r"
    by (auto simp: bind_res_Inr_iff split: option.splits)
  from Cons.IH [OF u(2)] obtain a b where "utf8_encode s = Inr a" "utf8_encode t = Inr b" "r = a @ b" by blast
  with u show ?case by simp
qed simp

lemma escape_char_no_newline: "10 \<notin> set (escape_char c)"
  by (auto simp: escape_char_def hex_char_def split: option.splits if_splits)

lemma quote_no_newline: "10 \<notin> set (quote_str s)"
  using escape_char_no_newline by (auto simp: quote_str_def)

lemma join_no: "x \<notin> set sep \<Longrightarrow> \<forall>s \<in> set ss. x \<notin> set s \<Longrightarrow> x \<notin> set (join sep ss)"
  by (induction sep ss rule: join.induct) auto

lemma dumps_no_newline: "json_ok v \<Longrightarrow> 10 \<notin> set (dumps fr v)"
proof (induction v rule: json_ok.induct)
  case (3 n)
  have "10 \<notin> set (digits_of k)" for k using digits_of_digits [of 10 k] by (auto simp: is_digit_def)
  then show ?case by (simp add: int_repr_def)
next
  case (6 s)
  then show ?case by (simp add: quote_no_newline)
next
  case (7 vs)
  then have "10 \<notin> set (join (ascii '', '') (map (dumps fr) vs))" by (intro join_no) (auto simp: ascii_def)
  then show ?case by simp
next
  case (8 kvs)
  have "10 \<notin> set (join (ascii '', '') (map (\<lambda>(k, v). quote_str k @ ascii '': '' @ dumps fr v) kvs))"
    using 8 quote_no_newline by (intro join_no) (auto simp: ascii_def)
  then show ?case by simp
qed (simp_all add: ascii_def)

lemma file_lines_line:
  assumes "10 \<notin> set b"
  shows "file_lines (b @ 10 # rest) = (b @ [10]) # file_lines rest"
proof -
  have "dropWhile (\<lambda>c. c \<noteq> 10) (b @ 10 # rest) = 10 # rest" "takeWhile (\<lambda>c. c \<noteq> 10) (b @ 10 # rest) = b"
    using assms by (induction b) auto
  then show ?thesis by (subst file_lines.simps) simp
qed

lemma file_lines_all: "\<forall>b \<in> set bs. 10 \<notin> set b \<Longrightarrow> file_lines (concat (map (\<lambda>b. b @ [10]) bs)) = map (\<lambda>b. b @ [10]) bs"
proof (induction bs)
  case (Cons b bs)
  then show ?case using file_lines_line [of b] by simp
qed (simp add: file_lines.simps)

text \<open>A line that was written parses as the event it was written from.\<close>

lemma json_loads_line:
  assumes "json_ok v"
  shows "json_loads (dumps fr v @ [10]) = Inr v"
proof -
  have "skip_ws (dumps fr v @ [10]) = dumps fr v @ [10]" using skip_ws_dumps [OF assms] by simp
  moreover have "pvalue (Suc (length (dumps fr v @ [10]))) (dumps fr v @ [10]) = Inr (v, [10])"
    using reads_back_dumps [OF assms, of fr] by (simp add: is_digit_def del: pvalue.simps)
  moreover have "\<not> startswith (dumps fr v @ [10]) [0xFEFF]"
    using dumps_hd [OF assms, of fr] by (auto simp: startswith_def)
  ultimately show ?thesis by (simp add: json_loads_def skip_ws_def json_ws_def del: pvalue.simps)
qed

lemma recorded_line_split:
  assumes "recorded_line rt raw = Inr line" and "json_ok (JObj raw)"
  obtains b where "line = b @ [10]" "10 \<notin> set b" "utf8_encode (dumps (rt_float_repr rt) (JObj raw)) = Inr b"
    "bytes_strip line = b" "b \<noteq> []"
proof -
  let ?s = "dumps (rt_float_repr rt) (JObj raw)"
  have one: "utf8_encode [10] = Inr [10]" "utf8_encode [125] = Inr [125]" by (simp_all add: utf8_char_def)
  obtain b where b: "utf8_encode ?s = Inr b" "line = b @ [10]"
    using utf8_encode_append [OF assms(1) [unfolded recorded_line_def]] one(1) by auto
  obtain t where s: "?s = (123 # t) @ [125]" by simp
  from b(1) obtain r where r: "b = 123 # r"
    by (auto simp: utf8_char_def bind_res_Inr_iff)
  obtain r' where r': "b = r' @ [125]"
    using utf8_encode_append [OF b(1) [unfolded s]] one(2) by auto
  have nl: "10 \<notin> set b" using utf8_ascii_byte [OF b(1), of 10] dumps_no_newline [OF assms(2)] by auto
  have strip: "bytes_strip line = b"
  proof -
    have "dropWhile byte_space line = line" unfolding b(2) r by (simp add: byte_space_def)
    moreover have "dropWhile byte_space (rev line) = rev b" unfolding b(2) r' by (simp add: byte_space_def)
    ultimately show ?thesis by (simp add: bytes_strip_def)
  qed
  have "b \<noteq> []" by (simp add: r)
  then show ?thesis by (rule that [OF b(2) nl b(1) strip])
qed

lemma load_recorded:
  assumes "recorded rt ev = Inr (raw, e)" and "recorded_line rt raw = Inr line" and "json_ok (JObj raw)"
  shows "load_line line = Inr (event_id e, bytes_strip line, map_of raw (ascii ''timestamp''))"
proof -
  obtain b where b: "line = b @ [10]" "utf8_encode (dumps (rt_float_repr rt) (JObj raw)) = Inr b"
    using recorded_line_split [OF assms(2,3)] by blast
  have "parse_raw (Bytes line) = Inr raw"
    using utf8_roundtrip [OF assms(2) [unfolded recorded_line_def], of False] json_loads_line [OF assms(3)]
    by (simp add: parse_text_def del: dumps.simps)
  moreover have "event_id_of raw = Inr (event_id e)"
    using assms(1) by (auto simp: recorded_def bind_res_Inr_iff elim!: clean_eventE)
  ultimately show ?thesis by (simp add: load_line_def del: parse_raw.simps)
qed


text \<open>The events of the stream that are valid, with what they hold.\<close>

definition accepted :: "runtime \<Rightarrow> SSEEvent list \<Rightarrow> (raw \<times> CleanEvent) list" where
  "accepted rt evs =
     List.map_filter (\<lambda>ev. if sse_event ev = MESSAGE then (case recorded rt ev of Inr x \<Rightarrow> Some x | Inl _ \<Rightarrow> None) else None) evs"

lemma accepted_Cons:
  "accepted rt (ev # evs) =
     (if sse_event ev = MESSAGE then (case recorded rt ev of Inr x \<Rightarrow> x # accepted rt evs | Inl _ \<Rightarrow> accepted rt evs)
      else accepted rt evs)"
  by (simp add: accepted_def List.map_filter_simps split: sum.split)

definition replayable :: "runtime \<Rightarrow> SSEEvent list \<Rightarrow> bool" where
  "replayable rt evs \<longleftrightarrow> (\<forall>(raw, e) \<in> set (accepted rt evs). json_ok (JObj raw))"

lemma record_events_lines:
  assumes "record_events rt n evs s = Inr s'" and "replayable rt evs"
  shows "\<exists>k bs. re_file s' = re_file s @ concat (map (\<lambda>b. b @ [10]) bs) \<and> re_written s' = re_written s + k \<and>
    length bs = k \<and> k \<le> length (accepted rt evs) \<and> (k = length (accepted rt evs) \<or> re_written s' = max (re_written s + 1) n) \<and>
    (k = 0 \<or> re_written s' \<le> max (re_written s + 1) n) \<and>
    (\<forall>x < k. 10 \<notin> set (bs ! x) \<and> bs ! x \<noteq> [] \<and> bytes_strip (bs ! x @ [10]) = bs ! x \<and>
       load_line (bs ! x @ [10]) = Inr (event_id (snd (accepted rt evs ! x)), bs ! x,
         map_of (fst (accepted rt evs ! x)) (ascii ''timestamp'')))"
  using assms
proof (induction evs arbitrary: s)
  case Nil
  then show ?case by (intro exI [of _ 0] exI [of _ "[]"]) (simp add: accepted_def List.map_filter_simps)
next
  case (Cons ev evs)
  have rep: "replayable rt evs"
    using Cons.prems(2) by (auto simp: replayable_def accepted_Cons split: if_splits sum.splits)
  show ?case
  proof (cases "sse_event ev = MESSAGE \<and> (\<exists>x. recorded rt ev = Inr x)")
    case False
    then have a: "accepted rt (ev # evs) = accepted rt evs" by (auto simp: accepted_Cons split: sum.splits)
    show ?thesis
    proof (cases "sse_event ev = MESSAGE")
      case True
      with False Cons.prems(1) have "record_events rt n evs (s\<lparr>re_unparseable := re_unparseable s + 1\<rparr>) = Inr s'"
        by (auto split: sum.splits exc.splits)
      from Cons.IH [OF this rep] show ?thesis unfolding a by simp
    next
      case False
      with Cons.prems(1) have "record_events rt n evs s = Inr s'" by simp
      from Cons.IH [OF this rep] show ?thesis unfolding a by simp
    qed
  next
    case True
    then obtain raw e where ev: "sse_event ev = MESSAGE" "recorded rt ev = Inr (raw, e)" by auto
    then have a: "accepted rt (ev # evs) = (raw, e) # accepted rt evs" by (simp add: accepted_Cons)
    have ok: "json_ok (JObj raw)" using Cons.prems(2) by (simp add: replayable_def a)
    obtain line where line: "recorded_line rt raw = Inr line"
      using Cons.prems(1) ev by (auto simp: bind_res_Inr_iff)
    obtain b where b: "line = b @ [10]" "10 \<notin> set b" "bytes_strip line = b" "b \<noteq> []"
      using recorded_line_split [OF line ok] by metis
    note ld = load_recorded [OF ev(2) line ok, unfolded b(3)]
    define s1 where "s1 = note_recorded rt line e s"
    have s1: "re_file s1 = re_file s @ line" "re_written s1 = re_written s + 1" by (simp_all add: s1_def note_recorded_def)
    have run: "(if re_written s1 \<ge> n then Inr s1 else record_events rt n evs s1) = Inr s'"
      using Cons.prems(1) ev line by (auto simp: s1_def Let_def split: if_splits)
    show ?thesis
    proof (cases "re_written s1 \<ge> n")
      case True
      with run have "s' = s1" by simp
      then show ?thesis
        using True s1 b ld by (intro exI [of _ 1] exI [of _ "[b]"]) (auto simp: a)
    next
      case False
      with run have "record_events rt n evs s1 = Inr s'" by simp
      from Cons.IH [OF this rep] obtain k bs where k:
        "re_file s' = re_file s1 @ concat (map (\<lambda>b. b @ [10]) bs)" "re_written s' = re_written s1 + k" "length bs = k"
        "k \<le> length (accepted rt evs)" "k = length (accepted rt evs) \<or> re_written s' = max (re_written s1 + 1) n"
        "k = 0 \<or> re_written s' \<le> max (re_written s1 + 1) n"
        and l: "\<forall>x < k. 10 \<notin> set (bs ! x) \<and> bs ! x \<noteq> [] \<and> bytes_strip (bs ! x @ [10]) = bs ! x \<and>
           load_line (bs ! x @ [10]) = Inr (event_id (snd (accepted rt evs ! x)), bs ! x,
             map_of (fst (accepted rt evs ! x)) (ascii ''timestamp''))" by blast
      have "\<forall>x < Suc k. 10 \<notin> set ((b # bs) ! x) \<and> (b # bs) ! x \<noteq> [] \<and> bytes_strip ((b # bs) ! x @ [10]) = (b # bs) ! x \<and>
           load_line ((b # bs) ! x @ [10]) = Inr (event_id (snd (accepted rt (ev # evs) ! x)), (b # bs) ! x,
             map_of (fst (accepted rt (ev # evs) ! x)) (ascii ''timestamp''))"
        using l b ld by (auto simp: a less_Suc_eq_0_disj)
      then show ?thesis
        using k s1 False b(1) by (intro exI [of _ "Suc k"] exI [of _ "b # bs"]) (auto simp: a)
    qed
  qed
qed

lemma load_lines_all:
  "\<forall>l \<in> set ls. bytes_strip l \<noteq> [] \<and> (\<exists>r. load_line l = Inr r) \<Longrightarrow>
   load_lines ls = Inr (map (\<lambda>l. case load_line l of Inr r \<Rightarrow> r | Inl _ \<Rightarrow> undefined) ls, 0)"
  by (induction ls) auto

text \<open>
  C37. What was recorded can be replayed. If recording returns, the file it leaves loads without a
  skipped line into one record per event written, in order, each with the id of its event; and what
  was written are the first valid events of the stream, all of them or the number asked for (one
  if none was asked for). Events are assumed to hold no fractional number, which the model's
  numerals do not write.
\<close>

theorem recording_replays:
  assumes "record_sample rt n evs = Inr r" and "replayable rt evs"
  shows "\<exists>recs. load_file (re_file r) = Inr (recs, 0) \<and> length recs = re_written r \<and>
    map fst recs = map (event_id \<circ> snd) (take (re_written r) (accepted rt evs)) \<and>
    (re_written r = length (accepted rt evs) \<or> re_written r = max 1 n) \<and> re_written r \<le> max 1 n"
proof -
  from record_events_lines [OF assms(1) [unfolded record_sample_def] assms(2)]
  obtain k bs where k: "re_file r = concat (map (\<lambda>b. b @ [10]) bs)" "re_written r = k" "length bs = k"
      "k \<le> length (accepted rt evs)" "k = length (accepted rt evs) \<or> k = max 1 n" "k = 0 \<or> k \<le> max 1 n"
    and l: "\<forall>x < k. 10 \<notin> set (bs ! x) \<and> bs ! x \<noteq> [] \<and> bytes_strip (bs ! x @ [10]) = bs ! x \<and>
       load_line (bs ! x @ [10]) = Inr (event_id (snd (accepted rt evs ! x)), bs ! x,
         map_of (fst (accepted rt evs ! x)) (ascii ''timestamp''))"
    by (auto simp: empty_recording_def)
  have files: "file_lines (re_file r) = map (\<lambda>b. b @ [10]) bs"
    unfolding k(1) using l k(3) by (intro file_lines_all) (auto simp: in_set_conv_nth)
  define recs where "recs = map (\<lambda>l. case load_line l of Inr r \<Rightarrow> r | Inl _ \<Rightarrow> undefined) (map (\<lambda>b. b @ [10]) bs)"
  have "load_file (re_file r) = Inr (recs, 0)"
    unfolding load_file_def files recs_def using l k(3) by (intro load_lines_all) (auto simp: in_set_conv_nth)
  moreover have "map fst recs = map (event_id \<circ> snd) (take k (accepted rt evs))"
    using l k(3,4) by (intro nth_equalityI) (auto simp: recs_def)
  moreover have "length recs = k" by (simp add: recs_def k(3))
  ultimately show ?thesis using k(2,5,6) by auto
qed

text \<open>A stream with a heartbeat, an event that is no edit and a valid one.\<close>

definition sample_line :: ustr where
  "sample_line = dumps id (JObj sample_raw)"

definition sample_stream :: "SSEEvent list" where
  "sample_stream =
     [\<lparr>sse_event = ascii ''ping'', sse_data = [], sse_id = None\<rparr>, \<lparr>sse_event = MESSAGE, sse_data = [], sse_id = None\<rparr>,
      \<lparr>sse_event = MESSAGE, sse_data = sample_line, sse_id = None\<rparr>]"

lemma sample_ok: "json_ok (JObj sample_raw)"
  by (simp add: sample_raw_def digits_of.simps MAX_STR_DIGITS_def)

lemma sample_recorded: "recorded plain_runtime \<lparr>sse_event = MESSAGE, sse_data = sample_line, sse_id = i\<rparr> = Inr (sample_raw, sample_event)"
  using json_loads_dumps [OF sample_ok, of id]
  by (simp add: recorded_def parse_text_def sample_line_def sample_clean del: dumps.simps)

theorem recording_replays_witness:
  "\<exists>r recs. record_sample plain_runtime 1 sample_stream = Inr r \<and> re_written r = 1 \<and>
     load_file (re_file r) = Inr (recs, 0) \<and> map fst recs = [event_id sample_event]"
proof -
  obtain e where e: "recorded plain_runtime \<lparr>sse_event = MESSAGE, sse_data = [], sse_id = None\<rparr> = Inl (ParseError e)"
    by (simp add: recorded_def parse_text_def json_loads_def startswith_def skip_ws_def)
  have acc: "accepted plain_runtime sample_stream = [(sample_raw, sample_event)]"
  proof -
    have "ascii ''ping'' \<noteq> MESSAGE" by (simp add: MESSAGE_def ascii_def)
    then show ?thesis
      unfolding sample_stream_def by (simp add: accepted_Cons e sample_recorded) (simp add: accepted_def List.map_filter_simps)
  qed
  have "encodable (dumps id (JObj sample_raw) @ [10])"
    by (simp add: encodable_def sample_raw_def quote_str_def escape_char_def ascii_def int_repr_def digits_of.simps surrogate_def)
  from utf8_encode_ok [OF this] obtain line where "utf8_encode (dumps id (JObj sample_raw) @ [10]) = Inr line" ..
  then have line: "recorded_line plain_runtime sample_raw = Inr line" by (simp add: recorded_line_def plain_runtime_def del: dumps.simps)
  have "\<exists>r. record_sample plain_runtime 1 sample_stream = Inr r \<and> re_written r = 1"
    using e line sample_recorded [of None]
    by (auto simp: record_sample_def sample_stream_def empty_recording_def note_recorded_def Let_def MESSAGE_def ascii_def)
  then obtain r where r: "record_sample plain_runtime 1 sample_stream = Inr r" "re_written r = 1" by blast
  have "replayable plain_runtime sample_stream" by (simp add: replayable_def acc sample_ok del: json_ok.simps)
  from recording_replays [OF r(1) this] r show ?thesis by (auto simp: acc)
qed

end
