(* ===== verification/Replay.thy ===== *)
theory Replay
  imports Recording
begin

text \<open>
  \<^verbatim>\<open>scripts/replay.py\<close>: the schedule of a replay, the copies with ids of their own, and
  the sending loop. Times and rates are exact numbers.
\<close>

subsection \<open>Copies under new ids\<close>

text \<open>\<open>payload.replace(old, new, 1)\<close>\<close>

fun replace_first :: "bytes \<Rightarrow> bytes \<Rightarrow> bytes \<Rightarrow> bytes" where
  "replace_first old new b =
     (if startswith b old then new @ drop (length old) b
      else (case b of [] \<Rightarrow> [] | c # cs \<Rightarrow> c # replace_first old new cs))"

declare replace_first.simps [simp del]

definition copy_id :: "ustr \<Rightarrow> int \<Rightarrow> ustr" where
  "copy_id eid loop = eid @ [45] @ int_repr loop"

definition unique_copy :: "ustr \<Rightarrow> bytes \<Rightarrow> int \<Rightarrow> pyexc + ustr \<times> bytes" where
  "unique_copy eid payload loop =
     bind_res (utf8_encode eid) (\<lambda>old.
     bind_res (utf8_encode (copy_id eid loop)) (\<lambda>new.
       Inr (copy_id eid loop, replace_first old new payload)))"

definition producer_overrides :: "ustr option \<Rightarrow> (ustr \<times> json) list" where
  "producer_overrides acks =
     (case acks of
        None \<Rightarrow> []
      | Some a \<Rightarrow>
          (if a = ascii ''all'' then []
           else [(ascii ''acks'', JStr a), (ascii ''enable.idempotence'', JBool False)]))"

text \<open>Different events or passes have different ids.\<close>

lemma digits_no_dash: "45 \<notin> set (digits_of n)"
  using digits_of_digits [of 45 n] by (auto simp: is_digit_def)

lemma copy_id_inj:
  assumes "copy_id i l = copy_id j k" and "0 \<le> l" and "0 \<le> k"
  shows "i = j \<and> l = k"
proof -
  have e: "i @ 45 # digits_of (nat l) = j @ 45 # digits_of (nat k)"
    using assms by (simp add: copy_id_def int_repr_def)
  have rev_take: "takeWhile (\<lambda>c. c \<noteq> 45) (rev (i @ 45 # digits_of n)) = rev (digits_of n)" for i n
  proof -
    have "\<forall>c \<in> set (rev (digits_of n)). c \<noteq> 45" using digits_no_dash [of n] by (metis set_rev)
    then have "takeWhile (\<lambda>c. c \<noteq> 45) (rev (digits_of n) @ 45 # rev i) = rev (digits_of n)"
      by (subst takeWhile_append2) simp_all
    then show ?thesis by simp
  qed
  from arg_cong [OF e, of "\<lambda>x. takeWhile (\<lambda>c. c \<noteq> 45) (rev x)"] have "digits_of (nat l) = digits_of (nat k)"
    unfolding rev_take by simp
  then have "nat l = nat k" using value_digits_of by metis
  with assms(2,3) have "l = k" by simp
  with e show ?thesis by simp
qed

text \<open>The first place where a pattern occurs.\<close>

lemma replace_first_at:
  assumes "\<forall>a c. before @ old @ after = a @ old @ c \<longrightarrow> length before \<le> length a"
  shows "replace_first old new (before @ old @ after) = before @ new @ after"
  using assms
proof (induction before)
  case Nil
  show ?case by (subst replace_first.simps) (simp add: startswith_def)
next
  case (Cons x before)
  have "\<not> startswith ((x # before) @ old @ after) old"
  proof
    assume "startswith ((x # before) @ old @ after) old"
    then obtain c where "(x # before) @ old @ after = [] @ old @ c"
      by (metis append_Nil append_take_drop_id startswith_def)
    with Cons.prems show False by fastforce
  qed
  moreover have "replace_first old new (before @ old @ after) = before @ new @ after"
  proof (rule Cons.IH, intro allI impI)
    fix a c assume "before @ old @ after = a @ old @ c"
    then have "(x # before) @ old @ after = (x # a) @ old @ c" by simp
    with Cons.prems show "length before \<le> length a" by fastforce
  qed
  ultimately show ?case by (subst replace_first.simps) simp
qed

subsection \<open>The schedule\<close>

text \<open>
  The time a record is due, if the speed asks for one: \<open>None\<close> sends at once. \<open>fl\<close> is
  the value of a fractional numeral; infinite and undefined ones are left out as not subtractable.
\<close>

record pacing =
  pa_rate :: "rat option"
  pa_speed :: "rat option"

definition given :: "rat option \<Rightarrow> bool" where
  "given x \<longleftrightarrow> (case x of None \<Rightarrow> False | Some r \<Rightarrow> r \<noteq> 0)"

fun falsy :: "(ustr \<Rightarrow> rat) \<Rightarrow> json option \<Rightarrow> bool" where
  "falsy fl None = True"
| "falsy fl (Some JNull) = True"
| "falsy fl (Some (JBool b)) = (\<not> b)"
| "falsy fl (Some (JInt n)) = (n = 0)"
| "falsy fl (Some (JFloat t)) = (fl t = 0)"
| "falsy fl (Some (JNonFinite t)) = False"
| "falsy fl (Some (JStr s)) = (s = [])"
| "falsy fl (Some (JList vs)) = (vs = [])"
| "falsy fl (Some (JObj d)) = (d = [])"

fun number_of :: "(ustr \<Rightarrow> rat) \<Rightarrow> json option \<Rightarrow> pyexc + rat" where
  "number_of fl (Some (JBool b)) = Inr (if b then 1 else 0)"
| "number_of fl (Some (JInt n)) = Inr (of_int n)"
| "number_of fl (Some (JFloat t)) = Inr (fl t)"
| "number_of fl _ = Inl TypeError"

abbreviation stamp_at :: "replay_record list \<Rightarrow> nat \<Rightarrow> json option" where
  "stamp_at records x \<equiv> snd (snd (records ! x))"

definition due_at :: "(ustr \<Rightarrow> rat) \<Rightarrow> pacing \<Rightarrow> replay_record list \<Rightarrow> rat \<Rightarrow> nat \<Rightarrow> nat \<Rightarrow> pyexc + rat option" where
  "due_at fl pa records started loop index =
     (if given (pa_rate pa)
      then Inr (Some (started + of_nat (loop * length records + index) / the (pa_rate pa)))
      else if given (pa_speed pa) then
        (let first_stamp = stamp_at records 0; current = stamp_at records index;
             last_stamp = stamp_at records (length records - 1)
         in if falsy fl first_stamp \<or> falsy fl current \<or> falsy fl last_stamp then Inr None
            else
              bind_res (number_of fl last_stamp) (\<lambda>l.
              bind_res (number_of fl first_stamp) (\<lambda>f.
              bind_res (number_of fl current) (\<lambda>c.
                Inr (Some (started + (of_nat loop * (l - f + 1) + c - f) / the (pa_speed pa)))))))
      else Inr None)"

text \<open>\<open>pace\<close>: how long to sleep at a given time.\<close>

definition pace :: "(ustr \<Rightarrow> rat) \<Rightarrow> pacing \<Rightarrow> replay_record list \<Rightarrow> rat \<Rightarrow> nat \<Rightarrow> nat \<Rightarrow> rat \<Rightarrow> pyexc + rat" where
  "pace fl pa records started loop index now =
     map_sum id (\<lambda>due. case due of None \<Rightarrow> 0 | Some t \<Rightarrow> max 0 (t - now)) (due_at fl pa records started loop index)"

text \<open>The timestamps of a file, in order.\<close>

definition ordered_stamps :: "(ustr \<Rightarrow> rat) \<Rightarrow> replay_record list \<Rightarrow> bool" where
  "ordered_stamps fl records \<longleftrightarrow>
     (\<exists>f. length f = length records \<and> sorted f \<and> (\<forall>x < length records. number_of fl (stamp_at records x) = Inr (f ! x)))"

text \<open>
  Whatever the speed or the rate, the time a record is due never lies before that of an earlier
  record of the same pass or of any record of an earlier pass.
\<close>

lemma schedule_monotone:
  assumes "due_at fl pa records started l1 x1 = Inr (Some t1)" and "due_at fl pa records started l2 x2 = Inr (Some t2)"
    and "x1 < length records" and "x2 < length records" and "l1 < l2 \<or> l1 = l2 \<and> x1 \<le> x2"
    and "given (pa_rate pa) \<or> ordered_stamps fl records"
    and "\<forall>r. pa_rate pa = Some r \<longrightarrow> 0 \<le> r" and "\<forall>s. pa_speed pa = Some s \<longrightarrow> 0 \<le> s"
  shows "t1 \<le> t2"
proof (cases "given (pa_rate pa)")
  case True
  then obtain r where r: "pa_rate pa = Some r" "0 < r" using assms(7) by (auto simp: given_def split: option.splits)
  have "l1 * length records + x1 \<le> l2 * length records + x2"
  proof (cases "l1 < l2")
    case True
    then have "Suc l1 * length records \<le> l2 * length records" by (intro mult_le_mono1) simp
    with assms(3) show ?thesis by simp
  qed (use assms(5) in simp)
  then have "(of_nat (l1 * length records + x1) :: rat) / r \<le> of_nat (l2 * length records + x2) / r"
    using r(2) by (intro divide_right_mono of_nat_mono) simp_all
  with assms(1,2) True r show ?thesis by (simp add: due_at_def)
next
  case False
  with assms(1) have sp: "given (pa_speed pa)" by (auto simp: due_at_def split: if_splits)
  then obtain s where s: "pa_speed pa = Some s" "0 < s" using assms(8) by (auto simp: given_def split: option.splits)
  obtain f where f: "length f = length records" "sorted f"
    "\<And>x. x < length records \<Longrightarrow> number_of fl (stamp_at records x) = Inr (f ! x)"
    using assms(6) False unfolding ordered_stamps_def by blast
  let ?n = "length records"
  have n: "0 < ?n" using assms(3) by linarith
  define span where "span = f ! (?n - 1) - f ! 0 + 1"
  have due: "t = started + (of_nat l * span + f ! x - f ! 0) / s"
    if "x < ?n" and "due_at fl pa records started l x = Inr (Some t)" for l x t
    using that False sp s f(3) [of x] f(3) [of 0] f(3) [of "?n - 1"] n
    by (auto simp: due_at_def span_def Let_def split: if_splits)
  have mono: "x \<le> y \<Longrightarrow> y < ?n \<Longrightarrow> f ! x \<le> f ! y" for x y using f(1,2) by (simp add: sorted_nth_mono)
  have "of_nat l1 * span + f ! x1 \<le> of_nat l2 * span + f ! x2"
  proof (cases "l1 < l2")
    case True
    have "0 \<le> span" using mono [of 0 "?n - 1"] n by (simp add: span_def)
    then have "of_nat (Suc l1) * span \<le> of_nat l2 * span" using True by (intro mult_right_mono of_nat_mono) simp_all
    moreover have "f ! x1 \<le> f ! (?n - 1)" "f ! 0 \<le> f ! x2" using mono assms(3,4) by simp_all
    ultimately show ?thesis by (simp add: span_def algebra_simps)
  qed (use assms(4,5) mono in auto)
  then have "(of_nat l1 * span + f ! x1 - f ! 0) / s \<le> (of_nat l2 * span + f ! x2 - f ! 0) / s"
    using s(2) by (intro divide_right_mono) simp_all
  with due [OF assms(3,1)] due [OF assms(4,2)] show ?thesis by simp
qed

subsection \<open>Sending\<close>

text \<open>
  What a call of \<open>produce\<close> does: the record is accepted, the local queue is full, the topic is
  not known yet (and the time it is), or another error of Kafka.
\<close>

datatype produced = Accepted | QueueFull | UnknownTopic rat | ProduceFailed

datatype 'a sending = Sent 'a | SendRaised | Raised pyexc | SendWaiting

text \<open>The \<open>while True\<close> loop around \<open>produce\<close>, over the answers it gets.\<close>

fun send_one :: "rat \<Rightarrow> produced list \<Rightarrow> produced list sending" where
  "send_one deadline [] = SendWaiting"
| "send_one deadline (a # rest) =
     (case a of
        Accepted \<Rightarrow> Sent rest
      | QueueFull \<Rightarrow> send_one deadline rest
      | UnknownTopic now \<Rightarrow> if now > deadline then SendRaised else send_one deadline rest
      | ProduceFailed \<Rightarrow> SendRaised)"

text \<open>
  One iteration: from when on the message is handed over, its key and its value. \<open>clock\<close> is
  the time \<open>pace\<close> finds on the clock.
\<close>

record replay_args =
  ra_pacing :: pacing
  ra_unique_ids :: bool
  ra_loops :: nat

record replay_send =
  rs_from :: rat
  rs_key :: bytes
  rs_value :: bytes

definition replay_message ::
  "(ustr \<Rightarrow> rat) \<Rightarrow> replay_args \<Rightarrow> replay_record list \<Rightarrow> (nat \<Rightarrow> nat \<Rightarrow> rat) \<Rightarrow> rat \<Rightarrow> nat \<Rightarrow> nat \<Rightarrow> pyexc + replay_send" where
  "replay_message fl args records clock started loop index =
     (let (eid, payload, _) = records ! index; now = clock loop index in
      bind_res (pace fl (ra_pacing args) records started loop index now) (\<lambda>delay.
      bind_res (if ra_unique_ids args then unique_copy eid payload (int loop) else Inr (eid, payload)) (\<lambda>(eid', payload').
      bind_res (utf8_encode eid') (\<lambda>key. Inr \<lparr>rs_from = now + delay, rs_key = key, rs_value = payload'\<rparr>))))"

text \<open>The iterations of the two loops, in their order.\<close>

definition passes :: "nat \<Rightarrow> nat \<Rightarrow> (nat \<times> nat) list" where
  "passes loops n = concat (map (\<lambda>loop. map (\<lambda>index. (loop, index)) [0..<n]) [0..<loops])"

text \<open>The messages handed over, in order, and how the sending ended.\<close>

fun send_all :: "rat \<Rightarrow> (pyexc + 'm) list \<Rightarrow> produced list \<Rightarrow> 'm list \<times> unit sending" where
  "send_all deadline [] answers = ([], Sent ())"
| "send_all deadline (Inl x # ms) answers = ([], Raised x)"
| "send_all deadline (Inr m # ms) answers =
     (case send_one deadline answers of
        Sent rest \<Rightarrow> apfst ((#) m) (send_all deadline ms rest)
      | SendRaised \<Rightarrow> ([], SendRaised)
      | Raised x \<Rightarrow> ([], Raised x)
      | SendWaiting \<Rightarrow> ([], SendWaiting))"

definition replay ::
  "(ustr \<Rightarrow> rat) \<Rightarrow> replay_args \<Rightarrow> replay_record list \<Rightarrow> (nat \<Rightarrow> nat \<Rightarrow> rat) \<Rightarrow> rat \<Rightarrow> rat \<Rightarrow> produced list \<Rightarrow>
   replay_send list \<times> unit sending" where
  "replay fl args records clock deadline started answers =
     send_all deadline
       (map (\<lambda>(loop, index). replay_message fl args records clock started loop index) (passes (ra_loops args) (length records)))
       answers"

text \<open>The result: sent, delivered, failed, from the delivery reports.\<close>

definition replay_result :: "replay_args \<Rightarrow> replay_record list \<Rightarrow> bool list \<Rightarrow> nat \<times> nat \<times> nat" where
  "replay_result args records reports =
     (length records * ra_loops args, length (filter id reports), length (filter Not reports))"

lemma send_all_prefix:
  "send_all deadline ms answers = (sent, res) \<Longrightarrow>
   \<exists>rest. ms = map Inr sent @ rest \<and> (res = Sent () \<longrightarrow> rest = [])"
proof (induction deadline ms answers arbitrary: sent rule: send_all.induct)
  case sending: (3 deadline m ms answers)
  show ?case
  proof (cases "send_one deadline answers")
    case after: (Sent left)
    obtain sent1 res1 where r: "send_all deadline ms left = (sent1, res1)" by fastforce
    have s: "sent = m # sent1" "res1 = res" using sending.prems by (simp_all add: after r)
    have "send_all deadline ms left = (sent1, res)" by (simp add: r s)
    then have "\<exists>rest. ms = map Inr sent1 @ rest \<and> (res = Sent () \<longrightarrow> rest = [])" by (rule sending.IH [OF after])
    then show ?thesis by (auto simp: s)
  qed (use sending.prems in auto)
qed auto

text \<open>A run ends: each answer that is not an error either sends the message or waits for another.\<close>

lemma send_one_returns:
  "set answers \<subseteq> {Accepted, QueueFull} \<Longrightarrow> count_list answers Accepted = Suc n \<Longrightarrow>
   \<exists>rest. send_one deadline answers = Sent rest \<and> set rest \<subseteq> {Accepted, QueueFull} \<and> count_list rest Accepted = n"
  by (induction answers) auto

lemma send_all_returns:
  "set answers \<subseteq> {Accepted, QueueFull} \<Longrightarrow> length ms \<le> count_list answers Accepted \<Longrightarrow>
   send_all deadline (map Inr ms) answers = (ms, Sent ())"
proof (induction ms arbitrary: answers)
  case (Cons m ms)
  then obtain n where n: "count_list answers Accepted = Suc n" "length ms \<le> n" by (cases "count_list answers Accepted") auto
  from send_one_returns [OF Cons.prems(1) n(1)] obtain rest where
    "send_one deadline answers = Sent rest" "set rest \<subseteq> {Accepted, QueueFull}" "count_list rest Accepted = n" by blast
  with Cons.IH [of rest] n(2) show ?case by simp
qed simp

lemma length_passes: "length (passes loops n) = loops * n"
  by (induction loops) (simp_all add: passes_def)

lemma set_passes: "set (passes loops n) = {0..<loops} \<times> {0..<n}"
  by (auto simp: passes_def)

text \<open>The place of a message among all: pass after pass, record after record.\<close>

lemma passes_nth: "x < loops * n \<Longrightarrow> passes loops n ! x = (x div n, x mod n)"
proof (induction loops)
  case (Suc loops)
  have p: "passes (Suc loops) n = passes loops n @ map (Pair loops) [0..<n]" by (simp add: passes_def)
  show ?case
  proof (cases "x < loops * n")
    case True
    with Suc.IH show ?thesis by (simp add: p nth_append length_passes)
  next
    case False
    with Suc.prems obtain y where y: "x = loops * n + y" "y < n"
      by (metis add.commute add_less_cancel_left le_Suc_ex linorder_not_less mult_Suc)
    then show ?thesis by (simp add: p nth_append length_passes)
  qed
qed simp

lemma sorted_map_filter:
  "sorted_wrt (\<lambda>a b. \<forall>s t. f a = Some s \<longrightarrow> f b = Some t \<longrightarrow> s \<le> (t :: 'a :: linorder)) xs \<Longrightarrow> sorted (List.map_filter f xs)"
  by (induction xs) (auto simp: List.map_filter_simps List.map_filter_def split: option.split)

text \<open>What a message says of the record it is made from.\<close>

lemma replay_message_parts:
  assumes "replay_message fl args records clock started loop index = Inr m" and "records ! index = (eid, payload, stamp)"
  shows "\<exists>due. due_at fl (ra_pacing args) records started loop index = Inr due \<and>
      rs_from m = (case due of None \<Rightarrow> clock loop index | Some t \<Rightarrow> max t (clock loop index))"
    and "utf8_encode (if ra_unique_ids args then copy_id eid (int loop) else eid) = Inr (rs_key m)"
    and "if ra_unique_ids args
      then \<exists>old. utf8_encode eid = Inr old \<and> rs_value m = replace_first old (rs_key m) payload
      else rs_value m = payload"
  using assms
  by (auto simp: replay_message_def pace_def unique_copy_def bind_res_Inr_iff map_sum_def max_def Let_def
      split: if_splits sum.splits option.splits)

lemma replay_keys_differ:
  assumes "replay_message fl args records clock started l1 x1 = Inr m1"
    and "replay_message fl args records clock started l2 x2 = Inr m2" and "rs_key m1 = rs_key m2"
    and "ra_unique_ids args" and "distinct (map fst records)" and "x1 < length records" and "x2 < length records"
  shows "l1 = l2 \<and> x1 = x2"
proof -
  have key: "utf8_encode (copy_id (fst (records ! x)) (int l)) = Inr (rs_key m)"
    if "replay_message fl args records clock started l x = Inr m" for l x m
    using replay_message_parts(2) [OF that] assms(4) by (metis prod.collapse)
  have "copy_id (fst (records ! x1)) (int l1) = copy_id (fst (records ! x2)) (int l2)"
    using utf8_roundtrip [OF key [OF assms(1)]] utf8_roundtrip [OF key [OF assms(2)]] assms(3) by (metis sum.inject(2))
  then have "fst (records ! x1) = fst (records ! x2)" "l1 = l2" using copy_id_inj by fastforce+
  then show ?thesis using assms(5-7) by (metis length_map nth_eq_iff_index_eq nth_map)
qed

text \<open>When the messages of a pass are due, at a rate and at a speed.\<close>

lemma due_at_rate:
  "pa_rate pa = Some r \<Longrightarrow> r \<noteq> 0 \<Longrightarrow> 0 < length records \<Longrightarrow>
   due_at fl pa records started (x div length records) (x mod length records) = Inr (Some (started + of_nat x / r))"
  by (simp add: due_at_def given_def)

text \<open>The stamps of a file, all of them there, in order and not zero.\<close>

definition stamped :: "(ustr \<Rightarrow> rat) \<Rightarrow> replay_record list \<Rightarrow> rat list \<Rightarrow> bool" where
  "stamped fl records f \<longleftrightarrow> length f = length records \<and> sorted f \<and>
     (\<forall>x < length records. number_of fl (stamp_at records x) = Inr (f ! x) \<and> \<not> falsy fl (stamp_at records x))"

lemma due_at_speed:
  assumes "\<not> given (pa_rate pa)" and "pa_speed pa = Some v" and "v \<noteq> 0" and "stamped fl records f" and "index < length records"
  shows "due_at fl pa records started loop index =
    Inr (Some (started + (of_nat loop * (last f - hd f + 1) + f ! index - hd f) / v))"
proof -
  have n: "0 < length records" using assms(5) by linarith
  then have f: "f \<noteq> []" using assms(4) unfolding stamped_def by auto
  have "last f = f ! (length records - 1)" "hd f = f ! 0"
    using f assms(4) by (simp_all add: last_conv_nth hd_conv_nth stamped_def)
  with assms n show ?thesis by (simp add: due_at_def given_def stamped_def Let_def)
qed

text \<open>A run that ended: the \<open>x\<close>-th message is the one of its pass and its record.\<close>

lemma replay_messages:
  assumes "replay fl args records clock deadline started answers = (sent, Sent ())"
  shows "length sent = ra_loops args * length records"
    and "x < length sent \<Longrightarrow> x mod length records < length records"
    and "x < length sent \<Longrightarrow>
      replay_message fl args records clock started (x div length records) (x mod length records) = Inr (sent ! x)"
proof -
  have all: "map (\<lambda>(loop, index). replay_message fl args records clock started loop index)
      (passes (ra_loops args) (length records)) = map Inr sent"
    using send_all_prefix [OF assms(1) [unfolded replay_def]] by auto
  then show len: "length sent = ra_loops args * length records" by (metis length_map length_passes)
  show "x mod length records < length records" if "x < length sent" using that len by (cases "length records") simp_all
  show "replay_message fl args records clock started (x div length records) (x mod length records) = Inr (sent ! x)"
    if "x < length sent"
    using that arg_cong [OF all, of "\<lambda>l. l ! x"] by (simp add: len length_passes passes_nth)
qed

text \<open>Its key and value.\<close>

lemma replay_contents:
  assumes "replay fl args records clock deadline started answers = (sent, Sent ())"
    and "x < length sent" and "records ! (x mod length records) = (eid, payload, stamp)"
  shows "utf8_encode (if ra_unique_ids args then copy_id eid (int (x div length records)) else eid) = Inr (rs_key (sent ! x))"
    and "\<not> ra_unique_ids args \<longrightarrow> rs_value (sent ! x) = payload"
    and "\<forall>old before after. ra_unique_ids args \<and> utf8_encode eid = Inr old \<and> payload = before @ old @ after \<and>
          (\<forall>a c. payload = a @ old @ c \<longrightarrow> length before \<le> length a) \<longrightarrow>
        rs_value (sent ! x) = before @ rs_key (sent ! x) @ after"
proof -
  note parts = replay_message_parts(2,3) [OF replay_messages(3) [OF assms(1,2)] assms(3)]
  show "utf8_encode (if ra_unique_ids args then copy_id eid (int (x div length records)) else eid) = Inr (rs_key (sent ! x))"
    "\<not> ra_unique_ids args \<longrightarrow> rs_value (sent ! x) = payload" using parts by simp_all
  show "\<forall>old before after. ra_unique_ids args \<and> utf8_encode eid = Inr old \<and> payload = before @ old @ after \<and>
          (\<forall>a c. payload = a @ old @ c \<longrightarrow> length before \<le> length a) \<longrightarrow>
        rs_value (sent ! x) = before @ rs_key (sent ! x) @ after"
  proof (intro allI impI)
    fix old before after
    assume o: "ra_unique_ids args \<and> utf8_encode eid = Inr old \<and> payload = before @ old @ after \<and>
      (\<forall>a c. payload = a @ old @ c \<longrightarrow> length before \<le> length a)"
    then have p: "payload = before @ old @ after" by blast
    from o have "\<forall>a c. before @ old @ after = a @ old @ c \<longrightarrow> length before \<le> length a" unfolding p by blast
    from replace_first_at [OF this] o parts(2) show "rs_value (sent ! x) = before @ rs_key (sent ! x) @ after"
      unfolding p by simp
  qed
qed

lemma replay_distinct:
  assumes "replay fl args records clock deadline started answers = (sent, Sent ())"
    and "ra_unique_ids args" and "distinct (map fst records)"
  shows "distinct (map rs_key sent)"
proof -
  note r = replay_messages [OF assms(1)]
  have "x = y" if xy: "x < length sent" "y < length sent" "rs_key (sent ! x) = rs_key (sent ! y)" for x y
  proof -
    from replay_keys_differ [OF r(3) [OF xy(1)] r(3) [OF xy(2)] xy(3) assms(2,3) r(2) [OF xy(1)] r(2) [OF xy(2)]]
    show ?thesis by (metis mod_div_mult_eq)
  qed
  then show ?thesis by (auto simp: distinct_conv_nth)
qed

text \<open>The times they are due.\<close>

definition dues ::
  "(ustr \<Rightarrow> rat) \<Rightarrow> pacing \<Rightarrow> replay_record list \<Rightarrow> rat \<Rightarrow> nat \<Rightarrow> rat option list" where
  "dues fl pa records started n =
     map (\<lambda>x. projr (due_at fl pa records started (x div length records) (x mod length records))) [0..<n]"

lemma dues_sorted:
  assumes "\<And>x. x < n \<Longrightarrow>
      due_at fl pa records started (x div length records) (x mod length records) = Inr (dues fl pa records started n ! x)"
    and "\<And>x. x < n \<Longrightarrow> x mod length records < length records"
    and "given (pa_rate pa) \<or> ordered_stamps fl records"
    and "\<forall>r. pa_rate pa = Some r \<longrightarrow> 0 \<le> r" and "\<forall>v. pa_speed pa = Some v \<longrightarrow> 0 \<le> v"
  shows "sorted (List.map_filter id (dues fl pa records started n))"
proof -
  let ?n = "length records" and ?due = "dues fl pa records started n"
  have "s \<le> t" if xy: "x < y" "y < n" and d: "?due ! x = Some s" "?due ! y = Some t" for x y s t
  proof (rule schedule_monotone [OF _ _ assms(2) assms(2) _ assms(3-5)])
    show "due_at fl pa records started (x div ?n) (x mod ?n) = Inr (Some s)"
      "due_at fl pa records started (y div ?n) (y mod ?n) = Inr (Some t)"
      using assms(1) [of x] assms(1) [of y] xy d by simp_all
    have "x div ?n \<le> y div ?n" using xy(1) by (simp add: div_le_mono)
    moreover have "x mod ?n \<le> y mod ?n" if "x div ?n = y div ?n"
      using xy(1) that by (metis add_le_cancel_left less_imp_le_nat mult_div_mod_eq)
    ultimately show "x div ?n < y div ?n \<or> x div ?n = y div ?n \<and> x mod ?n \<le> y mod ?n" by linarith
  qed (use xy in simp_all)
  then show ?thesis by (intro sorted_map_filter) (auto simp: sorted_wrt_iff_nth_less dues_def)
qed

lemma dues_rate:
  assumes "\<And>x. x < n \<Longrightarrow> x mod length records < length records" and "pa_rate pa = Some v" "v \<noteq> 0"
  shows "dues fl pa records started n = map (\<lambda>x. Some (started + of_nat x / v)) [0..<n]"
  unfolding dues_def
proof (intro map_cong refl)
  fix x assume "x \<in> set [0..<n]"
  then have "x mod length records < length records" using assms(1) by simp
  then have "0 < length records" by linarith
  from due_at_rate [OF assms(2,3) this]
  show "projr (due_at fl pa records started (x div length records) (x mod length records)) = Some (started + of_nat x / v)"
    by simp
qed

lemma dues_speed:
  assumes "\<And>x. x < n \<Longrightarrow> x mod length records < length records"
    and "\<not> given (pa_rate pa)" "pa_speed pa = Some v" "v \<noteq> 0" "stamped fl records f"
  shows "dues fl pa records started n =
    map (\<lambda>x. Some (started + (of_nat (x div length records) * (last f - hd f + 1) + f ! (x mod length records) - hd f) / v)) [0..<n]"
  unfolding dues_def
proof (intro map_cong refl)
  fix x assume "x \<in> set [0..<n]"
  then have "x mod length records < length records" using assms(1) by simp
  from due_at_speed [OF assms(2-5) this, of started "x div length records"]
  show "projr (due_at fl pa records started (x div length records) (x mod length records)) =
    Some (started + (of_nat (x div length records) * (last f - hd f + 1) + f ! (x mod length records) - hd f) / v)"
    by simp
qed

lemma replay_dues:
  assumes "replay fl args records clock deadline started answers = (sent, Sent ())" and "x < length sent"
  shows "due_at fl (ra_pacing args) records started (x div length records) (x mod length records) =
      Inr (dues fl (ra_pacing args) records started (length sent) ! x)"
    and "rs_from (sent ! x) =
      (let now = clock (x div length records) (x mod length records)
       in case dues fl (ra_pacing args) records started (length sent) ! x of None \<Rightarrow> now | Some t \<Rightarrow> max t now)"
proof -
  obtain eid payload stamp where "records ! (x mod length records) = (eid, payload, stamp)" by (metis surj_pair)
  from replay_message_parts(1) [OF replay_messages(3) [OF assms] this]
  show "due_at fl (ra_pacing args) records started (x div length records) (x mod length records) =
      Inr (dues fl (ra_pacing args) records started (length sent) ! x)"
    "rs_from (sent ! x) =
      (let now = clock (x div length records) (x mod length records)
       in case dues fl (ra_pacing args) records started (length sent) ! x of None \<Rightarrow> now | Some t \<Rightarrow> max t now)"
    using assms(2) by (auto simp: dues_def Let_def)
qed

text \<open>
  C38. A replay that ends sends every record once per pass, on schedule. When sending ends normally,
  as many messages were handed over as the result counts: the records of the file in order, pass after
  pass, each under its event id and as it was read, or, with ids of their own, under the id with the
  number of the pass, which also takes the place of the first occurrence of the id in the payload. If
  the event ids of the file differ, no two of those messages have the same key. A message is handed
  over at once if it is not due at a time, and otherwise when that time has come, at once if it has
  passed. At a rate the \<open>x\<close>-th message of all passes is due \<open>x\<close> times the interval after the
  start, and at a speed over a file with stamps in order it is due by the stamps, each pass beginning a
  second after the last stamp of the one before: in both cases the times never decrease, so a
  later pass is throttled like the first.
\<close>

theorem replay_sends_each_copy_on_schedule:
  assumes "replay fl args records clock deadline started answers = (sent, Sent ())"
    and "\<forall>r. pa_rate (ra_pacing args) = Some r \<longrightarrow> 0 \<le> r" and "\<forall>v. pa_speed (ra_pacing args) = Some v \<longrightarrow> 0 \<le> v"
  shows "length sent = fst (replay_result args records reports) \<and>
    (\<forall>x < length sent. \<forall>eid payload stamp. records ! (x mod length records) = (eid, payload, stamp) \<longrightarrow>
       utf8_encode (if ra_unique_ids args then copy_id eid (int (x div length records)) else eid) = Inr (rs_key (sent ! x)) \<and>
       (\<not> ra_unique_ids args \<longrightarrow> rs_value (sent ! x) = payload) \<and>
       (\<forall>old before after. ra_unique_ids args \<and> utf8_encode eid = Inr old \<and> payload = before @ old @ after \<and>
            (\<forall>a c. payload = a @ old @ c \<longrightarrow> length before \<le> length a) \<longrightarrow>
          rs_value (sent ! x) = before @ rs_key (sent ! x) @ after)) \<and>
    (ra_unique_ids args \<and> distinct (map fst records) \<longrightarrow> distinct (map rs_key sent)) \<and>
    (\<exists>due. length due = length sent \<and>
       (\<forall>x < length sent.
          due_at fl (ra_pacing args) records started (x div length records) (x mod length records) = Inr (due ! x) \<and>
          rs_from (sent ! x) =
            (let now = clock (x div length records) (x mod length records)
             in case due ! x of None \<Rightarrow> now | Some t \<Rightarrow> max t now)) \<and>
       (\<forall>r. pa_rate (ra_pacing args) = Some r \<longrightarrow> r \<noteq> 0 \<longrightarrow>
          due = map (\<lambda>x. Some (started + of_nat x / r)) [0..<length sent]) \<and>
       (\<forall>v f. \<not> given (pa_rate (ra_pacing args)) \<longrightarrow> pa_speed (ra_pacing args) = Some v \<longrightarrow> v \<noteq> 0 \<longrightarrow> stamped fl records f \<longrightarrow>
          due = map (\<lambda>x. Some (started + (of_nat (x div length records) * (last f - hd f + 1)
                      + f ! (x mod length records) - hd f) / v)) [0..<length sent]) \<and>
       (given (pa_rate (ra_pacing args)) \<or> ordered_stamps fl records \<longrightarrow> sorted (List.map_filter id due)))"
proof (intro conjI impI)
  let ?n = "length records" and ?pa = "ra_pacing args"
  note r = replay_messages [OF assms(1)]
  show "length sent = fst (replay_result args records reports)" by (simp add: replay_result_def r(1) mult.commute)
  show "\<forall>x < length sent. \<forall>eid payload stamp. records ! (x mod ?n) = (eid, payload, stamp) \<longrightarrow>
       utf8_encode (if ra_unique_ids args then copy_id eid (int (x div ?n)) else eid) = Inr (rs_key (sent ! x)) \<and>
       (\<not> ra_unique_ids args \<longrightarrow> rs_value (sent ! x) = payload) \<and>
       (\<forall>old before after. ra_unique_ids args \<and> utf8_encode eid = Inr old \<and> payload = before @ old @ after \<and>
            (\<forall>a c. payload = a @ old @ c \<longrightarrow> length before \<le> length a) \<longrightarrow>
          rs_value (sent ! x) = before @ rs_key (sent ! x) @ after)"
    by (intro allI impI conjI replay_contents [OF assms(1)])
  show "distinct (map rs_key sent)" if "ra_unique_ids args \<and> distinct (map fst records)"
    using replay_distinct [OF assms(1)] that by blast
  let ?due = "dues fl ?pa records started (length sent)"
  note due = replay_dues [OF assms(1)]
  have len: "length ?due = length sent" by (simp add: dues_def)
  have mono: "sorted (List.map_filter id ?due)" if "given (pa_rate ?pa) \<or> ordered_stamps fl records"
    by (rule dues_sorted [OF due(1) r(2) that assms(2,3)])
  show "\<exists>due. length due = length sent \<and>
       (\<forall>x < length sent.
          due_at fl ?pa records started (x div ?n) (x mod ?n) = Inr (due ! x) \<and>
          rs_from (sent ! x) =
            (let now = clock (x div ?n) (x mod ?n)
             in case due ! x of None \<Rightarrow> now | Some t \<Rightarrow> max t now)) \<and>
       (\<forall>r. pa_rate ?pa = Some r \<longrightarrow> r \<noteq> 0 \<longrightarrow>
          due = map (\<lambda>x. Some (started + of_nat x / r)) [0..<length sent]) \<and>
       (\<forall>v f. \<not> given (pa_rate ?pa) \<longrightarrow> pa_speed ?pa = Some v \<longrightarrow> v \<noteq> 0 \<longrightarrow> stamped fl records f \<longrightarrow>
          due = map (\<lambda>x. Some (started + (of_nat (x div ?n) * (last f - hd f + 1)
                      + f ! (x mod ?n) - hd f) / v)) [0..<length sent]) \<and>
       (given (pa_rate ?pa) \<or> ordered_stamps fl records \<longrightarrow> sorted (List.map_filter id due))"
    by (rule exI [of _ ?due], intro conjI allI impI len) (rule due dues_rate [OF r(2)] dues_speed [OF r(2)] mono; assumption)+
qed

text \<open>Two events, one second apart, replayed twice at double speed under ids of their own.\<close>

definition two_records :: "replay_record list" where
  "two_records = [(ascii ''a1'', ascii ''{a1}'', Some (JInt 10)), (ascii ''b2'', ascii ''{b2}'', Some (JInt 11))]"

definition double_speed :: replay_args where
  "double_speed = \<lparr>ra_pacing = \<lparr>pa_rate = None, pa_speed = Some 2\<rparr>, ra_unique_ids = True, ra_loops = 2\<rparr>"

theorem replay_sends_each_copy_on_schedule_witness:
  "\<exists>sent. replay (\<lambda>_. 0) double_speed two_records (\<lambda>_ _. 0) 30 0 (replicate 4 Accepted) = (sent, Sent ()) \<and>
     length sent = 4 \<and> distinct (map rs_key sent) \<and> rs_value (sent ! 3) = ascii ''{b2-1}'' \<and> rs_from (sent ! 3) = 3 / 2"
proof -
  let ?fl = "\<lambda>_ :: ustr. 0 :: rat"
  obtain sent where s: "replay ?fl double_speed two_records (\<lambda>_ _. 0) 30 0 (replicate 4 Accepted) = (sent, Sent ())"
  proof -
    have "snd (replay ?fl double_speed two_records (\<lambda>_ _. 0) 30 0 (replicate 4 Accepted)) = Sent ()" by code_simp
    then show ?thesis by (metis that prod.collapse)
  qed
  have st: "stamped ?fl two_records [10, 11]" by (auto simp: stamped_def two_records_def less_Suc_eq)
  have ps: "pa_rate (ra_pacing double_speed) = None" "pa_speed (ra_pacing double_speed) = Some 2" "ra_unique_ids double_speed"
    by (simp_all add: double_speed_def)
  note t = replay_sends_each_copy_on_schedule [of ?fl double_speed two_records "\<lambda>_ _. 0" 30 0 "replicate 4 Accepted" sent "[]", OF s]
  have len: "length sent = 4" using t by (simp add: ps replay_result_def two_records_def double_speed_def)
  have "distinct (map fst two_records)" by (simp add: two_records_def ascii_def)
  then have "distinct (map rs_key sent)" using t by (simp add: ps)
  moreover have "rs_value (sent ! 3) = ascii ''{b2-1}''"
  proof -
    have two: "length two_records = 2" "two_records ! 1 = (ascii ''b2'', [123] @ ascii ''b2'' @ [125], Some (JInt 11))"
      by (simp_all add: two_records_def ascii_def)
    then have rec: "two_records ! (3 mod length two_records) = (ascii ''b2'', [123] @ ascii ''b2'' @ [125], Some (JInt 11))"
      by simp
    have first: "\<forall>a c. [123] @ ascii ''b2'' @ [125] = a @ ascii ''b2'' @ c \<longrightarrow> length [123 :: nat] \<le> length a"
    proof (intro allI impI)
      fix a c :: "nat list" assume "[123] @ ascii ''b2'' @ [125] = a @ ascii ''b2'' @ c"
      then show "length [123 :: nat] \<le> length a" by (cases a) (simp_all add: ascii_def)
    qed
    have enc: "utf8_encode (ascii ''b2'') = Inr (ascii ''b2'')" by (simp add: ascii_def utf8_char_def)
    have key: "utf8_encode (copy_id (ascii ''b2'') 1) = Inr (ascii ''b2-1'')"
      by (simp add: copy_id_def int_repr_def digits_of.simps ascii_def utf8_char_def)
    have f: "utf8_encode (copy_id (ascii ''b2'') (int (3 div length two_records))) = Inr (rs_key (sent ! 3)) \<and>
        rs_value (sent ! 3) = [123] @ rs_key (sent ! 3) @ [125]"
      using t ps enc first rec len by (auto simp del: append.simps)
    moreover have "int (3 div length two_records) = 1" by (simp add: two(1))
    ultimately show ?thesis using key by (simp add: ascii_def)
  qed
  moreover have "rs_from (sent ! 3) = 3 / 2"
  proof -
    from t ps obtain due where d: "\<forall>x < length sent. rs_from (sent ! x) =
         (let now = 0 in case due ! x of None \<Rightarrow> now | Some t \<Rightarrow> max t now)"
      "due = map (\<lambda>x. Some (0 + (of_nat (x div length two_records) * (last [10, 11] - hd [10, 11] + 1)
         + [10, 11] ! (x mod length two_records) - hd [10, 11]) / 2)) [0..<length sent]"
      using st by (auto simp: given_def)
    have "length two_records = 2" by (simp add: two_records_def)
    then have "due ! 3 = Some (3 / 2)" using len by (simp add: d(2))
    with d(1) len show ?thesis by simp
  qed
  ultimately show ?thesis using s len by blast
qed

end
