(* ===== verification/PyNumber.thy ===== *)
theory PyNumber
  imports Complex_Main
begin

text \<open>
  Python's \<open>round\<close> on exact fractions, for the numbers the reports print: to the nearest
  multiple of a power of ten, halves to the even digit.
\<close>

definition round_to :: "nat \<Rightarrow> rat \<Rightarrow> rat" where
  "round_to n x =
     (let y = x * 10 ^ n; f = \<lfloor>y\<rfloor>; d = y - of_int f
      in of_int (if d < 1 / 2 \<or> d = 1 / 2 \<and> even f then f else f + 1) / 10 ^ n)"

lemma round_to_near: "\<bar>round_to n x - x\<bar> \<le> 1 / (2 * 10 ^ n)"
proof -
  define y f where "y = x * 10 ^ n" and "f = \<lfloor>y\<rfloor>"
  define g where "g = (if y - of_int f < 1 / 2 \<or> y - of_int f = 1 / 2 \<and> even f then f else f + 1)"
  have "of_int f \<le> y" "y < of_int f + 1" unfolding f_def by linarith+
  then have "\<bar>of_int g - y\<bar> \<le> 1 / 2" by (auto simp: g_def)
  then have "\<bar>of_int g - y\<bar> / 10 ^ n \<le> 1 / 2 / 10 ^ n" by (intro divide_right_mono) simp_all
  moreover have "round_to n x - x = (of_int g - y) / 10 ^ n"
    by (simp add: round_to_def Let_def g_def f_def y_def diff_divide_distrib)
  ultimately show ?thesis by (simp add: abs_divide)
qed

lemma round_to_fits: "round_to n (of_int k / 10 ^ n) = of_int k / 10 ^ n"
  by (simp add: round_to_def)

end
