(* ===== verification/PySplit.thy ===== *)
theory PySplit
  imports PyText
begin

text \<open>
  \<open>str.split\<close> at one character, with and without a limit, as the inverse of \<open>join\<close>.
\<close>

text \<open>\<open>s.split(c)\<close> and \<open>s.split(c, n)\<close> for one character.\<close>

fun split_on :: "nat \<Rightarrow> ustr \<Rightarrow> ustr list" where
  "split_on c [] = [[]]"
| "split_on c (x # xs) =
     (if x = c then [] # split_on c xs
      else (case split_on c xs of [] \<Rightarrow> [[x]] | w # ws \<Rightarrow> (x # w) # ws))"

fun split_limit :: "nat \<Rightarrow> nat \<Rightarrow> ustr \<Rightarrow> ustr list" where
  "split_limit c 0 s = [s]"
| "split_limit c (Suc n) s =
     (case dropWhile (\<lambda>x. x \<noteq> c) s of
        [] \<Rightarrow> [s]
      | _ # r \<Rightarrow> takeWhile (\<lambda>x. x \<noteq> c) s # split_limit c n r)"

lemma split_limit_field:
  "c \<notin> set w \<Longrightarrow> split_limit c (Suc n) (w @ c # s) = w # split_limit c n s"
proof -
  assume "c \<notin> set w"
  then have "dropWhile (\<lambda>x. x \<noteq> c) (w @ c # s) = c # s" "takeWhile (\<lambda>x. x \<noteq> c) (w @ c # s) = w"
    by (induction w) auto
  then show ?thesis by simp
qed

lemma split_on_field: "c \<notin> set w \<Longrightarrow> split_on c (w @ c # s) = w # split_on c s"
  by (induction w) auto

lemma split_on_last: "c \<notin> set w \<Longrightarrow> split_on c w = [w]"
  by (induction w) auto

lemma split_on_join:
  "ws \<noteq> [] \<Longrightarrow> \<forall>w \<in> set ws. c \<notin> set w \<Longrightarrow> split_on c (join [c] ws) = ws"
  by (induction "[c]" ws rule: join.induct) (simp_all add: split_on_field split_on_last)

lemma split_on_none: "\<forall>w \<in> set (split_on c s). c \<notin> set w"
  by (induction s) (auto split: list.splits)

end
