(* ===== verification/Rebalance.thy ===== *)
theory Rebalance
  imports PyTime PyJson PyNumber PySplit
begin

text \<open>
  \<^verbatim>\<open>scripts/rebalance_benchmark.py\<close>: the log a group member keeps of the messages it
  receives and of its rebalance callbacks, how the log is read back, and the pauses per partition
  reported for every join. Times are exact fractions; a log writes them in ten-thousandths of a second.
\<close>

subsection \<open>Reading text\<close>

text \<open>\<open>path.read_text().splitlines()\<close>: line ends are translated, then the text is split.\<close>

fun universal_newlines :: "ustr \<Rightarrow> ustr" where
  "universal_newlines [] = []"
| "universal_newlines (c # s) =
     (if c = 13 then 10 # (case s of [] \<Rightarrow> [] | d # r \<Rightarrow> if d = 10 then universal_newlines r else universal_newlines s)
      else c # universal_newlines s)"

definition line_break :: "nat \<Rightarrow> bool" where
  "line_break c \<longleftrightarrow> 10 \<le> c \<and> c \<le> 13 \<or> 28 \<le> c \<and> c \<le> 30 \<or> c = 0x85 \<or> c = 0x2028 \<or> c = 0x2029"

fun splitlines :: "ustr \<Rightarrow> ustr list" where
  "splitlines [] = []"
| "splitlines (c # s) =
     (if line_break c then [] # splitlines s
      else (case splitlines s of [] \<Rightarrow> [[c]] | l # ls \<Rightarrow> (c # l) # ls))"

text \<open>\<open>int\<close> and \<open>float\<close> of plain numerals; of other texts they are arguments.\<close>

record numerals =
  nu_int :: "ustr \<Rightarrow> pyexc + int"
  nu_float :: "ustr \<Rightarrow> pyexc + rat"

definition int_of_text :: "numerals \<Rightarrow> ustr \<Rightarrow> pyexc + int" where
  "int_of_text nu s =
     (if s \<noteq> [] \<and> all_digits s \<and> length s \<le> MAX_STR_DIGITS then Inr (int (value_of s)) else nu_int nu s)"

definition float_of_text :: "numerals \<Rightarrow> ustr \<Rightarrow> pyexc + rat" where
  "float_of_text nu s =
     (let a = takeWhile is_digit s; r = dropWhile is_digit s
      in if a \<noteq> [] \<and> r \<noteq> [] \<and> hd r = 46 \<and> tl r \<noteq> [] \<and> all_digits (tl r)
         then Inr (of_nat (value_of a) + of_nat (value_of (tl r)) / 10 ^ length (tl r))
         else nu_float nu s)"

subsection \<open>The worker\<close>

text \<open>What happens to a member; the first component is the time, in ten-thousandths.\<close>

datatype member_event =
  GotAssigned nat "nat list"
| GotRevoked nat "nat list"
| GotMessage nat nat
| GotNothing
| GotError bool bool \<comment> \<open>end of a partition, fatal\<close>

datatype client_call =
  IncrementalAssign "nat list"
| Assign "nat list"
| IncrementalUnassign "nat list"
| Unassign

record worker_state =
  wk_out :: ustr
  wk_calls :: "client_call list"

definition stamp_text :: "nat \<Rightarrow> ustr" where
  "stamp_text t = digits_of (t div 10000) @ [46] @ pad4 (int (t mod 10000))"

definition partition_list :: "nat list \<Rightarrow> ustr" where
  "partition_list parts = join [44] (map digits_of parts)"

definition log_line :: "char \<Rightarrow> nat \<Rightarrow> ustr \<Rightarrow> ustr" where
  "log_line kind t rest = ascii [kind] @ [32] @ stamp_text t @ [32] @ rest @ [10]"

definition on_assign :: "bool \<Rightarrow> nat \<Rightarrow> nat list \<Rightarrow> worker_state \<Rightarrow> worker_state" where
  "on_assign cooperative t parts s =
     s\<lparr>wk_out := wk_out s @ log_line CHR ''A'' t (partition_list parts),
       wk_calls := wk_calls s @ [if cooperative then IncrementalAssign parts else Assign parts]\<rparr>"

definition on_revoke :: "bool \<Rightarrow> nat \<Rightarrow> nat list \<Rightarrow> worker_state \<Rightarrow> worker_state" where
  "on_revoke cooperative t parts s =
     s\<lparr>wk_out := wk_out s @ log_line CHR ''R'' t (partition_list parts),
       wk_calls := wk_calls s @ [if cooperative then IncrementalUnassign parts else Unassign]\<rparr>"

text \<open>The loop over \<open>poll\<close>; it ends at the signal (the end of the list) or at a fatal error.\<close>

fun worker_loop :: "bool \<Rightarrow> member_event list \<Rightarrow> worker_state \<Rightarrow> worker_state" where
  "worker_loop cooperative [] s = s"
| "worker_loop cooperative (ev # evs) s =
     (case ev of
        GotAssigned t parts \<Rightarrow> worker_loop cooperative evs (on_assign cooperative t parts s)
      | GotRevoked t parts \<Rightarrow> worker_loop cooperative evs (on_revoke cooperative t parts s)
      | GotMessage t p \<Rightarrow> worker_loop cooperative evs (s\<lparr>wk_out := wk_out s @ log_line CHR ''M'' t (digits_of p)\<rparr>)
      | GotNothing \<Rightarrow> worker_loop cooperative evs s
      | GotError eof fatal \<Rightarrow> if \<not> eof \<and> fatal then s else worker_loop cooperative evs s)"

text \<open>\<open>consumer.close()\<close> calls \<open>on_revoke\<close> with what the member still owns.\<close>

definition worker :: "ustr \<Rightarrow> member_event list \<Rightarrow> (nat \<times> nat list) option \<Rightarrow> worker_state" where
  "worker assignor evs closing =
     (let cooperative = startswith assignor (ascii ''cooperative'');
          s = worker_loop cooperative evs \<lparr>wk_out = [], wk_calls = []\<rparr>
      in case closing of None \<Rightarrow> s | Some (t, parts) \<Rightarrow> on_revoke cooperative t parts s)"

subsection \<open>Reading the logs back\<close>

type_synonym receipts = "(int, rat list) pydict"
type_synonym callback = "ustr \<times> rat \<times> int list"

fun all_ok :: "('a \<Rightarrow> pyexc + 'b) \<Rightarrow> 'a list \<Rightarrow> pyexc + 'b list" where
  "all_ok f [] = Inr []"
| "all_ok f (x # xs) = bind_res (f x) (\<lambda>y. bind_res (all_ok f xs) (\<lambda>ys. Inr (y # ys)))"

definition append_at :: "'k \<Rightarrow> 'v list \<Rightarrow> ('k, 'v list) pydict \<Rightarrow> ('k, 'v list) pydict" where
  "append_at k vs d = AList.update k (get_default d k [] @ vs) d"

definition parse_line :: "numerals \<Rightarrow> ustr \<Rightarrow> receipts \<times> callback list \<Rightarrow> pyexc + receipts \<times> callback list" where
  "parse_line nu line = (\<lambda>(received, callbacks).
     (case take 3 (split_limit 32 2 line @ [[]]) of
        [kind, stamp, rest] \<Rightarrow>
          (if kind = ascii ''M'' then
             bind_res (int_of_text nu rest) (\<lambda>p.
             bind_res (float_of_text nu stamp) (\<lambda>t. Inr (append_at p [t] received, callbacks)))
           else
             bind_res (all_ok (int_of_text nu) (filter (\<lambda>p. p \<noteq> []) (split_on 44 rest))) (\<lambda>parts.
             bind_res (float_of_text nu stamp) (\<lambda>t. Inr (received, callbacks @ [(kind, t, parts)]))))
      | _ \<Rightarrow> Inl ValueError))"

fun parse_lines :: "numerals \<Rightarrow> ustr list \<Rightarrow> receipts \<times> callback list \<Rightarrow> pyexc + receipts \<times> callback list" where
  "parse_lines nu [] s = Inr s"
| "parse_lines nu (line # lines) s = bind_res (parse_line nu line s) (parse_lines nu lines)"

definition parse_log :: "numerals \<Rightarrow> ustr \<Rightarrow> pyexc + receipts \<times> callback list" where
  "parse_log nu text = parse_lines nu (splitlines (universal_newlines text)) ([], [])"

subsection \<open>The analysis\<close>

definition PARTITIONS :: nat where "PARTITIONS = 6"
definition WINDOW_BEFORE_SEC :: rat where "WINDOW_BEFORE_SEC = 1"
definition WINDOW_AFTER_SEC :: rat where "WINDOW_AFTER_SEC = 9"
definition STOPPED_SEC :: rat where "STOPPED_SEC = 1 / 2"

fun list_max :: "rat list \<Rightarrow> rat" where
  "list_max [] = 0"
| "list_max [x] = x"
| "list_max (x # y # ys) = max x (list_max (y # ys))"

definition longest_gap :: "rat list \<Rightarrow> rat \<Rightarrow> rat \<Rightarrow> rat" where
  "longest_gap ts start end' =
     (let inside = filter (\<lambda>t. start \<le> t \<and> t \<le> end') ts;
          edges = [start] @ inside @ [end']
      in list_max (map (\<lambda>(a, b). b - a) (zip edges (tl edges))))"

definition owner_step :: "int \<Rightarrow> rat \<Rightarrow> ustr option \<times> rat \<Rightarrow> ustr \<times> receipts \<Rightarrow> ustr option \<times> rat" where
  "owner_step p when best x =
     (let earlier = filter (\<lambda>t. t \<le> when) (get_default (snd x) p [])
      in if earlier \<noteq> [] \<and> last earlier > snd best then (Some (fst x), last earlier) else best)"

definition owner_at :: "(ustr \<times> receipts) list \<Rightarrow> int \<Rightarrow> rat \<Rightarrow> ustr option" where
  "owner_at per_worker p when = fst (foldl (owner_step p when) (None, - 1) per_worker)"

definition merge_times :: "(ustr \<times> receipts) list \<Rightarrow> receipts" where
  "merge_times per_worker =
     foldl (\<lambda>merged (_, received). foldl (\<lambda>m (p, ts). append_at p ts m) merged received) [] per_worker"

record join_report =
  jr_changed_owner :: nat
  jr_stopped :: nat
  jr_longest :: rat
  jr_mean :: rat
  jr_per_partition :: "(ustr \<times> rat) list"
  jr_seconds_lost :: rat

definition pauses_of :: "receipts \<Rightarrow> rat \<Rightarrow> rat \<Rightarrow> (nat \<times> rat) list" where
  "pauses_of merged start end' =
     map (\<lambda>p. (p, longest_gap (sort (get_default merged (int p) [])) start end')) [0..<PARTITIONS]"

definition analyse_join :: "(ustr \<times> receipts) list \<Rightarrow> rat \<Rightarrow> join_report" where
  "analyse_join per_worker joined_at =
     (let start = joined_at - WINDOW_BEFORE_SEC; end' = joined_at + WINDOW_AFTER_SEC;
          pauses = pauses_of (merge_times per_worker) start end';
          moved = filter (\<lambda>p. owner_at per_worker (int p) start \<noteq> owner_at per_worker (int p) end') [0..<PARTITIONS];
          stopped = filter (\<lambda>(p, gap). gap \<ge> STOPPED_SEC) pauses
      in \<lparr>jr_changed_owner = length moved, jr_stopped = length stopped,
          jr_longest = round_to 3 (list_max (map snd pauses)),
          jr_mean = round_to 3 (sum_list (map snd pauses) / of_nat PARTITIONS),
          jr_per_partition = map (\<lambda>(p, g). (digits_of p, round_to 3 g)) pauses,
          jr_seconds_lost = round_to 2 (sum_list (filter (\<lambda>g. g \<ge> STOPPED_SEC) (map snd pauses)))\<rparr>)"

definition analyse :: "(ustr \<times> receipts) list \<Rightarrow> (ustr, rat) pydict \<Rightarrow> (ustr, join_report) pydict" where
  "analyse per_worker joins = map (\<lambda>(label, joined_at). (label, analyse_join per_worker joined_at)) joins"

text \<open>The parts of the report of \<open>run\<close> computed from the logs.\<close>

definition steady_gap :: "(ustr \<times> receipts) list \<Rightarrow> (ustr, rat) pydict \<Rightarrow> rat" where
  "steady_gap per_worker joins =
     (let quiet_start = Min (snd ` set joins) - 6; merged = merge_times per_worker
      in list_max (map (\<lambda>p. longest_gap (sort (get_default merged (int p) [])) quiet_start (quiet_start + 4)) [0..<PARTITIONS]))"

definition messages_received :: "(ustr \<times> receipts) list \<Rightarrow> nat" where
  "messages_received per_worker = sum_list (map (length \<circ> snd) (merge_times per_worker))"

definition revocations :: "callback list \<Rightarrow> nat" where
  "revocations events = sum_list (map (\<lambda>(_, _, parts). length parts) (filter (\<lambda>(kind, _, _). kind = ascii ''R'') events))"

subsection \<open>Logs read back\<close>

text \<open>The events a member logs before it stops, and the line of each.\<close>

definition logged :: "member_event list \<Rightarrow> member_event list" where
  "logged evs = takeWhile (\<lambda>ev. ev \<noteq> GotError False True) evs"

fun event_line :: "member_event \<Rightarrow> ustr list" where
  "event_line (GotAssigned t parts) = [log_line CHR ''A'' t (partition_list parts)]"
| "event_line (GotRevoked t parts) = [log_line CHR ''R'' t (partition_list parts)]"
| "event_line (GotMessage t p) = [log_line CHR ''M'' t (digits_of p)]"
| "event_line GotNothing = []"
| "event_line (GotError eof fatal) = []"

definition closing_events :: "(nat \<times> nat list) option \<Rightarrow> member_event list" where
  "closing_events closing = (case closing of None \<Rightarrow> [] | Some (t, parts) \<Rightarrow> [GotRevoked t parts])"

definition happened :: "member_event list \<Rightarrow> (nat \<times> nat list) option \<Rightarrow> member_event list" where
  "happened evs closing = logged evs @ closing_events closing"

definition seconds :: "nat \<Rightarrow> rat" where
  "seconds t = of_nat t / 10000"

text \<open>What a log should say: the receive times of a partition and the callbacks, in order.\<close>

definition receive_times :: "member_event list \<Rightarrow> int \<Rightarrow> rat list" where
  "receive_times evs p =
     List.map_filter (\<lambda>ev. case ev of GotMessage t q \<Rightarrow> if int q = p then Some (seconds t) else None | _ \<Rightarrow> None) evs"

definition callbacks_of :: "member_event list \<Rightarrow> callback list" where
  "callbacks_of evs =
     List.map_filter (\<lambda>ev. case ev of
         GotAssigned t parts \<Rightarrow> Some (ascii ''A'', seconds t, map int parts)
       | GotRevoked t parts \<Rightarrow> Some (ascii ''R'', seconds t, map int parts)
       | _ \<Rightarrow> None) evs"

text \<open>The partitions named are those of the topic.\<close>

fun of_topic :: "member_event \<Rightarrow> bool" where
  "of_topic (GotAssigned t parts) = (\<forall>p \<in> set parts. p < PARTITIONS)"
| "of_topic (GotRevoked t parts) = (\<forall>p \<in> set parts. p < PARTITIONS)"
| "of_topic (GotMessage t p) = (p < PARTITIONS)"
| "of_topic _ = True"

lemma worker_loop_out: "wk_out (worker_loop c evs s) = wk_out s @ concat (concat (map event_line (logged evs)))"
proof (induction evs arbitrary: s)
  case (Cons ev evs)
  then show ?case by (cases ev) (auto simp: logged_def on_assign_def on_revoke_def)
qed (simp add: logged_def)

lemma worker_out: "wk_out (worker a evs closing) = concat (concat (map event_line (happened evs closing)))"
  by (cases closing)
    (auto simp: worker_def worker_loop_out on_revoke_def happened_def closing_events_def Let_def)

text \<open>Lines and fields.\<close>

lemma universal_newlines_id: "13 \<notin> set s \<Longrightarrow> universal_newlines s = s"
  by (induction s) auto

lemma splitlines_line: "\<forall>c \<in> set l. \<not> line_break c \<Longrightarrow> splitlines (l @ 10 # rest) = l # splitlines rest"
  by (induction l) (auto simp: line_break_def)

lemma digit_char: "c \<in> set (digits_of n) \<Longrightarrow> 48 \<le> c \<and> c \<le> 57"
  using digits_of_digits by (auto simp: is_digit_def)

lemma digits_of_nonempty: "digits_of n \<noteq> []"
  using digits_of_hd by blast

lemma digits_length: "length (digits_of n) \<le> Suc n"
proof (induction n rule: digits_of.induct)
  case (1 n)
  show ?case
  proof (cases "n < 10")
    case True
    then show ?thesis by (subst digits_of.simps) simp
  next
    case False
    with 1 have "length (digits_of (n div 10)) \<le> Suc (n div 10)" by simp
    moreover have "Suc (Suc (n div 10)) \<le> Suc n" using False by linarith
    ultimately show ?thesis using False by (subst digits_of.simps) simp
  qed
qed

lemma int_of_digits: "p < PARTITIONS \<Longrightarrow> int_of_text nu (digits_of p) = Inr (int p)"
  using digits_length [of p] digits_of_nonempty [of p] digits_of_digits [of _ p]
  by (auto simp: int_of_text_def all_digits_def value_digits_of PARTITIONS_def MAX_STR_DIGITS_def list_all_iff)

lemma pad4_char: "c \<in> set (pad4 (int n)) \<Longrightarrow> n < 10000 \<Longrightarrow> 48 \<le> c \<and> c \<le> 57"
  by (auto simp: pad4_def pad2_def)

lemma stamp_char: "c \<in> set (stamp_text t) \<Longrightarrow> c = 46 \<or> 48 \<le> c \<and> c \<le> 57"
  using digit_char [of c "t div 10000"] pad4_char [of c "t mod 10000"] by (auto simp: stamp_text_def)

lemma float_of_stamp: "float_of_text nu (stamp_text t) = Inr (seconds t)"
proof -
  let ?i = "digits_of (t div 10000)" and ?f = "pad4 (int (t mod 10000))"
  have i: "\<forall>c \<in> set ?i. is_digit c" using digits_of_digits by blast
  have s: "stamp_text t = ?i @ 46 # ?f" by (simp add: stamp_text_def)
  have "takeWhile is_digit (stamp_text t) = ?i" "dropWhile is_digit (stamp_text t) = 46 # ?f"
    using i by (simp_all add: s takeWhile_append2 dropWhile_append2 is_digit_def)
  moreover have "?f \<noteq> []" by (simp add: pad4_def pad2_def)
  moreover have "int (value_of ?f) = int (t mod 10000)" by (rule value_pad4) simp_all
  moreover have "(of_nat (t div 10000) + of_nat (t mod 10000) / 10 ^ 4 :: rat) = seconds t"
  proof -
    have "(of_nat t :: rat) = of_nat (10000 * (t div 10000) + t mod 10000)" by simp
    also have "\<dots> = 10000 * of_nat (t div 10000) + of_nat (t mod 10000)" by (simp only: of_nat_add of_nat_mult of_nat_numeral)
    finally show ?thesis by (simp add: seconds_def field_simps)
  qed
  ultimately show ?thesis
    using digits_of_nonempty by (simp add: float_of_text_def Let_def value_digits_of)
qed

text \<open>One line, and then all of them.\<close>

lemma log_line_body:
  fixes t :: nat
  assumes "\<forall>c \<in> set rest. c = 44 \<or> 48 \<le> c \<and> c \<le> 57" and "kind \<in> {CHR ''A'', CHR ''R'', CHR ''M''}"
  defines "body \<equiv> ascii [kind] @ 32 # stamp_text t @ 32 # rest"
  shows "log_line kind t rest = body @ [10]" "\<forall>c \<in> set body. \<not> line_break c"
    "take 3 (split_limit 32 2 body @ [[]]) = [ascii [kind], stamp_text t, rest]"
proof -
  show "log_line kind t rest = body @ [10]" by (simp add: log_line_def body_def)
  show "\<forall>c \<in> set body. \<not> line_break c"
    using assms(1,2) stamp_char [of _ t] by (fastforce simp: body_def line_break_def ascii_def)
  have "32 \<notin> set (ascii [kind])" using assms(2) by (auto simp: ascii_def)
  moreover have "32 \<notin> set (stamp_text t)" using stamp_char [of 32 t] by auto
  ultimately show "take 3 (split_limit 32 2 body @ [[]]) = [ascii [kind], stamp_text t, rest]"
    using split_limit_field [of 32 _ 1] split_limit_field [of 32 _ 0]
    by (simp add: body_def numeral_2_eq_2 del: split_limit.simps(2))
qed

lemma partition_list_char: "c \<in> set (partition_list parts) \<Longrightarrow> c = 44 \<or> 48 \<le> c \<and> c \<le> 57"
proof -
  have "c \<in> set (join [44] ws) \<Longrightarrow> c = 44 \<or> (\<exists>w \<in> set ws. c \<in> set w)" for ws
    by (induction "[44 :: nat]" ws rule: join.induct) auto
  then show "c \<in> set (partition_list parts) \<Longrightarrow> c = 44 \<or> 48 \<le> c \<and> c \<le> 57"
    using digit_char unfolding partition_list_def by fastforce
qed

lemma partitions_read_back:
  assumes "\<forall>p \<in> set parts. p < PARTITIONS"
  shows "all_ok (int_of_text nu) (filter (\<lambda>p. p \<noteq> []) (split_on 44 (partition_list parts))) = Inr (map int parts)"
proof (cases "parts = []")
  case False
  have "split_on 44 (partition_list parts) = map digits_of parts"
    unfolding partition_list_def using False digit_char by (intro split_on_join) fastforce+
  moreover have "filter (\<lambda>p. p \<noteq> []) (map digits_of parts) = map digits_of parts"
    using digits_of_nonempty by (simp add: filter_map comp_def)
  moreover have "all_ok (int_of_text nu) (map digits_of parts) = Inr (map int parts)"
    using assms by (induction parts) (simp_all add: int_of_digits)
  ultimately show ?thesis by simp
qed (simp add: partition_list_def)

lemma append_at_get: "get_default (append_at k vs d) k' [] = get_default d k' [] @ (if k' = k then vs else [])"
  by (simp add: append_at_def dict_simps)

lemma event_line_parsed:
  assumes "of_topic ev" and "event_line ev = [line]"
  shows "\<exists>body. line = body @ [10] \<and> (\<forall>c \<in> set body. \<not> line_break c) \<and>
    (\<exists>received'. parse_line nu body (received, callbacks) = Inr (received', callbacks @ callbacks_of [ev]) \<and>
       (\<forall>p. get_default received' p [] = get_default received p [] @ receive_times [ev] p))"
proof -
  have parts: ?thesis if "line = log_line kind t (partition_list parts)" "kind \<in> {CHR ''A'', CHR ''R''}"
      "\<forall>p \<in> set parts. p < PARTITIONS" "callbacks_of [ev] = [(ascii [kind], seconds t, map int parts)]"
      "\<forall>p. receive_times [ev] p = []" for kind t parts
  proof -
    note body = log_line_body [where rest = "partition_list parts" and kind = kind and t = t]
    have c: "\<forall>c \<in> set (partition_list parts). c = 44 \<or> 48 \<le> c \<and> c \<le> 57" using partition_list_char by blast
    have k: "kind \<in> {CHR ''A'', CHR ''R'', CHR ''M''}" "kind \<noteq> CHR ''M''" using that(2) by auto
    have "parse_line nu (ascii [kind] @ 32 # stamp_text t @ 32 # partition_list parts) (received, callbacks) =
        Inr (received, callbacks @ callbacks_of [ev])"
      using k(2) body(3) [OF c k(1)] partitions_read_back [OF that(3)]
      by (simp add: parse_line_def float_of_stamp that(4))
    with body(1,2) [OF c k(1)] that(1,5) show ?thesis by auto
  qed
  show ?thesis
  proof (cases ev)
    case (GotMessage t p)
    note body = log_line_body [where rest = "digits_of p" and kind = "CHR ''M''" and t = t]
    have c: "\<forall>c \<in> set (digits_of p). c = 44 \<or> 48 \<le> c \<and> c \<le> 57" using digit_char by blast
    have "parse_line nu (ascii ''M'' @ 32 # stamp_text t @ 32 # digits_of p) (received, callbacks) =
        Inr (append_at (int p) [seconds t] received, callbacks @ callbacks_of [ev])"
      using body(3) [OF c] assms(1) GotMessage
      by (simp add: parse_line_def float_of_stamp int_of_digits callbacks_of_def List.map_filter_simps)
    moreover have "line = log_line CHR ''M'' t (digits_of p)" using assms(2) GotMessage by simp
    ultimately show ?thesis
      using body(1) [OF c]  body(2) [OF c] GotMessage
      by (intro exI [of _ "ascii ''M'' @ 32 # stamp_text t @ 32 # digits_of p"])
         (auto simp: append_at_get receive_times_def List.map_filter_simps)
  qed (use assms parts in \<open>auto simp: callbacks_of_def receive_times_def List.map_filter_simps\<close>)
qed

lemma parse_events:
  assumes "\<forall>ev \<in> set evs. of_topic ev"
  shows "\<exists>received'. parse_lines nu (splitlines (concat (concat (map event_line evs)))) (received, callbacks) =
      Inr (received', callbacks @ callbacks_of evs) \<and>
    (\<forall>p. get_default received' p [] = get_default received p [] @ receive_times evs p)"
  using assms
proof (induction evs arbitrary: received callbacks)
  case (Cons ev evs)
  have cons: "callbacks_of (ev # evs) = callbacks_of [ev] @ callbacks_of evs"
    "receive_times (ev # evs) p = receive_times [ev] p @ receive_times evs p" for p
    by (simp_all add: callbacks_of_def receive_times_def List.map_filter_simps split: option.split)
  show ?case
  proof (cases "event_line ev")
    case Nil
    then have "callbacks_of [ev] = []" "receive_times [ev] p = []" for p
      by (cases ev; simp add: callbacks_of_def receive_times_def List.map_filter_simps)+
    with Nil Cons show ?thesis by (simp add: cons)
  next
    case (Cons line rest)
    then have line: "event_line ev = [line]" by (cases ev) auto
    have "of_topic ev" using Cons.prems by simp
    from event_line_parsed [OF this line, of nu received callbacks] obtain body received1 where b:
      "line = body @ [10]" "\<forall>c \<in> set body. \<not> line_break c"
      "parse_line nu body (received, callbacks) = Inr (received1, callbacks @ callbacks_of [ev])"
      "\<forall>p. get_default received1 p [] = get_default received p [] @ receive_times [ev] p" by blast
    from Cons.IH [of received1 "callbacks @ callbacks_of [ev]"] Cons.prems obtain received2 where r:
      "parse_lines nu (splitlines (concat (concat (map event_line evs)))) (received1, callbacks @ callbacks_of [ev]) =
         Inr (received2, (callbacks @ callbacks_of [ev]) @ callbacks_of evs)"
      "\<forall>p. get_default received2 p [] = get_default received1 p [] @ receive_times evs p" by auto
    show ?thesis
      using b r splitlines_line [OF b(2)] by (auto simp: line cons)
  qed
qed (simp add: callbacks_of_def receive_times_def List.map_filter_simps)

lemma worker_log_read_back:
  assumes "\<forall>ev \<in> set (happened evs closing). of_topic ev"
  shows "\<exists>received. parse_log nu (wk_out (worker assignor evs closing)) = Inr (received, callbacks_of (happened evs closing)) \<and>
    (\<forall>p. get_default received p [] = receive_times (happened evs closing) p)"
proof -
  have "13 \<notin> set (concat (concat (map event_line es)))" if "\<forall>ev \<in> set es. of_topic ev" for es
    using that
  proof (induction es)
    case (Cons ev es)
    have "13 \<notin> set line" if "line \<in> set (event_line ev)" for line
    proof -
      have l: "event_line ev = [line]" using that by (cases ev) auto
      have "of_topic ev" using Cons.prems by simp
      from event_line_parsed [OF this l] show ?thesis by (fastforce simp: line_break_def)
    qed
    with Cons show ?case by auto
  qed simp
  from this [OF assms] have "universal_newlines (wk_out (worker assignor evs closing)) = wk_out (worker assignor evs closing)"
    unfolding worker_out by (rule universal_newlines_id)
  then show ?thesis
    using parse_events [OF assms, of nu "[]" "[]"] unfolding parse_log_def worker_out by auto
qed

subsection \<open>The longest gap\<close>

lemma longest_gap_step:
  "list_max (map (\<lambda>(a, b). b - a) (zip (x # y # ys) (y # ys))) =
     (if ys = [] then y - x else max (y - x) (list_max (map (\<lambda>(a, b). b - a) (zip (y # ys) ys))))"
  by (cases ys) auto

text \<open>A stretch of the window in which nothing was received.\<close>

definition silent :: "rat set \<Rightarrow> rat \<Rightarrow> rat \<Rightarrow> bool" where
  "silent ts a b \<longleftrightarrow> (\<forall>t \<in> ts. \<not> (a < t \<and> t < b))"

lemma gaps_exact:
  assumes "sorted (start # inside @ [end'])"
  defines "g \<equiv> list_max (map (\<lambda>(a, b). b - a) (zip (start # inside @ [end']) (inside @ [end'])))"
  shows "(\<exists>a b. start \<le> a \<and> a \<le> b \<and> b \<le> end' \<and> b - a = g \<and> silent (set inside) a b) \<and>
    (\<forall>a b. start \<le> a \<longrightarrow> b \<le> end' \<longrightarrow> silent (set inside) a b \<longrightarrow> b - a \<le> g)"
  using assms(1) unfolding g_def
proof (induction inside arbitrary: start)
  case Nil
  then show ?case by (auto simp: silent_def)
next
  case (Cons t ts)
  let ?g = "list_max (map (\<lambda>(a, b). b - a) (zip (t # ts @ [end']) (ts @ [end'])))"
  have g: "list_max (map (\<lambda>(a, b). b - a) (zip (start # (t # ts) @ [end']) ((t # ts) @ [end']))) = max (t - start) ?g"
    using longest_gap_step [of start t "ts @ [end']"] by simp
  have s: "start \<le> t" "\<forall>u \<in> set ts. t \<le> u" "sorted (t # ts @ [end'])" "t \<le> end'" using Cons.prems by auto
  note IH = Cons.IH [OF s(3)]
  have upper: "b - a \<le> max (t - start) ?g" if "start \<le> a" "b \<le> end'" "silent (set (t # ts)) a b" for a b
  proof (cases "t \<le> a")
    case True
    with IH that show ?thesis by (force simp: silent_def)
  next
    case False
    with that(3) have "b \<le> t" by (auto simp: silent_def)
    with that(1) show ?thesis by (simp add: max_def)
  qed
  have "\<exists>a b. start \<le> a \<and> a \<le> b \<and> b \<le> end' \<and> b - a = max (t - start) ?g \<and> silent (set (t # ts)) a b"
  proof (cases "?g \<le> t - start")
    case True
    then show ?thesis
      using s by (intro exI [of _ start] exI [of _ t]) (auto simp: silent_def max_def)
  next
    case False
    from IH obtain a b where ab: "t \<le> a" "a \<le> b" "b \<le> end'" "b - a = ?g" "silent (set ts) a b" by blast
    with False s show ?thesis by (intro exI [of _ a] exI [of _ b]) (auto simp: silent_def max_def)
  qed
  with upper show ?case unfolding g by blast
qed

lemma longest_gap_exact:
  assumes "sorted ts" and "start \<le> end'"
  shows "(\<exists>a b. start \<le> a \<and> a \<le> b \<and> b \<le> end' \<and> b - a = longest_gap ts start end' \<and> silent (set ts) a b) \<and>
    (\<forall>a b. start \<le> a \<longrightarrow> b \<le> end' \<longrightarrow> silent (set ts) a b \<longrightarrow> b - a \<le> longest_gap ts start end')"
proof -
  let ?in = "filter (\<lambda>t. start \<le> t \<and> t \<le> end') ts"
  have "sorted (start # ?in @ [end'])" using assms by (auto simp: sorted_append intro: sorted_filter [of id, simplified])
  note g = gaps_exact [OF this]
  have eq: "longest_gap ts start end' = list_max (map (\<lambda>(a, b). b - a) (zip (start # ?in @ [end']) (?in @ [end'])))"
    by (simp add: longest_gap_def Let_def)
  have sil: "silent (set ts) a b \<longleftrightarrow> silent (set ?in) a b" if "start \<le> a" "b \<le> end'" for a b
    using that by (auto simp: silent_def)
  from g show ?thesis unfolding eq using sil by meson
qed

lemma longest_gap_unique:
  assumes "(\<exists>a b. start \<le> a \<and> a \<le> b \<and> b \<le> end' \<and> b - a = g \<and> silent T a b)"
    and "(\<forall>a b. start \<le> a \<longrightarrow> b \<le> end' \<longrightarrow> silent T a b \<longrightarrow> b - a \<le> (g :: rat))"
  shows "x \<le> g \<longleftrightarrow> (\<exists>a b. start \<le> a \<and> b \<le> end' \<and> x \<le> b - a \<and> silent T a b)"
  using assms by (meson order_trans order_refl)

subsection \<open>Merging and owners\<close>

lemma fold_append_at:
  "wf_dict received \<Longrightarrow> get_default (foldl (\<lambda>m (p, ts). append_at p ts m) m received) p [] =
     get_default m p [] @ get_default received p []"
proof (induction received arbitrary: m)
  case (Cons x received)
  obtain q ts where x: "x = (q, ts)" by (cases x)
  from Cons.prems have n: "q = p \<Longrightarrow> get_default received p [] = []"
    by (force simp: x get_default_def dest: map_of_SomeD split: option.split)
  show ?case using Cons.IH [of "append_at q ts m"] Cons.prems n by (auto simp: x append_at_get)
qed simp

lemma merge_times_get:
  assumes "\<forall>x \<in> set pw. wf_dict (snd x)"
  shows "get_default (merge_times pw) p [] = concat (map (\<lambda>x. get_default (snd x) p []) pw)"
proof -
  have "get_default (foldl (\<lambda>merged (_, received). foldl (\<lambda>m (p, ts). append_at p ts m) merged received) m pw) p [] =
      get_default m p [] @ concat (map (\<lambda>x. get_default (snd x) p []) pw)" for m
    using assms by (induction pw arbitrary: m) (auto simp: fold_append_at)
  then show ?thesis by (simp add: merge_times_def)
qed

lemma parse_lines_wf: "parse_lines nu ls (r, c) = Inr (r', c') \<Longrightarrow> wf_dict r \<Longrightarrow> wf_dict r'"
proof (induction ls arbitrary: r c)
  case (Cons l ls)
  from Cons.prems(1) obtain r1 c1 where 1: "parse_line nu l (r, c) = Inr (r1, c1)" "parse_lines nu ls (r1, c1) = Inr (r', c')"
    by (auto simp: bind_res_Inr_iff)
  have "wf_dict r1"
    using 1(1) Cons.prems(2)
    by (auto simp: parse_line_def bind_res_Inr_iff append_at_def split: list.splits if_splits)
  from Cons.IH [OF 1(2) this] show ?case .
qed simp

text \<open>Who received from a partition last, up to a moment.\<close>

definition last_owner :: "(ustr \<times> (int \<Rightarrow> rat list)) list \<Rightarrow> int \<Rightarrow> rat \<Rightarrow> ustr option \<Rightarrow> bool" where
  "last_owner seen p when owner \<longleftrightarrow>
     (case owner of
        None \<Rightarrow> \<forall>(name, times) \<in> set seen. \<forall>t \<in> set (times p). when < t
      | Some name \<Rightarrow> \<exists>times t. (name, times) \<in> set seen \<and> t \<in> set (times p) \<and> t \<le> when \<and>
          (\<forall>(name', times') \<in> set seen. \<forall>u \<in> set (times' p). u \<le> when \<longrightarrow> u \<le> t))"

lemma sorted_last: "sorted xs \<Longrightarrow> t \<in> set xs \<Longrightarrow> t \<le> last (xs :: rat list)"
  by (induction xs) auto

definition owner_inv :: "int \<Rightarrow> rat \<Rightarrow> (ustr \<times> receipts) list \<Rightarrow> ustr option \<times> rat \<Rightarrow> bool" where
  "owner_inv p when pw best \<longleftrightarrow>
     (\<forall>x \<in> set pw. \<forall>t \<in> set (get_default (snd x) p []). t \<le> when \<longrightarrow> t \<le> snd best) \<and>
     (case fst best of
        None \<Rightarrow> snd best = - 1
      | Some n \<Rightarrow> \<exists>x \<in> set pw. fst x = n \<and> snd best \<in> set (get_default (snd x) p []) \<and> snd best \<le> when)"

lemma owner_inv_step:
  assumes "owner_inv p when pw best" and "sorted (get_default (snd x) p [])"
  shows "owner_inv p when (pw @ [x]) (owner_step p when best x)"
proof -
  let ?e = "filter (\<lambda>t. t \<le> when) (get_default (snd x) p [])"
  have "sorted ?e" using assms(2) by (rule sorted_filter [of id, simplified])
  then have top: "t \<le> last ?e" if "t \<in> set (get_default (snd x) p [])" "t \<le> when" for t
    using sorted_last [of ?e t] that by simp
  show ?thesis
  proof (cases "?e \<noteq> [] \<and> last ?e > snd best")
    case True
    then have step: "owner_step p when best x = (Some (fst x), last ?e)" by (simp add: owner_step_def)
    have "last ?e \<in> set ?e" using True by (intro last_in_set) simp
    then have l: "last ?e \<in> set (get_default (snd x) p [])" "last ?e \<le> when" by simp_all
    have "\<forall>y \<in> set pw. \<forall>t \<in> set (get_default (snd y) p []). t \<le> when \<longrightarrow> t \<le> last ?e"
      using assms(1) True unfolding owner_inv_def by (meson less_imp_le order_trans)
    then show ?thesis using l top unfolding step owner_inv_def by auto
  next
    case False
    then have step: "owner_step p when best x = best" by (auto simp: owner_step_def)
    have "t \<le> snd best" if "t \<in> set (get_default (snd x) p [])" "t \<le> when" for t
    proof -
      have "?e \<noteq> []" using that by (auto simp: filter_empty_conv)
      with False have "last ?e \<le> snd best" by simp
      with top [OF that] show ?thesis by simp
    qed
    with assms(1) show ?thesis unfolding step owner_inv_def by (auto split: option.splits)
  qed
qed

lemma owner_inv_all:
  assumes "\<forall>x \<in> set pw. sorted (get_default (snd x) p [])"
  shows "owner_inv p when pw (foldl (owner_step p when) (None, - 1) pw)"
  using assms
proof (induction pw rule: rev_induct)
  case (snoc x pw)
  then show ?case using owner_inv_step by simp
qed (simp add: owner_inv_def)

lemma owner_at_last:
  assumes "\<forall>x \<in> set pw. sorted (get_default (snd x) p []) \<and> (\<forall>t \<in> set (get_default (snd x) p []). 0 \<le> t)"
  shows "last_owner (map (\<lambda>x. (fst x, \<lambda>p. get_default (snd x) p [])) pw) p when (owner_at pw p when)"
proof -
  obtain o' b where b: "foldl (owner_step p when) (None, - 1) pw = (o', b)" by fastforce
  have inv: "owner_inv p when pw (o', b)" using owner_inv_all [of pw p "when"] assms unfolding b by blast
  show ?thesis
  proof (cases o')
    case None
    with inv have "t \<le> - 1" if "x \<in> set pw" "t \<in> set (get_default (snd x) p [])" "t \<le> when" for x t
      using that by (auto simp: owner_inv_def)
    with assms have "when < t" if "x \<in> set pw" "t \<in> set (get_default (snd x) p [])" for x t
      using that by (meson linorder_not_le neg_le_iff_le not_one_le_zero order_trans le_minus_one_simps(3))
    then show ?thesis by (simp add: owner_at_def b None last_owner_def)
  next
    case (Some n)
    then show ?thesis using inv by (force simp: owner_at_def b owner_inv_def last_owner_def)
  qed
qed

subsection \<open>What the report says of the members\<close>

type_synonym member = "ustr \<times> member_event list \<times> (nat \<times> nat list) option"

abbreviation events_of :: "member \<Rightarrow> member_event list" where
  "events_of m \<equiv> happened (fst (snd m)) (snd (snd m))"

text \<open>The logs of all members, read back.\<close>

definition logs_read :: "numerals \<Rightarrow> ustr \<Rightarrow> member list \<Rightarrow> (ustr \<times> receipts) list \<Rightarrow> bool" where
  "logs_read nu assignor members per_worker \<longleftrightarrow>
     list_all2 (\<lambda>m w. fst w = fst m \<and>
       parse_log nu (wk_out (worker assignor (fst (snd m)) (snd (snd m)))) = Inr (snd w, callbacks_of (events_of m)))
       members per_worker"

text \<open>Times at which anybody received from a partition; a member's clock does not run backwards.\<close>

definition received_by_any :: "member list \<Rightarrow> nat \<Rightarrow> rat set" where
  "received_by_any members p = (\<Union>m \<in> set members. set (receive_times (events_of m) (int p)))"

definition steady_member :: "member \<Rightarrow> bool" where
  "steady_member m \<longleftrightarrow> (\<forall>ev \<in> set (events_of m). of_topic ev) \<and> (\<forall>p. sorted (receive_times (events_of m) p))"

text \<open>The longest time inside a window in which nothing was received.\<close>

definition longest_silence :: "rat set \<Rightarrow> rat \<Rightarrow> rat \<Rightarrow> rat \<Rightarrow> bool" where
  "longest_silence T start end' g \<longleftrightarrow>
     (\<exists>a b. start \<le> a \<and> a \<le> b \<and> b \<le> end' \<and> b - a = g \<and> silent T a b) \<and>
     (\<forall>a b. start \<le> a \<longrightarrow> b \<le> end' \<longrightarrow> silent T a b \<longrightarrow> b - a \<le> g)"

lemma receive_times_nonneg: "t \<in> set (receive_times evs p) \<Longrightarrow> 0 \<le> t"
  by (induction evs) (auto simp: receive_times_def List.map_filter_simps seconds_def split: option.splits member_event.splits if_splits)

lemma logs_can_be_read:
  assumes "\<forall>m \<in> set members. steady_member m"
  shows "\<exists>pw. logs_read nu assignor members pw \<and> map fst pw = map fst members \<and>
    (\<forall>x \<in> set pw. wf_dict (snd x)) \<and>
    map (\<lambda>x. (fst x, \<lambda>p. get_default (snd x) p [])) pw = map (\<lambda>m. (fst m, receive_times (events_of m))) members"
  using assms
proof (induction members)
  case Nil
  then show ?case by (simp add: logs_read_def)
next
  case (Cons m members)
  then obtain pw where pw: "logs_read nu assignor members pw" "map fst pw = map fst members"
    "\<forall>x \<in> set pw. wf_dict (snd x)"
    "map (\<lambda>x. (fst x, \<lambda>p. get_default (snd x) p [])) pw = map (\<lambda>m. (fst m, receive_times (events_of m))) members" by auto
  have "\<forall>ev \<in> set (events_of m). of_topic ev" using Cons.prems by (simp add: steady_member_def)
  from worker_log_read_back [OF this, of nu assignor] obtain received where r:
    "parse_log nu (wk_out (worker assignor (fst (snd m)) (snd (snd m)))) = Inr (received, callbacks_of (events_of m))"
    "\<forall>p. get_default received p [] = receive_times (events_of m) p" by blast
  have "wf_dict received" using r(1) unfolding parse_log_def by (rule parse_lines_wf) simp
  with pw r show ?case
    by (intro exI [of _ "(fst m, received) # pw"]) (auto simp: logs_read_def)
qed

text \<open>
  C39. The rebalance report tells what the members saw. Their logs can be read back, with every
  callback, and for each join the report then gives: for every partition of the topic the longest time
  within the window around the join in which no member received a message of it; as stopped exactly
  the partitions nobody received anything from for half a second or more in one stretch; and as moved the
  partitions whose last receiver at the two ends of the window differ. Members are assumed to be given
  partitions of the topic and to have clocks that do not run backwards.
\<close>

theorem rebalance_report_exact:
  fixes joins :: "(ustr, rat) pydict" and label :: ustr and joined_at :: rat
  defines "start \<equiv> joined_at - WINDOW_BEFORE_SEC" and "end' \<equiv> joined_at + WINDOW_AFTER_SEC"
  assumes "\<forall>m \<in> set members. steady_member m" and "(label, joined_at) \<in> set joins"
  shows "\<exists>pw r owner. logs_read nu assignor members pw \<and> (label, r) \<in> set (analyse pw joins) \<and>
    (\<forall>p < PARTITIONS. \<exists>g. jr_per_partition r ! p = (digits_of p, round_to 3 g) \<and>
       longest_silence (received_by_any members p) start end' g) \<and>
    jr_stopped r = card {p. p < PARTITIONS \<and>
       (\<exists>a b. start \<le> a \<and> b \<le> end' \<and> STOPPED_SEC \<le> b - a \<and> silent (received_by_any members p) a b)} \<and>
    (\<forall>p moment. last_owner (map (\<lambda>m. (fst m, receive_times (events_of m))) members) p moment (owner p moment)) \<and>
    jr_changed_owner r = card {p. p < PARTITIONS \<and> owner (int p) start \<noteq> owner (int p) end'}"
proof -
  obtain pw where pw: "logs_read nu assignor members pw" "\<forall>x \<in> set pw. wf_dict (snd x)"
    "map (\<lambda>x. (fst x, \<lambda>p. get_default (snd x) p [])) pw = map (\<lambda>m. (fst m, receive_times (events_of m))) members"
    using logs_can_be_read [OF assms(3)] by blast
  have same: "map (\<lambda>x. get_default (snd x) p []) pw = map (\<lambda>m. receive_times (events_of m) p) members" for p
    using arg_cong [OF pw(3), of "map (\<lambda>(n, f). f p)"] by (simp add: comp_def)
  have merged: "set (get_default (merge_times pw) (int p) []) = received_by_any members p" for p
  proof -
    have "get_default (merge_times pw) (int p) [] = concat (map (\<lambda>x. get_default (snd x) (int p) []) pw)"
      using merge_times_get [OF pw(2)] .
    then show ?thesis unfolding same by (simp add: received_by_any_def)
  qed
  have le: "start \<le> end'" by (simp add: start_def end'_def WINDOW_BEFORE_SEC_def WINDOW_AFTER_SEC_def)
  let ?g = "\<lambda>p. longest_gap (sort (get_default (merge_times pw) (int p) [])) start end'"
  have gap: "longest_silence (received_by_any members p) start end' (?g p)" for p
    using longest_gap_exact [OF sorted_sort le, of "get_default (merge_times pw) (int p) []"]
    unfolding longest_silence_def set_sort merged .
  have stopped: "STOPPED_SEC \<le> ?g p \<longleftrightarrow>
      (\<exists>a b. start \<le> a \<and> b \<le> end' \<and> STOPPED_SEC \<le> b - a \<and> silent (received_by_any members p) a b)" for p
    using gap [of p] unfolding longest_silence_def by (intro longest_gap_unique) simp_all
  have sorted: "\<forall>x \<in> set pw. sorted (get_default (snd x) p []) \<and> (\<forall>t \<in> set (get_default (snd x) p []). 0 \<le> t)" for p
  proof -
    have "\<forall>l \<in> set (map (\<lambda>m. receive_times (events_of m) p) members). sorted l \<and> (\<forall>t \<in> set l. 0 \<le> t)"
      using assms(3) receive_times_nonneg by (auto simp: steady_member_def)
    then show ?thesis unfolding same [symmetric] by simp
  qed
  have owner: "last_owner (map (\<lambda>m. (fst m, receive_times (events_of m))) members) p moment (owner_at pw p moment)" for p moment
    using owner_at_last [OF sorted] unfolding pw(3) .
  let ?r = "analyse_join pw joined_at"
  have "(label, ?r) \<in> set (analyse pw joins)" using assms(4) by (force simp: analyse_def)
  moreover have "\<forall>p < PARTITIONS. \<exists>g. jr_per_partition ?r ! p = (digits_of p, round_to 3 g) \<and>
       longest_silence (received_by_any members p) start end' g"
    using gap by (auto simp: analyse_join_def pauses_of_def Let_def start_def end'_def)
  moreover have "jr_stopped ?r = card {p. p < PARTITIONS \<and>
       (\<exists>a b. start \<le> a \<and> b \<le> end' \<and> STOPPED_SEC \<le> b - a \<and> silent (received_by_any members p) a b)}"
  proof -
    have "jr_stopped ?r = length (filter (\<lambda>p. STOPPED_SEC \<le> ?g p) [0..<PARTITIONS])"
      by (simp add: analyse_join_def pauses_of_def Let_def filter_map comp_def start_def end'_def)
    also have "\<dots> = card {p. p < PARTITIONS \<and> STOPPED_SEC \<le> ?g p}"
      by (subst distinct_card [symmetric]) (auto intro: arg_cong [of _ _ card])
    finally show ?thesis unfolding stopped .
  qed
  moreover have "jr_changed_owner ?r = card {p. p < PARTITIONS \<and> owner_at pw (int p) start \<noteq> owner_at pw (int p) end'}"
    by (simp add: analyse_join_def Let_def start_def end'_def)
       (subst distinct_card [symmetric], auto intro: arg_cong [of _ _ card])
  ultimately show ?thesis using pw(1) owner by blast
qed

lemma card_below: "(x :: nat) < n \<Longrightarrow> Q x \<Longrightarrow> 0 < card {p. p < n \<and> Q p}"
  by (auto simp: card_gt_0_iff)

text \<open>Two members: the second joins at second 10 and takes over partition 1 after a pause.\<close>

definition two_members :: "member list" where
  "two_members =
     [(ascii ''consumer-1'', [GotAssigned 10000 [0, 1], GotMessage 88000 0, GotMessage 89000 1, GotError False False], None),
      (ascii ''consumer-2'', [GotNothing, GotAssigned 120000 [1], GotMessage 125000 1], Some (190000, [1]))]"

theorem rebalance_report_exact_witness:
  "\<exists>pw r. logs_read \<lparr>nu_int = \<lambda>_. Inl ValueError, nu_float = \<lambda>_. Inl ValueError\<rparr> (ascii ''range'') two_members pw \<and>
     (ascii ''consumer 2 joins'', r) \<in> set (analyse pw [(ascii ''consumer 2 joins'', 10)]) \<and> 0 < jr_stopped r"
proof -
  let ?nu = "\<lparr>nu_int = \<lambda>_. Inl ValueError, nu_float = \<lambda>_. Inl ValueError\<rparr> :: numerals"
  have "\<forall>m \<in> set two_members. steady_member m"
    by (simp add: two_members_def steady_member_def happened_def logged_def closing_events_def PARTITIONS_def
        receive_times_def List.map_filter_simps)
  from rebalance_report_exact [OF this, of "ascii ''consumer 2 joins''" 10 "[(ascii ''consumer 2 joins'', 10)]" ?nu "ascii ''range''"]
  obtain pw r where r: "logs_read ?nu (ascii ''range'') two_members pw"
    "(ascii ''consumer 2 joins'', r) \<in> set (analyse pw [(ascii ''consumer 2 joins'', 10)])"
    "jr_stopped r = card {p. p < PARTITIONS \<and> (\<exists>a b. 10 - WINDOW_BEFORE_SEC \<le> a \<and> b \<le> 10 + WINDOW_AFTER_SEC \<and>
       STOPPED_SEC \<le> b - a \<and> silent (received_by_any two_members p) a b)}" by auto
  have "received_by_any two_members 5 = {}"
    by (simp add: received_by_any_def two_members_def happened_def logged_def closing_events_def receive_times_def List.map_filter_simps)
  then have "silent (received_by_any two_members 5) 9 10" by (simp add: silent_def)
  then have "0 < jr_stopped r" unfolding r(3)
    by (intro card_below [of 5] exI [of _ 9] exI [of _ 10])
       (simp_all add: PARTITIONS_def WINDOW_BEFORE_SEC_def WINDOW_AFTER_SEC_def STOPPED_SEC_def)
  with r(1,2) show ?thesis by blast
qed

end
