(* ===== verification/Server.thy ===== *)
theory Server
  imports Queries Dashboard PageStore PyNumber PySplit "HOL-Library.Sublist"
begin

text \<open>
  \<^verbatim>\<open>web/app.py\<close> and \<^verbatim>\<open>web/db.py\<close>: the routes of the dashboard with the checks
  of their parameters, what each answers from the state of the world, the shared cache in front of
  them with many threads at once, the files of the page, and how a connection is used and given
  back. The world (tables, cluster, page store) is a function of time, and changes while requests are
  answered: every statement, every call and every file is read at a time of its own.
\<close>

subsection \<open>What there is to be seen\<close>

record 'c world =
  w_database :: bool
  w_kafka :: bool
  w_now :: int
  w_edits :: "edit_row list"
  w_alerts :: "alert_row list"
  w_trending :: trending_rows
  w_cluster :: 'c
  w_pages :: PageStore
  w_page_error :: "ustr option"
  w_bench_names :: "ustr list"
  w_bench_file :: "ustr \<Rightarrow> pyexc + ustr"

text \<open>
  The order of rows of equal time, \<open>casefold\<close>, and the report on the pipeline from what the
  cluster is at each of its calls; \<open>None\<close> is an exception.
\<close>

record ('c, 'p) seen_by =
  sb_edits :: "edit_row list \<Rightarrow> edit_row list"
  sb_alerts :: "alert_row list \<Rightarrow> alert_row list"
  sb_casefold :: "ustr \<Rightarrow> ustr"
  sb_pipeline :: "(nat \<Rightarrow> 'c) \<Rightarrow> 'p option"

record store_stats =
  ss_pages :: nat
  ss_records :: int
  ss_tombstones :: int
  ss_per_page :: "rat option"
  ss_caught_up :: bool
  ss_error :: "ustr option"

definition stats :: "ustr option \<Rightarrow> PageStore \<Rightarrow> store_stats" where
  "stats error s =
     (let pages = length (st_pages s)
      in \<lparr>ss_pages = pages, ss_records = st_records s, ss_tombstones = st_tombstones s,
          ss_per_page = (if pages = 0 then None else Some (round_to 2 (of_int (st_records s) / of_nat pages))),
          ss_caught_up = caught_up s, ss_error = error\<rparr>)"

definition page_json :: "PageLatest \<Rightarrow> (ustr, json) pydict" where
  "page_json r =
     [(ascii ''wiki'', JStr (pl_wiki r)), (ascii ''title'', JStr (pl_title r)),
      (ascii ''event_id'', JStr (pl_event_id r)), (ascii ''type'', JStr (pl_type r)),
      (ascii ''user'', JStr (pl_user r)), (ascii ''bot'', JBool (pl_bot r)),
      (ascii ''minor'', JBool (pl_minor r)), (ascii ''is_revert'', JBool (pl_is_revert r)),
      (ascii ''comment'', JStr (pl_comment r)), (ascii ''event_time'', JStr (pl_event_time r)),
      (ascii ''rev_id'', opt_int_json (pl_rev_id r)), (ascii ''length'', opt_int_json (pl_length r))]"

subsection \<open>Requests and answers\<close>

datatype request =
  GetHealth
| GetOverview "int option"
| GetTrending "int option" "ustr option" "int option"
| GetWikis "int option" "int option"
| GetEdits "int option" "ustr option" bool bool "int option"
| GetPipeline
| SearchPages "ustr option" "ustr option" "int option"
| GetPage ustr ustr
| GetBenchmarks
| GetAlerts "int option"

datatype 'p body =
  HealthBody ustr bool bool
| OverviewBody overview_answer
| TrendingBody "int option \<times> trending_page list"
| WikisBody "(ustr \<times> int \<times> int) list"
| EditsBody "edit_row list \<times> int option"
| PipelineBody 'p
| PagesBody store_stats "(ustr, json) pydict list"
| PageBody "(ustr, json) pydict"
| BenchmarksBody "(ustr, json) pydict"
| AlertsBody "alert_row list"

datatype 'p response =
  Ok "'p body"
| ServiceUnavailable "'p body"
| NotFound
| Unprocessable
| ServerError

text \<open>\<open>Query(default, ge=lo, le=hi)\<close> and \<open>max_length\<close>.\<close>

definition value_or :: "int \<Rightarrow> int option \<Rightarrow> int" where
  "value_or d x = (case x of None \<Rightarrow> d | Some n \<Rightarrow> n)"

definition bounded_int :: "int \<Rightarrow> int \<Rightarrow> int \<Rightarrow> int option \<Rightarrow> int option" where
  "bounded_int d lo hi x = (let n = value_or d x in if lo \<le> n \<and> n \<le> hi then Some n else None)"

definition short :: "nat \<Rightarrow> ustr option \<Rightarrow> bool" where
  "short n given \<longleftrightarrow> (case given of None \<Rightarrow> True | Some s \<Rightarrow> length s \<le> n)"

text \<open>The keys of the cache.\<close>

datatype cache_key =
  KOverview int
| KTrending int "ustr option" int
| KWikis int int
| KPipeline
| KAlerts int

datatype routed = Invalid | FromCache cache_key | Direct

definition cached_if :: "cache_key option \<Rightarrow> routed" where
  "cached_if k = (case k of None \<Rightarrow> Invalid | Some k \<Rightarrow> FromCache k)"

definition direct_if :: "bool \<Rightarrow> routed" where
  "direct_if ok = (if ok then Direct else Invalid)"

text \<open>The checks of each route, and how it is answered.\<close>

fun route :: "request \<Rightarrow> routed" where
  "route GetHealth = Direct"
| "route (GetOverview minutes) =
     cached_if (map_option (\<lambda>m. KOverview (clamp_minutes m)) (bounded_int 60 1 MAX_MINUTES minutes))"
| "route (GetTrending minutes w limit) =
     (case (bounded_int 60 1 MAX_MINUTES minutes, bounded_int 15 1 50 limit) of
        (Some m, Some l) \<Rightarrow> if short 64 w then FromCache (KTrending (clamp_minutes m) w l) else Invalid
      | _ \<Rightarrow> Invalid)"
| "route (GetWikis minutes limit) =
     (case (bounded_int 60 1 MAX_MINUTES minutes, bounded_int 20 1 100 limit) of
        (Some m, Some l) \<Rightarrow> FromCache (KWikis (clamp_minutes m) l)
      | _ \<Rightarrow> Invalid)"
| "route (GetEdits limit w humans reverts before) = direct_if (bounded_int 50 1 200 limit \<noteq> None \<and> short 64 w)"
| "route GetPipeline = FromCache KPipeline"
| "route (SearchPages q w limit) = direct_if (bounded_int 20 1 100 limit \<noteq> None \<and> short 200 q \<and> short 64 w)"
| "route (GetPage w t) = Direct"
| "route GetBenchmarks = Direct"
| "route (GetAlerts limit) = cached_if (map_option KAlerts (bounded_int 50 1 200 limit))"

text \<open>
  What a cached route computes from the world \<open>W\<close>, when \<open>ts 0\<close> is the time at which it
  reads the clock and \<open>ts (Suc i)\<close> the time of its \<open>i\<close>-th statement (of a report on the
  cluster, \<open>ts i\<close> the time of its \<open>i\<close>-th call); \<open>None\<close> is an exception. The
  statement of the minutes is left out when no page is listed.
\<close>

definition compute :: "('c, 'p) seen_by \<Rightarrow> (int \<Rightarrow> 'c world) \<Rightarrow> (nat \<Rightarrow> int) \<Rightarrow> cache_key \<Rightarrow> 'p body option" where
  "compute sb W ts k =
     (let now = w_now (W (ts 0));
          up = (\<lambda>i. w_database (W (ts (Suc i))));
          edits = (\<lambda>i. w_edits (W (ts (Suc i))));
          alerts = (\<lambda>i. w_alerts (W (ts (Suc i))));
          rows = (\<lambda>i. w_trending (W (ts (Suc i))))
      in case k of
           KPipeline \<Rightarrow> map_option PipelineBody (sb_pipeline sb (\<lambda>i. w_cluster (W (ts i))))
         | KOverview m \<Rightarrow>
             if up 0 \<and> up 1 \<and> up 2 \<and> up 3 then Some (OverviewBody (overview edits alerts m now)) else None
         | KTrending m wk l \<Rightarrow>
             (let answer = trending rows m wk l now
              in if up 0 \<and> (snd answer \<noteq> [] \<longrightarrow> up 1) \<and> up 2 then Some (TrendingBody answer) else None)
         | KWikis m l \<Rightarrow> if up 0 then Some (WikisBody (top_wikis (edits 0) m l now)) else None
         | KAlerts l \<Rightarrow> if up 0 then Some (AlertsBody (alerts_of (sb_alerts sb) (alerts 0) l)) else None)"

text \<open>The database is asked first, Kafka second.\<close>

definition health :: "bool \<Rightarrow> bool \<Rightarrow> 'p response" where
  "health database kafka =
     (let status = (if database \<and> kafka then ascii ''ok'' else ascii ''degraded'');
          body = HealthBody status database kafka
      in if status = ascii ''ok'' then Ok body else ServiceUnavailable body)"

text \<open>\<open>path.stem\<close> of a name that ends in \<^verbatim>\<open>.json\<close>.\<close>

definition stem :: "ustr \<Rightarrow> ustr" where
  "stem name = (if length name \<le> 5 then name else take (length name - 5) name)"

fun benchmarks :: "(ustr \<times> (pyexc + ustr)) list \<Rightarrow> (ustr, json) pydict \<Rightarrow> pyexc + (ustr, json) pydict" where
  "benchmarks [] results = Inr results"
| "benchmarks ((name, file) # files) results =
     (case bind_res file json_loads of
        Inr v \<Rightarrow> benchmarks files (AList.update (stem name) v results)
      | Inl e \<Rightarrow> if e = OSError \<or> is_value_error e then benchmarks files results else Inl e)"

definition search_text :: "ustr option \<Rightarrow> ustr" where
  "search_text q = (case q of None \<Rightarrow> [] | Some s \<Rightarrow> s)"

text \<open>
  The routes that are not cached, \<open>ts i\<close> being the time of their \<open>i\<close>-th look at the
  world: the two checks of health, the one statement of the feed, the statistics and then the search
  of the page store, the one look for a page, the directory of the benchmarks and then each of its
  files.
\<close>

definition bench_files :: "(int \<Rightarrow> 'c world) \<Rightarrow> (nat \<Rightarrow> int) \<Rightarrow> (ustr \<times> (pyexc + ustr)) list" where
  "bench_files W ts =
     map (\<lambda>(i, name). (name, w_bench_file (W (ts (Suc i))) name)) (enumerate 0 (sort (w_bench_names (W (ts 0)))))"

definition answer_direct :: "('c, 'p) seen_by \<Rightarrow> (int \<Rightarrow> 'c world) \<Rightarrow> (nat \<Rightarrow> int) \<Rightarrow> request \<Rightarrow> 'p response" where
  "answer_direct sb W ts r =
     (case r of
        GetHealth \<Rightarrow> health (w_database (W (ts 0))) (w_kafka (W (ts 1)))
      | GetEdits limit wk humans reverts before \<Rightarrow>
          (case bounded_int 50 1 200 limit of
             Some l \<Rightarrow>
               if w_database (W (ts 0))
               then Ok (EditsBody (latest_edits (sb_edits sb) (w_edits (W (ts 0))) l wk humans reverts before))
               else ServerError
           | None \<Rightarrow> Unprocessable)
      | SearchPages q wk limit \<Rightarrow>
          (case bounded_int 20 1 100 limit of
             Some l \<Rightarrow> Ok (PagesBody (stats (w_page_error (W (ts 0))) (w_pages (W (ts 0))))
                       (map page_json (store_search (sb_casefold sb) (search_text q) wk (nat l) (w_pages (W (ts 1))))))
           | None \<Rightarrow> Unprocessable)
      | GetPage wk t \<Rightarrow>
          (case store_get wk t (w_pages (W (ts 0))) of
             None \<Rightarrow> NotFound
           | Some page \<Rightarrow> Ok (PageBody (page_json page)))
      | GetBenchmarks \<Rightarrow>
          (case benchmarks (bench_files W ts) [] of
             Inl e \<Rightarrow> ServerError
           | Inr results \<Rightarrow> Ok (BenchmarksBody results))
      | _ \<Rightarrow> Unprocessable)"

subsection \<open>Many requests at once\<close>

definition CACHE_SECONDS :: int where "CACHE_SECONDS = 5"

text \<open>
  A thread that is answering a request holds it with the time it arrived; one that computes for the
  cache has its key too, and, once it has computed it, the answer. For the statements only,
  \<open>sv_misses\<close> keeps every miss with its time.
\<close>

datatype 'p thread =
  Answering request int
| Computing request cache_key int
| Computed request cache_key int "'p body"

record 'p server_state =
  sv_clock :: int
  sv_entries :: "(cache_key, 'p body) entries"
  sv_threads :: "'p thread list"
  sv_misses :: "(cache_key \<times> int) list"

definition fresh_server :: "int \<Rightarrow> 'p server_state" where
  "fresh_server t = \<lparr>sv_clock = t, sv_entries = [], sv_threads = [], sv_misses = []\<rparr>"

text \<open>Looks at the world one after the other, from \<open>a\<close> to \<open>t\<close>.\<close>

definition between :: "int \<Rightarrow> (nat \<Rightarrow> int) \<Rightarrow> int \<Rightarrow> bool" where
  "between a ts t \<longleftrightarrow> a \<le> ts 0 \<and> (\<forall>i. ts i \<le> ts (Suc i)) \<and> (\<forall>i. ts i \<le> t)"

inductive server_step ::
  "('c, 'p) seen_by \<Rightarrow> (int \<Rightarrow> 'c world) \<Rightarrow> 'p server_state \<Rightarrow> (request \<times> 'p response) option \<Rightarrow> 'p server_state \<Rightarrow> bool"
  for sb :: "('c, 'p) seen_by" and W :: "int \<Rightarrow> 'c world" where
  tick: "sv_clock s \<le> t \<Longrightarrow> server_step sb W s None (s\<lparr>sv_clock := t\<rparr>)"
| invalid: "route r = Invalid \<Longrightarrow> server_step sb W s (Some (r, Unprocessable)) s"
| arrives: "route r = Direct \<Longrightarrow>
    server_step sb W s None (s\<lparr>sv_threads := Answering r (sv_clock s) # sv_threads s\<rparr>)"
| direct: "Answering r a \<in> set (sv_threads s) \<Longrightarrow> between a ts (sv_clock s) \<Longrightarrow>
    server_step sb W s (Some (r, answer_direct sb W ts r)) (s\<lparr>sv_threads := remove1 (Answering r a) (sv_threads s)\<rparr>)"
| hit: "route r = FromCache k \<Longrightarrow> cache_lookup CACHE_SECONDS (sv_clock s) k (sv_entries s) = Some b \<Longrightarrow>
    server_step sb W s (Some (r, Ok b)) s"
| miss: "route r = FromCache k \<Longrightarrow> cache_lookup CACHE_SECONDS (sv_clock s) k (sv_entries s) = None \<Longrightarrow>
    server_step sb W s None
      (s\<lparr>sv_threads := Computing r k (sv_clock s) # sv_threads s, sv_misses := (k, sv_clock s) # sv_misses s\<rparr>)"
| computed: "Computing r k a \<in> set (sv_threads s) \<Longrightarrow> between a ts (sv_clock s) \<Longrightarrow> compute sb W ts k = Some b \<Longrightarrow>
    server_step sb W s None
      (s\<lparr>sv_threads := Computed r k a b # remove1 (Computing r k a) (sv_threads s)\<rparr>)"
| failed: "Computing r k a \<in> set (sv_threads s) \<Longrightarrow> between a ts (sv_clock s) \<Longrightarrow> compute sb W ts k = None \<Longrightarrow>
    server_step sb W s (Some (r, ServerError)) (s\<lparr>sv_threads := remove1 (Computing r k a) (sv_threads s)\<rparr>)"
| stored: "Computed r k a b \<in> set (sv_threads s) \<Longrightarrow>
    server_step sb W s (Some (r, Ok b))
      (s\<lparr>sv_threads := remove1 (Computed r k a b) (sv_threads s),
         sv_entries := cache_store (sv_clock s) k b (sv_entries s)\<rparr>)"

inductive server_reach :: "('c, 'p) seen_by \<Rightarrow> (int \<Rightarrow> 'c world) \<Rightarrow> 'p server_state \<Rightarrow> bool"
  for sb :: "('c, 'p) seen_by" and W :: "int \<Rightarrow> 'c world" where
  start: "server_reach sb W (fresh_server t)"
| step: "server_reach sb W s \<Longrightarrow> server_step sb W s e s' \<Longrightarrow> server_reach sb W s'"














text \<open>Every request can be answered, from every state: the cache keeps nobody waiting.\<close>

definition some_step :: "('c, 'p) seen_by \<Rightarrow> (int \<Rightarrow> 'c world) \<Rightarrow> 'p server_state \<Rightarrow> 'p server_state \<Rightarrow> bool" where
  "some_step sb W s s' \<longleftrightarrow> (\<exists>e. server_step sb W s e s')"

lemma between_now: "between t (\<lambda>_. t) t"
  by (simp add: between_def)

lemma request_served: "\<exists>s' resp s''. (some_step sb W)\<^sup>*\<^sup>* s s' \<and> server_step sb W s' (Some (r, resp)) s''"
proof (cases "route r")
  case (FromCache k)
  show ?thesis
  proof (cases "cache_lookup CACHE_SECONDS (sv_clock s) k (sv_entries s)")
    case None
    let ?th = "Computing r k (sv_clock s)"
    let ?s1 = "s\<lparr>sv_threads := ?th # sv_threads s, sv_misses := (k, sv_clock s) # sv_misses s\<rparr>"
    have 1: "some_step sb W s ?s1" unfolding some_step_def using server_step.miss [OF FromCache None] by blast
    have in1: "?th \<in> set (sv_threads ?s1)" "between (sv_clock s) (\<lambda>_. sv_clock s) (sv_clock ?s1)" by (simp_all add: between_now)
    show ?thesis
    proof (cases "compute sb W (\<lambda>_. sv_clock s) k")
      case None
      from server_step.failed [OF in1 None] 1 show ?thesis by blast
    next
      case (Some b)
      let ?s2 = "?s1\<lparr>sv_threads := Computed r k (sv_clock s) b # remove1 ?th (sv_threads ?s1)\<rparr>"
      have "some_step sb W ?s1 ?s2" unfolding some_step_def using server_step.computed [OF in1 Some] by blast
      with 1 have "(some_step sb W)\<^sup>*\<^sup>* s ?s2" by simp
      moreover have "Computed r k (sv_clock s) b \<in> set (sv_threads ?s2)" by simp
      ultimately show ?thesis using server_step.stored by blast
    qed
  next
    case (Some b)
    from server_step.hit [OF FromCache Some] show ?thesis by blast
  qed
next
  case Invalid
  from server_step.invalid [OF this] show ?thesis by blast
next
  case Direct
  let ?th = "Answering r (sv_clock s)"
  let ?s1 = "s\<lparr>sv_threads := ?th # sv_threads s\<rparr>"
  have "some_step sb W s ?s1" unfolding some_step_def using server_step.arrives [OF Direct] by blast
  moreover have "?th \<in> set (sv_threads ?s1)" "between (sv_clock s) (\<lambda>_. sv_clock s) (sv_clock ?s1)" by (simp_all add: between_now)
  ultimately show ?thesis using server_step.direct by blast
qed

subsection \<open>The files of the page\<close>









definition asset_headers :: "int \<Rightarrow> (ustr, ustr) pydict \<Rightarrow> (ustr, ustr) pydict" where
  "asset_headers status headers =
     (if status = 200 then AList.update (ascii ''Cache-Control'') (ascii ''public, max-age=31536000, immutable'') headers
      else headers)"





subsection \<open>Connections\<close>

text \<open>The errors of the driver: at the level of the connection, or of another kind.\<close>

datatype db_fault = OperationalError | InterfaceError | OtherDbError

definition transport_fault :: "db_fault + 'a \<Rightarrow> bool" where
  "transport_fault r \<longleftrightarrow> r = Inl OperationalError \<or> r = Inl InterfaceError"

text \<open>\<open>_get_pool\<close>: the pool is made on first use, by a call that may fail.\<close>

definition get_pool :: "(db_fault + 'p) \<Rightarrow> 'p option \<Rightarrow> db_fault + 'p" where
  "get_pool made pool = (case pool of Some p \<Rightarrow> Inr p | None \<Rightarrow> made)"

text \<open>
  \<open>cursor\<close> around the use of a connection: the result, and each connection given back to the
  pool with whether it is closed. The second component of the use says whether it was left closed.
\<close>

definition with_cursor :: "(db_fault + 'conn) \<Rightarrow> ('conn \<Rightarrow> (db_fault + 'a) \<times> bool) \<Rightarrow> (db_fault + 'a) \<times> ('conn \<times> bool) list" where
  "with_cursor got use =
     (case got of
        Inl e \<Rightarrow> (Inl e, [])
      | Inr conn \<Rightarrow> (case use conn of (r, shut) \<Rightarrow> (r, [(conn, transport_fault r \<or> shut)])))"

type_synonym db_row = "(ustr, int) pydict"

definition one_row :: "db_fault + db_row list \<Rightarrow> db_fault + db_row" where
  "one_row rows = bind_res rows (\<lambda>rs. Inr (case rs of [] \<Rightarrow> [] | r # _ \<Rightarrow> r))"

definition ping :: "db_fault + db_row list \<Rightarrow> bool" where
  "ping rows = (case one_row rows of Inl _ \<Rightarrow> False | Inr row \<Rightarrow> map_of row (ascii ''ok'') = Some 1)"

text \<open>A connection goes back exactly once, and stays in use only if it is sound.\<close>

lemma connection_given_back:
  assumes "with_cursor got use = (r, given)"
  shows "map fst given = (case got of Inl _ \<Rightarrow> [] | Inr conn \<Rightarrow> [conn])"
    and "(conn, False) \<in> set given \<Longrightarrow> \<not> transport_fault r \<and> \<not> snd (use conn)"
  using assms by (auto simp: with_cursor_def split: sum.splits prod.splits)

text \<open>Health is \<open>ok\<close> exactly when both answer.\<close>

lemma health_status: "health database kafka = Ok b \<longleftrightarrow> database \<and> kafka \<and> b = HealthBody (ascii ''ok'') True True"
  by (auto simp: health_def)

subsection \<open>Concrete runs\<close>






end
