(* ===== verification/Measure.thy ===== *)
theory Measure
  imports Queries PyNumber
begin

text \<open>
  What \<^verbatim>\<open>scripts/top_pages.py\<close>, the latency report of
  \<^verbatim>\<open>scripts/pipeline_report.py\<close> and \<^verbatim>\<open>scripts/benchmarks.py\<close> compute:
  pages and minutes from the trending table, percentiles of the time from an edit to its row, and
  medians of throughput. Statements are the lists they select, times are microseconds, and numbers
  are exact fractions.
\<close>

subsection \<open>Top pages\<close>

text \<open>\<open>NOW() - hours * INTERVAL '1 hour'\<close>; only a missing wiki stands for all.\<close>

definition recent :: "rat \<Rightarrow> ustr option \<Rightarrow> int \<Rightarrow> trending_rows \<Rightarrow> trending_rows" where
  "recent hours wanted now rows =
     filter (\<lambda>((w, t, m), n). of_int m > of_int now - hours * 3600000000 \<and> (wanted = None \<or> wanted = Some w)) rows"

text \<open>\<open>GROUP BY\<close> with the sum of the counts and the number of rows\<close>

definition group_sum :: "('r \<Rightarrow> 'k) \<Rightarrow> ('r \<times> int) list \<Rightarrow> ('k \<times> int \<times> int) list" where
  "group_sum key rows =
     map (\<lambda>k. let mine = filter (\<lambda>(r, n). key r = k) rows in (k, sum_list (map snd mine), int (length mine)))
       (remdups (map (key \<circ> fst) rows))"

text \<open>
  \<open>ORDER BY\<close> leaves pages of equal count and title in any order; \<open>order\<close> is how the rows came.
\<close>

definition script_top_pages ::
  "(((ustr \<times> ustr) \<times> int \<times> int) list \<Rightarrow> ((ustr \<times> ustr) \<times> int \<times> int) list) \<Rightarrow> rat \<Rightarrow> ustr option \<Rightarrow> nat \<Rightarrow> int \<Rightarrow>
   trending_rows \<Rightarrow> ((ustr \<times> ustr) \<times> int \<times> int) list" where
  "script_top_pages order hours wanted limit now rows =
     take limit (sort_key (\<lambda>((w, t), edits, minutes). (- edits, t))
       (order (group_sum (\<lambda>(w, t, m). (w, t)) (recent hours wanted now rows))))"

definition busiest_minutes :: "rat \<Rightarrow> ustr option \<Rightarrow> nat \<Rightarrow> int \<Rightarrow> trending_rows \<Rightarrow> (int \<times> int \<times> int) list" where
  "busiest_minutes hours wanted limit now rows =
     take limit (sort_key (\<lambda>(m, edits, pages). - m) (group_sum (\<lambda>(w, t, m). m) (recent hours wanted now rows)))"

definition totals :: "edit_row list \<Rightarrow> trending_rows \<Rightarrow> nat \<times> nat \<times> int option" where
  "totals edits rows = (length edits, length rows, newest_of (map (\<lambda>((w, t, m), n). m) rows))"

lemma group_sum_keys: "map fst (group_sum key rows) = remdups (map (key \<circ> fst) rows)"
  by (simp add: group_sum_def comp_def Let_def)

lemma group_sum_row:
  "(k, edits, n) \<in> set (group_sum key rows) \<longleftrightarrow>
     k \<in> key ` fst ` set rows \<and> edits = sum_list (map snd (filter (\<lambda>(r, _). key r = k) rows)) \<and>
     n = int (length (filter (\<lambda>(r, _). key r = k) rows))"
  by (auto simp: group_sum_def Let_def)

lemma take_sorted_rest:
  assumes "sorted (map f xs)" and "x \<in> set (take n xs)" and "y \<in> set xs" and "y \<notin> set (take n xs)"
  shows "f x \<le> (f y :: 'b :: linorder)"
proof -
  have "y \<in> set (take n xs @ drop n xs)" "sorted (map f (take n xs @ drop n xs))" using assms(1,3) by simp_all
  with assms(2,4) show ?thesis unfolding map_append sorted_append set_append by auto
qed

text \<open>
  Asked for the busiest minutes, the script lists the newest ones. Every minute of the time
  asked for that it lists is as new as any it leaves out, and none counts for what it holds: a minute with more
  edits than all that are listed is left out if it is older.
\<close>

theorem busiest_minutes_are_newest:
  assumes "(m, edits, pages) \<in> set (busiest_minutes hours wanted limit now rows)"
  shows "edits = sum_list (map snd (filter (\<lambda>((w, t, m'), n). m' = m) (recent hours wanted now rows)))
    \<and> (\<forall>((w, t, m'), n) \<in> set (recent hours wanted now rows).
         m' \<notin> fst ` set (busiest_minutes hours wanted limit now rows) \<longrightarrow> m' < m)"
proof -
  let ?rows = "recent hours wanted now rows" and ?key = "\<lambda>(w, t, m). m :: int"
  let ?all = "sort_key (\<lambda>(m, edits, pages). - m) (group_sum ?key ?rows)"
  have top: "busiest_minutes hours wanted limit now rows = take limit ?all" by (simp add: busiest_minutes_def)
  have in_all: "(m, edits, pages) \<in> set ?all" using assms unfolding top by (rule in_set_takeD)
  then have "edits = sum_list (map snd (filter (\<lambda>(r, _). ?key r = m) ?rows))"
    unfolding set_sort group_sum_row by blast
  then have e: "edits = sum_list (map snd (filter (\<lambda>((w, t, m'), n). m' = m) ?rows))"
    by (simp add: case_prod_unfold)
  have "m' < m" if "((w, t, m'), n) \<in> set ?rows" "m' \<notin> fst ` set (take limit ?all)" for w t m' n
  proof -
    have "m' \<in> set (map fst (group_sum ?key ?rows))" unfolding group_sum_keys using that(1) by force
    then obtain e p where y: "(m', e, p) \<in> set ?all" unfolding set_sort by auto
    have "sorted (map (\<lambda>(m, edits, pages). - m) ?all)" by simp
    from take_sorted_rest [OF this assms [unfolded top] y] that(2) have "m' \<le> m" by force
    moreover have "m' \<noteq> m" using that(2) assms unfolding top by force
    ultimately show ?thesis by simp
  qed
  with e show ?thesis unfolding top by blast
qed

text \<open>The pages are ranked, and each row counts what the table holds for its page.\<close>

lemma script_top_pages_row:
  assumes "mset (order (group_sum (\<lambda>(w, t, m). (w, t)) (recent hours wanted now rows))) =
      mset (group_sum (\<lambda>(w, t, m). (w, t)) (recent hours wanted now rows))"
    and "((w, t), edits, minutes) \<in> set (script_top_pages order hours wanted limit now rows)"
  shows "edits = sum_list (map snd (filter (\<lambda>(r, _). (case r of (w', t', m) \<Rightarrow> (w', t')) = (w, t)) (recent hours wanted now rows)))"
proof -
  have "((w, t), edits, minutes) \<in> set (group_sum (\<lambda>(w, t, m). (w, t)) (recent hours wanted now rows))"
    using assms(2) in_set_takeD unfolding script_top_pages_def by (metis assms(1) mset_eq_setD set_sort)
  then show ?thesis unfolding group_sum_row by blast
qed

subsection \<open>Percentiles\<close>

text \<open>\<open>percentile_cont(p) WITHIN GROUP (ORDER BY lag)\<close>: none of no rows\<close>

definition percentile_cont :: "rat \<Rightarrow> rat list \<Rightarrow> rat option" where
  "percentile_cont p lags =
     (if lags = [] then None
      else
        (let xs = sort lags; pos = p * of_nat (length xs - 1);
             lower = nat \<lfloor>pos\<rfloor>; upper = nat \<lceil>pos\<rceil>
         in Some (xs ! lower + (pos - of_nat lower) * (xs ! upper - xs ! lower))))"

text \<open>\<open>EXTRACT(EPOCH FROM ingested_at - event_time) * 1000\<close>\<close>

definition lag_of :: "edit_row \<Rightarrow> rat" where
  "lag_of r = of_int (er_ingested r - er_time r) / 1000"

definition largest :: "rat list \<Rightarrow> rat option" where
  "largest xs = (if xs = [] then None else Some (foldr max xs (hd xs)))"

record latency =
  la_rows :: nat
  la_p50 :: "rat option"
  la_p95 :: "rat option"
  la_p99 :: "rat option"
  la_max :: "rat option"

definition latency_of :: "rat list \<Rightarrow> latency" where
  "latency_of lags =
     \<lparr>la_rows = length lags, la_p50 = percentile_cont (1 / 2) lags, la_p95 = percentile_cont (95 / 100) lags,
      la_p99 = percentile_cont (99 / 100) lags, la_max = largest lags\<rparr>"

definition latency_report :: "rat \<Rightarrow> int \<Rightarrow> edit_row list \<Rightarrow> latency" where
  "latency_report minutes now edits =
     latency_of (map lag_of (filter (\<lambda>r. of_int (er_ingested r) > of_int now - minutes * 60000000) edits))"

text \<open>Positions between two rows.\<close>

lemma percentile_bounds:
  assumes "lags \<noteq> []" and "0 \<le> p" and "p \<le> 1"
  defines "xs \<equiv> sort lags" and "pos \<equiv> p * of_nat (length lags - 1)"
  obtains v where "percentile_cont p lags = Some v" "nat \<lceil>pos\<rceil> < length lags"
    "xs ! nat \<lfloor>pos\<rfloor> \<le> v" "v \<le> xs ! nat \<lceil>pos\<rceil>" "v = xs ! nat \<lfloor>pos\<rfloor> + (pos - of_nat (nat \<lfloor>pos\<rfloor>)) * (xs ! nat \<lceil>pos\<rceil> - xs ! nat \<lfloor>pos\<rfloor>)"
    "0 \<le> pos" "pos \<le> of_nat (length lags - 1)"
proof -
  let ?l = "nat \<lfloor>pos\<rfloor>" and ?u = "nat \<lceil>pos\<rceil>"
  have pos: "0 \<le> pos" "pos \<le> of_nat (length lags - 1)"
    using assms(2,3) by (simp_all add: pos_def mult_left_le_one_le)
  have "\<lceil>pos\<rceil> \<le> int (length lags - 1)" using pos(2) by (simp add: ceiling_le_iff)
  then have u: "?u < length lags" using assms(1) by (cases lags) auto
  have lu: "?l \<le> ?u" using floor_le_ceiling [of pos] by (rule nat_mono)
  have fl: "of_nat ?l = (of_int \<lfloor>pos\<rfloor> :: rat)" using pos(1) by (simp add: of_nat_nat)
  have f: "0 \<le> pos - of_nat ?l" "pos - of_nat ?l \<le> 1"
    using fl floor_correct [of pos] by linarith+
  have "xs ! ?l \<le> xs ! ?u" using lu u by (intro sorted_nth_mono) (simp_all add: xs_def)
  then have d: "0 \<le> (pos - of_nat ?l) * (xs ! ?u - xs ! ?l)" "(pos - of_nat ?l) * (xs ! ?u - xs ! ?l) \<le> xs ! ?u - xs ! ?l"
    using f by (simp_all add: mult_left_le_one_le)
  show ?thesis
    by (rule that [OF _ u _ _ refl pos]) (use assms(1) d in \<open>simp_all add: percentile_cont_def xs_def pos_def Let_def\<close>)
qed

lemma percentile_mono:
  assumes "lags \<noteq> []" and "0 \<le> p" and "p \<le> q" and "q \<le> 1"
    and "percentile_cont p lags = Some v" and "percentile_cont q lags = Some w"
  shows "v \<le> w"
proof -
  let ?xs = "sort lags" and ?a = "p * of_nat (length lags - 1)" and ?b = "q * of_nat (length lags - 1)"
  have pq: "p \<le> 1" "0 \<le> q" using assms(2-4) by simp_all
  obtain v' where v: "percentile_cont p lags = Some v'" "nat \<lceil>?a\<rceil> < length lags" "?xs ! nat \<lfloor>?a\<rfloor> \<le> v'" "v' \<le> ?xs ! nat \<lceil>?a\<rceil>"
    "v' = ?xs ! nat \<lfloor>?a\<rfloor> + (?a - of_nat (nat \<lfloor>?a\<rfloor>)) * (?xs ! nat \<lceil>?a\<rceil> - ?xs ! nat \<lfloor>?a\<rfloor>)"
    "0 \<le> ?a" "?a \<le> of_nat (length lags - 1)"
    by (rule percentile_bounds [OF assms(1,2) pq(1)])
  obtain w' where w: "percentile_cont q lags = Some w'" "nat \<lceil>?b\<rceil> < length lags" "?xs ! nat \<lfloor>?b\<rfloor> \<le> w'" "w' \<le> ?xs ! nat \<lceil>?b\<rceil>"
    "w' = ?xs ! nat \<lfloor>?b\<rfloor> + (?b - of_nat (nat \<lfloor>?b\<rfloor>)) * (?xs ! nat \<lceil>?b\<rceil> - ?xs ! nat \<lfloor>?b\<rfloor>)"
    "0 \<le> ?b" "?b \<le> of_nat (length lags - 1)"
    by (rule percentile_bounds [OF assms(1) pq(2) assms(4)])
  have ab: "?a \<le> ?b" using assms(3) by (intro mult_right_mono) simp_all
  have "v' \<le> w'"
  proof (cases "\<lceil>?a\<rceil> \<le> \<lfloor>?b\<rfloor>")
    case True
    moreover have "nat \<lfloor>?b\<rfloor> < length lags" using w(2) floor_le_ceiling [of ?b] by linarith
    ultimately have "?xs ! nat \<lceil>?a\<rceil> \<le> ?xs ! nat \<lfloor>?b\<rfloor>"
      by (intro sorted_nth_mono sorted_sort nat_mono) (simp_all only: length_sort)
    with v(4) w(3) show ?thesis by linarith
  next
    case False
    then have same: "\<lfloor>?a\<rfloor> = \<lfloor>?b\<rfloor>" "\<lceil>?a\<rceil> = \<lceil>?b\<rceil>"
      using ab floor_mono [OF ab] ceiling_mono [OF ab] ceiling_diff_floor_le_1 [of ?a] ceiling_diff_floor_le_1 [of ?b] by linarith+
    have "nat \<lfloor>?a\<rfloor> \<le> nat \<lceil>?a\<rceil>" using floor_le_ceiling [of ?a] by (rule nat_mono)
    then have "?xs ! nat \<lfloor>?a\<rfloor> \<le> ?xs ! nat \<lceil>?a\<rceil>"
      using v(2) by (intro sorted_nth_mono sorted_sort) (simp_all only: length_sort)
    then have "(?a - of_nat (nat \<lfloor>?a\<rfloor>)) * (?xs ! nat \<lceil>?a\<rceil> - ?xs ! nat \<lfloor>?a\<rfloor>) \<le>
        (?b - of_nat (nat \<lfloor>?a\<rfloor>)) * (?xs ! nat \<lceil>?a\<rceil> - ?xs ! nat \<lfloor>?a\<rfloor>)"
      using ab by (intro mult_right_mono) simp_all
    then show ?thesis unfolding v(5) w(5) same [symmetric] by simp
  qed
  with v(1) w(1) assms(5,6) show ?thesis by simp
qed

lemma count_at_most:
  assumes "l < length lags" and "sort lags ! l \<le> (v :: rat)"
  shows "Suc l \<le> length (filter (\<lambda>x. x \<le> v) lags)"
proof -
  have "\<forall>x \<in> set (take (Suc l) (sort lags)). x \<le> v"
  proof
    fix x assume "x \<in> set (take (Suc l) (sort lags))"
    then obtain k where "k \<le> l" "x = sort lags ! k" by (force simp: in_set_conv_nth less_Suc_eq_le)
    with assms show "x \<le> v" using sorted_nth_mono [OF sorted_sort, of k l lags] by simp
  qed
  then have "filter (\<lambda>x. x \<le> v) (take (Suc l) (sort lags)) = take (Suc l) (sort lags)" by (simp add: filter_id_conv)
  then have "Suc l \<le> length (filter (\<lambda>x. x \<le> v) (take (Suc l) (sort lags) @ drop (Suc l) (sort lags)))"
    using assms(1) unfolding filter_append by simp
  then show ?thesis by (simp add: filter_sort)
qed

lemma count_at_least:
  assumes "u < length lags" and "(v :: rat) \<le> sort lags ! u"
  shows "length lags - u \<le> length (filter (\<lambda>x. v \<le> x) lags)"
proof -
  have "\<forall>x \<in> set (drop u (sort lags)). v \<le> x"
  proof
    fix x assume "x \<in> set (drop u (sort lags))"
    then obtain k where "k < length lags - u" "x = sort lags ! (u + k)" by (auto simp: in_set_conv_nth)
    then have k: "u + k < length lags" "x = sort lags ! (u + k)" by simp_all
    with assms(2) show "v \<le> x" using sorted_nth_mono [OF sorted_sort, of u "u + k" lags] by simp
  qed
  then have "filter (\<lambda>x. v \<le> x) (drop u (sort lags)) = drop u (sort lags)" by (simp add: filter_id_conv)
  then have "length lags - u \<le> length (filter (\<lambda>x. v \<le> x) (take u (sort lags) @ drop u (sort lags)))"
    unfolding filter_append by simp
  then show ?thesis by (simp add: filter_sort)
qed

text \<open>A value that splits the rows at \<open>p\<close>: more than the share below it, at least the rest above.\<close>

definition splits_at :: "rat \<Rightarrow> rat \<Rightarrow> rat list \<Rightarrow> bool" where
  "splits_at p v lags \<longleftrightarrow>
     p * of_nat (length lags - 1) < of_nat (length (filter (\<lambda>x. x \<le> v) lags)) \<and>
     (1 - p) * of_nat (length lags - 1) < of_nat (length (filter (\<lambda>x. v \<le> x) lags))"

lemma percentile_splits:
  assumes "lags \<noteq> []" and "0 \<le> p" and "p \<le> 1"
  shows "\<exists>v. percentile_cont p lags = Some v \<and> splits_at p v lags \<and> v \<le> Max (set lags)"
proof -
  let ?n = "length lags" and ?a = "p * of_nat (length lags - 1)"
  obtain v where v: "percentile_cont p lags = Some v" "nat \<lceil>?a\<rceil> < ?n" "sort lags ! nat \<lfloor>?a\<rfloor> \<le> v" "v \<le> sort lags ! nat \<lceil>?a\<rceil>"
    "v = sort lags ! nat \<lfloor>?a\<rfloor> + (?a - of_nat (nat \<lfloor>?a\<rfloor>)) * (sort lags ! nat \<lceil>?a\<rceil> - sort lags ! nat \<lfloor>?a\<rfloor>)"
    "0 \<le> ?a" "?a \<le> of_nat (?n - 1)"
    by (rule percentile_bounds [OF assms])
  have l: "nat \<lfloor>?a\<rfloor> < ?n" using v(2) floor_le_ceiling [of ?a] by linarith
  have "of_nat (nat \<lfloor>?a\<rfloor>) = (of_int \<lfloor>?a\<rfloor> :: rat)" using v(6) by (simp add: of_nat_nat)
  then have "?a < of_nat (Suc (nat \<lfloor>?a\<rfloor>))" using floor_correct [of ?a] by simp
  also have "\<dots> \<le> of_nat (length (filter (\<lambda>x. x \<le> v) lags))" using count_at_most [OF l v(3)] by (rule of_nat_mono)
  finally have 1: "?a < of_nat (length (filter (\<lambda>x. x \<le> v) lags))" .
  have "(1 - p) * of_nat (?n - 1) = of_nat (?n - 1) - ?a" by (simp add: algebra_simps)
  also have "\<dots> < of_nat (?n - nat \<lceil>?a\<rceil>)"
  proof -
    have "of_nat (nat \<lceil>?a\<rceil>) = (of_int \<lceil>?a\<rceil> :: rat)" using v(6) by (simp add: of_nat_nat)
    then have c: "of_nat (nat \<lceil>?a\<rceil>) < ?a + 1" using ceiling_correct [of ?a] by linarith
    have "of_nat (?n - nat \<lceil>?a\<rceil>) = (of_nat (?n - 1) + 1 - of_nat (nat \<lceil>?a\<rceil>) :: rat)"
    proof -
      have "of_nat (?n - u) = (of_nat (?n - 1) + 1 - of_nat u :: rat)" if "u < ?n" for u
        using that by (cases ?n) (auto simp: of_nat_diff)
      from this [OF v(2)] show ?thesis .
    qed
    with c show ?thesis by linarith
  qed
  also have "\<dots> \<le> of_nat (length (filter (\<lambda>x. v \<le> x) lags))" using count_at_least [OF v(2,4)] by (rule of_nat_mono)
  finally have 2: "(1 - p) * of_nat (?n - 1) < of_nat (length (filter (\<lambda>x. v \<le> x) lags))" .
  have "sort lags ! nat \<lceil>?a\<rceil> \<in> set lags" using v(2) by (metis length_sort nth_mem set_sort)
  then have "v \<le> Max (set lags)" using v(4) Max_ge [OF finite_set] by (meson order_trans)
  with v(1) 1 2 show ?thesis by (auto simp: splits_at_def)
qed

lemma largest_Max: "lags \<noteq> [] \<Longrightarrow> largest lags = Some (Max (set lags))"
proof -
  assume "lags \<noteq> []"
  then have "set (hd lags # lags) = set lags" by auto
  moreover have "foldr max lags (hd lags) = Max (set (hd lags # lags))"
  proof -
    have "foldr max xs a = Max (set (a # xs))" for a and xs :: "rat list"
      by (induction xs) (auto simp: insert_commute max.left_commute)
    then show ?thesis .
  qed
  ultimately show ?thesis using \<open>lags \<noteq> []\<close> by (simp add: largest_def)
qed

text \<open>
  The latency report is a summary of the rows it is about. If any row was stored in the time asked for, the report has
  the three percentiles and the maximum, in rising order; each percentile splits the rows as it says, more than its share
  of them having at most that latency; and the maximum is the latency of a row, which none exceeds.
\<close>

theorem latency_report_summarises:
  fixes now :: int
  defines "lags edits minutes \<equiv> map lag_of (filter (\<lambda>r. of_int (er_ingested r) > of_int now - minutes * 60000000) edits)"
  assumes "lags edits minutes \<noteq> []"
  shows "\<exists>p50 p95 p99 m. latency_report minutes now edits =
      \<lparr>la_rows = length (lags edits minutes), la_p50 = Some p50, la_p95 = Some p95, la_p99 = Some p99, la_max = Some m\<rparr> \<and>
    p50 \<le> p95 \<and> p95 \<le> p99 \<and> p99 \<le> m \<and>
    splits_at (1 / 2) p50 (lags edits minutes) \<and> splits_at (95 / 100) p95 (lags edits minutes) \<and>
    splits_at (99 / 100) p99 (lags edits minutes) \<and>
    m \<in> set (lags edits minutes) \<and> (\<forall>x \<in> set (lags edits minutes). x \<le> m)"
proof -
  let ?l = "lags edits minutes"
  note ne = assms(2)
  obtain p50 where 1: "percentile_cont (1 / 2) ?l = Some p50" "splits_at (1 / 2) p50 ?l"
    using percentile_splits [OF ne, of "1 / 2"] by auto
  obtain p95 where 2: "percentile_cont (95 / 100) ?l = Some p95" "splits_at (95 / 100) p95 ?l"
    using percentile_splits [OF ne, of "95 / 100"] by auto
  obtain p99 where 3: "percentile_cont (99 / 100) ?l = Some p99" "splits_at (99 / 100) p99 ?l" "p99 \<le> Max (set ?l)"
    using percentile_splits [OF ne, of "99 / 100"] by auto
  have "p50 \<le> p95" by (rule percentile_mono [OF ne _ _ _ 1(1) 2(1)]) simp_all
  moreover have "p95 \<le> p99" by (rule percentile_mono [OF ne _ _ _ 2(1) 3(1)]) simp_all
  moreover have "latency_report minutes now edits = latency_of ?l" by (simp add: latency_report_def lags_def)
  ultimately show ?thesis
    using 1 2 3 ne largest_Max [OF ne] Max_in [of "set ?l"] by (auto simp: latency_of_def)
qed

subsection \<open>Benchmarks\<close>

text \<open>\<open>statistics.median\<close>; it raises for no data.\<close>

definition median :: "rat list \<Rightarrow> rat option" where
  "median xs =
     (let s = sort xs; n = length s
      in if n = 0 then None
         else if odd n then Some (s ! (n div 2)) else Some ((s ! (n div 2 - 1) + s ! (n div 2)) / 2))"

text \<open>The outcome a replay reports: delivered, failed, throughput.\<close>

type_synonym replay_outcome = "nat \<times> nat \<times> rat"

record throughput_of =
  th_median :: rat
  th_runs :: "rat list"

definition outcome_ok :: "nat \<Rightarrow> replay_outcome \<Rightarrow> bool" where
  "outcome_ok events = (\<lambda>(delivered, failed, _). failed = 0 \<and> delivered = events)"

definition measured :: "nat \<Rightarrow> replay_outcome list \<Rightarrow> throughput_of option" where
  "measured events outcomes =
     (if list_all (outcome_ok events) outcomes
      then (let rates = map (\<lambda>(_, _, rate). round_to 0 rate) outcomes
            in map_option (\<lambda>m. \<lparr>th_median = round_to 0 m, th_runs = rates\<rparr>) (median rates))
      else None)"

text \<open>\<open>throughput\<close>: all replicas, one replica, and how much faster that is. A division by zero raises.\<close>

definition throughput :: "nat \<Rightarrow> replay_outcome list \<Rightarrow> replay_outcome list \<Rightarrow> (throughput_of \<times> throughput_of \<times> rat) option" where
  "throughput events all_acks one_ack =
     (case (measured events all_acks, measured events one_ack) of
        (Some a, Some b) \<Rightarrow> if th_median a = 0 then None else Some (a, b, round_to 2 (th_median b / th_median a))
      | _ \<Rightarrow> None)"

text \<open>The latencies of \<open>live\<close>, over all rows; rounding nothing raises.\<close>

definition live_latency :: "edit_row list \<Rightarrow> (nat \<times> rat \<times> rat \<times> rat \<times> rat) option" where
  "live_latency edits =
     (let report = latency_of (map lag_of edits)
      in case (la_p50 report, la_p95 report, la_p99 report, la_max report) of
           (Some p50, Some p95, Some p99, Some worst) \<Rightarrow>
             Some (la_rows report, round_to 0 p50, round_to 0 p95, round_to 0 p99, round_to 0 worst)
         | _ \<Rightarrow> None)"

text \<open>Events per second: the fullest second and the mean over seconds that have any.\<close>

definition SECOND :: int where "SECOND = 1000000"

definition per_second :: "edit_row list \<Rightarrow> (int \<times> rat) option" where
  "per_second edits =
     (let seconds = map snd (count_by (\<lambda>r. er_time r - er_time r mod SECOND) edits)
      in if seconds = [] then None
         else Some (foldr max seconds (hd seconds), of_int (sum_list seconds) / of_nat (length seconds)))"

text \<open>A throughput is only reported of complete runs.\<close>

lemma throughput_of_complete_runs:
  assumes "throughput events all_acks one_ack = Some r" and "o' \<in> set (all_acks @ one_ack)"
  shows "fst o' = events \<and> fst (snd o') = 0"
  using assms by (auto simp: throughput_def measured_def list_all_iff outcome_ok_def split: option.splits if_splits)

text \<open>Rounding keeps the order of the percentiles.\<close>

lemma round_to_mono: "x \<le> y \<Longrightarrow> round_to 0 x \<le> round_to 0 y"
proof -
  have r: "round_to 0 z = of_int (if z - of_int \<lfloor>z\<rfloor> < 1 / 2 \<or> z - of_int \<lfloor>z\<rfloor> = 1 / 2 \<and> even \<lfloor>z\<rfloor> then \<lfloor>z\<rfloor> else \<lfloor>z\<rfloor> + 1)" for z
    by (simp add: round_to_def Let_def)
  assume le: "x \<le> y"
  show ?thesis
  proof (cases "\<lfloor>x\<rfloor> = \<lfloor>y\<rfloor>")
    case True
    with le show ?thesis unfolding r by auto
  next
    case False
    with floor_mono [OF le] have "\<lfloor>x\<rfloor> + 1 \<le> \<lfloor>y\<rfloor>" by simp
    then have "(of_int (\<lfloor>x\<rfloor> + 1) :: rat) \<le> of_int \<lfloor>y\<rfloor>" by (simp only: of_int_le_iff)
    then show ?thesis unfolding r by auto
  qed
qed

subsection \<open>Concrete runs\<close>

definition stored_after :: "int \<Rightarrow> int \<Rightarrow> edit_row" where
  "stored_after t lag = (sample_row (ascii ''a'') t)\<lparr>er_ingested := t + lag\<rparr>"

theorem latency_report_summarises_witness:
  "\<exists>p50 m. la_p50 (latency_report 1 60000000 [stored_after 10 1000, stored_after 20 3000]) = Some p50 \<and>
     la_max (latency_report 1 60000000 [stored_after 10 1000, stored_after 20 3000]) = Some m \<and>
     m \<in> {1, 3} \<and> p50 \<le> m"
proof -
  let ?rows = "[stored_after 10 1000, stored_after 20 3000]"
  have lags: "map lag_of (filter (\<lambda>r. of_int (er_ingested r) > of_int 60000000 - 1 * (60000000 :: rat)) ?rows) = [1, 3]"
    by (simp add: stored_after_def sample_row_def lag_of_def)
  then have "map lag_of (filter (\<lambda>r. of_int (er_ingested r) > of_int 60000000 - 1 * (60000000 :: rat)) ?rows) \<noteq> []" by simp
  from latency_report_summarises [OF this] show ?thesis unfolding lags by (auto intro: order_trans)
qed

end
