(* ===== verification/Faults.thy ===== *)
theory Faults
  imports TxnLoop Sink
begin

text \<open>
  \<^verbatim>\<open>scripts/faults.py\<close>: processes that die at one precise point, made from the
  production classes with one step overridden. \<open>batches\<close> and \<open>calls\<close> are the counters of
  the hooks. A process that has called \<open>os._exit\<close> is gone: no processor, no sink is left.
\<close>

definition CRASH_EXIT_CODE :: int where "CRASH_EXIT_CODE = 86"

subsection \<open>A cleaner that dies in the middle of a transaction\<close>

text \<open>
  What is left: the processor with its counter or nothing, the committed side, and the output that
  is in the log without being committed.
\<close>

record 's faulty_outcome =
  fo_left :: "('s processor \<times> nat) option"
  fo_kafka :: kafka
  fo_uncommitted :: "outgoing list"

definition cleaner_mid_transaction ::
  "'s handler \<Rightarrow> nat \<Rightarrow> fate \<Rightarrow> kmsg list \<Rightarrow> 's processor \<times> nat \<Rightarrow> kafka \<Rightarrow> 's faulty_outcome" where
  "cleaner_mid_transaction h batch_number fate batch = (\<lambda>(tp, batches) k.
     (let batches' = batches + 1
      in if batches' < batch_number
         then (case process_batch h fate batch tp k of
                 (left, k') \<Rightarrow> \<lparr>fo_left = map_option (\<lambda>t. (t, batches')) left, fo_kafka = k', fo_uncommitted = []\<rparr>)
         else \<lparr>fo_left = None, fo_kafka = k,
                fo_uncommitted = (case handle_each h (pstate tp) batch of Inl e \<Rightarrow> [] | Inr (s, outs) \<Rightarrow> concat outs)\<rparr>))"

text \<open>The crash is one of the ways the model lets a process end, at the point the test is about.\<close>

lemma cleaner_fault_is_a_death:
  "cleaner_mid_transaction h n fate batch (tp, c) k =
     (case process_batch h (if c + 1 < n then fate else DiesAfter (length batch)) batch tp k of
        (left, k') \<Rightarrow> \<lparr>fo_left = map_option (\<lambda>t. (t, c + 1)) left, fo_kafka = k',
          fo_uncommitted = (if c + 1 < n then []
            else case handle_each h (pstate tp) batch of Inl e \<Rightarrow> [] | Inr (s, outs) \<Rightarrow> concat outs)\<rparr>)"
  by (simp add: cleaner_mid_transaction_def process_batch_def Let_def)

text \<open>
  After it the group is in a state the group of production processors can reach, so its guarantee
  holds: nothing of the batch is committed, and its offsets are where they were.
\<close>

lemma cleaner_fault_keeps_the_guarantee:
  assumes "txn_reaches False False h assigned revoked s0 logs g" and "batches g i \<noteq> []"
    and "cleaner_mid_transaction h n fate (batches g i) (members g i, c) (broker_side g) =
      \<lparr>fo_left = None, fo_kafka = k, fo_uncommitted = outs\<rparr>" and "n \<le> c + 1"
  shows "k = broker_side g \<and>
    txn_reaches False False h assigned revoked s0 logs (txn_restart s0 i (g\<lparr>broker_side := k\<rparr>))"
proof -
  have k: "k = broker_side g" using assms(3,4) by (simp add: cleaner_mid_transaction_def Let_def)
  have "process_batch h (DiesAfter 0) (batches g i) (members g i) (broker_side g) = (None, k)"
    by (simp add: process_batch_def k)
  from txn_step.died [OF this assms(2), of False False assigned revoked s0 logs]
  have "txn_step False False h assigned revoked s0 logs g (txn_restart s0 i (g\<lparr>broker_side := k\<rparr>))"
    by (simp add: committed_effects_def k)
  with assms(1) k show ?thesis by (blast intro: txn_reaches.stepped)
qed

subsection \<open>A sink that dies after writing\<close>

text \<open>The overridden write: the rows are committed, then the process may be gone.\<close>

datatype ('t, 'c) faulty_write = WroteOn 't int 'c | DiedAfter 't | WriteFailed pgerror

definition sink_after_write ::
  "('e list \<Rightarrow> 't \<Rightarrow> pgerror + 't \<times> int) \<Rightarrow> nat \<Rightarrow> 'e list \<Rightarrow> nat \<Rightarrow> 't \<Rightarrow> ('t, nat) faulty_write" where
  "sink_after_write insert_events batch_number events calls tbl =
     (case insert_events events tbl of
        Inl e \<Rightarrow> WriteFailed e
      | Inr (tbl', written) \<Rightarrow>
          (let calls' = calls + 1 in if calls' \<ge> batch_number then DiedAfter tbl' else WroteOn tbl' written calls'))"

text \<open>A death of this kind is the step of the model between the rows and the offsets.\<close>

lemma sink_fault_keeps_the_guarantee:
  assumes "sink_reaches (write_batch decode wr) logs tbl0 g" and "sg_batch g i \<noteq> []"
    and "decode_batch decode (sg_batch g i) = Inr (events, bad)"
    and "sink_after_write wr n events calls (sg_table g) = DiedAfter tbl"
  shows "sink_reaches (write_batch decode wr) logs tbl0
      (sink_restart i (g\<lparr>sg_table := tbl, stored := stored g @ sg_batch g i\<rparr>))"
proof -
  obtain written where "wr events (sg_table g) = Inr (tbl, written)"
    using assms(4) by (auto simp: sink_after_write_def Let_def split: sum.splits if_splits)
  then have "\<exists>s. write_batch decode wr [] (sg_batch g i) (sg_sinks g i) (sg_table g) = Inr (s, tbl)"
    by (simp add: write_batch_def assms(3))
  then obtain s where "write_batch decode wr [] (sg_batch g i) (sg_sinks g i) (sg_table g) = Inr (s, tbl)" ..
  from sink_step.sink_uncommitted [where wr = "write_batch decode wr" and lost = "[]", OF this assms(2)] show ?thesis
    using assms(1) by (blast intro: sink_reaches.sink_stepped)
qed

end
