(* ===== verification/Reconnect.thy ===== *)
theory Reconnect
  imports SinksDb
begin

text \<open>
  The connection behind the writes of \<^verbatim>\<open>sinks/db.py\<close>: waiting for a server that is still
  starting, giving up after a number of attempts, and \<open>Database.write\<close> with its loop over
  lost connections. It refines \<open>db_write\<close> of SinksDb, which knows only which attempts were
  lost. Times are in milliseconds.
\<close>

subsection \<open>The server\<close>

text \<open>
  What \<open>psycopg2.connect\<close> does: it returns, raises \<open>OperationalError\<close>, or raises
  something else (a malformed connection string).
\<close>

datatype conn_answer = Accepts | NotReady ustr | Malformed ustr

text \<open>
  \<open>CONNECTION_ERRORS\<close>, and what ends a write: one of them, a refusal of the server, another
  failure to connect, or the \<open>TypeError\<close> of \<open>raise None\<close>, after a wait of no attempts.
\<close>

datatype connection_error = OperationalError ustr | InterfaceError ustr

datatype db_error = ConnectionError connection_error | ServerError pgerror | ConnectError ustr | RaisedNone

text \<open>
  The process's side of the world: connection attempts so far, write attempts so far, time slept,
  connections that are open (each named by the attempt that opened it), lines of the log.
\<close>

record world =
  attempts :: nat
  writes :: nat
  slept :: int
  open_conns :: "nat list"
  db_log :: "ustr list"

definition warn :: "ustr \<Rightarrow> world \<Rightarrow> world" where
  "warn line w = w\<lparr>db_log := db_log w @ [line]\<rparr>"

subsection \<open>Waiting for the server\<close>

text \<open>A failed attempt is logged, if there is a log, and slept over, the last one too.\<close>

definition not_ready :: "bool \<Rightarrow> nat \<Rightarrow> nat \<Rightarrow> int \<Rightarrow> world \<Rightarrow> world" where
  "not_ready logs attempt retries delay w =
     (let w1 = w\<lparr>attempts := attempts w + 1\<rparr>;
          w2 = (if logs then warn (ascii ''database not ready (attempt '' @ digits_of attempt @ ascii ''/''
                  @ digits_of retries @ ascii '')'') w1 else w1)
      in w2\<lparr>slept := slept w2 + delay\<rparr>)"

fun wait_loop ::
  "(nat \<Rightarrow> conn_answer) \<Rightarrow> int \<Rightarrow> bool \<Rightarrow> nat \<Rightarrow> nat \<Rightarrow> db_error option \<Rightarrow> world \<Rightarrow> (db_error + nat) \<times> world" where
  "wait_loop srv delay logs retries 0 last_error w =
     (Inl (case last_error of None \<Rightarrow> RaisedNone | Some e \<Rightarrow> e), w)"
| "wait_loop srv delay logs retries (Suc left) last_error w =
     (case srv (attempts w) of
        Accepts \<Rightarrow> (Inr (attempts w), w\<lparr>attempts := attempts w + 1, open_conns := attempts w # open_conns w\<rparr>)
      | NotReady text \<Rightarrow>
          wait_loop srv delay logs retries left (Some (ConnectionError (OperationalError text)))
            (not_ready logs (retries - left) retries delay w)
      | Malformed text \<Rightarrow> (Inl (ConnectError text), w\<lparr>attempts := attempts w + 1\<rparr>))"

definition wait_for_database ::
  "(nat \<Rightarrow> conn_answer) \<Rightarrow> nat \<Rightarrow> int \<Rightarrow> bool \<Rightarrow> world \<Rightarrow> (db_error + nat) \<times> world" where
  "wait_for_database srv retries delay logs w = wait_loop srv delay logs retries retries None w"

subsection \<open>The connection\<close>

record Database =
  retries :: nat
  delay :: int
  reconnects :: int
  connection :: nat

definition RECONNECT_RETRIES :: nat where "RECONNECT_RETRIES = 30"
definition RECONNECT_DELAY :: int where "RECONNECT_DELAY = 2000"

text \<open>\<open>Database(log)\<close>: the first connection is waited for with the defaults of the function.\<close>

definition new_database ::
  "(nat \<Rightarrow> conn_answer) \<Rightarrow> nat \<Rightarrow> int \<Rightarrow> world \<Rightarrow> (db_error + Database) \<times> world" where
  "new_database srv n d w =
     (case wait_for_database srv 10 2000 True w of
        (Inl e, w1) \<Rightarrow> (Inl e, w1)
      | (Inr c, w1) \<Rightarrow> (Inr \<lparr>retries = n, delay = d, reconnects = 0, connection = c\<rparr>, w1))"

text \<open>\<open>close\<close>, which takes no notice of an error.\<close>

definition close_conn :: "Database \<Rightarrow> world \<Rightarrow> world" where
  "close_conn db w = w\<lparr>open_conns := removeAll (connection db) (open_conns w)\<rparr>"

text \<open>The characters \<open>splitlines\<close> cuts at, and the reason that is logged.\<close>

definition is_linebreak :: "nat \<Rightarrow> bool" where
  "is_linebreak c \<longleftrightarrow> c \<in> {10, 11, 12, 13, 28, 29, 30, 133, 8232, 8233}"

definition failure_reason :: "connection_error \<Rightarrow> ustr" where
  "failure_reason exc =
     (let (type_name, shown) = (case exc of OperationalError s \<Rightarrow> (ascii ''OperationalError'', s)
                                | InterfaceError s \<Rightarrow> (ascii ''InterfaceError'', s));
          text = strip shown
      in if text \<noteq> [] then takeWhile (\<lambda>c. \<not> is_linebreak c) text else type_name)"

text \<open>
  \<open>write\<close>. An attempt is answered, or loses its connection with an error: before the server
  committed, or after (the client cannot tell). A server that refuses the rows commits nothing.
\<close>

definition lost_effect :: "('t \<Rightarrow> pgerror + 't \<times> int) \<Rightarrow> bool \<Rightarrow> 't \<Rightarrow> 't" where
  "lost_effect operation committed tbl =
     (if committed then (case operation tbl of Inl _ \<Rightarrow> tbl | Inr (tbl', _) \<Rightarrow> tbl') else tbl)"

partial_function (option) write_loop ::
  "(nat \<Rightarrow> conn_answer) \<Rightarrow> (nat \<Rightarrow> (bool \<times> connection_error) option) \<Rightarrow> ('t \<Rightarrow> pgerror + 't \<times> int) \<Rightarrow>
   Database \<Rightarrow> world \<Rightarrow> 't \<Rightarrow> ((db_error + int) \<times> Database \<times> world \<times> 't) option" where
  "write_loop srv fate operation db w tbl =
     (let w1 = w\<lparr>writes := writes w + 1\<rparr> in
      case fate (writes w) of
        None \<Rightarrow>
          (case operation tbl of
             Inl e \<Rightarrow> Some (Inl (ServerError e), db, w1, tbl)
           | Inr (tbl', n) \<Rightarrow> Some (Inr n, db, w1, tbl'))
      | Some (committed, exc) \<Rightarrow>
          let tbl' = lost_effect operation committed tbl in
            (case wait_for_database srv (retries db) (delay db) True
               (close_conn db (warn (ascii ''database write failed ('' @ failure_reason exc @ ascii ''), reconnecting'') w1)) of
               (Inl e, w2) \<Rightarrow> Some (Inl e, db, w2, tbl')
             | (Inr c, w2) \<Rightarrow>
                 write_loop srv fate operation (db\<lparr>connection := c, reconnects := reconnects db + 1\<rparr>)
                   (warn (ascii ''database connection restored, retrying the write'') w2) tbl'))"

subsection \<open>Lemmas on waiting\<close>

lemma warn_simps [simp]:
  "attempts (warn l w) = attempts w" "writes (warn l w) = writes w" "slept (warn l w) = slept w"
  "open_conns (warn l w) = open_conns w"
  by (simp_all add: warn_def)

lemma not_ready_simps [simp]:
  "attempts (not_ready logs i n d w) = attempts w + 1" "writes (not_ready logs i n d w) = writes w"
  "slept (not_ready logs i n d w) = slept w + d" "open_conns (not_ready logs i n d w) = open_conns w"
  by (simp_all add: not_ready_def Let_def)

text \<open>
  A wait ends with a new connection, the only thing it opens, or without one; it sleeps once per
  attempt the server was not ready for.
\<close>

definition wait_ends :: "(nat \<Rightarrow> conn_answer) \<Rightarrow> int \<Rightarrow> nat \<Rightarrow> world \<Rightarrow> db_error + nat \<Rightarrow> world \<Rightarrow> bool" where
  "wait_ends srv d left w r w' \<longleftrightarrow>
     writes w' = writes w \<and> attempts w \<le> attempts w' \<and> attempts w' \<le> attempts w + left \<and>
     (case r of
        Inr c \<Rightarrow> srv c = Accepts \<and> open_conns w' = c # open_conns w \<and> attempts w' = c + 1 \<and> attempts w \<le> c
          \<and> slept w' = slept w + d * int (c - attempts w)
      | Inl e \<Rightarrow> open_conns w' = open_conns w)"

lemma wait_loop_ends: "wait_loop srv d logs n left e w = (r, w') \<Longrightarrow> wait_ends srv d left w r w'"
proof (induction srv d logs n left e w rule: wait_loop.induct)
  case (2 srv d logs n left e w)
  show ?case
  proof (cases "srv (attempts w)")
    case (NotReady t)
    then have "wait_ends srv d left (not_ready logs (n - left) n d w) r w'"
      using "2.prems" by (intro "2.IH") auto
    then show ?thesis
      by (cases r) (simp_all add: wait_ends_def of_nat_diff algebra_simps)
  qed (use "2.prems" in \<open>auto simp: wait_ends_def\<close>)
qed (auto simp: wait_ends_def)

lemma wait_for_database_error: "wait_for_database srv n d logs w = (Inl x, w') \<Longrightarrow> x \<noteq> ServerError e"
proof -
  have "wait_loop srv d logs m left e' w = (Inl x, w') \<Longrightarrow> e' \<noteq> Some (ServerError e) \<Longrightarrow> x \<noteq> ServerError e" for m left e'
    by (induction srv d logs m left e' w rule: wait_loop.induct) (auto split: conn_answer.splits option.splits)
  then show "wait_for_database srv n d logs w = (Inl x, w') \<Longrightarrow> x \<noteq> ServerError e"
    by (simp add: wait_for_database_def)
qed

text \<open>It fails only if the server refused every attempt, or the connection string is malformed.\<close>

lemma wait_loop_gives_up:
  assumes "wait_loop srv d logs n left e w = (Inl x, w')" and "\<And>i t. srv i \<noteq> Malformed t"
  shows "(\<forall>i < left. \<exists>t. srv (attempts w + i) = NotReady t) \<and> attempts w' = attempts w + left
    \<and> slept w' = slept w + d * int left
    \<and> (left > 0 \<longrightarrow> (\<exists>t. srv (attempts w' - 1) = NotReady t \<and> x = ConnectionError (OperationalError t)))"
  using assms
proof (induction srv d logs n left e w rule: wait_loop.induct)
  case (2 srv d logs n left e w)
  show ?case
  proof (cases "srv (attempts w)")
    case (NotReady t)
    let ?w = "not_ready logs (n - left) n d w"
    have ih: "(\<forall>i < left. \<exists>t. srv (attempts ?w + i) = NotReady t) \<and> attempts w' = attempts ?w + left
      \<and> slept w' = slept ?w + d * int left
      \<and> (left > 0 \<longrightarrow> (\<exists>t. srv (attempts w' - 1) = NotReady t \<and> x = ConnectionError (OperationalError t)))"
      using "2.prems" NotReady by (intro "2.IH") auto
    have "\<exists>t. srv (attempts w + i) = NotReady t" if "i < Suc left" for i
      using ih that NotReady by (cases i) auto
    moreover have "left = 0 \<Longrightarrow> x = ConnectionError (OperationalError t)" using "2.prems" NotReady by auto
    ultimately show ?thesis using ih NotReady by (cases "left = 0") (auto simp: algebra_simps)
  next
    case (Malformed t)
    with "2.prems"(2) show ?thesis by blast
  qed (use "2.prems" in auto)
qed auto

lemma wait_for_database_ends:
  "wait_for_database srv n d logs w = (r, w') \<Longrightarrow> wait_ends srv d n w r w'"
  unfolding wait_for_database_def by (rule wait_loop_ends)

lemma wait_for_database_gives_up:
  assumes "wait_for_database srv n d logs w = (Inl x, w')" and "\<And>i t. srv i \<noteq> Malformed t"
  shows "(\<forall>i < n. \<exists>t. srv (attempts w + i) = NotReady t) \<and> attempts w' = attempts w + n
    \<and> slept w' = slept w + d * int n \<and> (n > 0 \<longrightarrow> (\<exists>t. x = ConnectionError (OperationalError t)))"
  using wait_loop_gives_up [OF assms(1) [unfolded wait_for_database_def] assms(2)] by auto

text \<open>With the settings of the program a reconnect gives up after a minute of waiting.\<close>

lemma gives_up_after_a_minute:
  assumes "wait_for_database srv RECONNECT_RETRIES RECONNECT_DELAY True w = (Inl x, w')"
    and "\<And>i t. srv i \<noteq> Malformed t"
  shows "slept w' = slept w + 60000 \<and> (\<exists>t. x = ConnectionError (OperationalError t))"
  using wait_for_database_gives_up [OF assms]
  by (auto simp: RECONNECT_RETRIES_def RECONNECT_DELAY_def)

text \<open>A wait of no attempts raises \<open>None\<close>, which is an error of its own.\<close>

lemma no_attempts: "wait_for_database srv 0 d logs w = (Inl RaisedNone, w)"
  by (simp add: wait_for_database_def)

subsection \<open>Refinement of the write that cannot fail to reconnect\<close>

text \<open>
  Whatever the server and the connection do: a write that returns is one that \<open>db_write\<close>
  describes, with one lost attempt for every reconnect, and so is one the server refuses.
\<close>

definition described ::
  "('t \<Rightarrow> pgerror + 't \<times> int) \<Rightarrow> Database \<Rightarrow> 't \<Rightarrow> (db_error + int) \<times> Database \<times> world \<times> 't \<Rightarrow> bool" where
  "described operation db tbl result =
     (case result of (r, db', w', tbl') \<Rightarrow>
        \<exists>lost. int (length lost) = reconnects db' - reconnects db \<and>
          (\<forall>n. r = Inr n \<longrightarrow> db_write operation lost tbl = Inr (tbl', n)) \<and>
          (\<forall>e. r = Inl (ServerError e) \<longrightarrow> db_write operation lost tbl = Inl e))"

lemma described_after_loss:
  assumes "described operation (db\<lparr>connection := c, reconnects := reconnects db + 1\<rparr>) tbl' y"
    and "tbl' = tbl \<or> (\<exists>n. operation tbl = Inr (tbl', n))"
  shows "described operation db tbl y"
proof -
  obtain r db' w' t' where y: "y = (r, db', w', t')" by (cases y)
  with assms(1) obtain lost where l: "int (length lost) = reconnects db' - (reconnects db + 1)"
      "\<forall>n. r = Inr n \<longrightarrow> db_write operation lost tbl' = Inr (t', n)"
      "\<forall>e. r = Inl (ServerError e) \<longrightarrow> db_write operation lost tbl' = Inl e"
    by (auto simp: described_def)
  from assms(2) show ?thesis
  proof
    assume "tbl' = tbl"
    with l have "int (length (False # lost)) = reconnects db' - reconnects db"
      "\<forall>n. r = Inr n \<longrightarrow> db_write operation (False # lost) tbl = Inr (t', n)"
      "\<forall>e. r = Inl (ServerError e) \<longrightarrow> db_write operation (False # lost) tbl = Inl e" by auto
    then show ?thesis unfolding y described_def by blast
  next
    assume "\<exists>n. operation tbl = Inr (tbl', n)"
    with l have "int (length (True # lost)) = reconnects db' - reconnects db"
      "\<forall>n. r = Inr n \<longrightarrow> db_write operation (True # lost) tbl = Inr (t', n)"
      "\<forall>e. r = Inl (ServerError e) \<longrightarrow> db_write operation (True # lost) tbl = Inl e" by auto
    then show ?thesis unfolding y described_def by blast
  qed
qed

lemma lost_effect_cases:
  "lost_effect operation c tbl = tbl \<or> (\<exists>n. operation tbl = Inr (lost_effect operation c tbl, n))"
  by (auto simp: lost_effect_def split: sum.split)

lemma write_loop_described:
  "write_loop srv fate operation db w tbl = Some y \<Longrightarrow> described operation db tbl y"
proof (induction rule: write_loop.raw_induct [rotated, consumes 1, case_names step])
  case (step loop srv fate operation db w tbl y)
  have here: "described operation db tbl (r, db, w', tbl')"
    if "\<And>n. r = Inr n \<Longrightarrow> operation tbl = Inr (tbl', n)" "\<And>e. r = Inl (ServerError e) \<Longrightarrow> operation tbl = Inl e"
    for r w' tbl'
    using that by (auto simp: described_def intro!: exI [of _ "[]"])
  show ?case
  proof (cases "fate (writes w)")
    case None
    with step.hyps show ?thesis by (auto intro!: here simp: Let_def split: sum.splits prod.splits)
  next
    case (Some ce)
    then obtain c e where ce: "fate (writes w) = Some (c, e)" by (cases ce) auto
    obtain r2 w2 where w2: "wait_for_database srv (retries db) (delay db) True
        (close_conn db (warn (ascii ''database write failed ('' @ failure_reason e @ ascii ''), reconnecting'')
          (w\<lparr>writes := writes w + 1\<rparr>))) = (r2, w2)" by (metis surj_pair)
    show ?thesis
    proof (cases r2)
      case (Inl x)
      have "x \<noteq> ServerError e'" for e' using wait_for_database_error [OF w2 [unfolded Inl]] .
      with Inl w2 step.hyps ce show ?thesis by (auto intro!: here simp: Let_def)
    next
      case (Inr k)
      with step.hyps ce w2 have "loop srv fate operation (db\<lparr>connection := k, reconnects := reconnects db + 1\<rparr>)
          (warn (ascii ''database connection restored, retrying the write'') w2) (lost_effect operation c tbl) = Some y"
        by (simp add: Let_def)
      from described_after_loss [OF step.IH [OF this] lost_effect_cases] show ?thesis .
    qed
  qed
qed

subsection \<open>Writes that can be repeated\<close>

text \<open>How a write of \<open>t1\<close> over \<open>t0\<close> ends, with \<open>n\<close> attempts to reconnect.\<close>

definition ended ::
  "(nat \<Rightarrow> conn_answer) \<Rightarrow> nat \<Rightarrow> 't \<Rightarrow> 't \<Rightarrow> db_error + int \<Rightarrow> Database \<Rightarrow> world \<Rightarrow> 't \<Rightarrow> bool" where
  "ended srv n t0 t1 r db' w' tbl' =
     (case r of
        Inr k \<Rightarrow> tbl' = t1 \<and> open_conns w' = [connection db']
      | Inl e \<Rightarrow> (tbl' = t0 \<or> tbl' = t1) \<and> open_conns w' = [] \<and> n \<le> attempts w' \<and>
          (\<forall>i < n. \<exists>t. srv (attempts w' - n + i) = NotReady t))"

locale repeatable_write =
  fixes operation :: "'t \<Rightarrow> pgerror + 't \<times> int"
  assumes again: "operation t = Inr (t', n) \<Longrightarrow> \<exists>n'. operation t' = Inr (t', n')"
begin

lemma lost_effect_whole:
  assumes "operation t0 = Inr (t1, n)" and "tbl = t0 \<or> tbl = t1"
  shows "lost_effect operation c tbl = t0 \<or> lost_effect operation c tbl = t1"
  using assms again [OF assms(1)] by (auto simp: lost_effect_def)

lemma loop_ends_whole:
  assumes "operation t0 = Inr (t1, n)" and "tbl = t0 \<or> tbl = t1" and "open_conns w = [connection db]"
    and "fate (writes w + m) = None" and "\<And>i t. srv i \<noteq> Malformed t"
  shows "\<exists>r db' w' tbl'. write_loop srv fate operation db w tbl = Some (r, db', w', tbl') \<and>
    ended srv (retries db) t0 t1 r db' w' tbl'"
  using assms(2,3,4)
proof (induction m arbitrary: db w tbl)
  case (0 db w tbl)
  obtain n' where "operation tbl = Inr (t1, n')" using assms(1) again [OF assms(1)] "0.prems"(1) by auto
  with 0 show ?case by (subst write_loop.simps) (simp add: Let_def ended_def)
next
  case (Suc m db w tbl)
  show ?case
  proof (cases "fate (writes w)")
    case None
    obtain n' where "operation tbl = Inr (t1, n')" using assms(1) again [OF assms(1)] Suc.prems(1) by auto
    with None Suc.prems show ?thesis by (subst write_loop.simps) (simp add: Let_def ended_def)
  next
    case (Some ce)
    then obtain c e where ce: "fate (writes w) = Some (c, e)" by (cases ce) auto
    let ?closed = "close_conn db (warn (ascii ''database write failed ('' @ failure_reason e @ ascii ''), reconnecting'')
          (w\<lparr>writes := writes w + 1\<rparr>))"
    have cl: "open_conns ?closed = []" "writes ?closed = writes w + 1" using Suc.prems(2) by (simp_all add: close_conn_def)
    obtain r2 w2 where w2: "wait_for_database srv (retries db) (delay db) True ?closed = (r2, w2)" by (metis surj_pair)
    note we = wait_for_database_ends [OF w2]
    show ?thesis
    proof (cases r2)
      case (Inl x)
      have "write_loop srv fate operation db w tbl = Some (Inl x, db, w2, lost_effect operation c tbl)"
        using ce w2 Inl by (subst write_loop.simps) (simp add: Let_def)
      with Inl we cl lost_effect_whole [OF assms(1) Suc.prems(1), of c]
        wait_for_database_gives_up [OF w2 [unfolded Inl] assms(5)]
      show ?thesis by (auto simp: wait_ends_def ended_def)
    next
      case (Inr k)
      let ?db = "db\<lparr>connection := k, reconnects := reconnects db + 1\<rparr>"
      let ?w = "warn (ascii ''database connection restored, retrying the write'') w2"
      have step: "write_loop srv fate operation db w tbl = write_loop srv fate operation ?db ?w (lost_effect operation c tbl)"
        using ce w2 Inr by (subst write_loop.simps) (simp add: Let_def)
      have "open_conns ?w = [connection ?db]" "fate (writes ?w + m) = None"
        using we cl Inr Suc.prems(3) by (simp_all add: wait_ends_def)
      from Suc.IH [OF lost_effect_whole [where c = c, OF assms(1) Suc.prems(1)] this] show ?thesis unfolding step by simp
    qed
  qed
qed

end

interpretation edits_write: repeatable_write "insert_edits rt storable events"
  by standard (unfold insert_edits_def, rule insert_rows_again)

interpretation alerts_write: repeatable_write "insert_alerts storable alerts"
  by standard (unfold insert_alerts_def, rule insert_rows_again)

interpretation trending_write: repeatable_write "upsert_trending storable rows"
  by standard (rule upsert_again)

text \<open>
  C17. A write of the sink ends, whole or not at all. Take a batch the server accepts, a connection
  string that is not malformed, one open connection, and a server of which some attempt will be
  reached and answered: then \<open>Database.write\<close> returns or raises after finitely many steps.
  When it returns, the table is the one a single undisturbed write leaves, exactly one connection is
  open, so a reconnect leaks none, and the write is one the simpler \<open>db_write\<close> describes, with
  one lost attempt per reconnect. When it raises, the table holds the whole batch or nothing of it, no
  connection is open, and the server refused as many attempts in a row as are configured, the last
  ones made. If the server is never away for that long, it returns.
\<close>

theorem database_write_ends_whole:
  assumes "insert_edits rt st events tbl = Inr (tbl1, n)" and "open_conns w = [connection db]"
    and "fate (writes w + m) = None" and "\<And>i t. srv i \<noteq> Malformed t"
  shows "\<exists>r db' w' tbl'. write_loop srv fate (insert_edits rt st events) db w tbl = Some (r, db', w', tbl') \<and>
    (case r of
       Inr k \<Rightarrow> tbl' = tbl1 \<and> open_conns w' = [connection db'] \<and>
         (\<exists>lost. int (length lost) = reconnects db' - reconnects db \<and>
            db_write (insert_edits rt st events) lost tbl = Inr (tbl', k))
     | Inl e \<Rightarrow> (tbl' = tbl \<or> tbl' = tbl1) \<and> open_conns w' = [] \<and> retries db \<le> attempts w' \<and>
         (\<forall>i < retries db. \<exists>t. srv (attempts w' - retries db + i) = NotReady t)) \<and>
    ((\<forall>i. \<exists>k < retries db. srv (i + k) = Accepts) \<longrightarrow> (\<exists>k. r = Inr k))"
proof -
  obtain r db' w' tbl' where
    run: "write_loop srv fate (insert_edits rt st events) db w tbl = Some (r, db', w', tbl')" and
    ends: "ended srv (retries db) tbl tbl1 r db' w' tbl'"
    using edits_write.loop_ends_whole [where tbl = tbl and fate = fate and w = w and m = m and srv = srv, OF assms(1) disjI1 [OF refl] assms(2,3,4)] by blast
  have "\<exists>k. r = Inr k" if up: "\<forall>i. \<exists>k < retries db. srv (i + k) = Accepts"
  proof (cases r)
    case (Inl e)
    obtain k where "k < retries db" "srv (attempts w' - retries db + k) = Accepts" using up by blast
    with ends Inl show ?thesis by (auto simp: ended_def)
  qed blast
  moreover have "\<exists>lost. int (length lost) = reconnects db' - reconnects db \<and>
      db_write (insert_edits rt st events) lost tbl = Inr (tbl', k)" if "r = Inr k" for k
    using write_loop_described [OF run] that unfolding described_def by blast
  ultimately show ?thesis
    using run ends
    by (intro exI [of _ r] exI [of _ db'] exI [of _ w'] exI [of _ tbl']) (cases r, auto simp: ended_def)
qed

definition restarting :: "nat \<Rightarrow> conn_answer" where
  "restarting i = (if even i then NotReady (ascii ''starting up'') else Accepts)"

definition dropped_once :: "nat \<Rightarrow> (bool \<times> connection_error) option" where
  "dropped_once i = (if i = 0 then Some (True, InterfaceError (ascii ''connection already closed'')) else None)"

definition sample_database :: Database where
  "sample_database = \<lparr>retries = RECONNECT_RETRIES, delay = RECONNECT_DELAY, reconnects = 0, connection = 1\<rparr>"

definition sample_world :: world where
  "sample_world = \<lparr>attempts = 2, writes = 0, slept = 2000, open_conns = [1], db_log = []\<rparr>"

theorem database_write_ends_whole_witness:
  "\<exists>k db' w' tbl'. write_loop restarting dropped_once (insert_edits plain_runtime (\<lambda>_. True) [sample_event])
     sample_database sample_world [] = Some (Inr k, db', w', tbl') \<and>
   map_of tbl' (event_id sample_event) \<noteq> None \<and> open_conns w' = [connection db']"
proof -
  obtain tbl1 n where one: "insert_edits plain_runtime (\<lambda>_. True) [sample_event] [] = Inr (tbl1, n)"
    by (cases "insert_edits plain_runtime (\<lambda>_. True) [sample_event] []") (auto simp: insert_edits_def insert_rows_def)
  have stored: "map_of tbl1 (event_id sample_event) \<noteq> None"
    using insert_rows_result [OF one [unfolded insert_edits_def]] by (simp add: put_missing_def as_row_def)
  have up: "\<forall>i. \<exists>k < retries sample_database. restarting (i + k) = Accepts"
  proof
    fix i
    have "restarting (i + (if even i then 1 else 0)) = Accepts" "(if even i then 1 else 0) < retries sample_database"
      by (simp_all add: restarting_def sample_database_def RECONNECT_RETRIES_def)
    then show "\<exists>k < retries sample_database. restarting (i + k) = Accepts" by blast
  qed
  have "open_conns sample_world = [connection sample_database]" "dropped_once (writes sample_world + 1) = None"
    by (simp_all add: sample_world_def sample_database_def dropped_once_def)
  note end_whole = database_write_ends_whole [where srv = restarting and fate = dropped_once and w = sample_world and m = 1 and st = "\<lambda>_. True" and rt = plain_runtime, OF one this]
  have "restarting i \<noteq> Malformed t" for i t by (simp add: restarting_def)
  note h = end_whole [OF this]
  from h up obtain r db' w' tbl' where
    run: "write_loop restarting dropped_once (insert_edits plain_runtime (\<lambda>_. True) [sample_event])
      sample_database sample_world [] = Some (r, db', w', tbl')" and
    ret: "\<exists>k. r = Inr k" and
    ends: "r = Inr k \<Longrightarrow> tbl' = tbl1 \<and> open_conns w' = [connection db']" for k
    by (elim exE conjE) (simp split: sum.splits)
  with stored show ?thesis by blast
qed

end
