(* ===== verification/Sandbox.thy ===== *)
theory Sandbox
  imports Config
begin

text \<open>
  The processes of \<^verbatim>\<open>common/sandbox.py\<close>: \<open>Sandbox\<close> starts them under a name,
  kills, stops and awaits them, and on closing stops what it tracks and removes what it made. The
  machine below it (processes, databases, what Kafka holds) is explicit state; how a process
  reacts to \<open>SIGTERM\<close>, and whether it ends by itself, belongs to the process.
\<close>

subsection \<open>The machine\<close>

text \<open>
  A process: whether it was killed, the code and the time it ends with if nothing else happens to
  it, and the code and the number of seconds in which it ends once it gets \<open>SIGTERM\<close>, unless
  it ignores it.
\<close>

record process =
  killed :: bool
  due :: "(int \<times> int) option"
  on_term :: "(int \<times> int) option"

text \<open>\<open>poll()\<close> at a time: the exit code of a process that has ended.\<close>

definition poll :: "int \<Rightarrow> process \<Rightarrow> int option" where
  "poll now p =
     (if killed p then Some (- 9)
      else case due p of None \<Rightarrow> None | Some (c, t) \<Rightarrow> if t \<le> now then Some c else None)"

text \<open>\<open>SIGKILL\<close> and \<open>SIGTERM\<close>, neither of which reaches a process that has ended.\<close>

definition sigkill :: "int \<Rightarrow> process \<Rightarrow> process" where
  "sigkill now p = (if poll now p = None then p\<lparr>killed := True\<rparr> else p)"

definition sigterm :: "int \<Rightarrow> process \<Rightarrow> process" where
  "sigterm now p =
     (if poll now p = None
      then (case on_term p of
              None \<Rightarrow> p
            | Some (c, d) \<Rightarrow>
                (case due p of
                   None \<Rightarrow> p\<lparr>due := Some (c, now + d)\<rparr>
                 | Some (c', t) \<Rightarrow> if now + d < t then p\<lparr>due := Some (c, now + d)\<rparr> else p))
      else p)"

text \<open>
  An entry of \<open>procs\<close>: the process and its log file. \<open>open_logs\<close> has the processes
  whose log the sandbox holds open.
\<close>

record tracked =
  pid :: nat
  log_file :: ustr

record machine =
  clock :: int
  processes :: "process list"
  open_logs :: "nat list"
  databases :: "ustr set"
  kafka_topics :: "ustr list"
  kafka_groups :: "ustr list"

record box =
  bx_ns :: ustr
  bx_db :: "ustr option"
  procs :: "(ustr, tracked) pydict"

datatype box_error = KeyError | TimeoutExpired | DuplicateDatabase

subsection \<open>Opening\<close>

text \<open>\<open>Sandbox(prefix, database)\<close> with the eight hexadecimal digits it draws, and \<open>__enter__\<close>.\<close>

definition new_box :: "ustr \<Rightarrow> ustr \<Rightarrow> bool \<Rightarrow> box" where
  "new_box prefix digits database =
     \<lparr>bx_ns = prefix @ digits,
      bx_db = (if database then Some (ascii ''wikistream_'' @ prefix @ digits) else None), procs = []\<rparr>"


subsection \<open>Processes\<close>

text \<open>\<open>Path(name).stem\<close>: the last component without its last suffix.\<close>

definition last_component :: "ustr \<Rightarrow> ustr" where
  "last_component path =
     rev (takeWhile (\<lambda>c. c \<noteq> 47) (dropWhile (\<lambda>c. c = 47) (rev path)))"

definition path_stem :: "ustr \<Rightarrow> ustr" where
  "path_stem path =
     (let name = last_component path;
          suffix = takeWhile (\<lambda>c. c \<noteq> 46) (rev name);
          i = length name - length suffix - 1
      in if 46 \<in> set name \<and> 0 < i \<and> suffix \<noteq> [] then take i name else name)"

definition log_suffix :: ustr where
  "log_suffix = ascii ''.log''"

text \<open>\<open>start\<close>: the process the script becomes is an argument.\<close>

definition start :: "ustr \<Rightarrow> ustr option \<Rightarrow> process \<Rightarrow> box \<Rightarrow> machine \<Rightarrow> ustr \<times> box \<times> machine" where
  "start script given p b m =
     (let name = (case given of Some n \<Rightarrow> if n = [] then script else n | None \<Rightarrow> script);
          log_name = (if name = script then path_stem name else name);
          entry = \<lparr>pid = length (processes m), log_file = log_name @ log_suffix\<rparr>
      in (name, b\<lparr>procs := AList.update name entry (procs b)\<rparr>,
          m\<lparr>processes := processes m @ [p], open_logs := open_logs m @ [length (processes m)]\<rparr>))"

definition on_process :: "nat \<Rightarrow> (int \<Rightarrow> process \<Rightarrow> process) \<Rightarrow> machine \<Rightarrow> machine" where
  "on_process i f m = m\<lparr>processes := (processes m)[i := f (clock m) (processes m ! i)]\<rparr>"

text \<open>\<open>wait(timeout)\<close>: time passes until the process ends or the timeout does.\<close>

definition await :: "int \<Rightarrow> nat \<Rightarrow> machine \<Rightarrow> int option \<times> machine" where
  "await timeout i m =
     (let p = processes m ! i in
      case poll (clock m) p of
        Some c \<Rightarrow> (Some c, m)
      | None \<Rightarrow>
          (case due p of
             None \<Rightarrow> (None, m\<lparr>clock := clock m + timeout\<rparr>)
           | Some (c, t) \<Rightarrow>
               if t \<le> clock m + timeout then (Some c, m\<lparr>clock := t\<rparr>)
               else (None, m\<lparr>clock := clock m + timeout\<rparr>)))"

text \<open>\<open>kill\<close>, \<open>stop\<close> and \<open>wait_exit\<close>; an unknown name is a \<open>KeyError\<close>.\<close>

definition kill :: "ustr \<Rightarrow> box \<Rightarrow> machine \<Rightarrow> (box_error + unit) \<times> machine" where
  "kill name b m =
     (case map_of (procs b) name of
        None \<Rightarrow> (Inl KeyError, m)
      | Some t \<Rightarrow> (Inr (), on_process (pid t) sigkill m))"

definition stop :: "ustr \<Rightarrow> int \<Rightarrow> box \<Rightarrow> machine \<Rightarrow> (box_error + int) \<times> machine" where
  "stop name timeout b m =
     (case map_of (procs b) name of
        None \<Rightarrow> (Inl KeyError, m)
      | Some t \<Rightarrow>
          (case await timeout (pid t) (on_process (pid t) sigterm m) of
             (Some c, m1) \<Rightarrow> (Inr c, m1)
           | (None, m1) \<Rightarrow> (Inr (- 9), on_process (pid t) sigkill m1)))"

definition wait_exit :: "ustr \<Rightarrow> int \<Rightarrow> box \<Rightarrow> machine \<Rightarrow> (box_error + int) \<times> machine" where
  "wait_exit name timeout b m =
     (case map_of (procs b) name of
        None \<Rightarrow> (Inl KeyError, m)
      | Some t \<Rightarrow>
          (case await timeout (pid t) m of
             (None, m1) \<Rightarrow> (Inl TimeoutExpired, m1)
           | (Some c, m1) \<Rightarrow> (Inr c, m1)))"

text \<open>
  \<open>stop_all\<close>: first every process is told to stop, then each is awaited, and killed if it
  does not end in time; its log is closed.
\<close>

definition await_or_kill :: "nat \<Rightarrow> machine \<Rightarrow> machine" where
  "await_or_kill i m =
     (let m2 = (case await 60 i m of (Some _, m1) \<Rightarrow> m1 | (None, m1) \<Rightarrow> on_process i sigkill m1)
      in m2\<lparr>open_logs := removeAll i (open_logs m2)\<rparr>)"

definition stop_all :: "box \<Rightarrow> machine \<Rightarrow> machine" where
  "stop_all b m =
     (let m1 = fold (\<lambda>(_, t). on_process (pid t) sigterm) (procs b) m
      in fold (\<lambda>(_, t). await_or_kill (pid t)) (procs b) m1)"

text \<open>
  \<open>close\<close>: the topics and groups of the namespace are to be deleted; a deletion that fails is
  ignored, and which ones do (\<open>stuck\<close>, of topics and of groups) is up to the cluster.
\<close>

definition drop_kafka_state :: "(ustr \<Rightarrow> bool) \<times> (ustr \<Rightarrow> bool) \<Rightarrow> ustr \<Rightarrow> machine \<Rightarrow> machine" where
  "drop_kafka_state stuck ns m =
     (let (ts, gs) = delete_kafka_state ns (kafka_topics m) (kafka_groups m)
      in m\<lparr>kafka_topics := filter (\<lambda>t. t \<in> set ts \<longrightarrow> fst stuck t) (kafka_topics m),
           kafka_groups := filter (\<lambda>g. g \<in> set gs \<longrightarrow> snd stuck g) (kafka_groups m)\<rparr>)"

definition close_box :: "(ustr \<Rightarrow> bool) \<times> (ustr \<Rightarrow> bool) \<Rightarrow> box \<Rightarrow> machine \<Rightarrow> machine" where
  "close_box stuck b m =
     (let m2 = drop_kafka_state stuck (bx_ns b) (stop_all b m)
      in case bx_db b of None \<Rightarrow> m2 | Some d \<Rightarrow> m2\<lparr>databases := databases m2 - {d}\<rparr>)"

text \<open>The processes \<open>crashed\<close> looks at.\<close>

definition exit_codes :: "box \<Rightarrow> machine \<Rightarrow> (ustr, int option) pydict" where
  "exit_codes b m = map (\<lambda>(n, t). (n, poll (clock m) (processes m ! pid t))) (procs b)"

text \<open>\<open>log_text\<close>, from the files in the directory of the logs, and \<open>tails\<close>.\<close>

definition log_text :: "(ustr \<rightharpoonup> ustr) \<Rightarrow> ustr \<Rightarrow> ustr" where
  "log_text files name =
     (let log_name = (if startswith (rev name) (rev (ascii ''.py'')) then path_stem name else name)
      in case files (log_name @ log_suffix) of None \<Rightarrow> [] | Some s \<Rightarrow> s)"

definition last_lines :: "nat \<Rightarrow> 'a list \<Rightarrow> 'a list" where
  "last_lines n xs = (if n = 0 then xs else drop (length xs - n) xs)"

definition tails :: "(ustr \<Rightarrow> ustr list) \<Rightarrow> nat \<Rightarrow> (ustr \<times> ustr) list \<Rightarrow> ustr" where
  "tails splitlines n files =
     join [10] (map (\<lambda>(name, content). ascii ''--- '' @ name @ [10] @ join [10] (last_lines n (splitlines content)))
       (sort_key fst files))"

subsection \<open>What is running is tracked\<close>

text \<open>
  Operations of a test: those of the sandbox, time that passes, and what its processes make in
  Kafka.
\<close>

datatype box_op = Start ustr "ustr option" process | Kill ustr | Stop ustr int | Wait ustr int | Pass int
  | Made "ustr list" "ustr list"

fun box_step :: "box_op \<Rightarrow> box \<times> machine \<Rightarrow> box \<times> machine" where
  "box_step (Start script given p) (b, m) = snd (start script given p b m)"
| "box_step (Kill n) (b, m) = (b, snd (kill n b m))"
| "box_step (Stop n timeout) (b, m) = (b, snd (stop n timeout b m))"
| "box_step (Wait n timeout) (b, m) = (b, snd (wait_exit n timeout b m))"
| "box_step (Pass d) (b, m) = (b, m\<lparr>clock := clock m + max 0 d\<rparr>)"
| "box_step (Made topics groups) (b, m) =
     (b, m\<lparr>kafka_topics := kafka_topics m @ topics, kafka_groups := kafka_groups m @ groups\<rparr>)"







lemma on_process_simps [simp]:
  "clock (on_process i f m) = clock m" "length (processes (on_process i f m)) = length (processes m)"
  by (simp_all add: on_process_def)

text \<open>\<open>later_than m m'\<close>: no process of \<open>m\<close> that had ended runs in \<open>m'\<close>, and none is new.\<close>

definition later_than :: "machine \<Rightarrow> machine \<Rightarrow> bool" where
  "later_than m m' \<longleftrightarrow> length (processes m') = length (processes m) \<and> clock m \<le> clock m' \<and>
     (\<forall>i < length (processes m). poll (clock m') (processes m' ! i) = None \<longrightarrow> poll (clock m) (processes m ! i) = None)"

lemma later_refl [simp]: "later_than m m" by (simp add: later_than_def)







lemma later_logs [simp]: "later_than m (m'\<lparr>open_logs := ls\<rparr>) = later_than m m'"
  by (simp add: later_than_def)






subsection \<open>A closed sandbox\<close>







lemma processes_keep_rest:
  "databases (on_process i f m) = databases m" "kafka_topics (on_process i f m) = kafka_topics m"
  "kafka_groups (on_process i f m) = kafka_groups m"
  "databases (snd (await t i m)) = databases m" "kafka_topics (snd (await t i m)) = kafka_topics m"
  "kafka_groups (snd (await t i m)) = kafka_groups m"
  by (simp_all add: on_process_def await_def Let_def split: option.split)

text \<open>What the operations on processes leave alone.\<close>

definition rest :: "machine \<Rightarrow> ustr set \<times> ustr list \<times> ustr list" where
  "rest m = (databases m, kafka_topics m, kafka_groups m)"

lemma rest_on_process [simp]: "rest (on_process i f m) = rest m"
  by (simp add: rest_def processes_keep_rest)

lemma rest_await: "await t i m = (r, m') \<Longrightarrow> rest m' = rest m"
  using processes_keep_rest(4-6) [of t i m] by (simp add: rest_def)

lemma rest_logs [simp]: "rest (m\<lparr>open_logs := ls\<rparr>) = rest m"
  by (simp add: rest_def)

lemma rest_await_or_kill [simp]: "rest (await_or_kill i m) = rest m"
  by (auto simp: await_or_kill_def Let_def dest: rest_await split: prod.split option.split)



text \<open>The logs that are open, and how many processes there are.\<close>

definition logs_of :: "machine \<Rightarrow> nat set \<times> nat" where
  "logs_of m = (set (open_logs m), length (processes m))"

lemma logs_on_process [simp]: "logs_of (on_process i f m) = logs_of m"
  by (simp add: logs_of_def on_process_def)













definition polite :: process where "polite = \<lparr>killed = False, due = None, on_term = Some (0, 5)\<rparr>"
definition doomed :: process where "doomed = \<lparr>killed = False, due = Some (17, 3), on_term = Some (0, 5)\<rparr>"

definition sample_machine :: machine where
  "sample_machine = \<lparr>clock = 0, processes = [], open_logs = [], databases = {ascii ''wikistream''},
     kafka_topics = [ascii ''wiki.raw''], kafka_groups = [ascii ''cleaner'']\<rparr>"

definition sample_box :: box where
  "sample_box = new_box (ascii ''itest'') (ascii ''0a1b2c3d'') True"



text \<open>
  A process started under the name of one that still runs takes its place in \<open>procs\<close>; the
  first is then tracked by nobody and outlives the sandbox.
\<close>

lemma reused_name_leaks:
  "let (b, m) = fold box_step [Start (ascii ''a.py'') None polite, Start (ascii ''a.py'') None polite] (sample_box, sample_machine);
       m2 = close_box (\<lambda>_. False, \<lambda>_. False) b m
   in map (poll (clock m2)) (processes m2) = [None, Some 0]"
  by code_simp

text \<open>What \<open>log_text\<close> reads for the name \<open>start\<close> returned is the log of that process.\<close>

lemma log_text_reads_log:
  assumes "start script given p b m = (name, b', m')" and "map_of (procs b') name = Some e"
    and "name = script \<longleftrightarrow> startswith (rev name) (rev (ascii ''.py''))"
  shows "log_text files name = (case files (log_file e) of None \<Rightarrow> [] | Some s \<Rightarrow> s)"
  using assms by (auto simp: start_def log_text_def Let_def dict_simps split: option.splits if_splits)

lemma path_stem_examples:
  "path_stem (ascii ''processors/cleaner.py'') = ascii ''cleaner''" "path_stem (ascii ''ingestor-1'') = ascii ''ingestor-1''"
  "path_stem (ascii ''a/.hidden'') = ascii ''.hidden''" "path_stem (ascii ''b.'') = ascii ''b.''"
  by code_simp+

end
