(* ===== verification/Identity.thy ===== *)
theory Identity
  imports Config
begin

text \<open>
  Who a process is: what it takes from its environment and command line, the groups it joins and
  the transactional id it writes under (\<^verbatim>\<open>common/config.py\<close> and the heads of the modules
  under \<^verbatim>\<open>processors/\<close>, \<^verbatim>\<open>sinks/\<close> and \<^verbatim>\<open>web/\<close>).
\<close>

type_synonym environ = "(ustr, ustr) pydict"

definition getenv :: "environ \<Rightarrow> ustr \<Rightarrow> ustr \<Rightarrow> ustr" where
  "getenv env key fallback = get_default env key fallback"

definition NAMESPACE :: "environ \<Rightarrow> ustr" where
  "NAMESPACE env = getenv env (ascii ''PIPELINE_NAMESPACE'') DEFAULT_NAMESPACE"

definition ASSIGNOR :: "environ \<Rightarrow> ustr" where
  "ASSIGNOR env = getenv env (ascii ''KAFKA_ASSIGNOR'') (ascii ''cooperative-sticky'')"

definition COOPERATIVE :: "environ \<Rightarrow> bool" where
  "COOPERATIVE env = startswith (ASSIGNOR env) (ascii ''cooperative'')"

text \<open>The processors that write in transactions, with \<open>main\<close>'s choice of the instance.\<close>

datatype processor = CleanerProcess | EditWarProcess | PageStateProcess

definition instance_of :: "processor \<Rightarrow> environ \<Rightarrow> ustr list \<Rightarrow> ustr" where
  "instance_of p env argv =
     (case argv of
        _ # given # _ \<Rightarrow> given
      | _ \<Rightarrow> getenv env (case p of
            CleanerProcess \<Rightarrow> ascii ''CLEANER_INSTANCE''
          | EditWarProcess \<Rightarrow> ascii ''EDIT_WAR_INSTANCE''
          | PageStateProcess \<Rightarrow> ascii ''PAGE_STATE_INSTANCE'') (ascii ''1''))"

fun transactional_id :: "processor \<Rightarrow> ustr \<Rightarrow> ustr \<Rightarrow> ustr" where
  "transactional_id CleanerProcess ns i = scoped ns (ascii ''cleaner-'' @ i)"
| "transactional_id EditWarProcess ns i = scoped ns (ascii ''edit-war-'' @ i)"
| "transactional_id PageStateProcess ns i = scoped ns (ascii ''page-state-'' @ i)"

text \<open>
  The group of every consumer of the pipeline: those that share out their partitions, and the
  readers that only look back.
\<close>

datatype consumer = Cleaning | PageStates | EditWars | Counting | Storing | StoringAlerts
  | CleanerWarmup | EditWarWarmup | PageStateLoader | DashboardPages | DashboardDlq

fun group_id :: "consumer \<Rightarrow> ustr \<Rightarrow> ustr" where
  "group_id Cleaning ns = scoped ns (ascii ''cleaner'')"
| "group_id PageStates ns = scoped ns (ascii ''page-state'')"
| "group_id EditWars ns = scoped ns (ascii ''edit-wars'')"
| "group_id Counting ns = scoped ns (ascii ''trending'')"
| "group_id Storing ns = scoped ns (ascii ''storage'')"
| "group_id StoringAlerts ns = scoped ns (ascii ''alerts-storage'')"
| "group_id CleanerWarmup ns = scoped ns (ascii ''cleaner-warmup'')"
| "group_id EditWarWarmup ns = scoped ns (ascii ''edit-war-warmup'')"
| "group_id PageStateLoader ns = scoped ns (ascii ''page-state-loader'')"
| "group_id DashboardPages ns = scoped ns (ascii ''dashboard-pages'')"
| "group_id DashboardDlq ns = scoped ns (ascii ''dashboard-dlq-count'')"

subsection \<open>Nobody is taken for somebody else\<close>

lemma scoped_eq:
  assumes "undotted ns" and "undotted ns'" and "undotted a" and "undotted b"
  shows "scoped ns a = scoped ns' b \<longleftrightarrow> ns = ns' \<and> a = b"
proof -
  have "a \<noteq> s @ 46 # x" "b \<noteq> s @ 46 # x" for s x using assms(3,4) by (auto simp: undotted_def)
  then show ?thesis using dotted_eq [OF assms(1,2)] by (auto simp: scoped_def)
qed

text \<open>
  Two producers write under one transactional id only if they are the same processor with the same
  instance in the same namespace, so only such a pair fences each other.
\<close>

lemma transactional_ids_differ:
  assumes "undotted ns" and "undotted ns'" and "undotted i" and "undotted j"
  shows "transactional_id p ns i = transactional_id q ns' j \<longleftrightarrow> p = q \<and> ns = ns' \<and> i = j"
proof -
  let ?pre = "\<lambda>p. case p of CleanerProcess \<Rightarrow> ascii ''cleaner-'' | EditWarProcess \<Rightarrow> ascii ''edit-war-''
      | PageStateProcess \<Rightarrow> ascii ''page-state-''"
  have pre: "transactional_id p ns i = scoped ns (?pre p @ i)" for p ns i by (cases p) simp_all
  have "undotted (?pre p @ i)" if "undotted i" for p i using that by (cases p) (simp_all add: undotted_def ascii_def)
  moreover have "?pre p @ i = ?pre q @ j \<longleftrightarrow> p = q \<and> i = j" by (cases p; cases q) (simp_all add: ascii_def)
  ultimately show ?thesis unfolding pre using scoped_eq assms by metis
qed

text \<open>Consumers share a group, and with it the partitions, only within their kind and namespace.\<close>

lemma group_ids_differ:
  assumes "undotted ns" and "undotted ns'"
  shows "group_id c ns = group_id d ns' \<longleftrightarrow> c = d \<and> ns = ns'"
proof -
  have "\<exists>a. group_id c ns = scoped ns a \<and> undotted a \<and> group_id c DEFAULT_NAMESPACE = a" for c ns
    by (cases c) (simp_all add: undotted_def ascii_def scoped_def)
  moreover have "group_id c DEFAULT_NAMESPACE = group_id d DEFAULT_NAMESPACE \<longleftrightarrow> c = d"
    by (cases c; cases d) (simp_all add: scoped_def)
  ultimately show ?thesis using scoped_eq [OF assms] by metis
qed

end
