(* ===== verification/Spec2Isabelle.thy ===== *)
theory Spec2Isabelle
  imports EndToEnd TrendingLoop SinkLoop TxnLoop Cleaner TrendingGroup SinksDb PageLatest EditWar Sink Ingestor Membership PageStore Config Admin Queries Dashboard Scan Balance Recording Replay PyNumber PySplit Rebalance Server Measure Faults Reconnect Sandbox Identity
begin

text \<open>
  A pipeline over the stream of Wikimedia edits, in Python, on Kafka and PostgreSQL. This
  development models its code and proves what makes it correct. Every definition is a translation of
  code under \<^verbatim>\<open>src/\<close>; the names are those of the code where HOL allows them.

  \<^bold>\<open>The program.\<close> The ingestor (\<^verbatim>\<open>ingestor/\<close>) writes the events of a server-sent
  event stream to the topic \<^verbatim>\<open>wiki.raw\<close> and keeps a checkpoint file. The cleaner
  (\<^verbatim>\<open>processors/cleaner.py\<close>) validates and deduplicates them into \<^verbatim>\<open>wiki.clean\<close>
  and sends what it cannot use to \<^verbatim>\<open>wiki.dlq\<close>, in Kafka transactions
  (\<^verbatim>\<open>processors/transactional.py\<close>). From \<^verbatim>\<open>wiki.clean\<close> the sinks
  (\<^verbatim>\<open>sinks/\<close>) fill the table of edits, the trending processor counts edits per page and
  minute into another table, the edit war processor raises alerts, which a sink stores, and the page state keeps the
  compacted topic \<^verbatim>\<open>wiki.page-latest\<close>. The dashboard (\<^verbatim>\<open>web/\<close>) reads the
  tables, the compacted topic and the state of the cluster. Scripts under \<^verbatim>\<open>admin/\<close> and
  \<^verbatim>\<open>scripts/\<close> set up the cluster, record and replay samples and measure the pipeline.

  \<^bold>\<open>The theories.\<close>
  \<^item> The language: \<^theory_text>\<open>Prelude\<close> (strings, dictionaries, exceptions as values),
    \<^theory_text>\<open>PyText\<close>, \<^theory_text>\<open>PySplit\<close>, \<^theory_text>\<open>PyJson\<close>,
    \<^theory_text>\<open>PyTime\<close> and \<^theory_text>\<open>PyNumber\<close>: what the program uses of Python's strings, UTF-8, JSON,
    dates and rounding, with round trips of encoding and decoding.
  \<^item> Shared code: \<^theory_text>\<open>Kafka\<close> (what the client hands over),
    \<^theory_text>\<open>Models\<close> and \<^theory_text>\<open>Revert\<close> (\<^verbatim>\<open>common/models.py\<close>),
    \<^theory_text>\<open>IntLimits\<close>, \<^theory_text>\<open>Dlq\<close>, \<^theory_text>\<open>Config\<close>
    (\<^verbatim>\<open>common/config.py\<close>) with \<^theory_text>\<open>Sandbox\<close>
    (\<^verbatim>\<open>common/sandbox.py\<close>, the processes and what is left of them) and \<^theory_text>\<open>Identity\<close> (instances, groups,
    transactional ids), and
    \<^theory_text>\<open>Membership\<close> (\<^verbatim>\<open>common/topics.py\<close>,
    \<^verbatim>\<open>common/offsets.py\<close>, \<^verbatim>\<open>common/metrics.py\<close>).
  \<^item> The ingestor: \<^theory_text>\<open>Sse\<close>, \<^theory_text>\<open>Checkpoint\<close>, \<^theory_text>\<open>Ingestor\<close>.
  \<^item> The processors: \<^theory_text>\<open>Dedup\<close>, \<^theory_text>\<open>Transform\<close>,
    \<^theory_text>\<open>Warmup\<close>, \<^theory_text>\<open>Cleaner\<close>; \<^theory_text>\<open>Transactional\<close> and
    \<^theory_text>\<open>TxnLoop\<close>; \<^theory_text>\<open>EditWarDetector\<close> and \<^theory_text>\<open>EditWar\<close>;
    \<^theory_text>\<open>PageLatest\<close>; \<^theory_text>\<open>Windows\<close>, \<^theory_text>\<open>Trending\<close>,
    \<^theory_text>\<open>TrendingGroup\<close> and \<^theory_text>\<open>TrendingLoop\<close>.
  \<^item> The sinks: \<^theory_text>\<open>SinksDb\<close>, \<^theory_text>\<open>Reconnect\<close>, \<^theory_text>\<open>Sink\<close>, \<^theory_text>\<open>SinkLoop\<close>; and
    \<^theory_text>\<open>EndToEnd\<close>, where the groups of cleaners and of sinks are put together.
  \<^item> The dashboard: \<^theory_text>\<open>PageStore\<close>, \<^theory_text>\<open>Queries\<close>,
    \<^theory_text>\<open>Dashboard\<close> (cache and cluster), \<^theory_text>\<open>Server\<close> (the routes over them).
  \<^item> The scripts: \<^theory_text>\<open>Admin\<close>, \<^theory_text>\<open>Recording\<close>, \<^theory_text>\<open>Replay\<close>,
    \<^theory_text>\<open>Scan\<close>, \<^theory_text>\<open>Balance\<close>, \<^theory_text>\<open>Measure\<close>,
    \<^theory_text>\<open>Rebalance\<close>, \<^theory_text>\<open>Faults\<close>.

  \<^bold>\<open>How the code is modelled.\<close> An object is a record and a method a function on it; a method that
  can raise returns a sum whose left value is the exception. A process in Kafka is a member of a
  group: a step relation whose steps are polling a record, the operations of the code, a rebalance
  and a crash, also between two effects that belong together (rows and offsets, output and commit).
  Main loops (\<^theory_text>\<open>Loop\<close> and the theories named after it) are functions over the list of
  what happens to a process, proved to be runs of the group. What the program does not decide is an
  argument: the answers of the broker, the database and the file system, the clock, Unicode tables,
  SHA-256, the order of rows that compare equal. Python's integers are unbounded, as \<open>int\<close> is, so no
  arithmetic wraps; where a limit exists (digits in a numeral, the range of dates, the columns of a table) it is
  written out. Times and rates that the code keeps in floating point are exact numbers, except in
  \<^theory_text>\<open>PyTime\<close>, where the two roundings of a timestamp are modelled.

  \<^bold>\<open>What is shown.\<close> Each theory has its invariants and the behaviour of each operation as lemmas; a
  property is marked with its id. The chain is this. The parser of the stream yields exactly the
  frames of the protocol; the checkpoint survives a crash at any write and never passes an event
  that Kafka has not confirmed. The cleaner accounts for every message, the dedup cache refuses
  exactly the copies it holds within its window and memory, and is rebuilt on a new owner without
  refusing anything that was not committed. The transactional loop takes every record into account exactly
  once, for any handler, unless a process goes on after an aborted transaction or loses a partition
  within a batch, and two theorems show what those two do; the page topic holds the newest update and the guard is rebuilt by a
  restart; alerts are raised for exactly the edit wars; counts per minute are exact below the
  committed offset and are recovered by a restart, while no event is late and no partition's open
  windows reach the cap. A sink stores each event once, whatever
  connection is lost and whenever a process dies, and the two groups together store every valid
  edit, under the conditions on the cleaners just named. The dashboard's table of pages is the one
  that compaction keeps; its answers are those of the queries on what each of their statements sees,
  which is never older than the cache's time and the time it took to compute the answer; and only
  built files are served. A sandbox that is closed leaves what it could not remove and nothing else. What
  is recorded can be replayed, a replay keeps its schedule over all passes, and the reports
  (duplicates, latency, pauses in a rebalance) say what the records say. Where the code falls
  short of what it says, a theorem shows by how much.

  \<^bold>\<open>Interfaces.\<close> The locales \<open>id_cache\<close> and \<open>window_cache\<close> (what the cleaner relies on in a
  cache), \<open>row_store\<close> (a table that absorbs a row it has seen), \<open>repeatable_write\<close> (a write that may be
  tried again after a lost connection), \<open>sink_writer\<close> and
  \<open>key_sink\<close> (what a sink asks of its write) are each interpreted on the code's own definitions.

  \<^bold>\<open>Bounds and fuel.\<close> Loops over input are recursion over the list of what they read; a list that ends
  means a loop still waiting, so a statement that a loop ends gives the list that ends it. Numerals, lines and
  batches recurse on a measure. The loop over lost connections may
  never end and is a partial function; it is proved to end when some attempt is answered. The one fuel is that of \<open>read_feed\<close>, which asks for page after page of the
  edit feed: more than the number of rows is enough, and it then returns.

  \<^bold>\<open>Not modelled.\<close> Construction of clients, command lines, log lines and printing; the environment
  lookups and database connections of \<^verbatim>\<open>common/sandbox.py\<close>; the HTTP client of the
  ingestor and what FastAPI does before a route is called; the scenarios of
  \<^verbatim>\<open>scripts/failure_tests.py\<close>, which start processes; \<^verbatim>\<open>admin/describe_cluster.py\<close>,
  which prints what the admin client returns; the recursion limit and memory of the interpreter; collations of the
  database other than the order of code points.
\<close>

end
